(* ===== verification/Prelude.thy ===== *)
theory Prelude
  imports Main "HOL-Library.Word" "HOL-Library.Signed_Division" "HOL-Library.Monad_Syntax"
begin

text \<open>
  The vocabulary the components share: the error codes of \<open>src/lib/ob_errno.h\<close> that the modelled
  code returns, machine integers, and a byte memory.

  A C buffer argument (\<open>char *buf\<close>) is a \<open>cbuf\<close>: \<open>None\<close> for the null pointer, \<open>Some m\<close> for a
  pointer to the first byte of a memory object whose whole content is the byte list \<open>m\<close>.  The
  declared length \<open>buf_len\<close> and the offset \<open>pos\<close> are separate arguments, as in the code, so a
  length that is larger than the object is expressible.

  Every operation that touches memory is in the option monad.  \<open>None\<close> is undefined behaviour
  of C++: an access outside the object, a shift by the width of the type or more, or an
  overflowing signed negation (the repository is compiled without \<open>-fwrapv\<close>).  A defined
  outcome, success or error code, is \<open>Some\<close>.
\<close>

unbundle bit_operations_syntax

section \<open>Error codes and machine integers\<close>

datatype ob_err =
    OB_SUCCESS
  | OB_INVALID_ARGUMENT
  | OB_ERR_UNEXPECTED
  | OB_SIZE_OVERFLOW
  | OB_BUF_NOT_ENOUGH
  | OB_DESERIALIZE_ERROR
  | OB_INVALID_DATA
  | OB_ALLOCATE_MEMORY_FAILED
  | OB_ERROR
  | OB_INIT_TWICE
  | OB_NOT_INIT
  | OB_HASH_EXIST
  | OB_HASH_NOT_EXIST
  | OB_HASH_FULL

type_synonym u8 = "8 word"
type_synonym u16 = "16 word"
type_synonym u32 = "32 word"
type_synonym u64 = "64 word"

text \<open>Signed integers are the same words; what reads them decides the sign (\<open>sint\<close>, \<open>scast\<close>,
  \<open>signed_drop_bit\<close>).  The synonyms below keep the source's declarations visible.\<close>

type_synonym i8 = "8 word"
type_synonym i16 = "16 word"
type_synonym i32 = "32 word"
type_synonym i64 = "64 word"

text \<open>The address of an object that the code links to by pointer.\<close>

type_synonym addr = nat

type_synonym mem = "u8 list"
type_synonym cbuf = "mem option"

text \<open>What an encoder and a decoder leave behind: the returned code, the buffer (encoder) or the
  variable behind the output pointer (decoder), and the updated position.\<close>

type_synonym enc_res = "(ob_err \<times> cbuf \<times> int) option"
type_synonym 'v dec_res = "(ob_err \<times> int \<times> 'v) option"

text \<open>Division truncates towards zero; on what is not negative it is the usual one.\<close>

lemma pos_sdiv: "0 \<le> (a :: int) \<Longrightarrow> 0 < b \<Longrightarrow> a sdiv b = a div b"
  by (cases "a = 0") (simp_all add: signed_divide_int_def sgn_if)

lemma pos_smod: "0 \<le> (a :: int) \<Longrightarrow> 0 < b \<Longrightarrow> a smod b = a mod b"
  by (cases "a = 0") (simp_all add: signed_modulo_int_def sgn_if)

section \<open>Automation collections\<close>

named_theorems mem_simps \<open>conditional rewrites on memories\<close>

section \<open>Byte memory\<close>

definition rd :: "mem \<Rightarrow> int \<Rightarrow> u8 option" where
  "rd m i = (if 0 \<le> i \<and> i < int (length m) then Some (m ! nat i) else None)"

definition wr :: "mem \<Rightarrow> int \<Rightarrow> u8 \<Rightarrow> mem option" where
  "wr m i b = (if 0 \<le> i \<and> i < int (length m) then Some (m[nat i := b]) else None)"

text \<open>\<open>put m p bs\<close> is the memory \<open>m\<close> with the bytes \<open>bs\<close> written from offset \<open>p\<close> on.\<close>

definition put :: "mem \<Rightarrow> int \<Rightarrow> u8 list \<Rightarrow> mem" where
  "put m p bs = take (nat p) m @ bs @ drop (nat p + length bs) m"

text \<open>\<open>memcpy\<close> into and out of the object: the whole range has to be inside.\<close>

definition wr_bytes :: "mem \<Rightarrow> int \<Rightarrow> u8 list \<Rightarrow> mem option" where
  "wr_bytes m p bs =
     (if 0 \<le> p \<and> p + int (length bs) \<le> int (length m) then Some (put m p bs) else None)"

definition rd_bytes :: "mem \<Rightarrow> int \<Rightarrow> int \<Rightarrow> u8 list option" where
  "rd_bytes m p n =
     (if 0 \<le> p \<and> 0 \<le> n \<and> p + n \<le> int (length m) then Some (take (nat n) (drop (nat p) m))
      else None)"

text \<open>\<open>holds m p bs\<close>: the bytes \<open>bs\<close> are stored in \<open>m\<close> from offset \<open>p\<close> on.\<close>

fun holds :: "mem \<Rightarrow> int \<Rightarrow> u8 list \<Rightarrow> bool" where
  "holds m p [] = (0 \<le> p \<and> p \<le> int (length m))"
| "holds m p (b # bs) = (rd m p = Some b \<and> holds m (p + 1) bs)"

lemma length_put [simp]:
  "0 \<le> p \<Longrightarrow> p + int (length bs) \<le> int (length m) \<Longrightarrow> length (put m p bs) = length m"
  by (auto simp: put_def)

lemma put_Nil [simp]: "put m p [] = m"
  by (simp add: put_def)

lemma wr_put1 [mem_simps]:
  "0 \<le> p \<Longrightarrow> p < int (length m) \<Longrightarrow> wr m p b = Some (put m p [b])"
  by (simp add: wr_def put_def upd_conv_take_nth_drop)

lemma put_put [mem_simps]:
  assumes "0 \<le> p" and "q = p + int (length bs)"
    and "p + int (length bs) + int (length cs) \<le> int (length m)"
  shows "put (put m p bs) q cs = put m p (bs @ cs)"
proof -
  from assms have q: "nat q = nat p + length bs" by simp
  have "take (nat p + length bs) (take (nat p) m @ bs @ drop (nat p + length bs) m)
      = take (nat p) m @ bs"
    using assms by simp
  moreover have "drop (nat p + length bs + length cs)
      (take (nat p) m @ bs @ drop (nat p + length bs) m) = drop (nat p + length bs + length cs) m"
    using assms by (simp add: add.commute add.left_commute)
  ultimately show ?thesis
    by (simp add: put_def q add.assoc)
qed

lemma wr_put [mem_simps]:
  assumes "0 \<le> p" and "q = p + int (length bs)" and "q < int (length m)"
  shows "wr (put m p bs) q b = Some (put m p (bs @ [b]))"
  using assms by (simp add: wr_put1 put_put)

lemma wr_bytes_put [mem_simps]:
  assumes "0 \<le> p" and "q = p + int (length bs)" and "q + int (length cs) \<le> int (length m)"
  shows "wr_bytes (put m p bs) q cs = Some (put m p (bs @ cs))"
  using assms by (simp add: wr_bytes_def put_put)

lemma rd_put_in:
  assumes "0 \<le> p" and "p + int (length bs) \<le> int (length m)"
    and "p \<le> i" and "i < p + int (length bs)"
  shows "rd (put m p bs) i = Some (bs ! nat (i - p))"
proof -
  from assms have "nat i - nat p = nat (i - p)" and "nat i - nat p < length bs"
    and "\<not> nat i < nat p" and "nat p \<le> length m" by auto
  with assms show ?thesis
    by (simp add: rd_def) (simp add: put_def nth_append)
qed

lemma rd_put_out:
  assumes "0 \<le> p" and "p + int (length bs) \<le> int (length m)"
    and "i < p \<or> p + int (length bs) \<le> i"
  shows "rd (put m p bs) i = rd m i"
proof (cases "i < p")
  case True
  with assms show ?thesis
    by (auto simp: rd_def put_def nth_append nat_less_iff)
next
  case False
  with assms have i: "p + int (length bs) \<le> i" by simp
  show ?thesis
  proof (cases "i < int (length m)")
    case True
    with i assms have "\<not> nat i < nat p" "\<not> nat i - nat p < length bs" "nat p \<le> length m"
      "nat p + length bs + (nat i - nat p - length bs) = nat i" by auto
    with True i assms show ?thesis
      by (simp add: rd_def) (simp add: put_def nth_append)
  next
    case False
    with assms show ?thesis by (simp add: rd_def)
  qed
qed

lemma holds_bounds: "holds m p bs \<Longrightarrow> 0 \<le> p \<and> p + int (length bs) \<le> int (length m)"
  by (induction m p bs rule: holds.induct) (auto simp: rd_def split: if_splits)

lemma holds_append: "holds m p (bs @ cs) \<longleftrightarrow> holds m p bs \<and> holds m (p + int (length bs)) cs"
  by (induction m p bs rule: holds.induct)
    (auto simp: algebra_simps dest: holds_bounds)

lemma holds_iff_rd:
  "holds m p bs \<longleftrightarrow> 0 \<le> p \<and> p + int (length bs) \<le> int (length m)
     \<and> (\<forall>k < length bs. rd m (p + int k) = Some (bs ! k))"
proof (induction m p bs rule: holds.induct)
  case (1 m p)
  show ?case by simp
next
  case (2 m p b bs)
  show ?case
    unfolding holds.simps "2.IH"
    by (auto simp: less_Suc_eq_0_disj algebra_simps nth_Cons split: nat.splits
        simp: rd_def intro!: exI split: if_splits)
qed

lemma holds_put:
  "0 \<le> p \<Longrightarrow> p + int (length bs) \<le> int (length m) \<Longrightarrow> holds (put m p bs) p bs"
  by (simp add: holds_iff_rd rd_put_in)

lemma holds_put_frame:
  assumes "holds m q cs" and "0 \<le> p" and "p + int (length bs) \<le> int (length m)"
    and "q + int (length cs) \<le> p \<or> p + int (length bs) \<le> q"
  shows "holds (put m p bs) q cs"
  using assms by (auto simp: holds_iff_rd rd_put_out)

lemma rd_bytes_holds:
  assumes "holds m p bs"
  shows "rd_bytes m p (int (length bs)) = Some bs"
proof -
  from assms have *: "0 \<le> p" "p + int (length bs) \<le> int (length m)"
    "\<forall>k < length bs. rd m (p + int k) = Some (bs ! k)" by (simp_all add: holds_iff_rd)
  have "take (length bs) (drop (nat p) m) = bs"
    using * by (intro nth_equalityI) (auto simp: rd_def nat_add_distrib split: if_splits)
  with * show ?thesis by (simp add: rd_bytes_def)
qed

section \<open>Zero-terminated strings\<close>

text \<open>\<open>strlen\<close>: undefined on an object without a zero byte.\<close>

fun c_strlen :: "mem \<Rightarrow> int option" where
  "c_strlen [] = None"
| "c_strlen (b # bs) = (if b = 0 then Some 0 else map_option (\<lambda>n. n + 1) (c_strlen bs))"

lemma c_strlen_append: "0 \<notin> set bs \<Longrightarrow> c_strlen (bs @ 0 # rest) = Some (int (length bs))"
  by (induction bs) auto

lemma c_strlen_bound: "c_strlen m = Some n \<Longrightarrow> 0 \<le> n \<and> n < int (length m)"
  by (induction m arbitrary: n) (auto split: if_splits)

section \<open>Signed negation\<close>

text \<open>\<open>-x\<close> overflows for the least value of the type.\<close>

definition neg_i64 :: "i64 \<Rightarrow> i64 option" where
  "neg_i64 x = (if x = 0x8000000000000000 then None else Some (- x))"

section \<open>Bytes of words\<close>

text \<open>\<open>byte_at k v\<close> is byte \<open>k\<close> of the word \<open>v\<close>, counted from the least significant one.\<close>

definition byte_at :: "nat \<Rightarrow> 'a::len word \<Rightarrow> u8" where
  "byte_at k v = ucast (drop_bit (8 * k) v)"

text \<open>The \<open>n\<close> low bytes of a word, most or least significant byte first.\<close>

definition wire_be :: "nat \<Rightarrow> 'a::len word \<Rightarrow> u8 list" where
  "wire_be n v = map (\<lambda>k. byte_at k v) (rev [0..<n])"

definition wire_le :: "nat \<Rightarrow> 'a::len word \<Rightarrow> u8 list" where
  "wire_le n v = map (\<lambda>k. byte_at k v) [0..<n]"

lemma length_wire [simp]: "length (wire_be n v) = n" "length (wire_le n v) = n"
  by (simp_all add: wire_be_def wire_le_def)

lemma wire_be_explicit:
  "wire_be 2 v = [byte_at 1 v, byte_at 0 v]"
  "wire_be 4 v = [byte_at 3 v, byte_at 2 v, byte_at 1 v, byte_at 0 v]"
  "wire_be 8 v = [byte_at 7 v, byte_at 6 v, byte_at 5 v, byte_at 4 v,
                  byte_at 3 v, byte_at 2 v, byte_at 1 v, byte_at 0 v]"
  by (simp_all add: wire_be_def upt_rec numeral_eq_Suc)

lemma and_255_take_bit: "(x :: 'a::len word) AND 255 = take_bit 8 x"
  by (simp add: take_bit_eq_mask mask_eq_exp_minus_1)

lemma and_127_take_bit: "(x :: 'a::len word) AND 127 = take_bit 7 x"
  by (simp add: take_bit_eq_mask mask_eq_exp_minus_1)

text \<open>A signed \<open>char\<close> promoted to a wider type and masked with \<open>0xff\<close> is the byte itself.\<close>

lemma take_bit_8_scast:
  assumes "8 \<le> LENGTH('a)"
  shows "take_bit 8 (scast (b :: u8) :: 'a::len word) = ucast b"
proof (rule bit_word_eqI)
  fix n assume "n < LENGTH('a)"
  show "bit (take_bit 8 (scast b :: 'a word)) n = bit (ucast b :: 'a word) n"
  proof (cases "n < 7 \<or> n = 7")
    case True
    then show ?thesis using assms by (auto simp: bit_simps min_def)
  next
    case False
    then show ?thesis using assms by (auto simp: bit_simps dest: bit_imp_le_length)
  qed
qed

text \<open>Truncation to a byte reads byte 0; masking first changes nothing, and an arithmetic shift
  by whole bytes selects a higher one.\<close>

lemma byte_at_low: "(ucast x :: u8) = byte_at 0 x"
  by (simp add: byte_at_def)

lemma byte_at_take_bit_8: "byte_at 0 (take_bit 8 (x :: 'a::len word)) = byte_at 0 x"
  unfolding byte_at_def by (rule bit_word_eqI) (auto simp: bit_simps)

lemma byte_at_signed_drop_bit:
  "8 * Suc k \<le> LENGTH('a) \<Longrightarrow>
     byte_at 0 (signed_drop_bit (8 * k) (x :: 'a::len word)) = byte_at k x"
  unfolding byte_at_def by (rule bit_word_eqI) (auto simp: bit_simps min_def)

lemma byte_at_drop_bit: "byte_at 0 (drop_bit (8 * k) (x :: 'a::len word)) = byte_at k x"
  unfolding byte_at_def by (rule bit_word_eqI) (auto simp: bit_simps)

lemmas byte_sdrop =
  byte_at_signed_drop_bit [where k = 1, simplified]
  byte_at_signed_drop_bit [where k = 2, simplified]
  byte_at_signed_drop_bit [where k = 3, simplified]
  byte_at_signed_drop_bit [where k = 4, simplified]
  byte_at_signed_drop_bit [where k = 5, simplified]
  byte_at_signed_drop_bit [where k = 6, simplified]
  byte_at_signed_drop_bit [where k = 7, simplified]

text \<open>The bytes of a 16-bit value survive its promotion to \<open>int\<close>.\<close>

lemma byte_at_scast: "k < 2 \<Longrightarrow> byte_at k (scast (v :: u16) :: u32) = byte_at k v"
  unfolding byte_at_def
  by (rule bit_word_eqI) (auto simp: bit_simps min_def numeral_eq_Suc less_Suc_eq)

lemmas byte_enc =
  and_255_take_bit byte_at_low byte_at_take_bit_8 byte_sdrop byte_at_scast wire_be_explicit

text \<open>Putting one more byte in front of the low \<open>k\<close> bytes.\<close>

lemma byte_join:
  fixes v :: "'a::len word"
  shows "take_bit (8 * k) v OR push_bit (8 * k) (ucast (byte_at k v)) = take_bit (8 * Suc k) v"
  unfolding byte_at_def
  by (rule bit_word_eqI) (auto simp: bit_simps dest: bit_imp_le_length)

text \<open>The shapes in which the decoders of this code base put a word together again.\<close>

lemma join_16: "push_bit 8 (ucast (byte_at 1 v)) OR ucast (byte_at 0 v) = (v :: u16)"
  using byte_join [of 1 v] byte_join [of 0 v] by (simp add: take_bit_word_eq_self ac_simps)

lemma join_32:
  "push_bit 24 (ucast (byte_at 3 v)) OR push_bit 16 (ucast (byte_at 2 v))
     OR push_bit 8 (ucast (byte_at 1 v)) OR ucast (byte_at 0 v) = (v :: u32)"
  using byte_join [of 3 v] byte_join [of 2 v] byte_join [of 1 v] byte_join [of 0 v]
  by (simp add: take_bit_word_eq_self ac_simps)

lemma join_64:
  "push_bit 56 (ucast (byte_at 7 v)) OR push_bit 48 (ucast (byte_at 6 v))
     OR push_bit 40 (ucast (byte_at 5 v)) OR push_bit 32 (ucast (byte_at 4 v))
     OR push_bit 24 (ucast (byte_at 3 v)) OR push_bit 16 (ucast (byte_at 2 v))
     OR push_bit 8 (ucast (byte_at 1 v)) OR ucast (byte_at 0 v) = (v :: u64)"
  using byte_join [of 7 v] byte_join [of 6 v] byte_join [of 5 v] byte_join [of 4 v]
    byte_join [of 3 v] byte_join [of 2 v] byte_join [of 1 v] byte_join [of 0 v]
  by (simp add: take_bit_word_eq_self ac_simps)

end
