(* ===== verification/Codec.thy ===== *)
theory Codec
  imports Prelude
begin

text \<open>
  The interface between the code that writes a value into a buffer, the code that reads it back,
  and every client that strings such operations together.  \<open>wire v\<close> is the byte string an
  encoder promises for \<open>v\<close>, \<open>ok\<close> the values the promise covers.
\<close>

locale codec =
  fixes enc :: "cbuf \<Rightarrow> int \<Rightarrow> int \<Rightarrow> 'v \<Rightarrow> enc_res"
    and dec :: "cbuf \<Rightarrow> int \<Rightarrow> int \<Rightarrow> 'v \<Rightarrow> 'v dec_res"
    and wire :: "'v \<Rightarrow> u8 list"
    and ok :: "'v \<Rightarrow> bool"
  assumes enc_fits:
    "ok v \<Longrightarrow> 0 \<le> pos \<Longrightarrow> pos + int (length (wire v)) \<le> buf_len \<Longrightarrow> buf_len \<le> int (length m) \<Longrightarrow>
       enc (Some m) buf_len pos v
         = Some (OB_SUCCESS, Some (put m pos (wire v)), pos + int (length (wire v)))"
  and enc_short:
    "ok v \<Longrightarrow> 0 \<le> pos \<Longrightarrow> buf_len < pos + int (length (wire v)) \<Longrightarrow> buf_len \<le> int (length m) \<Longrightarrow>
       \<exists>e b p. enc (Some m) buf_len pos v = Some (e, b, p) \<and> e \<noteq> OB_SUCCESS"
  and dec_wire:
    "ok v \<Longrightarrow> holds m pos (wire v) \<Longrightarrow> pos + int (length (wire v)) \<le> data_len \<Longrightarrow>
       data_len \<le> int (length m) \<Longrightarrow>
       dec (Some m) data_len pos v0 = Some (OB_SUCCESS, pos + int (length (wire v)), v)"
begin

lemma roundtrip:
  assumes "ok v" and "0 \<le> pos" and "pos + int (length (wire v)) \<le> buf_len"
    and "buf_len \<le> int (length m)"
  shows "\<exists>m' p. enc (Some m) buf_len pos v = Some (OB_SUCCESS, Some m', p)
    \<and> dec (Some m') buf_len pos v0 = Some (OB_SUCCESS, p, v)"
  using assms by (simp add: enc_fits dec_wire holds_put)

text \<open>An encoder is defined on every buffer, and succeeds exactly when the value fits.\<close>

lemma enc_success_iff:
  assumes "ok v" and "0 \<le> pos" and "buf_len \<le> int (length m)"
  shows "(\<exists>b p. enc (Some m) buf_len pos v = Some (OB_SUCCESS, b, p))
           \<longleftrightarrow> pos + int (length (wire v)) \<le> buf_len"
  using enc_fits [OF assms(1,2), of buf_len m] enc_short [OF assms(1,2), of buf_len m] assms
  by (cases "pos + int (length (wire v)) \<le> buf_len") auto

lemma enc_defined:
  assumes "ok v" and "0 \<le> pos" and "buf_len \<le> int (length m)"
  shows "enc (Some m) buf_len pos v \<noteq> None"
  using enc_fits [OF assms(1,2), of buf_len m] enc_short [OF assms(1,2), of buf_len m] assms
  by (cases "pos + int (length (wire v)) \<le> buf_len") auto

text \<open>Bytes outside the encoded range keep their value.\<close>

lemma enc_frame:
  assumes "ok v" and "0 \<le> pos" and "buf_len \<le> int (length m)"
    and "enc (Some m) buf_len pos v = Some (OB_SUCCESS, Some m', p)"
    and "i < pos \<or> p \<le> i"
  shows "rd m' i = rd m i"
proof -
  have fits: "pos + int (length (wire v)) \<le> buf_len"
    using enc_success_iff [OF assms(1-3)] assms(4) by blast
  with assms enc_fits [OF assms(1,2) fits assms(3)]
  have "m' = put m pos (wire v)" and "p = pos + int (length (wire v))" by auto
  with assms fits show ?thesis by (simp add: rd_put_out)
qed

text \<open>What was stored at a range that the encoder does not touch can still be decoded.\<close>

lemma dec_after_put:
  assumes "ok v" and "holds m q (wire v)" and "q + int (length (wire v)) \<le> data_len"
    and "data_len \<le> int (length m)" and "0 \<le> p" and "p + int (length bs) \<le> int (length m)"
    and "q + int (length (wire v)) \<le> p \<or> p + int (length bs) \<le> q"
  shows "dec (Some (put m p bs)) data_len q v0 = Some (OB_SUCCESS, q + int (length (wire v)), v)"
  using assms by (intro dec_wire holds_put_frame) simp_all

end

text \<open>A codec whose encoder leaves buffer and position untouched when the value does not fit.\<close>

locale strict_codec = codec +
  assumes enc_reject:
    "ok v \<Longrightarrow> 0 \<le> pos \<Longrightarrow> buf_len < pos + int (length (wire v)) \<Longrightarrow> buf_len \<le> int (length m) \<Longrightarrow>
       enc (Some m) buf_len pos v = Some (OB_SIZE_OVERFLOW, Some m, pos)"
begin

lemma enc_cases:
  assumes "ok v" and "0 \<le> pos" and "buf_len \<le> int (length m)"
  shows "enc (Some m) buf_len pos v =
    (if pos + int (length (wire v)) \<le> buf_len
     then Some (OB_SUCCESS, Some (put m pos (wire v)), pos + int (length (wire v)))
     else Some (OB_SIZE_OVERFLOW, Some m, pos))"
  using assms by (simp add: enc_fits enc_reject)

end

text \<open>A codec whose decoder never leaves the declared data.\<close>

locale bounded_codec = codec +
  assumes dec_defined:
    "0 \<le> pos \<Longrightarrow> data_len \<le> int (length m) \<Longrightarrow> dec (Some m) data_len pos v0 \<noteq> None"

text \<open>Two codecs used one after the other, as every composite format does.\<close>

locale codec_pair = a: codec enc_a dec_a wire_a ok_a + b: codec enc_b dec_b wire_b ok_b
  for enc_a :: "cbuf \<Rightarrow> int \<Rightarrow> int \<Rightarrow> 'a \<Rightarrow> enc_res"
    and dec_a :: "cbuf \<Rightarrow> int \<Rightarrow> int \<Rightarrow> 'a \<Rightarrow> 'a dec_res"
    and wire_a :: "'a \<Rightarrow> u8 list" and ok_a :: "'a \<Rightarrow> bool"
    and enc_b :: "cbuf \<Rightarrow> int \<Rightarrow> int \<Rightarrow> 'b \<Rightarrow> enc_res"
    and dec_b :: "cbuf \<Rightarrow> int \<Rightarrow> int \<Rightarrow> 'b \<Rightarrow> 'b dec_res"
    and wire_b :: "'b \<Rightarrow> u8 list" and ok_b :: "'b \<Rightarrow> bool"
begin

lemma enc_both:
  assumes "ok_a x" and "ok_b y" and "0 \<le> pos"
    and "pos + int (length (wire_a x @ wire_b y)) \<le> buf_len" and "buf_len \<le> int (length m)"
  shows "enc_a (Some m) buf_len pos x
      = Some (OB_SUCCESS, Some (put m pos (wire_a x)), pos + int (length (wire_a x)))"
    and "enc_b (Some (put m pos (wire_a x))) buf_len (pos + int (length (wire_a x))) y
      = Some (OB_SUCCESS, Some (put m pos (wire_a x @ wire_b y)),
              pos + int (length (wire_a x @ wire_b y)))"
  using assms by (simp_all add: a.enc_fits b.enc_fits put_put)

lemma dec_both:
  assumes "ok_a x" and "ok_b y" and "holds m pos (wire_a x @ wire_b y)"
    and "pos + int (length (wire_a x @ wire_b y)) \<le> data_len" and "data_len \<le> int (length m)"
  shows "dec_a (Some m) data_len pos x0 = Some (OB_SUCCESS, pos + int (length (wire_a x)), x)"
    and "dec_b (Some m) data_len (pos + int (length (wire_a x))) y0
      = Some (OB_SUCCESS, pos + int (length (wire_a x @ wire_b y)), y)"
  using assms by (simp_all add: a.dec_wire b.dec_wire holds_append)

end

end
