(* ===== verification/SerialFixed.thy ===== *)
theory SerialFixed
  imports Codec
begin

text \<open>
  The fixed-width part of \<open>src/src/lib/utility/serialization.h\<close>: the bit helpers and the
  big-endian encodings of 8, 16, 32 and 64-bit integers and of \<open>bool\<close>.
\<close>

section \<open>Bit helpers\<close>

definition ser_set_bit :: "i8 \<Rightarrow> nat \<Rightarrow> i8" where
  "ser_set_bit v pos = v OR ucast (push_bit pos (1 :: u32))"

definition ser_clear_bit :: "i8 \<Rightarrow> nat \<Rightarrow> i8" where
  "ser_clear_bit v pos = v AND ucast (NOT (push_bit pos (1 :: u32)))"

definition ser_test_bit :: "i8 \<Rightarrow> nat \<Rightarrow> bool" where
  "ser_test_bit v pos = ((scast v :: u32) AND push_bit pos 1 \<noteq> 0)"

section \<open>One byte\<close>

definition encoded_length_i8 :: "i8 \<Rightarrow> int" where
  "encoded_length_i8 val = 1"

definition encode_i8 :: "cbuf \<Rightarrow> int \<Rightarrow> int \<Rightarrow> i8 \<Rightarrow> enc_res" where
  "encode_i8 buf buf_len pos val =
     (case buf of
        None \<Rightarrow> Some (OB_SIZE_OVERFLOW, None, pos)
      | Some m \<Rightarrow>
          if buf_len - pos \<ge> 1 then do {
            m \<leftarrow> wr m pos val;
            Some (OB_SUCCESS, Some m, pos + 1)
          } else Some (OB_SIZE_OVERFLOW, Some m, pos))"

definition decode_i8 :: "cbuf \<Rightarrow> int \<Rightarrow> int \<Rightarrow> i8 \<Rightarrow> i8 dec_res" where
  "decode_i8 buf data_len pos val =
     (case buf of
        None \<Rightarrow> Some (OB_DESERIALIZE_ERROR, pos, val)
      | Some m \<Rightarrow>
          if data_len - pos \<ge> 1 then do {
            b \<leftarrow> rd m pos;
            Some (OB_SUCCESS, pos + 1, b)
          } else Some (OB_DESERIALIZE_ERROR, pos, val))"

section \<open>Two bytes\<close>

definition encoded_length_i16 :: "i16 \<Rightarrow> int" where
  "encoded_length_i16 val = 2"

definition encode_i16 :: "cbuf \<Rightarrow> int \<Rightarrow> int \<Rightarrow> i16 \<Rightarrow> enc_res" where
  "encode_i16 buf buf_len pos val =
     (case buf of
        None \<Rightarrow> Some (OB_SIZE_OVERFLOW, None, pos)
      | Some m \<Rightarrow>
          if buf_len - pos \<ge> 2 then do {
            m \<leftarrow> wr m pos (ucast (signed_drop_bit 8 (scast val :: u32) AND 0xff));
            m \<leftarrow> wr m (pos + 1) (ucast ((scast val :: u32) AND 0xff));
            Some (OB_SUCCESS, Some m, pos + 2)
          } else Some (OB_SIZE_OVERFLOW, Some m, pos))"

definition decode_i16 :: "cbuf \<Rightarrow> int \<Rightarrow> int \<Rightarrow> i16 \<Rightarrow> i16 dec_res" where
  "decode_i16 buf data_len pos val =
     (case buf of
        None \<Rightarrow> Some (OB_DESERIALIZE_ERROR, pos, val)
      | Some m \<Rightarrow>
          if data_len - pos \<ge> 2 then do {
            b1 \<leftarrow> rd m pos;
            let val = (ucast (push_bit 8 ((scast b1 :: u32) AND 0xff)) :: u16);
            b0 \<leftarrow> rd m (pos + 1);
            let val = (ucast ((scast val :: u32) OR ((scast b0 :: u32) AND 0xff)) :: u16);
            Some (OB_SUCCESS, pos + 2, val)
          } else Some (OB_DESERIALIZE_ERROR, pos, val))"

section \<open>Four bytes\<close>

definition encoded_length_i32 :: "i32 \<Rightarrow> int" where
  "encoded_length_i32 val = 4"

definition encode_i32 :: "cbuf \<Rightarrow> int \<Rightarrow> int \<Rightarrow> i32 \<Rightarrow> enc_res" where
  "encode_i32 buf buf_len pos val =
     (case buf of
        None \<Rightarrow> Some (OB_SIZE_OVERFLOW, None, pos)
      | Some m \<Rightarrow>
          if buf_len - pos \<ge> 4 then do {
            m \<leftarrow> wr m pos (ucast (signed_drop_bit 24 val AND 0xff));
            m \<leftarrow> wr m (pos + 1) (ucast (signed_drop_bit 16 val AND 0xff));
            m \<leftarrow> wr m (pos + 2) (ucast (signed_drop_bit 8 val AND 0xff));
            m \<leftarrow> wr m (pos + 3) (ucast (val AND 0xff));
            Some (OB_SUCCESS, Some m, pos + 4)
          } else Some (OB_SIZE_OVERFLOW, Some m, pos))"

definition decode_i32 :: "cbuf \<Rightarrow> int \<Rightarrow> int \<Rightarrow> i32 \<Rightarrow> i32 dec_res" where
  "decode_i32 buf data_len pos val =
     (case buf of
        None \<Rightarrow> Some (OB_DESERIALIZE_ERROR, pos, val)
      | Some m \<Rightarrow>
          if data_len - pos \<ge> 4 then do {
            b3 \<leftarrow> rd m pos;
            let val = push_bit 24 ((scast b3 :: u32) AND 0xff);
            b2 \<leftarrow> rd m (pos + 1);
            let val = val OR push_bit 16 ((scast b2 :: u32) AND 0xff);
            b1 \<leftarrow> rd m (pos + 2);
            let val = val OR push_bit 8 ((scast b1 :: u32) AND 0xff);
            b0 \<leftarrow> rd m (pos + 3);
            let val = val OR ((scast b0 :: u32) AND 0xff);
            Some (OB_SUCCESS, pos + 4, val)
          } else Some (OB_DESERIALIZE_ERROR, pos, val))"

section \<open>Eight bytes\<close>

definition encoded_length_i64 :: "i64 \<Rightarrow> int" where
  "encoded_length_i64 val = 8"

definition encode_i64 :: "cbuf \<Rightarrow> int \<Rightarrow> int \<Rightarrow> i64 \<Rightarrow> enc_res" where
  "encode_i64 buf buf_len pos val =
     (case buf of
        None \<Rightarrow> Some (OB_SIZE_OVERFLOW, None, pos)
      | Some m \<Rightarrow>
          if buf_len - pos \<ge> 8 then do {
            m \<leftarrow> wr m pos (ucast (signed_drop_bit 56 val AND 0xff));
            m \<leftarrow> wr m (pos + 1) (ucast (signed_drop_bit 48 val AND 0xff));
            m \<leftarrow> wr m (pos + 2) (ucast (signed_drop_bit 40 val AND 0xff));
            m \<leftarrow> wr m (pos + 3) (ucast (signed_drop_bit 32 val AND 0xff));
            m \<leftarrow> wr m (pos + 4) (ucast (signed_drop_bit 24 val AND 0xff));
            m \<leftarrow> wr m (pos + 5) (ucast (signed_drop_bit 16 val AND 0xff));
            m \<leftarrow> wr m (pos + 6) (ucast (signed_drop_bit 8 val AND 0xff));
            m \<leftarrow> wr m (pos + 7) (ucast (val AND 0xff));
            Some (OB_SUCCESS, Some m, pos + 8)
          } else Some (OB_SIZE_OVERFLOW, Some m, pos))"

definition decode_i64 :: "cbuf \<Rightarrow> int \<Rightarrow> int \<Rightarrow> i64 \<Rightarrow> i64 dec_res" where
  "decode_i64 buf data_len pos val =
     (case buf of
        None \<Rightarrow> Some (OB_DESERIALIZE_ERROR, pos, val)
      | Some m \<Rightarrow>
          if data_len - pos \<ge> 8 then do {
            b7 \<leftarrow> rd m pos;
            let val = push_bit 56 ((scast b7 :: u64) AND 0xff);
            b6 \<leftarrow> rd m (pos + 1);
            let val = val OR push_bit 48 ((scast b6 :: u64) AND 0xff);
            b5 \<leftarrow> rd m (pos + 2);
            let val = val OR push_bit 40 ((scast b5 :: u64) AND 0xff);
            b4 \<leftarrow> rd m (pos + 3);
            let val = val OR push_bit 32 ((scast b4 :: u64) AND 0xff);
            b3 \<leftarrow> rd m (pos + 4);
            let val = val OR push_bit 24 ((scast b3 :: u64) AND 0xff);
            b2 \<leftarrow> rd m (pos + 5);
            let val = val OR push_bit 16 ((scast b2 :: u64) AND 0xff);
            b1 \<leftarrow> rd m (pos + 6);
            let val = val OR push_bit 8 ((scast b1 :: u64) AND 0xff);
            b0 \<leftarrow> rd m (pos + 7);
            let val = val OR ((scast b0 :: u64) AND 0xff);
            Some (OB_SUCCESS, pos + 8, val)
          } else Some (OB_DESERIALIZE_ERROR, pos, val))"

section \<open>Booleans\<close>

definition encoded_length_bool :: "bool \<Rightarrow> int" where
  "encoded_length_bool val = 1"

definition encode_bool :: "cbuf \<Rightarrow> int \<Rightarrow> int \<Rightarrow> bool \<Rightarrow> enc_res" where
  "encode_bool buf buf_len pos val =
     (case buf of
        None \<Rightarrow> Some (OB_SIZE_OVERFLOW, None, pos)
      | Some m \<Rightarrow>
          if buf_len - pos \<ge> 1 then do {
            m \<leftarrow> wr m pos (if val then 1 else 0);
            Some (OB_SUCCESS, Some m, pos + 1)
          } else Some (OB_SIZE_OVERFLOW, Some m, pos))"

definition decode_bool :: "cbuf \<Rightarrow> int \<Rightarrow> int \<Rightarrow> bool \<Rightarrow> bool dec_res" where
  "decode_bool buf buf_len pos val = do {
     (ret, pos, v) \<leftarrow> decode_i8 buf buf_len pos 0;
     Some (ret, pos, if ret = OB_SUCCESS then v \<noteq> 0 else val)
   }"

section \<open>The codecs\<close>

text \<open>Encoders: the value is written iff it fits, and otherwise nothing is.\<close>

lemma encode_i8_eq:
  assumes "0 \<le> pos" and "buf_len \<le> int (length m)"
  shows "encode_i8 (Some m) buf_len pos v =
    (if pos + 1 \<le> buf_len then Some (OB_SUCCESS, Some (put m pos [v]), pos + 1)
     else Some (OB_SIZE_OVERFLOW, Some m, pos))"
  using assms by (simp add: encode_i8_def mem_simps)

lemma encode_i16_eq:
  assumes "0 \<le> pos" and "buf_len \<le> int (length m)"
  shows "encode_i16 (Some m) buf_len pos v =
    (if pos + 2 \<le> buf_len then Some (OB_SUCCESS, Some (put m pos (wire_be 2 v)), pos + 2)
     else Some (OB_SIZE_OVERFLOW, Some m, pos))"
  using assms by (simp add: encode_i16_def mem_simps byte_enc)

lemma encode_i32_eq:
  assumes "0 \<le> pos" and "buf_len \<le> int (length m)"
  shows "encode_i32 (Some m) buf_len pos v =
    (if pos + 4 \<le> buf_len then Some (OB_SUCCESS, Some (put m pos (wire_be 4 v)), pos + 4)
     else Some (OB_SIZE_OVERFLOW, Some m, pos))"
  using assms by (simp add: encode_i32_def mem_simps byte_enc)

lemma encode_i64_eq:
  assumes "0 \<le> pos" and "buf_len \<le> int (length m)"
  shows "encode_i64 (Some m) buf_len pos v =
    (if pos + 8 \<le> buf_len then Some (OB_SUCCESS, Some (put m pos (wire_be 8 v)), pos + 8)
     else Some (OB_SIZE_OVERFLOW, Some m, pos))"
  using assms by (simp add: encode_i64_def mem_simps byte_enc)

lemma encode_bool_eq:
  assumes "0 \<le> pos" and "buf_len \<le> int (length m)"
  shows "encode_bool (Some m) buf_len pos v =
    (if pos + 1 \<le> buf_len
     then Some (OB_SUCCESS, Some (put m pos [if v then 1 else 0]), pos + 1)
     else Some (OB_SIZE_OVERFLOW, Some m, pos))"
  using assms by (simp add: encode_bool_def mem_simps)

text \<open>Decoders on the bytes of the value.\<close>

lemmas byte_dec = and_255_take_bit take_bit_8_scast wire_be_explicit

lemma decode_i8_wire:
  assumes "holds m pos [v]" and "pos + 1 \<le> data_len"
  shows "decode_i8 (Some m) data_len pos v0 = Some (OB_SUCCESS, pos + 1, v)"
  using assms by (simp add: decode_i8_def)

lemma decode_i16_join:
  "(ucast ((scast (ucast (push_bit 8 (ucast (byte_at 1 v) :: u32)) :: u16) :: u32)
      OR ucast (byte_at 0 v)) :: u16) = v"
proof -
  have "(ucast ((scast (ucast (push_bit 8 (ucast (byte_at 1 v) :: u32)) :: u16) :: u32)
      OR ucast (byte_at 0 v)) :: u16) = push_bit 8 (ucast (byte_at 1 v)) OR ucast (byte_at 0 v)"
  proof (rule bit_word_eqI)
    fix n assume "n < LENGTH(16)"
    then show "bit (ucast ((scast (ucast (push_bit 8 (ucast (byte_at 1 v) :: u32)) :: u16) :: u32)
        OR ucast (byte_at 0 v)) :: u16) n
      = bit (push_bit 8 (ucast (byte_at 1 v)) OR ucast (byte_at 0 v) :: u16) n"
      by (cases "n = 15") (auto simp: bit_simps min_def)
  qed
  then show ?thesis by (simp only: join_16)
qed

lemma decode_i16_wire:
  assumes "holds m pos (wire_be 2 v)" and "pos + 2 \<le> data_len"
  shows "decode_i16 (Some m) data_len pos v0 = Some (OB_SUCCESS, pos + 2, v)"
  using assms decode_i16_join [of v] by (simp add: decode_i16_def byte_dec)

lemma decode_i32_wire:
  assumes "holds m pos (wire_be 4 v)" and "pos + 4 \<le> data_len"
  shows "decode_i32 (Some m) data_len pos v0 = Some (OB_SUCCESS, pos + 4, v)"
  using assms join_32 [of v] by (simp add: decode_i32_def byte_dec ac_simps)

lemma decode_i64_wire:
  assumes "holds m pos (wire_be 8 v)" and "pos + 8 \<le> data_len"
  shows "decode_i64 (Some m) data_len pos v0 = Some (OB_SUCCESS, pos + 8, v)"
  using assms join_64 [of v] by (simp add: decode_i64_def byte_dec ac_simps)

lemma decode_bool_wire:
  assumes "holds m pos [if v then 1 else 0]" and "pos + 1 \<le> data_len"
  shows "decode_bool (Some m) data_len pos v0 = Some (OB_SUCCESS, pos + 1, v)"
  using assms by (simp add: decode_bool_def decode_i8_def)

text \<open>No decoder of this theory leaves the declared data.\<close>

lemma rd_within: "0 \<le> pos \<Longrightarrow> pos < int (length m) \<Longrightarrow> rd m pos \<noteq> None"
  by (simp add: rd_def)

lemma fixed_decoders_defined:
  assumes "0 \<le> pos" and "data_len \<le> int (length m)"
  shows "decode_i8 (Some m) data_len pos a \<noteq> None"
    and "decode_i16 (Some m) data_len pos b \<noteq> None"
    and "decode_i32 (Some m) data_len pos c \<noteq> None"
    and "decode_i64 (Some m) data_len pos d \<noteq> None"
    and "decode_bool (Some m) data_len pos e \<noteq> None"
  using assms
  by (simp_all add: decode_i8_def decode_i16_def decode_i32_def decode_i64_def decode_bool_def rd_def)

text \<open>Truncated input is refused and changes neither the position nor the variable.\<close>

lemma fixed_decoders_truncated:
  shows "data_len < pos + 1 \<Longrightarrow> decode_i8 (Some m) data_len pos a = Some (OB_DESERIALIZE_ERROR, pos, a)"
    and "data_len < pos + 2 \<Longrightarrow> decode_i16 (Some m) data_len pos b = Some (OB_DESERIALIZE_ERROR, pos, b)"
    and "data_len < pos + 4 \<Longrightarrow> decode_i32 (Some m) data_len pos c = Some (OB_DESERIALIZE_ERROR, pos, c)"
    and "data_len < pos + 8 \<Longrightarrow> decode_i64 (Some m) data_len pos d = Some (OB_DESERIALIZE_ERROR, pos, d)"
    and "data_len < pos + 1 \<Longrightarrow> decode_bool (Some m) data_len pos e = Some (OB_DESERIALIZE_ERROR, pos, e)"
  by (simp_all add: decode_i8_def decode_i16_def decode_i32_def decode_i64_def decode_bool_def)

interpretation i8: strict_codec encode_i8 decode_i8 "\<lambda>v. [v]" "\<lambda>_. True"
  by unfold_locales (simp_all add: encode_i8_eq decode_i8_wire)

interpretation i8: bounded_codec encode_i8 decode_i8 "\<lambda>v. [v]" "\<lambda>_. True"
  by unfold_locales (simp add: fixed_decoders_defined)

interpretation i16: strict_codec encode_i16 decode_i16 "wire_be 2" "\<lambda>_. True"
  by unfold_locales (simp_all add: encode_i16_eq decode_i16_wire)

interpretation i16: bounded_codec encode_i16 decode_i16 "wire_be 2" "\<lambda>_. True"
  by unfold_locales (simp add: fixed_decoders_defined)

interpretation i32: strict_codec encode_i32 decode_i32 "wire_be 4" "\<lambda>_. True"
  by unfold_locales (simp_all add: encode_i32_eq decode_i32_wire)

interpretation i32: bounded_codec encode_i32 decode_i32 "wire_be 4" "\<lambda>_. True"
  by unfold_locales (simp add: fixed_decoders_defined)

interpretation i64: strict_codec encode_i64 decode_i64 "wire_be 8" "\<lambda>_. True"
  by unfold_locales (simp_all add: encode_i64_eq decode_i64_wire)

interpretation i64: bounded_codec encode_i64 decode_i64 "wire_be 8" "\<lambda>_. True"
  by unfold_locales (simp add: fixed_decoders_defined)

interpretation boolc: strict_codec encode_bool decode_bool "\<lambda>v. [if v then 1 else 0]" "\<lambda>_. True"
  by unfold_locales (simp_all add: encode_bool_eq decode_bool_wire)

interpretation boolc: bounded_codec encode_bool decode_bool "\<lambda>v. [if v then 1 else 0]" "\<lambda>_. True"
  by unfold_locales (simp add: fixed_decoders_defined)

end
