(* ===== verification/SerialUint.thy ===== *)
theory SerialUint
  imports SerialFixed
begin

text \<open>
  The little-endian helper of \<open>src/src/lib/utility/serialization.h\<close> for an unsigned number in a
  given count of bytes (\<open>__encode_uint_with_given_length\<close> and its inverse), and the branch-free
  absolute value the type-tagged formats use with it.
\<close>

section \<open>Definitions\<close>

definition safe_int64_abs :: "i64 \<Rightarrow> u64" where
  "safe_int64_abs val =
     (let tmp = signed_drop_bit 63 val;
          v = val XOR tmp
      in v - tmp)"

fun uint_put :: "cbuf \<Rightarrow> int \<Rightarrow> int \<Rightarrow> u64 \<Rightarrow> nat \<Rightarrow> nat \<Rightarrow> enc_res" where
  "uint_put buf buf_len tmp_pos v n 0 = Some (OB_SUCCESS, buf, tmp_pos)"
| "uint_put buf buf_len tmp_pos v n (Suc r) =
     (if 64 \<le> 8 * n then None
      else do {
        (ret, buf, tmp_pos) \<leftarrow>
          encode_i8 buf buf_len tmp_pos (ucast (drop_bit (8 * n) v AND 0xff));
        if ret \<noteq> OB_SUCCESS then Some (ret, buf, tmp_pos)
        else uint_put buf buf_len tmp_pos v (Suc n) r
      })"

definition encode_uint_with_given_length ::
    "cbuf \<Rightarrow> int \<Rightarrow> int \<Rightarrow> u64 \<Rightarrow> int \<Rightarrow> enc_res" where
  "encode_uint_with_given_length buf buf_len pos val val_len =
     (if buf = None \<or> val_len \<le> 0 \<or> buf_len - pos < val_len then Some (OB_SIZE_OVERFLOW, buf, pos)
      else do {
        (ret, buf, tmp_pos) \<leftarrow> uint_put buf buf_len pos val 0 (nat val_len);
        Some (ret, buf, if ret = OB_SUCCESS then tmp_pos else pos)
      })"

fun uint_get :: "cbuf \<Rightarrow> int \<Rightarrow> int \<Rightarrow> u64 \<Rightarrow> nat \<Rightarrow> nat \<Rightarrow> u64 dec_res" where
  "uint_get buf data_len tmp_pos v n 0 = Some (OB_SUCCESS, tmp_pos, v)"
| "uint_get buf data_len tmp_pos v n (Suc r) = do {
     (ret, tmp_pos, tmp) \<leftarrow> decode_i8 buf data_len tmp_pos 0;
     if ret \<noteq> OB_SUCCESS then Some (OB_DESERIALIZE_ERROR, tmp_pos, v)
     else if 64 \<le> 8 * n then None
     else uint_get buf data_len tmp_pos (v OR push_bit (8 * n) (ucast tmp)) (Suc n) r
   }"

definition decode_uint_with_given_length ::
    "cbuf \<Rightarrow> int \<Rightarrow> int \<Rightarrow> u64 \<Rightarrow> int \<Rightarrow> u64 dec_res" where
  "decode_uint_with_given_length buf data_len pos val val_len =
     (if buf = None \<or> data_len - pos < val_len then Some (OB_DESERIALIZE_ERROR, pos, val)
      else do {
        (ret, tmp_pos, v) \<leftarrow> uint_get buf data_len pos 0 0 (nat val_len);
        Some (if ret = OB_SUCCESS then (ret, tmp_pos, v) else (ret, pos, val))
      })"

section \<open>Absolute value\<close>

lemma sint_uint_cases:
  fixes v :: i64
  shows sint_neg: "sint v < 0 \<Longrightarrow> sint v = uint v - 2 ^ 64"
    and sint_nonneg: "\<not> sint v < 0 \<Longrightarrow> sint v = uint v"
proof -
  have "sint v = take_bit 64 (uint v) - 2 ^ 64 * of_bool (bit (uint v) 63)"
    using signed_take_bit_eq_take_bit_minus [of 63 "uint v"] by (simp add: sint_uint)
  moreover have "uint v < 2 ^ LENGTH(64)" by (rule unsigned_less)
  then have "take_bit 64 (uint v) = uint v"
    by (simp add: take_bit_int_eq_self_iff)
  moreover have "bit (uint v) 63 \<longleftrightarrow> sint v < 0"
    using bit_last_iff [of v] by (simp add: bit_uint_iff)
  ultimately have eq: "sint v = uint v - 2 ^ 64 * of_bool (sint v < 0)" by simp
  show "sint v = uint v - 2 ^ 64" if "sint v < 0"
    by (subst eq) (simp add: that)
  show "sint v = uint v" if "\<not> sint v < 0"
    by (subst eq) (simp add: that)
qed

lemma signed_drop_bit_63: "signed_drop_bit 63 (v :: i64) = (if sint v < 0 then - 1 else 0)"
proof (rule bit_word_eqI)
  fix n assume "n < LENGTH(64)"
  then show "bit (signed_drop_bit 63 v) n = bit (if sint v < 0 then - 1 else 0 :: i64) n"
    using bit_last_iff [of v] by (cases "n = 0") (auto simp: bit_simps min_def)
qed

lemma xor_all_ones: "v XOR - 1 = NOT (v :: 'a::len word)"
  by (rule bit_word_eqI) (auto simp: bit_simps)

lemma safe_int64_abs_eq: "safe_int64_abs v = (if sint v < 0 then - v else v)"
proof -
  have "NOT v - - 1 = - v" by (simp add: minus_eq_not_plus_1 [of v])
  then show ?thesis by (simp add: safe_int64_abs_def signed_drop_bit_63 xor_all_ones)
qed

lemma unat_safe_int64_abs: "unat (safe_int64_abs v) = nat \<bar>sint v\<bar>"
proof (cases "sint v < 0")
  case True
  then have "v \<noteq> 0" by auto
  moreover have "uint v < 2 ^ LENGTH(64)" by (rule unsigned_less)
  ultimately have "uint (- v) = 2 ^ 64 - uint v"
    by (simp add: uint_word_ariths zmod_zminus1_eq_if uint_0_iff)
  with True sint_neg [of v] show ?thesis
    by (simp add: safe_int64_abs_eq unat_eq_nat_uint)
next
  case False
  have "nat \<bar>sint v\<bar> = nat (uint v)"
    unfolding sint_nonneg [OF False] by simp
  with False show ?thesis
    by (simp only: safe_int64_abs_eq if_False unat_eq_nat_uint)
qed

section \<open>The format\<close>

text \<open>Bytes \<open>n\<close> to \<open>n + r - 1\<close> of a word.\<close>

lemma uint_put_eq:
  assumes "0 \<le> p" and "q = p + int (length bs)" and "q + int r \<le> buf_len"
    and "buf_len \<le> int (length m)" and "n + r \<le> 8"
  shows "uint_put (Some (put m p bs)) buf_len q v n r
    = Some (OB_SUCCESS, Some (put m p (bs @ map (\<lambda>k. byte_at k v) [n..<n + r])), q + int r)"
  using assms
proof (induction r arbitrary: n bs q)
  case 0
  then show ?case by simp
next
  case (Suc r)
  have b: "byte_at 0 (take_bit 8 (drop_bit (8 * n) v)) = byte_at n v"
    by (simp only: byte_at_take_bit_8 byte_at_drop_bit)
  have "[n..<n + Suc r] = n # [Suc n..<Suc n + r]" by (simp add: upt_conv_Cons del: upt_Suc)
  with Suc.prems Suc.IH [of "q + 1" "bs @ [byte_at n v]" "Suc n"] show ?case
    by (simp add: encode_i8_eq mem_simps and_255_take_bit byte_at_low b add_ac del: upt_Suc)
qed

lemma uint_get_eq:
  assumes "holds m q (map (\<lambda>k. byte_at k v) [n..<n + r])" and "q + int r \<le> data_len"
    and "n + r \<le> 8"
  shows "uint_get (Some m) data_len q (take_bit (8 * n) v) n r
    = Some (OB_SUCCESS, q + int r, take_bit (8 * (n + r)) v)"
  using assms
proof (induction r arbitrary: n q)
  case 0
  then show ?case by simp
next
  case (Suc r)
  have "[n..<n + Suc r] = n # [Suc n..<Suc n + r]" by (simp add: upt_conv_Cons del: upt_Suc)
  with Suc.prems Suc.IH [of "q + 1" "Suc n"] show ?case
    by (simp add: decode_i8_def byte_join [simplified] add_ac del: upt_Suc)
qed

lemma take_bit_fits: "unat (v :: u64) < 256 ^ k \<Longrightarrow> take_bit (8 * k) v = v"
proof -
  assume "unat v < 256 ^ k"
  moreover have "(256 :: nat) ^ k = 2 ^ (8 * k)" by (simp add: power_mult)
  ultimately have "take_bit (8 * k) (unat v) = unat v" by (simp add: take_bit_nat_eq_self)
  moreover have "unat (take_bit (8 * k) v) = take_bit (8 * k) (unat v)"
    by (rule unsigned_take_bit_eq)
  ultimately show ?thesis by (simp add: word_unat_eq_iff)
qed

lemma encode_uint_eq:
  assumes "0 \<le> pos" and "buf_len \<le> int (length m)" and "0 < k" and "k \<le> 8"
  shows "encode_uint_with_given_length (Some m) buf_len pos v (int k) =
    (if pos + int k \<le> buf_len then Some (OB_SUCCESS, Some (put m pos (wire_le k v)), pos + int k)
     else Some (OB_SIZE_OVERFLOW, Some m, pos))"
  using assms uint_put_eq [of pos pos "[]" k buf_len m 0 v]
  by (auto simp: encode_uint_with_given_length_def wire_le_def)

lemma decode_uint_wire:
  assumes "holds m pos (wire_le k v)" and "pos + int k \<le> data_len" and "k \<le> 8"
    and "unat v < 256 ^ k"
  shows "decode_uint_with_given_length (Some m) data_len pos v0 (int k)
    = Some (OB_SUCCESS, pos + int k, v)"
  using assms uint_get_eq [of m pos v 0 k data_len] take_bit_fits [of v k]
  by (simp add: decode_uint_with_given_length_def wire_le_def)

end
