(* ===== verification/SerialInt.thy ===== *)
theory SerialInt
  imports SerialUint
begin

text \<open>
  The tagged integer format of \<open>src/src/lib/utility/serialization.h\<close> (\<open>encode_int\<close>,
  \<open>decode_int\<close>): a first byte with the sign, an "is add" flag and either the value itself or a code
  for the count of little-endian bytes that follow.  Each direction exists twice, as a
  bounds-checked routine over the helpers of \<open>SerialUint\<close> and as an unrolled one (\<open>fast_encode\<close>,
  \<open>fast_decode\<close>) that the entry points choose when enough room is left.
\<close>

section \<open>Encoding\<close>

definition OB_INT_SIGN_BIT_POS :: nat where "OB_INT_SIGN_BIT_POS = 5"
definition OB_INT_OPERATION_BIT_POS :: nat where "OB_INT_OPERATION_BIT_POS = 6"

definition encoded_length_int :: "i64 \<Rightarrow> int" where
  "encoded_length_int val =
     (let v = safe_int64_abs val in
      if v \<le> 23 then 1
      else if v \<le> 0xff then 2
      else if v \<le> 0xffff then 3
      else if v \<le> 0xffffff then 4
      else if v \<le> 0xffffffff then 5
      else if v \<le> 0xffffffffffff then 7
      else 9)"

text \<open>The labels \<open>G_INT9B\<close> to \<open>G_INT2B\<close> fall through into one another: a jump to one of them
  stores that many low bytes, shifting \<open>val\<close> in between.\<close>

fun fast_put :: "nat \<Rightarrow> mem \<Rightarrow> int \<Rightarrow> i64 \<Rightarrow> (mem \<times> int) option" where
  "fast_put 0 m pos val = Some (m, pos)"
| "fast_put (Suc n) m pos val = do {
     m \<leftarrow> wr m pos (ucast (val AND 0xff));
     fast_put n m (pos + 1) (signed_drop_bit 8 val)
   }"

definition fast_encode :: "cbuf \<Rightarrow> int \<Rightarrow> i64 \<Rightarrow> bool \<Rightarrow> enc_res" where
  "fast_encode buf pos val is_add = do {
     let first_byte = (0 :: i8);
     (first_byte, val) \<leftarrow>
       (if val <s 0 then do {
          val \<leftarrow> neg_i64 val;
          Some (ser_set_bit first_byte OB_INT_SIGN_BIT_POS, val)
        } else Some (first_byte, val));
     let first_byte =
       (if is_add then ser_set_bit first_byte OB_INT_OPERATION_BIT_POS else first_byte);
     m \<leftarrow> buf;
     if val \<le> 23 then do {
       m \<leftarrow> wr m pos (first_byte OR ucast val);
       Some (OB_SUCCESS, Some m, pos + 1)
     } else do {
       let first_byte = first_byte OR 23;
       let (step, bytes) =
         (if val \<le> 0xffffff then
            if val \<le> 0xff then (1, 1)
            else if val \<le> 0xffff then (2, 2)
            else (3, 3)
          else if val \<le> 0xffffffff then (4, 4)
          else if val \<le> 0xffffffffffff then (5, 6)
          else (7, 8));
       m \<leftarrow> wr m pos (first_byte + step);
       (m, pos) \<leftarrow> fast_put bytes m (pos + 1) val;
       Some (OB_SUCCESS, Some m, pos)
     }
   }"

definition encode_int_safe :: "cbuf \<Rightarrow> int \<Rightarrow> int \<Rightarrow> i64 \<Rightarrow> bool \<Rightarrow> enc_res" where
  "encode_int_safe buf buf_len pos val is_add =
     (let len = encoded_length_int val in
      if buf = None \<or> buf_len - pos < len then Some (OB_SIZE_OVERFLOW, buf, pos)
      else do {
        let first_byte = (0 :: i8);
        let first_byte =
          (if val <s 0 then ser_set_bit first_byte OB_INT_SIGN_BIT_POS else first_byte);
        let first_byte =
          (if is_add then ser_set_bit first_byte OB_INT_OPERATION_BIT_POS else first_byte);
        let v = safe_int64_abs val;
        let first_byte =
          (if v \<le> 23 then ucast ((scast first_byte :: u64) OR v)
           else let tmp_len = (if len = 7 \<or> len = 9 then len - 1 else len)
                in ucast ((scast first_byte :: u64) OR word_of_int (tmp_len - 1 + 23)));
        (ret, buf, pos) \<leftarrow> encode_i8 buf buf_len pos first_byte;
        if ret \<noteq> OB_SUCCESS then Some (OB_SIZE_OVERFLOW, buf, pos)
        else if len - 1 > 0 then encode_uint_with_given_length buf buf_len pos v (len - 1)
        else Some (ret, buf, pos)
      })"

definition encode_int :: "cbuf \<Rightarrow> int \<Rightarrow> int \<Rightarrow> i64 \<Rightarrow> bool \<Rightarrow> enc_res" where
  "encode_int buf buf_len pos val is_add =
     (if buf_len - pos \<ge> 10 then fast_encode buf pos val is_add
      else encode_int_safe buf buf_len pos val is_add)"

section \<open>Decoding\<close>

text \<open>The labels \<open>D_INT9B\<close> to \<open>D_INT2B\<close>: from \<open>npos\<close> backwards, most significant byte first.\<close>

fun fast_get :: "nat \<Rightarrow> mem \<Rightarrow> int \<Rightarrow> i64 \<Rightarrow> i64 option" where
  "fast_get 0 m npos val = Some val"
| "fast_get (Suc n) m npos val = do {
     b \<leftarrow> rd m (npos - 1);
     let val = val OR ucast b;
     fast_get n m (npos - 1) (if n > 0 then push_bit 8 val else val)
   }"

definition fast_decode :: "cbuf \<Rightarrow> i8 \<Rightarrow> int \<Rightarrow> i64 \<times> bool \<Rightarrow> (i64 \<times> bool) dec_res" where
  "fast_decode buf first_byte pos val = do {
     let is_neg = ser_test_bit first_byte OB_INT_SIGN_BIT_POS;
     let is_add = ser_test_bit first_byte OB_INT_OPERATION_BIT_POS;
     let len_or_value = first_byte AND 0x1f;
     if len_or_value \<le> 23 then
       Some (OB_SUCCESS, pos,
         (if is_neg then - scast len_or_value else scast len_or_value, is_add))
     else do {
       m \<leftarrow> buf;
       let bytes =
         (if len_or_value \<le> 23 + 3 then
            if len_or_value = 23 + 1 then 1
            else if len_or_value = 23 + 2 then 2
            else 3
          else if len_or_value = 23 + 4 then 4
          else if len_or_value = 23 + 5 then 6
          else (8 :: nat));
       let pos = pos + int bytes;
       v \<leftarrow> fast_get bytes m pos 0;
       v \<leftarrow> (if is_neg then neg_i64 v else Some v);
       Some (OB_SUCCESS, pos, (v, is_add))
     }
   }"

definition decode_int_safe ::
    "cbuf \<Rightarrow> int \<Rightarrow> i8 \<Rightarrow> int \<Rightarrow> i64 \<times> bool \<Rightarrow> (i64 \<times> bool) dec_res" where
  "decode_int_safe buf data_len first_byte pos val =
     (if buf = None \<or> data_len - pos < 0 then Some (OB_DESERIALIZE_ERROR, pos, val)
      else do {
        let is_neg = ser_test_bit first_byte OB_INT_SIGN_BIT_POS;
        let is_add = ser_test_bit first_byte OB_INT_OPERATION_BIT_POS;
        let len_or_value = first_byte AND 0x1f;
        if len_or_value \<le> 23 then
          Some (OB_SUCCESS, pos,
            (if is_neg then - scast len_or_value else scast len_or_value, is_add))
        else do {
          let len = sint len_or_value - 23;
          let len = (if len = 5 \<or> len = 7 then len + 1 else len);
          (ret, pos, uv) \<leftarrow> decode_uint_with_given_length buf data_len pos 0 len;
          if ret = OB_SUCCESS then do {
            v \<leftarrow> (if is_neg then neg_i64 uv else Some uv);
            Some (ret, pos, (v, is_add))
          } else Some (ret, pos, (fst val, is_add))
        }
      })"

definition decode_int ::
    "cbuf \<Rightarrow> int \<Rightarrow> i8 \<Rightarrow> int \<Rightarrow> i64 \<times> bool \<Rightarrow> (i64 \<times> bool) dec_res" where
  "decode_int buf data_len first_byte pos val =
     (if data_len - pos \<ge> 9 then fast_decode buf first_byte pos val
      else decode_int_safe buf data_len first_byte pos val)"

section \<open>The format\<close>

definition int_bytes :: "u64 \<Rightarrow> nat" where
  "int_bytes a =
     (if a \<le> 23 then 0 else if a \<le> 0xff then 1 else if a \<le> 0xffff then 2
      else if a \<le> 0xffffff then 3 else if a \<le> 0xffffffff then 4
      else if a \<le> 0xffffffffffff then 6 else 8)"

definition int_code :: "u64 \<Rightarrow> u8" where
  "int_code a =
     (if a \<le> 23 then ucast a else if a \<le> 0xff then 24 else if a \<le> 0xffff then 25
      else if a \<le> 0xffffff then 26 else if a \<le> 0xffffffff then 27
      else if a \<le> 0xffffffffffff then 28 else 30)"

definition int_tag :: "i64 \<Rightarrow> bool \<Rightarrow> u8" where
  "int_tag v is_add = (if sint v < 0 then 0x20 else 0) OR (if is_add then 0x40 else 0)
     OR int_code (safe_int64_abs v)"

definition wire_int :: "i64 \<Rightarrow> bool \<Rightarrow> u8 list" where
  "wire_int v is_add =
     int_tag v is_add # wire_le (int_bytes (safe_int64_abs v)) (safe_int64_abs v)"

lemma length_wire_int: "length (wire_int v is_add) = Suc (int_bytes (safe_int64_abs v))"
  by (simp add: wire_int_def)

lemma encoded_length_int_bytes:
  "encoded_length_int v = int (Suc (int_bytes (safe_int64_abs v)))"
  by (simp add: encoded_length_int_def int_bytes_def Let_def)

lemma int_bytes_le_8: "int_bytes a \<le> 8"
  by (simp add: int_bytes_def)

lemma wire_le_0 [simp]: "wire_le 0 v = []"
  by (simp add: wire_le_def)

lemma or_flags: "(0x20 :: u8) OR (0x40 OR x) = 0x60 OR x"
  by (simp add: or.assoc [symmetric])

lemma int_flags:
  "ser_set_bit 0 OB_INT_SIGN_BIT_POS = 0x20"
  "ser_set_bit 0 OB_INT_OPERATION_BIT_POS = 0x40"
  "ser_set_bit 0x20 OB_INT_OPERATION_BIT_POS = 0x60"
  by (simp_all add: ser_set_bit_def OB_INT_SIGN_BIT_POS_def OB_INT_OPERATION_BIT_POS_def)

lemma encode_int_safe_eq:
  assumes "0 \<le> pos" and "buf_len \<le> int (length m)"
  shows "encode_int_safe (Some m) buf_len pos v is_add =
    (if pos + int (length (wire_int v is_add)) \<le> buf_len
     then Some (OB_SUCCESS, Some (put m pos (wire_int v is_add)),
                pos + int (length (wire_int v is_add)))
     else Some (OB_SIZE_OVERFLOW, Some m, pos))"
proof (cases "pos + int (length (wire_int v is_add)) \<le> buf_len")
  case False
  then show ?thesis
    by (simp add: encode_int_safe_def encoded_length_int_bytes length_wire_int Let_def)
next
  case True
  let ?a = "safe_int64_abs v"
  let ?k = "int_bytes ?a"
  let ?fb = "(if sint v < 0 then 0x20 else 0 :: i8) OR (if is_add then 0x40 else 0)"
  have fb: "(if is_add then ser_set_bit (if v <s 0 then ser_set_bit 0 OB_INT_SIGN_BIT_POS else 0)
      OB_INT_OPERATION_BIT_POS else if v <s 0 then ser_set_bit 0 OB_INT_SIGN_BIT_POS else 0) = ?fb"
    by (simp add: int_flags word_sless_alt)
  have tag: "(if ?a \<le> 23 then ucast ((scast ?fb :: u64) OR ?a)
      else ucast ((scast ?fb :: u64) OR word_of_int
        ((if int (Suc ?k) = 7 \<or> int (Suc ?k) = 9 then int (Suc ?k) - 1 else int (Suc ?k)) - 1 + 23)))
      = int_tag v is_add"
    by (simp add: int_tag_def int_code_def int_bytes_def unsigned_or_eq or_flags)
  have body: "encode_int_safe (Some m) buf_len pos v is_add =
    (if Some m = None \<or> buf_len - pos < int (Suc ?k) then Some (OB_SIZE_OVERFLOW, Some m, pos)
     else do {
       (ret, buf, pos) \<leftarrow> encode_i8 (Some m) buf_len pos (int_tag v is_add);
       if ret \<noteq> OB_SUCCESS then Some (OB_SIZE_OVERFLOW, buf, pos)
       else if int (Suc ?k) - 1 > 0
         then encode_uint_with_given_length buf buf_len pos ?a (int (Suc ?k) - 1)
       else Some (ret, buf, pos)
     })"
    unfolding encode_int_safe_def encoded_length_int_bytes Let_def fb tag by (rule refl)
  show ?thesis
    unfolding body using True assms int_bytes_le_8 [of ?a]
    by (cases "?k = 0")
      (simp_all add: length_wire_int encode_i8_eq wire_int_def encode_uint_eq put_put)
qed

text \<open>The unrolled encoder produces the same bytes.\<close>

lemma fast_put_eq:
  assumes "0 \<le> p" and "q = p + int (length bs)" and "q + int r \<le> int (length m)"
    and "n + r \<le> 8"
  shows "fast_put r (put m p bs) q (signed_drop_bit (8 * n) (v :: i64))
    = Some (put m p (bs @ map (\<lambda>k. byte_at k v) [n..<n + r]), q + int r)"
  using assms
proof (induction r arbitrary: n bs q)
  case 0
  then show ?case by simp
next
  case (Suc r)
  have b: "byte_at 0 (take_bit 8 (signed_drop_bit (8 * n) v)) = byte_at n v"
    using Suc.prems(4) by (simp only: byte_at_take_bit_8) (simp add: byte_at_signed_drop_bit)
  have d: "signed_drop_bit 8 (signed_drop_bit (8 * n) v) = signed_drop_bit (8 * Suc n) v"
    by (rule bit_word_eqI) (auto simp: bit_simps)
  have "[n..<n + Suc r] = n # [Suc n..<Suc n + r]" by (simp add: upt_conv_Cons del: upt_Suc)
  with Suc.prems Suc.IH [of "q + 1" "bs @ [byte_at n v]" "Suc n"] show ?case
    by (simp add: mem_simps and_255_take_bit byte_at_low b d [simplified] add_ac del: upt_Suc)
qed

lemma fast_put_wire_le:
  assumes "0 \<le> p" and "q = p + int (length bs)" and "q + int r \<le> int (length m)" and "r \<le> 8"
  shows "fast_put r (put m p bs) q (v :: i64) = Some (put m p (bs @ wire_le r v), q + int r)"
  using fast_put_eq [OF assms(1-3), of 0 v] assms(4) by (simp add: wire_le_def)

lemma neg_i64_abs:
  "sint v < 0 \<Longrightarrow> v \<noteq> 0x8000000000000000 \<Longrightarrow> neg_i64 v = Some (safe_int64_abs v)"
  by (simp add: neg_i64_def safe_int64_abs_eq)

lemma fast_encode_eq:
  assumes "v \<noteq> 0x8000000000000000" and "0 \<le> pos"
    and "pos + int (length (wire_int v is_add)) \<le> int (length m)"
  shows "fast_encode (Some m) pos v is_add
    = Some (OB_SUCCESS, Some (put m pos (wire_int v is_add)),
            pos + int (length (wire_int v is_add)))"
proof -
  let ?a = "safe_int64_abs v"
  let ?fb = "(if sint v < 0 then 0x20 else 0 :: i8) OR (if is_add then 0x40 else 0)"
  have start: "(if v <s 0 then do {
          val \<leftarrow> neg_i64 v;
          Some (ser_set_bit 0 OB_INT_SIGN_BIT_POS, val)
        } else Some (0, v)) = Some (if sint v < 0 then 0x20 else 0, ?a)"
    using assms(1) by (simp add: word_sless_alt neg_i64_abs int_flags safe_int64_abs_eq)
  have fb: "(if is_add then ser_set_bit (if sint v < 0 then 0x20 else 0) OB_INT_OPERATION_BIT_POS
      else if sint v < 0 then 0x20 else 0) = ?fb"
    by (simp add: int_flags)
  show ?thesis
  proof (cases "?a \<le> 23")
    case True
    then have "?fb OR ucast ?a = int_tag v is_add" and "int_bytes ?a = 0"
      by (simp_all add: int_tag_def int_code_def int_bytes_def or.assoc)
    with True assms show ?thesis
      by (simp add: fast_encode_def start fb wire_int_def mem_simps)
  next
    case False
    let ?sb = "(if ?a \<le> 0xffffff then
            if ?a \<le> 0xff then (1, 1)
            else if ?a \<le> 0xffff then (2, 2)
            else (3, 3)
          else if ?a \<le> 0xffffffff then (4, 4)
          else if ?a \<le> 0xffffffffffff then (5, 6)
          else (7, 8)) :: i8 \<times> nat"
    have "snd ?sb = int_bytes ?a" and "(?fb OR 23) + fst ?sb = int_tag v is_add"
      using False by (auto simp: int_bytes_def int_tag_def int_code_def word_le_nat_alt)
    then have sb: "?sb = (fst ?sb, int_bytes ?a)" "(?fb OR 23) + fst ?sb = int_tag v is_add"
      by (simp_all add: prod_eq_iff)
    show ?thesis
      using False assms int_bytes_le_8 [of ?a]
        fast_put_wire_le [of pos "pos + 1" "[int_tag v is_add]" "int_bytes ?a" m ?a]
      unfolding fast_encode_def Let_def start bind.simps prod.case fb
      by (subst sb(1)) (simp add: sb(2) wire_int_def mem_simps add_ac)
  qed
qed

lemma encode_int_eq:
  assumes "v \<noteq> 0x8000000000000000" and "0 \<le> pos" and "buf_len \<le> int (length m)"
  shows "encode_int (Some m) buf_len pos v is_add =
    (if pos + int (length (wire_int v is_add)) \<le> buf_len
     then Some (OB_SUCCESS, Some (put m pos (wire_int v is_add)),
                pos + int (length (wire_int v is_add)))
     else Some (OB_SIZE_OVERFLOW, Some m, pos))"
  using assms int_bytes_le_8 [of "safe_int64_abs v"]
  by (auto simp: encode_int_def encode_int_safe_eq fast_encode_eq length_wire_int)

lemma encode_int_min:
  assumes "buf \<noteq> None" and "10 \<le> buf_len - pos"
  shows "encode_int buf buf_len pos 0x8000000000000000 is_add = None"
  using assms by (simp add: encode_int_def fast_encode_def word_sless_alt neg_i64_def)

section \<open>Reading the bytes back\<close>

lemma wire_le_Suc: "wire_le (Suc n) v = wire_le n v @ [byte_at n v]"
  by (simp add: wire_le_def)

lemma byte_above:
  "push_bit 8 (drop_bit (8 * Suc r) v) OR ucast (byte_at r v) = drop_bit (8 * r) (v :: i64)"
proof (rule bit_word_eqI)
  fix n
  show "bit (push_bit 8 (drop_bit (8 * Suc r) v) OR ucast (byte_at r v)) n
      = bit (drop_bit (8 * r) v) n" if "n < LENGTH(64)"
    using that by (cases "n < 8") (auto simp: byte_at_def bit_simps dest: bit_imp_le_length)
qed

lemma fast_get_wire:
  assumes "holds m (npos - int (Suc r)) (wire_le (Suc r) v)"
  shows "fast_get (Suc r) m npos (push_bit 8 (drop_bit (8 * Suc r) v)) = Some v"
  using assms
proof (induction r arbitrary: npos)
  case 0
  then show ?case
    using byte_above [of 0 v] by (simp add: wire_le_Suc)
next
  case (Suc r)
  from Suc.prems have "holds m (npos - 1 - int (Suc r)) (wire_le (Suc r) v)"
    and "rd m (npos - 1) = Some (byte_at (Suc r) v)"
    by (simp_all only: wire_le_Suc [of "Suc r"] holds_append) (simp_all add: algebra_simps)
  note head = this
  have "fast_get (Suc r) m (npos - 1) (push_bit 8 (drop_bit (8 * Suc r) v)) = Some v"
    by (rule Suc.IH) (fact head(1))
  with head(2) show ?case
    by (simp only: fast_get.simps(2) [of "Suc r"] bind.simps Let_def byte_above zero_less_Suc if_True)
qed

lemma drop_bit_fits: "take_bit k (v :: 'a::len word) = v \<Longrightarrow> drop_bit k v = 0"
  by (metis bits_ident add_left_cancel add_cancel_left_left push_bit_eq_0_iff drop_bit_take_bit
      diff_self_eq_0 take_bit_0)

lemma unat_fits: "take_bit (8 * k) (v :: u64) = v \<Longrightarrow> unat v < 256 ^ k"
proof -
  assume "take_bit (8 * k) v = v"
  then have "unat v = take_bit (8 * k) (unat v)" by (metis unsigned_take_bit_eq)
  then have "unat v < 2 ^ (8 * k)" by (metis take_bit_nat_less_exp)
  then show ?thesis by (simp add: power_mult)
qed

text \<open>Every string of at most eight bytes is the little-endian form of one word that fits.\<close>

lemma bytes_are_wire_le:
  assumes "length bs \<le> 8"
  shows "\<exists>v :: u64. bs = wire_le (length bs) v \<and> take_bit (8 * length bs) v = v"
proof -
  from assms have "\<exists>v :: u64. bs = wire_le (length bs) v"
  proof (induction bs rule: rev_induct)
    case Nil
    then show ?case by simp
  next
    case (snoc b bs)
    then obtain v :: u64 where v: "bs = wire_le (length bs) v" by auto
    let ?n = "length bs"
    let ?w = "take_bit (8 * ?n) v OR push_bit (8 * ?n) (ucast b)"
    have "byte_at k ?w = byte_at k v" if "k < ?n" for k
      unfolding byte_at_def
    proof (rule bit_word_eqI)
      fix i assume "i < LENGTH(8)"
      then have "8 * k + i < 8 * ?n" using that by simp
      then show "bit (ucast (drop_bit (8 * k) ?w) :: u8) i = bit (ucast (drop_bit (8 * k) v) :: u8) i"
        by (auto simp: bit_simps)
    qed
    then have "wire_le ?n ?w = bs"
      by (subst v) (auto simp: wire_le_def)
    moreover have "byte_at ?n ?w = b"
      unfolding byte_at_def using snoc.prems
      by (intro bit_word_eqI) (auto simp: bit_simps)
    ultimately show ?case
      by (intro exI [of _ ?w]) (simp add: wire_le_Suc)
  qed
  then obtain v :: u64 where v: "bs = wire_le (length bs) v" ..
  have "byte_at k (take_bit (8 * length bs) v) = byte_at k v" if "k < length bs" for k
    unfolding byte_at_def
  proof (rule bit_word_eqI)
    fix i assume "i < LENGTH(8)"
    then have "8 * k + i < 8 * length bs" using that by simp
    then show "bit (ucast (drop_bit (8 * k) (take_bit (8 * length bs) v)) :: u8) i
        = bit (ucast (drop_bit (8 * k) v) :: u8) i"
      by (auto simp: bit_simps)
  qed
  then have "wire_le (length bs) (take_bit (8 * length bs) v) = bs"
    by (subst (3) v) (auto simp: wire_le_def)
  then show ?thesis by (intro exI [of _ "take_bit (8 * length bs) v"]) simp
qed

section \<open>Decoding what the tag announces\<close>

definition tag_code :: "i8 \<Rightarrow> i8" where
  "tag_code t = t AND 0x1f"

text \<open>The byte counts the two decoders derive from a tag.  They differ for code 29 alone, which
  no encoder produces.\<close>

definition fast_tag_len :: "i8 \<Rightarrow> nat" where
  "fast_tag_len t =
     (if tag_code t \<le> 23 then 0 else if tag_code t = 24 then 1 else if tag_code t = 25 then 2
      else if tag_code t = 26 then 3 else if tag_code t = 27 then 4 else if tag_code t = 28 then 6
      else 8)"

definition safe_tag_len :: "i8 \<Rightarrow> nat" where
  "safe_tag_len t = (if tag_code t = 29 then 6 else fast_tag_len t)"

definition tag_value :: "i8 \<Rightarrow> i64 \<Rightarrow> i64 option" where
  "tag_value t a =
     (if tag_code t \<le> 23
      then Some (if ser_test_bit t OB_INT_SIGN_BIT_POS then - scast (tag_code t) else scast (tag_code t))
      else if ser_test_bit t OB_INT_SIGN_BIT_POS then neg_i64 a else Some a)"

lemma tag_code_cases:
  assumes "\<not> tag_code t \<le> 23"
  shows "tag_code t \<in> {24, 25, 26, 27, 28, 29, 30, 31}"
proof -
  have "unat (tag_code t) \<le> unat (0x1f :: u8)"
    unfolding tag_code_def by (intro unat_mono word_and_le1 [THEN word_le_nat_alt [THEN iffD1]]) 
  then have "unat (tag_code t) \<in> {24, 25, 26, 27, 28, 29, 30, 31}"
    using assms by (auto simp: word_le_nat_alt)
  then show ?thesis
    by (auto simp: word_unat_eq_iff)
qed

lemma fast_decode_eq:
  assumes "holds m pos (wire_le (fast_tag_len t) a)" and "take_bit (8 * fast_tag_len t) a = a"
  shows "fast_decode (Some m) t pos v0 = do {
    v \<leftarrow> tag_value t a;
    Some (OB_SUCCESS, pos + int (fast_tag_len t), (v, ser_test_bit t OB_INT_OPERATION_BIT_POS))
  }"
proof (cases "tag_code t \<le> 23")
  case True
  then show ?thesis
    by (simp add: fast_decode_def tag_value_def fast_tag_len_def tag_code_def [symmetric] Let_def)
next
  case False
  let ?k = "fast_tag_len t"
  have k: "(if tag_code t \<le> 23 + 3 then
            if tag_code t = 23 + 1 then 1 else if tag_code t = 23 + 2 then 2 else 3
          else if tag_code t = 23 + 4 then 4
          else if tag_code t = 23 + 5 then 6
          else (8 :: nat)) = ?k"
    using False tag_code_cases [OF False] by (auto simp: fast_tag_len_def)
  obtain r where r: "?k = Suc r" "push_bit 8 (drop_bit (8 * Suc r) a) = 0"
    using False assms(2) by (cases ?k) (auto simp: fast_tag_len_def drop_bit_fits split: if_splits)
  have "fast_get ?k m (pos + int ?k) 0 = Some a"
    using fast_get_wire [of m "pos + int ?k" r a] assms(1) r by simp
  with False show ?thesis
    unfolding fast_decode_def tag_code_def [symmetric] Let_def k
    by (simp add: tag_value_def)
qed

lemma decode_int_safe_eq:
  assumes "holds m pos (wire_le (safe_tag_len t) a)" and "take_bit (8 * safe_tag_len t) a = a"
    and "pos + int (safe_tag_len t) \<le> data_len"
  shows "decode_int_safe (Some m) data_len t pos v0 = do {
    v \<leftarrow> tag_value t a;
    Some (OB_SUCCESS, pos + int (safe_tag_len t), (v, ser_test_bit t OB_INT_OPERATION_BIT_POS))
  }"
proof (cases "tag_code t \<le> 23")
  case True
  then have "tag_code t \<noteq> 29" by auto
  with True assms(3) show ?thesis
    by (simp add: decode_int_safe_def tag_value_def safe_tag_len_def fast_tag_len_def
        tag_code_def [symmetric] Let_def)
next
  case False
  let ?k = "safe_tag_len t"
  have k: "(if sint (tag_code t) - 23 = 5 \<or> sint (tag_code t) - 23 = 7
      then sint (tag_code t) - 23 + 1 else sint (tag_code t) - 23) = int ?k" and "?k \<le> 8"
    using False tag_code_cases [OF False]
    by (auto simp: fast_tag_len_def safe_tag_len_def)
  with decode_uint_wire [OF assms(1) assms(3) _ unat_fits [OF assms(2)], of 0]
  have "decode_uint_with_given_length (Some m) data_len pos 0 (int ?k)
      = Some (OB_SUCCESS, pos + int ?k, a)" by simp
  with False assms(3) show ?thesis
    unfolding decode_int_safe_def tag_code_def [symmetric] Let_def k
    by (simp add: tag_value_def split: option.split)
qed

text \<open>On any data, the two decoders agree as long as the tag is not 29.\<close>

lemma fast_decode_is_safe:
  assumes "tag_code t \<noteq> 29" and "0 \<le> pos" and "pos + int (fast_tag_len t) \<le> data_len"
    and "data_len \<le> int (length m)"
  shows "fast_decode (Some m) t pos v0 = decode_int_safe (Some m) data_len t pos v0"
proof -
  let ?bs = "take (fast_tag_len t) (drop (nat pos) m)"
  have n: "length ?bs = fast_tag_len t" "length ?bs \<le> 8"
    using assms by (auto simp: fast_tag_len_def)
  with bytes_are_wire_le [of ?bs] obtain a :: u64 where
    a: "?bs = wire_le (fast_tag_len t) a" "take_bit (8 * fast_tag_len t) a = a" by auto
  have "holds m pos ?bs"
    using assms n by (auto simp: holds_iff_rd rd_def nat_add_distrib)
  with a assms show ?thesis
    by (simp add: fast_decode_eq [of m pos t a] decode_int_safe_eq [of m pos t a] safe_tag_len_def)
qed

section \<open>Round trip\<close>

lemma int_code_small: "unat (int_code a) < 32"
proof (cases "a \<le> 23")
  case True
  then have "unat a \<le> 23" by (simp add: word_le_nat_alt)
  then show ?thesis using True by (simp add: int_code_def unsigned_ucast_eq take_bit_nat_eq_self)
qed (simp add: int_code_def)

lemma int_code_mask: "int_code a AND 0x1f = int_code a"
proof -
  have "take_bit 5 (unat (int_code a)) = unat (int_code a)"
    using int_code_small [of a] by (simp add: take_bit_nat_eq_self)
  then have "take_bit 5 (int_code a) = int_code a"
    by (simp add: word_unat_eq_iff unsigned_take_bit_eq)
  moreover have "int_code a AND 0x1f = take_bit 5 (int_code a)"
    by (simp add: take_bit_eq_mask mask_eq_exp_minus_1)
  ultimately show ?thesis by simp
qed

lemma int_code_high: "\<not> bit (int_code a) 5" "\<not> bit (int_code a) 6"
proof -
  have "bit (int_code a AND 0x1f) n \<longleftrightarrow> bit (int_code a) n" for n
    by (simp only: int_code_mask)
  from this [of 5] this [of 6] show "\<not> bit (int_code a) 5" "\<not> bit (int_code a) 6"
    by (auto simp: bit_and_iff)
qed

lemma tag_code_int_tag: "tag_code (int_tag v is_add) = int_code (safe_int64_abs v)"
  by (simp add: tag_code_def int_tag_def bit.conj_disj_distrib2 int_code_mask)

lemma test_bit_8:
  assumes "n < 8"
  shows "ser_test_bit (t :: i8) n \<longleftrightarrow> bit t n"
proof -
  have "ser_test_bit t n \<longleftrightarrow> bit (scast t :: u32) n"
    by (simp add: ser_test_bit_def and_exp_eq_0_iff_not_bit)
  also have "\<dots> \<longleftrightarrow> bit t n"
    using assms by (cases "n = 7") (auto simp: bit_simps min_def)
  finally show ?thesis .
qed

lemma int_tag_flags:
  "ser_test_bit (int_tag v is_add) OB_INT_SIGN_BIT_POS \<longleftrightarrow> sint v < 0"
  "ser_test_bit (int_tag v is_add) OB_INT_OPERATION_BIT_POS \<longleftrightarrow> is_add"
  by (auto simp: int_tag_def test_bit_8 OB_INT_SIGN_BIT_POS_def OB_INT_OPERATION_BIT_POS_def
      bit_or_iff int_code_high)

lemma int_tag_len:
  "fast_tag_len (int_tag v is_add) = int_bytes (safe_int64_abs v)"
  "safe_tag_len (int_tag v is_add) = int_bytes (safe_int64_abs v)"
proof -
  have "int_code a \<le> 23 \<longleftrightarrow> a \<le> 23" for a
  proof (cases "a \<le> 23")
    case True
    then have "unat a \<le> 23" by (simp add: word_le_nat_alt)
    with True show ?thesis
      by (simp add: int_code_def word_le_nat_alt unsigned_ucast_eq take_bit_nat_eq_self)
  qed (simp add: int_code_def)
  then show fast: "fast_tag_len (int_tag v is_add) = int_bytes (safe_int64_abs v)"
    unfolding fast_tag_len_def tag_code_int_tag
    by (simp add: int_code_def int_bytes_def)
  have "int_code a \<noteq> 29" for a
    using \<open>int_code a \<le> 23 \<longleftrightarrow> a \<le> 23\<close> by (auto simp: int_code_def split: if_splits)
  with fast show "safe_tag_len (int_tag v is_add) = int_bytes (safe_int64_abs v)"
    by (simp add: safe_tag_len_def tag_code_int_tag)
qed

lemma int_bytes_fit: "take_bit (8 * int_bytes a) a = (if a \<le> 23 then 0 else a)"
proof (cases "a \<le> 23")
  case False
  moreover have "unat a < 2 ^ LENGTH(64)" by (rule unsigned_less)
  ultimately have "unat a < 256 ^ int_bytes a"
    by (simp add: int_bytes_def word_le_nat_alt)
  with False show ?thesis by (simp add: take_bit_fits)
qed (simp add: int_bytes_def)

lemma scast_ucast_small:
  assumes "(a :: u64) \<le> 23"
  shows "scast (ucast a :: u8) = a"
proof -
  have "take_bit 5 (unat a) = unat a"
    using assms by (simp add: take_bit_nat_eq_self word_le_nat_alt)
  then have "take_bit 5 a = a" by (simp add: word_unat_eq_iff unsigned_take_bit_eq)
  then have low: "\<not> bit a n" if "5 \<le> n" for n
    using that by (metis bit_take_bit_iff linorder_not_less)
  show ?thesis
    by (rule bit_word_eqI) (auto simp: bit_simps low min_def not_le intro: ccontr)
qed

lemma tag_value_int_tag:
  assumes "v \<noteq> 0x8000000000000000" and "a = safe_int64_abs v"
  shows "tag_value (int_tag v is_add) (if a \<le> 23 then 0 else a) = Some v"
proof (cases "a \<le> 23")
  case True
  then have "unat a \<le> 23" by (simp add: word_le_nat_alt)
  then have "ucast a \<le> (23 :: u8)"
    by (simp add: word_le_nat_alt unsigned_ucast_eq take_bit_nat_eq_self)
  moreover have "int_code (safe_int64_abs v) = ucast a"
    using True assms(2) by (simp add: int_code_def)
  moreover have "(if sint v < 0 then - a else a) = v"
    by (simp add: assms(2) safe_int64_abs_eq)
  ultimately show ?thesis
    unfolding tag_value_def tag_code_int_tag int_tag_flags
    by (auto simp: scast_ucast_small [OF True] split: if_splits)
next
  case False
  then have "\<not> int_code a \<le> 23" by (simp add: int_code_def)
  moreover have v: "(if sint v < 0 then - a else a) = v"
    by (simp add: assms(2) safe_int64_abs_eq)
  then have "a \<noteq> 0x8000000000000000"
    using assms(1) by (auto split: if_splits)
  ultimately show ?thesis
    using v False unfolding tag_value_def tag_code_int_tag int_tag_flags assms(2) [symmetric]
    by (auto simp: neg_i64_def split: if_splits)
qed

lemma decode_int_wire:
  assumes "v \<noteq> 0x8000000000000000" and "holds m pos (wire_int v is_add)"
    and "pos + int (length (wire_int v is_add)) \<le> data_len"
  shows "decode_int (Some m) data_len (int_tag v is_add) (pos + 1) v0
    = Some (OB_SUCCESS, pos + int (length (wire_int v is_add)), (v, is_add))"
proof -
  let ?a = "safe_int64_abs v"
  let ?k = "int_bytes ?a"
  let ?b = "if ?a \<le> 23 then 0 else ?a"
  have b: "wire_le ?k ?a = wire_le ?k ?b" "take_bit (8 * ?k) ?b = ?b"
    using int_bytes_fit [of ?a] by (auto simp: int_bytes_def)
  with assms(2) have "holds m (pos + 1) (wire_le ?k ?b)" by (simp add: wire_int_def)
  with assms b tag_value_int_tag [OF assms(1) refl, of is_add] show ?thesis
    by (simp add: decode_int_def fast_decode_eq [of _ _ _ ?b] decode_int_safe_eq [of _ _ _ ?b]
        int_tag_len int_tag_flags length_wire_int add.assoc)
qed

end
