(* ===== verification/SerialVarint.thy ===== *)
theory SerialVarint
  imports SerialFixed
begin

text \<open>
  The variable-length integers of \<open>src/src/lib/utility/serialization.h\<close>: seven bits per byte,
  least significant group first, the top bit of a byte marking that another one follows.
  \<open>vi_put\<close> and \<open>vi_get\<close> are the two loops, which the 32-bit and the 64-bit functions of the
  source repeat word for word; they are polymorphic in the width.
\<close>

section \<open>Definitions\<close>

text \<open>\<open>ob_max_v k\<close> is \<open>OB_MAX_V<k>B\<close>, the largest value of \<open>k\<close> groups.\<close>

definition ob_max_v :: "nat \<Rightarrow> u64" where
  "ob_max_v k = push_bit (7 * k) 1 - 1"

definition encoded_length_vi64 :: "i64 \<Rightarrow> int" where
  "encoded_length_vi64 v =
     (if v \<le> ob_max_v 1 then 1
      else if v \<le> ob_max_v 2 then 2
      else if v \<le> ob_max_v 3 then 3
      else if v \<le> ob_max_v 4 then 4
      else if v \<le> ob_max_v 5 then 5
      else if v \<le> ob_max_v 6 then 6
      else if v \<le> ob_max_v 7 then 7
      else if v \<le> ob_max_v 8 then 8
      else if v \<le> ob_max_v 9 then 9
      else 10)"

definition encoded_length_vi32 :: "i32 \<Rightarrow> int" where
  "encoded_length_vi32 val =
     (let v = (ucast val :: u64) in
      if v \<le> ob_max_v 1 then 1
      else if v \<le> ob_max_v 2 then 2
      else if v \<le> ob_max_v 3 then 3
      else if v \<le> ob_max_v 4 then 4
      else 5)"

function vi_put :: "mem \<Rightarrow> int \<Rightarrow> 'a::len word \<Rightarrow> (mem \<times> int \<times> 'a word) option" where
  "vi_put m pos v =
     (if (ucast v :: u64) > ob_max_v 1 then do {
        m \<leftarrow> wr m pos (ucast (v OR 0x80));
        vi_put m (pos + 1) (drop_bit 7 v)
      } else Some (m, pos, v))"
  by pat_completeness auto

lemma ob_max_v_1: "ob_max_v (Suc 0) = 127"
  by (simp add: ob_max_v_def)

lemma ucast_gt_127: "(127 < (ucast (v :: 'a::len word) :: u64)) \<Longrightarrow> 128 \<le> unat v"
proof -
  assume "127 < (ucast v :: u64)"
  then have "(127 :: nat) < unat (ucast v :: u64)"
    by (simp add: word_less_nat_alt)
  also have "\<dots> \<le> unat v"
    by (simp add: unsigned_ucast_eq take_bit_nat_less_eq_self)
  finally show ?thesis by simp
qed

lemma unat_drop_bit: "unat (drop_bit n (v :: 'a::len word)) = unat v div 2 ^ n"
  by (subst unsigned_drop_bit_eq) (simp add: drop_bit_eq_div take_bit_nat_eq_self)

termination vi_put
proof (relation "measure (\<lambda>(m, pos, v). unat v)")
  fix m :: mem and pos :: int and v :: "'a word" and m'
  assume "ob_max_v 1 < (ucast v :: u64)"
  then have "128 \<le> unat v" using ucast_gt_127 by (simp add: ob_max_v_1)
  moreover have "unat (drop_bit 7 v) = unat v div 128" by (simp only: unat_drop_bit) simp
  ultimately show "((m', pos + 1, drop_bit 7 v), (m, pos, v)) \<in> measure (\<lambda>(m, pos, v). unat v)"
    by simp
qed simp


declare vi_put.simps [simp del]

definition encode_vi64 :: "cbuf \<Rightarrow> int \<Rightarrow> int \<Rightarrow> i64 \<Rightarrow> enc_res" where
  "encode_vi64 buf buf_len pos val =
     (case buf of
        None \<Rightarrow> Some (OB_SIZE_OVERFLOW, None, pos)
      | Some m \<Rightarrow>
          if buf_len - pos \<ge> encoded_length_vi64 val then do {
            (m, pos, v) \<leftarrow> vi_put m pos val;
            if v \<le> ob_max_v 1 then do {
              m \<leftarrow> wr m pos (ucast (v AND 0x7f));
              Some (OB_SUCCESS, Some m, pos + 1)
            } else Some (OB_SUCCESS, Some m, pos)
          } else Some (OB_SIZE_OVERFLOW, Some m, pos))"

definition encode_vi32 :: "cbuf \<Rightarrow> int \<Rightarrow> int \<Rightarrow> i32 \<Rightarrow> enc_res" where
  "encode_vi32 buf buf_len pos val =
     (case buf of
        None \<Rightarrow> Some (OB_SIZE_OVERFLOW, None, pos)
      | Some m \<Rightarrow>
          if buf_len - pos \<ge> encoded_length_vi32 val then do {
            (m, pos, v) \<leftarrow> vi_put m pos val;
            if (ucast v :: u64) \<le> ob_max_v 1 then do {
              m \<leftarrow> wr m pos (ucast (v AND 0x7f));
              Some (OB_SUCCESS, Some m, pos + 1)
            } else Some (OB_SUCCESS, Some m, pos)
          } else Some (OB_SIZE_OVERFLOW, Some m, pos))"

text \<open>The fixed ten-byte form: \<open>n\<close> is the loop counter after its decrement.\<close>

fun ten_bytes_loop :: "nat \<Rightarrow> mem \<Rightarrow> int \<Rightarrow> u64 \<Rightarrow> (mem \<times> int \<times> u64) option" where
  "ten_bytes_loop 0 m pos v = Some (m, pos, v)"
| "ten_bytes_loop (Suc n) m pos v =
     (if n > 0 then do {
        m \<leftarrow> wr m pos (ucast (v OR 0x80));
        ten_bytes_loop n m (pos + 1) (drop_bit 7 v)
      } else do {
        m \<leftarrow> wr m pos (ucast (v AND 0x7f));
        ten_bytes_loop n m (pos + 1) v
      })"

definition encode_ten_bytes_i64 :: "cbuf \<Rightarrow> int \<Rightarrow> int \<Rightarrow> i64 \<Rightarrow> enc_res" where
  "encode_ten_bytes_i64 buf buf_len pos val =
     (case buf of
        None \<Rightarrow> Some (OB_SIZE_OVERFLOW, None, pos)
      | Some m \<Rightarrow>
          if buf_len - pos \<ge> 10 then do {
            (m, pos, v) \<leftarrow> ten_bytes_loop 10 m pos val;
            Some (OB_SUCCESS, Some m, pos)
          } else Some (OB_SIZE_OVERFLOW, Some m, pos))"

text \<open>The padded form with a length chosen by the caller: \<open>n\<close> is \<open>len\<close> inside the loop.\<close>

fun with_len_loop :: "nat \<Rightarrow> mem \<Rightarrow> int \<Rightarrow> u64 \<Rightarrow> (mem \<times> int \<times> u64) option" where
  "with_len_loop 0 m pos v = Some (m, pos, v)"
| "with_len_loop (Suc n) m pos v = do {
     m \<leftarrow> wr m pos (ucast (v OR 0x80));
     with_len_loop n m (pos + 1) (if v \<le> ob_max_v 1 then 0 else drop_bit 7 v)
   }"

definition encode_with_len_vi64 :: "cbuf \<Rightarrow> int \<Rightarrow> int \<Rightarrow> i64 \<Rightarrow> int \<Rightarrow> enc_res" where
  "encode_with_len_vi64 buf buf_len pos val len =
     (case buf of
        None \<Rightarrow> Some (OB_SIZE_OVERFLOW, None, pos)
      | Some m \<Rightarrow>
          if buf_len - pos \<ge> encoded_length_vi64 val \<and> len \<ge> encoded_length_vi64 val then do {
            (m, pos, v) \<leftarrow> with_len_loop (nat (len - 1)) m pos val;
            if v \<le> ob_max_v 1 then do {
              m \<leftarrow> wr m pos (ucast (v AND 0x7f));
              Some (OB_SUCCESS, Some m, pos + 1)
            } else Some (OB_SUCCESS, Some m, pos)
          } else Some (OB_SIZE_OVERFLOW, Some m, pos))"

text \<open>
  The decoding loop.  It looks at \<open>buf[tmp_pos]\<close> before it compares \<open>tmp_pos\<close> with
  \<open>data_len\<close>, so the read may be the first one outside the data; and a shift count that reaches the
  width of the type is undefined.
\<close>

function vi_get :: "mem \<Rightarrow> int \<Rightarrow> int \<Rightarrow> 'a::len word \<Rightarrow> nat
    \<Rightarrow> (ob_err \<times> int \<times> 'a word \<times> nat) option" where
  "vi_get m data_len tmp_pos v shift = do {
     b \<leftarrow> rd m tmp_pos;
     if b AND 0x80 \<noteq> 0 then
       if data_len - tmp_pos < 1 then Some (OB_DESERIALIZE_ERROR, tmp_pos, v, shift)
       else if LENGTH('a) \<le> shift then None
       else vi_get m data_len (tmp_pos + 1)
              (v OR push_bit shift ((scast b :: 'a word) AND 0x7f)) (shift + 7)
     else Some (OB_SUCCESS, tmp_pos, v, shift)
   }"
  by pat_completeness auto
termination vi_get
  by (relation "measure (\<lambda>(m, data_len, tmp_pos, v, shift). nat (int (length m) - tmp_pos))")
    (auto simp: rd_def split: if_splits)

declare vi_get.simps [simp del]

definition decode_vi64 :: "cbuf \<Rightarrow> int \<Rightarrow> int \<Rightarrow> i64 \<Rightarrow> i64 dec_res" where
  "decode_vi64 buf data_len pos val = do {
     m \<leftarrow> buf;
     (ret, tmp_pos, v, shift) \<leftarrow> vi_get m data_len pos (0 :: u64) 0;
     if ret = OB_SUCCESS then
       if data_len - tmp_pos < 1 then Some (OB_DESERIALIZE_ERROR, pos, val)
       else do {
         b \<leftarrow> rd m tmp_pos;
         if 64 \<le> shift then None
         else Some (OB_SUCCESS, tmp_pos + 1, v OR push_bit shift ((scast b :: u64) AND 0x7f))
       }
     else Some (ret, pos, val)
   }"

definition decode_vi32 :: "cbuf \<Rightarrow> int \<Rightarrow> int \<Rightarrow> i32 \<Rightarrow> i32 dec_res" where
  "decode_vi32 buf data_len pos val = do {
     m \<leftarrow> buf;
     (ret, tmp_pos, v, shift) \<leftarrow> vi_get m data_len pos (0 :: u32) 0;
     if ret = OB_SUCCESS then
       if data_len - tmp_pos < 1 then Some (OB_DESERIALIZE_ERROR, pos, val)
       else do {
         b \<leftarrow> rd m tmp_pos;
         if 32 \<le> shift then None
         else Some (OB_SUCCESS, tmp_pos + 1, v OR push_bit shift ((scast b :: u32) AND 0x7f))
       }
     else Some (ret, pos, val)
   }"

text \<open>
  A \<open>float\<close> or \<open>double\<close> is its IEEE bit pattern here: the code only copies the bytes of the value
  into an integer of the same size and back.
\<close>

definition encoded_length_float :: "u32 \<Rightarrow> int" where
  "encoded_length_float val = encoded_length_vi32 val"

definition encode_float :: "cbuf \<Rightarrow> int \<Rightarrow> int \<Rightarrow> u32 \<Rightarrow> enc_res" where
  "encode_float buf buf_len pos val = encode_vi32 buf buf_len pos val"

definition decode_float :: "cbuf \<Rightarrow> int \<Rightarrow> int \<Rightarrow> u32 \<Rightarrow> u32 dec_res" where
  "decode_float buf data_len pos val = do {
     (ret, pos, tmp) \<leftarrow> decode_vi32 buf data_len pos 0;
     Some (ret, pos, if ret = OB_SUCCESS then tmp else val)
   }"

definition encoded_length_double :: "u64 \<Rightarrow> int" where
  "encoded_length_double val = encoded_length_vi64 val"

definition encode_double :: "cbuf \<Rightarrow> int \<Rightarrow> int \<Rightarrow> u64 \<Rightarrow> enc_res" where
  "encode_double buf buf_len pos val = encode_vi64 buf buf_len pos val"

definition decode_double :: "cbuf \<Rightarrow> int \<Rightarrow> int \<Rightarrow> u64 \<Rightarrow> u64 dec_res" where
  "decode_double buf data_len pos val = do {
     (ret, pos, tmp) \<leftarrow> decode_vi64 buf data_len pos 0;
     Some (ret, pos, if ret = OB_SUCCESS then tmp else val)
   }"

section \<open>The format\<close>

text \<open>\<open>leb k n\<close> is the number \<open>n\<close> in \<open>k\<close> groups of seven bits; \<open>vlen n\<close> is the number of groups
  \<open>n\<close> needs.\<close>

fun leb :: "nat \<Rightarrow> nat \<Rightarrow> u8 list" where
  "leb 0 n = []"
| "leb (Suc 0) n = [of_nat n AND 0x7f]"
| "leb (Suc (Suc k)) n = (of_nat n OR 0x80) # leb (Suc k) (n div 128)"

lemma length_leb [simp]: "length (leb k n) = k"
  by (induction k n rule: leb.induct) simp_all

fun vlen :: "nat \<Rightarrow> nat" where
  "vlen n = (if n < 128 then 1 else Suc (vlen (n div 128)))"
declare vlen.simps [simp del]

lemma or_nat_add: "a < 2 ^ s \<Longrightarrow> (a :: nat) OR push_bit s d = a + d * 2 ^ s"
proof -
  assume a: "a < 2 ^ s"
  have "\<not> bit a n \<or> \<not> bit (push_bit s d) n" for n
  proof (cases "n < s")
    case False
    with a have "a < 2 ^ n" by (meson le_less_trans less_le_trans not_less power_increasing one_le_numeral)
    then show ?thesis by (simp add: bit_iff_odd)
  qed (simp add: bit_push_bit_iff)
  then show ?thesis using disjunctive_add [of a "push_bit s d"] by (simp add: push_bit_eq_mult)
qed

lemma word_join:
  assumes "a < 2 ^ s"
  shows "(of_nat a :: 'a::len word) OR push_bit s (of_nat d) = of_nat (a + d * 2 ^ s)"
  using or_nat_add [OF assms, of d]
  by (metis of_nat_or_eq push_bit_of_nat)

lemma cont_flag: "((x :: u8) OR 0x80) AND 0x80 \<noteq> 0" 
proof -
  have "bit ((x OR 0x80) AND 0x80) 7" by (simp add: bit_simps)
  then show ?thesis by auto
qed

lemma last_flag: "((x :: u8) AND 0x7f) AND 0x80 = 0"
  by (simp add: and.assoc)

lemma unat_take_bit_7: "unat (take_bit 7 (w :: 'a::len word)) = unat w mod 128"
  by (subst unsigned_take_bit_eq) (simp add: take_bit_eq_mod)

lemma scast_7: 
  assumes "8 \<le> LENGTH('a)" shows "(scast (b::u8) :: 'a::len word) AND 0x7f = of_nat (unat b mod 128)"
proof -
  have "take_bit 7 (scast b :: 'a word) = ucast (take_bit 7 b)"
    using assms by (auto intro!: bit_word_eqI simp: bit_simps min_def)
  moreover have "(ucast (take_bit 7 b) :: 'a word) = of_nat (unat (take_bit 7 b))" by simp
  ultimately show ?thesis by (simp only: and_127_take_bit unat_take_bit_7)
qed

lemma unat_or_128_mod: "unat ((of_nat n :: u8) OR 0x80) mod 128 = n mod 128"
proof -
  have "take_bit 7 ((of_nat n :: u8) OR 0x80) = take_bit 7 (of_nat n)"
    by (rule bit_word_eqI) (auto simp: bit_simps)
  then have "unat (take_bit 7 ((of_nat n :: u8) OR 0x80)) = unat (take_bit 7 (of_nat n :: u8))" by simp
  then show ?thesis by (simp only: unat_take_bit_7) (simp add: unat_of_nat mod_mod_cancel)
qed
lemma unat_and_127_mod: "unat ((of_nat n :: u8) AND 0x7f) mod 128 = n mod 128"
  by (simp only: and_127_take_bit unat_take_bit_7) (simp add: unat_of_nat mod_mod_cancel)

lemma group_byte: 
  assumes "8 \<le> LENGTH('a)"
  shows "(ucast ((v :: 'a::len word) OR 0x80) :: u8) = of_nat (unat v) OR 0x80"
    and "(ucast ((v :: 'a::len word) AND 0x7f) :: u8) = of_nat (unat v) AND 0x7f"
proof -
  have u: "(of_nat (unat v) :: u8) = ucast v" by simp
  show "(ucast ((v :: 'a::len word) OR 0x80) :: u8) = of_nat (unat v) OR 0x80"
   and "(ucast ((v :: 'a::len word) AND 0x7f) :: u8) = of_nat (unat v) AND 0x7f"
   unfolding u using assms by (auto intro!: bit_word_eqI simp: bit_simps)
qed

lemma vi_get_leb:
  assumes "8 \<le> LENGTH('a)"
  shows "holds m p (leb (Suc k) n) \<Longrightarrow> a < 2 ^ s \<Longrightarrow> n < 128 ^ Suc k \<Longrightarrow> s + 7 * k < LENGTH('a)
    \<Longrightarrow> p + int k < data_len \<Longrightarrow>
    \<exists>v' b. vi_get m data_len p (of_nat a :: 'a::len word) s = Some (OB_SUCCESS, p + int k, v', s + 7 * k)
      \<and> rd m (p + int k) = Some b
      \<and> v' OR push_bit (s + 7 * k) (scast b AND 0x7f) = of_nat (a + n * 2 ^ s)"
proof (induction k arbitrary: p n a s)
  case 0
  then show ?case
    using assms
    by (subst vi_get.simps) (simp add: last_flag scast_7 unat_and_127_mod word_join)
next
  case (Suc k)
  let ?a = "a + (n mod 128) * 2 ^ s"
  have a: "?a < 2 ^ (s + 7)"
  proof -
    have "n mod 128 \<le> 127" by simp
    then have "(n mod 128) * 2 ^ s \<le> 127 * 2 ^ s" by (rule mult_le_mono1)
    with Suc.prems(2) have "?a < 128 * 2 ^ s" by linarith
    then show ?thesis by (simp add: power_add)
  qed
  have step: "vi_get m data_len p (of_nat a :: 'a word) s = vi_get m data_len (p + 1) (of_nat ?a) (s + 7)"
    using Suc.prems assms 
    by (subst vi_get.simps) (simp add: cont_flag scast_7 unat_or_128_mod word_join)
  have "n div 128 < 128 ^ Suc k" using Suc.prems(3) by (simp add: less_mult_imp_div_less)
  with Suc.IH [of "p + 1" "n div 128" ?a "s + 7"] Suc.prems a
  obtain v' b where *: "vi_get m data_len (p + 1) (of_nat ?a :: 'a word) (s + 7) = Some (OB_SUCCESS, p + 1 + int k, v', s + 7 + 7 * k)"
    "rd m (p + 1 + int k) = Some b"
    "v' OR push_bit (s + 7 + 7 * k) (scast b AND 0x7f) = of_nat (?a + (n div 128) * 2 ^ (s + 7))"
    by auto
  have "(n mod 128 + 128 * (n div 128)) * 2 ^ s = (n mod 128) * 2 ^ s + (n div 128) * 2 ^ (s + 7)"
    by (simp only: power_add add_mult_distrib) simp
  then have "?a + (n div 128) * 2 ^ (s + 7) = a + n * 2 ^ s" by simp
  from * [unfolded this] have **: "vi_get m data_len (p + 1) (of_nat ?a :: 'a word) (s + 7)
      = Some (OB_SUCCESS, p + 1 + int k, v', s + 7 + 7 * k)"
    "rd m (p + 1 + int k) = Some b"
    "v' OR push_bit (s + 7 + 7 * k) (scast b AND 0x7f) = of_nat (a + n * 2 ^ s)" .
  have e: "p + 1 + int k = p + int (Suc k)" "s + 7 + 7 * k = s + 7 * Suc k" by simp_all
  show ?case unfolding step using ** [unfolded e] by blast
qed


lemma vlen_bounds: "n < 128 ^ vlen n \<and> (vlen n = 1 \<or> 128 ^ (vlen n - 1) \<le> n) \<and> 0 < vlen n"
proof (induction n rule: vlen.induct)
  case (1 n)
  show ?case
  proof (cases "n < 128")
    case True
    then show ?thesis by (simp add: vlen.simps [of n])
  next
    case False
    with 1 obtain k where k: "vlen (n div 128) = Suc k" and
      *: "n div 128 < 128 ^ Suc k" "k = 0 \<or> 128 ^ k \<le> n div 128"
      by (cases "vlen (n div 128)") auto
    from * have "n < 128 * 128 ^ Suc k" and "128 * 128 ^ k \<le> n"
      using False by (auto simp: div_less_iff_less_mult less_eq_div_iff_mult_less_eq mult.commute)
    with False k show ?thesis by (simp add: vlen.simps [of n])
  qed
qed

lemma vlen_le_iff: "0 < k \<Longrightarrow> vlen n \<le> k \<longleftrightarrow> n < 128 ^ k"
proof
  assume "vlen n \<le> k"
  then have "(128::nat) ^ vlen n \<le> 128 ^ k" by (simp add: power_increasing)
  with vlen_bounds [of n] show "n < 128 ^ k" by linarith
next
  assume "0 < k" "n < 128 ^ k"
  show "vlen n \<le> k"
  proof (rule ccontr)
    assume "\<not> vlen n \<le> k"
    then have "(128::nat) ^ k \<le> 128 ^ (vlen n - 1)" by (intro power_increasing) auto
    moreover from \<open>0 < k\<close> \<open>\<not> vlen n \<le> k\<close> vlen_bounds [of n] have "128 ^ (vlen n - 1) \<le> n"
      by auto
    ultimately show False using \<open>n < 128 ^ k\<close> by linarith
  qed
qed

lemma vlen_eq_iff: "vlen n = Suc (Suc k) \<longleftrightarrow> 128 ^ Suc k \<le> n \<and> n < 128 ^ Suc (Suc k)"
  using vlen_le_iff [of "Suc k" n] vlen_le_iff [of "Suc (Suc k)" n] by linarith

lemma vlen_1_iff: "vlen n = 1 \<longleftrightarrow> n < 128"
  using vlen_le_iff [of 1 n] vlen_bounds [of n] by auto

lemma unat_ucast_64: "LENGTH('a) \<le> 64 \<Longrightarrow> unat (ucast (v :: 'a::len word) :: u64) = unat v"
proof -
  assume "LENGTH('a) \<le> 64"
  then have "(2 :: nat) ^ LENGTH('a) \<le> 2 ^ 64" by (intro power_increasing) simp_all
  moreover have "unat v < 2 ^ LENGTH('a)" by (rule unsigned_less)
  ultimately have "unat v < 2 ^ 64" by linarith
  then show ?thesis by (simp add: unsigned_ucast_eq take_bit_nat_eq_self)
qed

lemma max_v_le: "k \<le> 9 \<Longrightarrow> v \<le> ob_max_v k \<longleftrightarrow> unat v < 128 ^ k"
proof -
  assume k: "k \<le> 9"
  have "ob_max_v k = of_nat (mask (7 * k))"
    by (simp add: ob_max_v_def of_nat_mask_eq mask_eq_exp_minus_1)
  then have "unat (ob_max_v k) = take_bit 64 (mask (7 * k))"
    by (simp add: unat_of_nat take_bit_eq_mod)
  moreover have "take_bit 64 (mask (7 * k)) = (mask (7 * k) :: nat)"
    using k by (simp only: take_bit_of_mask)
  ultimately have "unat (ob_max_v k) = mask (7 * k)" by simp
  then have "unat (ob_max_v k) = 2 ^ (7 * k) - 1" by (simp only: mask_eq_exp_minus_1)
  moreover have "(2::nat) ^ (7 * k) = 128 ^ k" by (simp add: power_mult)
  ultimately have "unat (ob_max_v k) = 128 ^ k - 1" by simp
  moreover have "(0::nat) < 128 ^ k" by simp
  ultimately show ?thesis unfolding word_le_nat_alt by linarith
qed

lemma vlen_max_v: "0 < k \<Longrightarrow> k \<le> 9 \<Longrightarrow> v \<le> ob_max_v k \<longleftrightarrow> vlen (unat v) \<le> k"
  by (simp add: max_v_le vlen_le_iff)

lemma encoded_length_vi64_vlen: "encoded_length_vi64 v = int (vlen (unat v))"
proof -
  have "unat v < 2 ^ LENGTH(64)" by (rule unsigned_less)
  then have "vlen (unat v) \<le> 10" by (simp add: vlen_le_iff)
  moreover have "0 < vlen (unat v)" using vlen_bounds by blast
  ultimately show ?thesis
    unfolding encoded_length_vi64_def by (simp add: vlen_max_v del: One_nat_def)
qed

lemma encoded_length_vi32_vlen: "encoded_length_vi32 v = int (vlen (unat v))"
proof -
  have "unat v < 2 ^ LENGTH(32)" by (rule unsigned_less)
  then have "vlen (unat v) \<le> 5" by (simp add: vlen_le_iff)
  moreover have "0 < vlen (unat v)" using vlen_bounds by blast
  moreover have "unat (ucast v :: u64) = unat v" by (simp add: unat_ucast_64)
  ultimately show ?thesis
    unfolding encoded_length_vi32_def Let_def by (simp add: vlen_max_v del: One_nat_def)
qed

lemma vi_put_leb:
  fixes v :: "'a::len word"
  assumes "8 \<le> LENGTH('a)" "LENGTH('a) \<le> 64" "0 \<le> p"
    "p + int (length bs) + int (vlen (unat v)) \<le> int (length m)" "q = p + int (length bs)"
  shows "\<exists>v' bs'. vi_put (put m p bs) q v
       = Some (put m p (bs @ bs'), q + int (length bs'), v')
      \<and> (ucast v' :: u64) \<le> ob_max_v 1
      \<and> bs' @ [ucast (v' AND 0x7f)] = leb (vlen (unat v)) (unat v)"
  using assms(3-)
proof (induction "unat v" arbitrary: v bs q rule: less_induct)
  case less
  have u: "unat (ucast v :: u64) = unat v" using assms by (simp add: unat_ucast_64)
  show ?case
  proof (cases "(ucast v :: u64) \<le> ob_max_v 1")
    case True
    with u have "unat v < 128" using max_v_le [of 1 "ucast v"] by simp
    moreover have "\<not> ob_max_v 1 < (ucast v :: u64)" using True by simp
    ultimately show ?thesis
      using assms True by (subst vi_put.simps) (simp add: vlen.simps [of "unat v"] group_byte)
  next
    case False
    with u have v: "\<not> unat v < 128" using max_v_le [of 1 "ucast v"] by simp
    let ?w = "drop_bit 7 v"
    have w: "unat ?w = unat v div 128" by (subst unat_drop_bit) simp
    have len: "vlen (unat v) = Suc (vlen (unat ?w))"
      using v by (simp add: vlen.simps [of "unat v"] w)
    have "vi_put (put m p bs) q v = vi_put (put m p (bs @ [ucast (v OR 0x80)])) (q + 1) ?w"
      using False less.prems len by (subst vi_put.simps) (simp add: mem_simps not_le)
    moreover obtain v' bs' where
      "vi_put (put m p (bs @ [ucast (v OR 0x80)])) (q + 1) ?w
        = Some (put m p ((bs @ [ucast (v OR 0x80)]) @ bs'), q + 1 + int (length bs'), v')"
      "(ucast v' :: u64) \<le> ob_max_v 1"
      "bs' @ [ucast (v' AND 0x7f)] = leb (vlen (unat ?w)) (unat ?w)"
      using less.hyps [of ?w "bs @ [ucast (v OR 0x80)]" "q + 1"] less.prems len v w by auto
    moreover have "\<exists>j. vlen (unat ?w) = Suc j" using vlen_bounds [of "unat ?w"] by (cases "vlen (unat ?w)") auto
    ultimately show ?thesis
      using len w assms(1) by (intro exI [of _ v'] exI [of _ "ucast (v OR 0x80) # bs'"]) (auto simp: group_byte)
  qed
qed

definition wire_vi :: "'a::len word \<Rightarrow> u8 list" where
  "wire_vi v = leb (vlen (unat v)) (unat v)"

lemma length_wire_vi [simp]: "length (wire_vi v) = vlen (unat v)"
  by (simp add: wire_vi_def)

lemma encode_vi64_eq:
  assumes "0 \<le> pos" and "buf_len \<le> int (length m)"
  shows "encode_vi64 (Some m) buf_len pos v =
    (if pos + int (vlen (unat v)) \<le> buf_len
     then Some (OB_SUCCESS, Some (put m pos (wire_vi v)), pos + int (vlen (unat v)))
     else Some (OB_SIZE_OVERFLOW, Some m, pos))"
proof (cases "pos + int (vlen (unat v)) \<le> buf_len")
  case True
  with vi_put_leb [of pos "[]" v m pos] assms obtain v' bs' where
    *: "vi_put m pos v = Some (put m pos bs', pos + int (length bs'), v')" "v' \<le> ob_max_v 1"
      "bs' @ [ucast (v' AND 0x7f)] = leb (vlen (unat v)) (unat v)" by auto
  have "length bs' + 1 = vlen (unat v)" using arg_cong [OF *(3), of length] by simp
  with * True assms show ?thesis
    by (simp add: encode_vi64_def encoded_length_vi64_vlen wire_vi_def mem_simps)
next
  case False
  then show ?thesis by (simp add: encode_vi64_def encoded_length_vi64_vlen)
qed

lemma encode_vi32_eq:
  assumes "0 \<le> pos" and "buf_len \<le> int (length m)"
  shows "encode_vi32 (Some m) buf_len pos v =
    (if pos + int (vlen (unat v)) \<le> buf_len
     then Some (OB_SUCCESS, Some (put m pos (wire_vi v)), pos + int (vlen (unat v)))
     else Some (OB_SIZE_OVERFLOW, Some m, pos))"
proof (cases "pos + int (vlen (unat v)) \<le> buf_len")
  case True
  with vi_put_leb [of pos "[]" v m pos] assms obtain v' bs' where
    *: "vi_put m pos v = Some (put m pos bs', pos + int (length bs'), v')"
      "(ucast v' :: u64) \<le> ob_max_v 1"
      "bs' @ [ucast (v' AND 0x7f)] = leb (vlen (unat v)) (unat v)" by auto
  have "length bs' + 1 = vlen (unat v)" using arg_cong [OF *(3), of length] by simp
  with * True assms show ?thesis
    by (simp add: encode_vi32_def encoded_length_vi32_vlen wire_vi_def mem_simps)
next
  case False
  then show ?thesis by (simp add: encode_vi32_def encoded_length_vi32_vlen)
qed

lemma decode_vi64_leb:
  assumes "holds m p (leb (Suc k) n)" and "n < 128 ^ Suc k" and "k \<le> 9" and "p + int k < data_len"
  shows "decode_vi64 (Some m) data_len p v0 = Some (OB_SUCCESS, p + int (Suc k), of_nat n)"
  using vi_get_leb [where 'a = 64, of m p k n 0 0 data_len] assms
  by (auto simp: decode_vi64_def algebra_simps)

lemma decode_vi32_leb:
  assumes "holds m p (leb (Suc k) n)" and "n < 128 ^ Suc k" and "k \<le> 4" and "p + int k < data_len"
  shows "decode_vi32 (Some m) data_len p v0 = Some (OB_SUCCESS, p + int (Suc k), of_nat n)"
  using vi_get_leb [where 'a = 32, of m p k n 0 0 data_len] assms
  by (auto simp: decode_vi32_def algebra_simps)

lemma vlen_bound:
  shows "vlen (unat (v :: u64)) \<le> 10" and "vlen (unat (w :: u32)) \<le> 5"
proof -
  have "unat v < 2 ^ LENGTH(64)" "unat w < 2 ^ LENGTH(32)" by (rule unsigned_less)+
  then show "vlen (unat v) \<le> 10" and "vlen (unat w) \<le> 5" by (simp_all add: vlen_le_iff)
qed

lemma vlen_pos: "0 < vlen n"
  using vlen_bounds by blast

lemma decode_vi64_wire:
  assumes "holds m pos (wire_vi v)" and "pos + int (vlen (unat v)) \<le> data_len"
  shows "decode_vi64 (Some m) data_len pos v0 = Some (OB_SUCCESS, pos + int (vlen (unat v)), v)"
proof -
  obtain k where k: "vlen (unat v) = Suc k" using vlen_pos [of "unat v"] by (cases "vlen (unat v)") auto
  with vlen_bounds [of "unat v"] have "unat v < 128 ^ Suc k" by simp
  with assms k vlen_bound(1) [of v] decode_vi64_leb [of m pos k "unat v" data_len v0]
  show ?thesis by (simp add: wire_vi_def)
qed

lemma decode_vi32_wire:
  assumes "holds m pos (wire_vi v)" and "pos + int (vlen (unat v)) \<le> data_len"
  shows "decode_vi32 (Some m) data_len pos v0 = Some (OB_SUCCESS, pos + int (vlen (unat v)), v)"
proof -
  obtain k where k: "vlen (unat v) = Suc k" using vlen_pos [of "unat v"] by (cases "vlen (unat v)") auto
  with vlen_bounds [of "unat v"] have "unat v < 128 ^ Suc k" by simp
  with assms k vlen_bound(2) [of v] decode_vi32_leb [of m pos k "unat v" data_len v0]
  show ?thesis by (simp add: wire_vi_def)
qed

lemma ten_bytes_loop_leb:
  assumes "0 \<le> p" and "q = p + int (length bs)" and "q + int (Suc k) \<le> int (length m)"
  shows "ten_bytes_loop (Suc k) (put m p bs) q v
    = Some (put m p (bs @ leb (Suc k) (unat v)), q + int (Suc k), drop_bit (7 * k) v)"
  using assms
proof (induction k arbitrary: bs q v)
  case 0
  then show ?case by (simp add: mem_simps group_byte)
next
  case (Suc k)
  have "unat (drop_bit 7 v) = unat v div 128" by (subst unat_drop_bit) simp
  with Suc.prems Suc.IH [of "q + 1" "bs @ [ucast (v OR 0x80)]" "drop_bit 7 v"]
  show ?case by (simp add: mem_simps group_byte algebra_simps)
qed

lemma with_len_loop_leb:
  assumes "0 \<le> p" and "q = p + int (length bs)" and "q + int n \<le> int (length m)"
  shows "\<exists>v' bs'. with_len_loop n (put m p bs) q v = Some (put m p (bs @ bs'), q + int n, v')
    \<and> unat v' = unat v div 128 ^ n \<and> bs' @ [ucast (v' AND 0x7f)] = leb (Suc n) (unat v)"
  using assms
proof (induction n arbitrary: bs q v)
  case 0
  then show ?case by (simp add: group_byte)
next
  case (Suc n)
  let ?w = "if v \<le> ob_max_v 1 then 0 else drop_bit 7 v"
  have d: "unat (drop_bit 7 v) = unat v div 128" by (subst unat_drop_bit) simp
  have w: "unat ?w = unat v div 128"
    using max_v_le [of 1 v] d by (simp del: One_nat_def)
  from Suc.prems Suc.IH [of "q + 1" "bs @ [ucast (v OR 0x80)]" ?w] obtain v' bs' where
    "with_len_loop n (put m p (bs @ [ucast (v OR 0x80)])) (q + 1) ?w
      = Some (put m p ((bs @ [ucast (v OR 0x80)]) @ bs'), q + 1 + int n, v')"
    "unat v' = unat ?w div 128 ^ n" "bs' @ [ucast (v' AND 0x7f)] = leb (Suc n) (unat ?w)" by auto
  with Suc.prems w show ?case
    by (intro exI [of _ v'] exI [of _ "ucast (v OR 0x80) # bs'"])
      (simp add: mem_simps group_byte div_mult2_eq algebra_simps)
qed

section \<open>The codecs\<close>

lemma holds_length: "holds m p bs \<Longrightarrow> p + int (length bs) \<le> int (length m)"
  by (simp add: holds_bounds)

interpretation vi64: strict_codec encode_vi64 decode_vi64 wire_vi "\<lambda>_. True"
  by unfold_locales (simp_all add: encode_vi64_eq decode_vi64_wire)

interpretation vi32: strict_codec encode_vi32 decode_vi32 wire_vi "\<lambda>_. True"
  by unfold_locales (simp_all add: encode_vi32_eq decode_vi32_wire)

interpretation floatc: strict_codec encode_float decode_float wire_vi "\<lambda>_. True"
  by unfold_locales
    (simp_all add: encode_float_def decode_float_def encode_vi32_eq decode_vi32_wire)

interpretation doublec: strict_codec encode_double decode_double wire_vi "\<lambda>_. True"
  by unfold_locales
    (simp_all add: encode_double_def decode_double_def encode_vi64_eq decode_vi64_wire)

text \<open>The ten-byte form is read by the same decoder.\<close>

lemma encode_ten_bytes_i64_eq:
  assumes "0 \<le> pos" and "buf_len \<le> int (length m)"
  shows "encode_ten_bytes_i64 (Some m) buf_len pos v =
    (if pos + 10 \<le> buf_len
     then Some (OB_SUCCESS, Some (put m pos (leb 10 (unat v))), pos + 10)
     else Some (OB_SIZE_OVERFLOW, Some m, pos))"
  using assms ten_bytes_loop_leb [of pos pos "[]" 9 m v]
  by (simp add: encode_ten_bytes_i64_def del: ten_bytes_loop.simps)

lemma decode_vi64_ten_bytes:
  assumes "holds m pos (leb 10 (unat v))" and "pos + 10 \<le> data_len"
  shows "decode_vi64 (Some m) data_len pos v0 = Some (OB_SUCCESS, pos + 10, v)"
proof -
  have "unat v < 2 ^ LENGTH(64)" by (rule unsigned_less)
  then show ?thesis
    using decode_vi64_leb [of m pos 9 "unat v" data_len v0] assms by simp
qed

interpretation ten: strict_codec encode_ten_bytes_i64 decode_vi64 "\<lambda>v. leb 10 (unat v)" "\<lambda>_. True"
  by unfold_locales (simp_all add: encode_ten_bytes_i64_eq decode_vi64_ten_bytes)

lemma vlen_le_Suc: "int (vlen x) \<le> len \<Longrightarrow> \<exists>n. nat len = Suc n \<and> len = int n + 1"
  using vlen_pos [of x] by (intro exI [of _ "nat (len - 1)"]) linarith

text \<open>The form padded to a length of the caller's choice, when that length fits the buffer.\<close>

lemma encode_with_len_vi64_eq:
  assumes "0 \<le> pos" and "buf_len \<le> int (length m)" and "int (vlen (unat v)) \<le> len"
    and "pos + len \<le> buf_len"
  shows "encode_with_len_vi64 (Some m) buf_len pos v len
    = Some (OB_SUCCESS, Some (put m pos (leb (nat len) (unat v))), pos + len)"
proof -
  obtain n where n: "nat len = Suc n" "len = int n + 1"
    using vlen_le_Suc [OF assms(3)] by blast
  from with_len_loop_leb [of pos pos "[]" n m v] assms n obtain v' bs' where
    *: "with_len_loop n m pos v = Some (put m pos bs', pos + int n, v')"
      "unat v' = unat v div 128 ^ n" "bs' @ [ucast (v' AND 0x7f)] = leb (Suc n) (unat v)" by auto
  have l: "length bs' = n" using arg_cong [OF *(3), of length] by simp
  have "unat v < 128 ^ Suc n"
    using assms(3) n vlen_le_iff [of "Suc n" "unat v"] by auto
  then have "unat v' < 128" using * by (simp add: div_less_iff_less_mult mult.commute)
  then have "v' \<le> ob_max_v 1" by (simp add: max_v_le del: One_nat_def)
  with * l n assms show ?thesis
    by (simp add: encode_with_len_vi64_def encoded_length_vi64_vlen mem_simps)
qed

lemma decode_vi64_with_len:
  assumes "holds m pos (leb (nat len) (unat v))" and "int (vlen (unat v)) \<le> len" and "len \<le> 10"
    and "pos + len \<le> data_len"
  shows "decode_vi64 (Some m) data_len pos v0 = Some (OB_SUCCESS, pos + len, v)"
proof -
  obtain n where n: "nat len = Suc n" "len = int n + 1"
    using vlen_le_Suc [OF assms(2)] by blast
  have "unat v < 128 ^ Suc n"
    using assms(2) n vlen_le_iff [of "Suc n" "unat v"] by auto
  with decode_vi64_leb [of m pos n "unat v" data_len v0] assms n show ?thesis by auto
qed

text \<open>The guard compares the buffer with the needed length, not with the requested one.\<close>

lemma with_len_loop_overrun:
  "0 \<le> q \<Longrightarrow> q \<le> int (length m) \<Longrightarrow> int (length m) < q + int n \<Longrightarrow> with_len_loop n m q v = None"
proof (induction n arbitrary: m q v)
  case 0
  then show ?case by simp
next
  case (Suc n)
  show ?case
  proof (cases "q < int (length m)")
    case True
    with Suc.prems show ?thesis by (simp add: wr_put1 Suc.IH)
  next
    case False
    then show ?thesis by (simp add: wr_def)
  qed
qed

lemma encode_with_len_vi64_overrun:
  assumes "0 \<le> pos" and "pos + int (vlen (unat v)) \<le> buf_len" and "buf_len \<le> int (length m)"
    and "int (length m) < pos + len"
  shows "encode_with_len_vi64 (Some m) buf_len pos v len = None"
proof -
  have len: "int (vlen (unat v)) \<le> len" using assms by linarith
  obtain n where n: "nat len = Suc n" "len = int n + 1"
    using vlen_le_Suc [OF len] by blast
  show ?thesis
  proof (cases "int (length m) < pos + int n")
    case True
    with assms n len with_len_loop_overrun [of pos m n v] show ?thesis
      by (simp add: encode_with_len_vi64_def encoded_length_vi64_vlen)
  next
    case False
    with with_len_loop_leb [of pos pos "[]" n m v] assms n obtain v' bs' where
      *: "with_len_loop n m pos v = Some (put m pos bs', pos + int n, v')"
        "unat v' = unat v div 128 ^ n" "bs' @ [ucast (v' AND 0x7f)] = leb (Suc n) (unat v)" by auto
    have l: "length bs' = n" using arg_cong [OF *(3), of length] by simp
    have "unat v < 128 ^ Suc n"
      using len n vlen_le_iff [of "Suc n" "unat v"] by auto
    then have "unat v' < 128" using * by (simp add: div_less_iff_less_mult mult.commute)
    then have "v' \<le> ob_max_v 1" by (simp add: max_v_le del: One_nat_def)
    with * l n assms len False show ?thesis
      by (simp add: encode_with_len_vi64_def encoded_length_vi64_vlen wr_def)
  qed
qed

text \<open>
  A run of continuation bytes that reaches the end of the declared data.  The verdict depends on
  whether the object goes on: if it does, the extra byte is read and the data is refused; if the
  data ends with its object, the read is outside it.
\<close>

lemma vi_get_run:
  fixes v :: "'a::len word"
  assumes "\<forall>i < k. \<exists>b. rd m (p + int i) = Some b \<and> b AND 0x80 \<noteq> 0"
    and "s + 7 * k \<le> LENGTH('a) + 6" and "p + int k = data_len"
  shows "case vi_get m data_len p v s of
      None \<Rightarrow> rd m data_len = None
    | Some (ret, tmp_pos, _, _) \<Rightarrow> rd m data_len \<noteq> None \<and> tmp_pos = data_len
        \<and> (ret = OB_SUCCESS \<or> ret = OB_DESERIALIZE_ERROR)"
  using assms
proof (induction k arbitrary: p v s)
  case 0
  then show ?case by (subst vi_get.simps) (cases "rd m data_len"; simp)
next
  case (Suc k)
  from Suc.prems(1) obtain b where b: "rd m p = Some b" "b AND 0x80 \<noteq> 0" by fastforce
  have "\<forall>i < k. \<exists>b. rd m (p + 1 + int i) = Some b \<and> b AND 0x80 \<noteq> 0"
  proof (intro allI impI)
    fix i assume "i < k"
    with Suc.prems(1) have "\<exists>b. rd m (p + int (Suc i)) = Some b \<and> b AND 0x80 \<noteq> 0" by blast
    then show "\<exists>b. rd m (p + 1 + int i) = Some b \<and> b AND 0x80 \<noteq> 0" by (simp add: add.assoc)
  qed
  from Suc.IH [OF this, of "s + 7"] Suc.prems b show ?case
    by (subst vi_get.simps) (simp add: add.assoc)
qed

lemma decode_vi64_run:
  assumes "\<forall>i < k. \<exists>b. rd m (pos + int i) = Some b \<and> b AND 0x80 \<noteq> 0"
    and "k \<le> 10" and "pos + int k = data_len"
  shows "decode_vi64 (Some m) data_len pos v0 =
    (if rd m data_len = None then None else Some (OB_DESERIALIZE_ERROR, pos, v0))"
  using vi_get_run [where 'a = 64, of k m pos 0 data_len 0] assms
  by (auto simp: decode_vi64_def split: option.splits prod.splits)

end
