(* ===== verification/SerialStr.thy ===== *)
theory SerialStr
  imports SerialInt SerialVarint
begin

text \<open>
  The strings of \<open>src/src/lib/utility/serialization.h\<close>: \<open>vstr\<close> (a variable-length integer, the
  bytes, a terminating zero), the type-tagged \<open>str\<close>, and raw bytes.

  A source buffer (\<open>const void *vbuf\<close>) is a \<open>cbuf\<close> of its own.  A decoder that returns a pointer
  into its input returns the offset of that pointer, \<open>None\<close> for the null pointer.
\<close>

section \<open>Length-prefixed, zero-terminated strings\<close>

definition encoded_length_vstr :: "int \<Rightarrow> int" where
  "encoded_length_vstr len = encoded_length_vi64 (word_of_int len) + len + 1"

definition encoded_length_vstr_c :: "cbuf \<Rightarrow> int option" where
  "encoded_length_vstr_c str =
     (case str of
        None \<Rightarrow> Some (encoded_length_vstr 0)
      | Some s \<Rightarrow> map_option (\<lambda>n. encoded_length_vstr (n + 1)) (c_strlen s))"

definition decoded_length_vstr :: "cbuf \<Rightarrow> int \<Rightarrow> int \<Rightarrow> int option" where
  "decoded_length_vstr buf data_len pos =
     (if buf = None \<or> data_len < 0 \<or> pos < 0 then Some (- 1)
      else do {
        (ret, tmp_pos, len) \<leftarrow> decode_vi64 buf data_len pos (- 1);
        Some (if ret \<noteq> OB_SUCCESS then - 1 else sint len)
      })"

definition encode_vstr :: "cbuf \<Rightarrow> int \<Rightarrow> int \<Rightarrow> cbuf \<Rightarrow> int \<Rightarrow> enc_res" where
  "encode_vstr buf buf_len pos vbuf len =
     (if buf \<noteq> None \<and> len \<ge> 0
         \<and> buf_len - pos \<ge> sint (word_of_int (encoded_length_vstr len) :: i32)
      then do {
        (ret, buf, pos) \<leftarrow> encode_vi64 buf buf_len pos (word_of_int len);
        m \<leftarrow> buf;
        (m, pos) \<leftarrow>
          (if ret = OB_SUCCESS \<and> len > 0 \<and> vbuf \<noteq> None then do {
             vb \<leftarrow> vbuf;
             bs \<leftarrow> rd_bytes vb 0 len;
             m \<leftarrow> wr_bytes m pos bs;
             Some (m, pos + len)
           } else Some (m, pos));
        m \<leftarrow> wr m pos 0;
        Some (ret, Some m, pos + 1)
      } else Some (OB_SIZE_OVERFLOW, buf, pos))"

definition encode_vstr_c :: "cbuf \<Rightarrow> int \<Rightarrow> int \<Rightarrow> cbuf \<Rightarrow> enc_res" where
  "encode_vstr_c buf buf_len pos s =
     (case s of
        None \<Rightarrow> encode_vstr buf buf_len pos None 0
      | Some vb \<Rightarrow> do {
          n \<leftarrow> c_strlen vb;
          encode_vstr buf buf_len pos (Some vb) (n + 1)
        })"

text \<open>The results are the returned pointer, \<open>pos\<close> and \<open>*lenp\<close>; \<open>lenp\<close> itself may be null.\<close>

definition decode_vstr ::
    "cbuf \<Rightarrow> int \<Rightarrow> int \<Rightarrow> int option \<Rightarrow> (int option \<times> int \<times> int option) option" where
  "decode_vstr buf data_len pos lenp =
     (if buf = None \<or> data_len < 0 \<or> pos < 0 \<or> lenp = None then Some (None, pos, lenp)
      else do {
        (ret, tmp_pos, tmp_len) \<leftarrow> decode_vi64 buf data_len pos 0;
        let tmp_len = sint tmp_len;
        if ret \<noteq> OB_SUCCESS then Some (None, pos, Some (- 1))
        else if tmp_len \<ge> 0 then
          if data_len - tmp_pos \<ge> tmp_len
          then Some (Some tmp_pos, tmp_pos + (tmp_len + 1), Some tmp_len)
          else Some (None, pos, Some (- 1))
        else Some (None, pos, lenp)
      })"

definition decode_vstr_copy ::
    "cbuf \<Rightarrow> int \<Rightarrow> int \<Rightarrow> cbuf \<Rightarrow> int \<Rightarrow> int option
       \<Rightarrow> (int option \<times> int \<times> cbuf \<times> int option) option" where
  "decode_vstr_copy buf data_len pos dest buf_len lenp =
     (if buf = None \<or> data_len < 0 \<or> pos < 0 \<or> dest = None \<or> buf_len < 0 \<or> lenp = None
      then Some (None, pos, dest, lenp)
      else do {
        (ret, tmp_pos, tmp_len) \<leftarrow> decode_vi64 buf data_len pos 0;
        let tmp_len = sint tmp_len;
        if ret \<noteq> OB_SUCCESS \<or> tmp_len > buf_len then Some (None, pos, dest, Some (- 1))
        else if tmp_len \<ge> 0 then
          if data_len - tmp_pos \<ge> tmp_len then do {
            m \<leftarrow> buf;
            d \<leftarrow> dest;
            bs \<leftarrow> rd_bytes m tmp_pos tmp_len;
            d \<leftarrow> wr_bytes d 0 bs;
            Some (Some tmp_pos, tmp_pos + (tmp_len + 1), Some d, Some tmp_len)
          }
          else Some (None, pos, dest, Some (- 1))
        else Some (None, pos, dest, lenp)
      })"

section \<open>Tagged strings\<close>

definition encoded_length_str_len :: "int \<Rightarrow> int" where
  "encoded_length_str_len len =
     (if len < 0 then - 1
      else if len \<le> 55 then 1
      else if len \<le> 0xff then 2
      else if len \<le> 0xffff then 3
      else if len \<le> 0xffffff then 4
      else if len \<le> 0xffffffff then 5
      else - 1)"

definition encoded_length_str :: "int \<Rightarrow> int" where
  "encoded_length_str len = encoded_length_str_len len + len"

fun str_len_put :: "cbuf \<Rightarrow> int \<Rightarrow> int \<Rightarrow> int \<Rightarrow> nat \<Rightarrow> nat \<Rightarrow> enc_res" where
  "str_len_put buf buf_len pos len n 0 = Some (OB_SUCCESS, buf, pos)"
| "str_len_put buf buf_len pos len n (Suc r) = do {
     (ret, buf, pos) \<leftarrow> encode_i8 buf buf_len pos (word_of_int (drop_bit (8 * n) len));
     if ret \<noteq> OB_SUCCESS then Some (ret, buf, pos)
     else str_len_put buf buf_len pos len (Suc n) r
   }"

definition OB_VARCHAR_TYPE :: i8 where "OB_VARCHAR_TYPE = 0x80"

definition encode_str :: "cbuf \<Rightarrow> int \<Rightarrow> int \<Rightarrow> cbuf \<Rightarrow> int \<Rightarrow> enc_res" where
  "encode_str buf buf_len pos vbuf len =
     (let len_size = encoded_length_str_len len in
      if buf = None \<or> len_size < 0 \<or> buf_len - pos < len_size + len \<or> pos < 0 \<or> len < 0
      then Some (OB_SIZE_OVERFLOW, buf, pos)
      else do {
        let first_byte =
          (if len_size = 1 then word_of_int (sint OB_VARCHAR_TYPE OR (len AND 0xff))
           else word_of_int (sint OB_VARCHAR_TYPE OR (len_size - 1 + 55)));
        (ret, buf, pos) \<leftarrow> encode_i8 buf buf_len pos first_byte;
        (ret, buf, pos) \<leftarrow>
          (if ret \<noteq> OB_SUCCESS then Some (OB_SIZE_OVERFLOW, buf, pos)
           else if len_size > 1 then str_len_put buf buf_len pos len 0 (nat (len_size - 1))
           else Some (ret, buf, pos));
        if ret = OB_SUCCESS \<and> vbuf \<noteq> None \<and> len > 0 then do {
          m \<leftarrow> buf;
          vb \<leftarrow> vbuf;
          bs \<leftarrow> rd_bytes vb 0 len;
          m \<leftarrow> wr_bytes m pos bs;
          Some (ret, Some m, pos + len)
        } else Some (ret, buf, pos)
      })"

definition encode_raw_buf :: "cbuf \<Rightarrow> int \<Rightarrow> int \<Rightarrow> cbuf \<Rightarrow> int \<Rightarrow> enc_res" where
  "encode_raw_buf buf buf_len pos rbuf len =
     (if buf = None \<or> buf_len - pos < len then Some (OB_SIZE_OVERFLOW, buf, pos)
      else if rbuf = None \<and> len > 0 \<or> len < 0 \<or> pos < 0 then Some (OB_INVALID_ARGUMENT, buf, pos)
      else if len = 0 \<or> rbuf = None then Some (OB_SUCCESS, buf, pos)
      else do {
        m \<leftarrow> buf;
        vb \<leftarrow> rbuf;
        bs \<leftarrow> rd_bytes vb 0 len;
        m \<leftarrow> wr_bytes m pos bs;
        Some (OB_SUCCESS, Some m, pos + len)
      })"

text \<open>The result is the code of the last byte read, the position and \<open>str_len\<close>.\<close>

fun str_len_get :: "cbuf \<Rightarrow> int \<Rightarrow> int \<Rightarrow> i64 \<Rightarrow> nat \<Rightarrow> nat \<Rightarrow> i64 dec_res" where
  "str_len_get buf data_len pos str_len n 0 = Some (OB_SUCCESS, pos, str_len)"
| "str_len_get buf data_len pos str_len n (Suc r) = do {
     (ret, pos, tmp) \<leftarrow> decode_i8 buf data_len pos 0;
     if ret \<noteq> OB_SUCCESS then Some (ret, pos, - 1)
     else str_len_get buf data_len pos (str_len OR push_bit (8 * n) (ucast tmp)) (Suc n) r
   }"

text \<open>The results are the returned pointer, \<open>pos\<close> and \<open>lenp\<close>.\<close>

definition decode_str ::
    "cbuf \<Rightarrow> int \<Rightarrow> i8 \<Rightarrow> int \<Rightarrow> i32 \<Rightarrow> (int option \<times> int \<times> i32) option" where
  "decode_str buf data_len first_byte pos lenp =
     (if buf = None \<or> data_len < 0 then Some (None, pos, lenp)
      else do {
        let len_or_value = first_byte AND 0x3f;
        (ret, pos, str_len) \<leftarrow>
          (if sint len_or_value \<le> 55 then Some (OB_SUCCESS, pos, scast len_or_value)
           else str_len_get buf data_len pos 0 0 (nat (sint len_or_value - 55)));
        if ret = OB_SUCCESS \<and> sint str_len \<ge> 0 \<and> data_len - pos \<ge> sint str_len
        then Some (Some pos, pos + sint str_len, ucast str_len)
        else Some (None, pos, - 1)
      })"

section \<open>The \<open>vstr\<close> format\<close>

definition wire_vstr :: "u8 list \<Rightarrow> u8 list" where
  "wire_vstr bs = wire_vi (of_nat (length bs) :: u64) @ bs @ [0]"

lemma unat_of_nat_64: "n < 2 ^ 31 \<Longrightarrow> unat (of_nat n :: u64) = n"
  by (simp add: unat_of_nat take_bit_nat_eq_self)

lemma vlen_31: "n < 2 ^ 31 \<Longrightarrow> vlen n \<le> 5"
  by (simp add: vlen_le_iff)

lemma length_wire_vstr:
  "length bs < 2 ^ 31 \<Longrightarrow> length (wire_vstr bs) = vlen (length bs) + length bs + 1"
  by (simp add: wire_vstr_def unat_of_nat_64 [simplified])

lemma encoded_length_vstr_eq:
  "length bs < 2 ^ 31 \<Longrightarrow> encoded_length_vstr (int (length bs)) = int (length (wire_vstr bs))"
  using unat_of_nat_64 [of "length bs"]
  by (simp add: encoded_length_vstr_def encoded_length_vi64_vlen length_wire_vstr [simplified])

lemma sint_i32_small: "0 \<le> n \<Longrightarrow> n < 2 ^ 31 \<Longrightarrow> sint (word_of_int n :: i32) = n"
  by (simp add: signed_of_int signed_take_bit_int_eq_self)

lemma encode_vstr_eq:
  assumes "length bs < 2 ^ 31 - 6" and "0 \<le> pos" and "buf_len \<le> int (length m)"
  shows "encode_vstr (Some m) buf_len pos (Some bs) (int (length bs)) =
    (if pos + int (length (wire_vstr bs)) \<le> buf_len
     then Some (OB_SUCCESS, Some (put m pos (wire_vstr bs)), pos + int (length (wire_vstr bs)))
     else Some (OB_SIZE_OVERFLOW, Some m, pos))"
proof -
  let ?n = "length bs"
  have n: "?n < 2 ^ 31" using assms(1) by simp
  have lw: "length (wire_vstr bs) = vlen ?n + ?n + 1"
    using n by (rule length_wire_vstr)
  then have len: "sint (word_of_int (encoded_length_vstr (int ?n)) :: i32) = int (length (wire_vstr bs))"
    using assms(1) vlen_31 [OF n] unfolding encoded_length_vstr_eq [OF n]
    by (intro sint_i32_small) simp_all
  have u: "unat (of_nat ?n :: u64) = ?n" using n by (rule unat_of_nat_64)
  have rb: "rd_bytes bs 0 (int ?n) = Some bs" by (simp add: rd_bytes_def)
  show ?thesis
    using assms(2,3)
    by (simp add: encode_vstr_def len encode_vi64_eq lw u rb mem_simps wire_vstr_def)
qed

lemma decode_vstr_head:
  assumes "holds m pos (wire_vi (of_nat n :: u64))" and "pos + int (vlen n) \<le> data_len"
    and "n < 2 ^ 31" and "0 \<le> pos"
  shows "decode_vstr (Some m) data_len pos (Some l) =
    (if pos + int (vlen n) + int n \<le> data_len
     then Some (Some (pos + int (vlen n)), pos + int (vlen n) + int n + 1, Some (int n))
     else Some (None, pos, Some (- 1)))"
proof -
  have u: "unat (of_nat n :: u64) = n" using assms(3) by (rule unat_of_nat_64)
  have s: "sint (of_nat n :: u64) = int n"
    using assms(3) by (simp add: signed_of_nat signed_take_bit_int_eq_self)
  have d: "decode_vi64 (Some m) data_len pos 0 = Some (OB_SUCCESS, pos + int (vlen n), of_nat n)"
    using decode_vi64_wire [OF assms(1), of data_len 0] assms(2) unfolding u by simp
  have "0 \<le> data_len" using assms(2,4) by simp
  moreover have "tl - p \<ge> k \<longleftrightarrow> p + k \<le> tl" for tl p k :: int by linarith
  ultimately show ?thesis
    using assms(4) by (simp add: decode_vstr_def d s Let_def)
qed

text \<open>The terminating zero is not looked at: data that ends before it is accepted, and \<open>pos\<close> is
  left behind the end of the data.\<close>

lemma decode_vstr_wire:
  assumes "holds m pos (wire_vi (of_nat (length bs) :: u64) @ bs)" and "length bs < 2 ^ 31"
    and "pos + int (vlen (length bs) + length bs) \<le> data_len"
  shows "decode_vstr (Some m) data_len pos (Some l) =
      Some (Some (pos + int (vlen (length bs))), pos + int (vlen (length bs) + length bs + 1),
            Some (int (length bs)))"
    and "rd_bytes m (pos + int (vlen (length bs))) (int (length bs)) = Some bs"
proof -
  have h: "holds m pos (wire_vi (of_nat (length bs) :: u64))"
    "holds m (pos + int (vlen (length bs))) bs"
    using assms(1) unat_of_nat_64 [OF assms(2)] by (simp_all add: holds_append)
  have "0 \<le> pos" using holds_bounds [OF assms(1)] by simp
  with decode_vstr_head [OF h(1) _ assms(2), of data_len l] assms(3)
  show "decode_vstr (Some m) data_len pos (Some l) =
      Some (Some (pos + int (vlen (length bs))), pos + int (vlen (length bs) + length bs + 1),
            Some (int (length bs)))"
    by (simp add: add_ac)
  show "rd_bytes m (pos + int (vlen (length bs))) (int (length bs)) = Some bs"
    using h(2) by (rule rd_bytes_holds)
qed

text \<open>The pair of functions as a codec: what a caller gets is the bytes behind the returned pointer.\<close>

definition vstr_value :: "cbuf \<Rightarrow> int \<Rightarrow> int \<Rightarrow> u8 list \<Rightarrow> u8 list dec_res" where
  "vstr_value buf data_len pos bs = do {
     (ptr, pos, lenp) \<leftarrow> decode_vstr buf data_len pos (Some 0);
     case ptr of
       None \<Rightarrow> Some (OB_DESERIALIZE_ERROR, pos, bs)
     | Some p \<Rightarrow> do {
         m \<leftarrow> buf;
         len \<leftarrow> lenp;
         bs \<leftarrow> rd_bytes m p len;
         Some (OB_SUCCESS, pos, bs)
       }
   }"

interpretation vstr: strict_codec
    "\<lambda>buf buf_len pos bs. encode_vstr buf buf_len pos (Some bs) (int (length bs))"
    vstr_value wire_vstr "\<lambda>bs. length bs < 2 ^ 31 - 6"
proof (unfold_locales, goal_cases)
  case (1 v pos buf_len m)
  then show ?case by (simp add: encode_vstr_eq [simplified])
next
  case (2 v pos buf_len m)
  then show ?case by (simp add: encode_vstr_eq [simplified])
next
  case (3 v m pos data_len v0)
  then have n: "length v < 2 ^ 31" by simp
  have "holds m pos (wire_vi (of_nat (length v) :: u64) @ v)"
    using 3(2) by (simp add: wire_vstr_def holds_append)
  with decode_vstr_wire(1) [of m pos v data_len 0] decode_vstr_wire(2) [of m pos v data_len] n 3(3) length_wire_vstr [OF n]
  show ?case by (simp add: vstr_value_def)
next
  case (4 v pos buf_len m)
  then show ?case by (simp add: encode_vstr_eq [simplified])
qed

text \<open>Whatever the input, a returned pointer addresses bytes inside the declared data.\<close>

lemma vi_get_pos:
  "vi_get m data_len p (v :: 'a::len word) s = Some (ret, q, v', s') \<Longrightarrow> p \<le> q"
proof (induction m data_len p v s rule: vi_get.induct)
  case (1 m data_len p v s)
  obtain b where b: "rd m p = Some b"
    using 1(2) by (auto simp: vi_get.simps [of m data_len p] Option.bind_eq_Some_conv)
  show ?case
  proof (cases "b AND 0x80 \<noteq> 0 \<and> \<not> data_len - p < 1 \<and> \<not> LENGTH('a) \<le> s")
    case True
    then have "vi_get m data_len (p + 1) (v OR push_bit s (scast b AND 0x7f)) (s + 7)
        = Some (ret, q, v', s')"
      using 1(2) by (simp add: vi_get.simps [of m data_len p] b)
    then have "p + 1 \<le> q" using 1(1) [OF b] True by blast
    then show ?thesis by simp
  next
    case False
    then show ?thesis
      using 1(2) by (auto simp: vi_get.simps [of m data_len p] b split: if_splits)
  qed
qed

lemma decode_vi64_pos:
  assumes "decode_vi64 buf data_len pos v0 = Some (ret, q, v)"
  shows "ret = OB_SUCCESS \<Longrightarrow> pos < q \<and> q \<le> data_len" and "ret \<noteq> OB_SUCCESS \<Longrightarrow> q = pos \<and> v = v0"
  using assms
  by (auto simp: decode_vi64_def Option.bind_eq_Some_conv dest!: vi_get_pos split: if_splits)

text \<open>The loop ends when a byte without the continuation bit comes soon enough.\<close>

lemma vi_get_ends:
  fixes v :: "'a::len word"
  shows "rd m (p + int k) = Some b \<Longrightarrow> b AND 0x80 = 0 \<Longrightarrow> 0 \<le> p \<Longrightarrow> p + int k \<le> data_len \<Longrightarrow> s + 7 * k \<le> LENGTH('a) + 6 \<Longrightarrow>
    \<exists>ret q v' s' b'. vi_get m data_len p v s = Some (ret, q, v', s') \<and> s' \<le> s + 7 * k \<and> rd m q = Some b'"
proof (induction k arbitrary: p v s)
  case 0
  then show ?case by (simp add: vi_get.simps)
next
  case (Suc k)
  obtain a where a: "rd m p = Some a" using Suc.prems(1,3) by (auto simp: rd_def split: if_splits)
  show ?case
  proof (cases "a AND 0x80 = 0")
    case True
    with a show ?thesis by (subst vi_get.simps) simp
  next
    case False
    let ?v = "v OR push_bit s ((scast a :: 'a word) AND 0x7f)"
    have "p + 1 + int k = p + int (Suc k)" by simp
    then have "rd m (p + 1 + int k) = Some b" using Suc.prems(1) by (simp only:)
    from Suc.IH [OF this, of "s + 7" ?v] Suc.prems
    obtain ret q v' s' b' where "vi_get m data_len (p + 1) ?v (s + 7) = Some (ret, q, v', s')" "s' \<le> s + 7 * Suc k" "rd m q = Some b'"
      by auto
    then show ?thesis using a False Suc.prems(4,5) by (subst vi_get.simps) simp
  qed
qed

lemma decode_vstr_defined:
  assumes "rd m (pos + int k) = Some b" and "b AND 0x80 = 0" and "0 \<le> pos" and "pos + int k \<le> data_len" and "k \<le> 9"
  shows "decode_vstr (Some m) data_len pos lenp \<noteq> None"
proof -
  from vi_get_ends [where v = "0 :: u64" and s = 0, OF assms(1-4)] assms(5)
  obtain ret q v s b' where "vi_get m data_len pos (0 :: u64) 0 = Some (ret, q, v, s)" "s \<le> 7 * k" "rd m q = Some b'" by auto
  moreover have "\<not> 64 \<le> s" using calculation(2) assms(5) by simp
  ultimately show ?thesis by (simp add: decode_vstr_def decode_vi64_def Let_def)
qed

lemma decode_vstr_inside:
  assumes "decode_vstr buf data_len pos lenp = Some (Some p, pos', l)"
  shows "\<exists>n. l = Some n \<and> 0 \<le> n \<and> pos < p \<and> p + n \<le> data_len \<and> pos' = p + n + 1"
  using assms
  by (auto simp: decode_vstr_def Option.bind_eq_Some_conv Let_def dest!: decode_vi64_pos(1) split: if_splits)

lemma decode_vstr_refused:
  assumes "decode_vstr buf data_len pos lenp = Some (None, pos', l)"
  shows "pos' = pos"
  using assms
  by (auto simp: decode_vstr_def Option.bind_eq_Some_conv Let_def split: if_splits)

text \<open>The guard of the encoder compares with a length cut to 32 bits: for a string of \<open>2 ^ 31\<close> bytes
  the needed room is negative there, and the copy leaves the buffer.\<close>

lemma vlen_2_31: "vlen (2 ^ 31) = 5"
  by (simp add: vlen.simps)

lemma encode_vstr_truncated_guard:
  assumes "length vb = 2 ^ 31" and "0 \<le> pos" and "pos + 5 \<le> buf_len" and "buf_len \<le> int (length m)"
    and "int (length m) < pos + 2 ^ 31"
  shows "encode_vstr (Some m) buf_len pos (Some vb) (2 ^ 31) = None"
proof -
  have u: "unat (2147483648 :: u64) = 2 ^ 31" by simp
  then have v: "vlen (unat (2147483648 :: u64)) = 5" by (simp only: vlen_2_31)
  then have "encoded_length_vstr (2 ^ 31) = 2147483654"
    by (simp add: encoded_length_vstr_def encoded_length_vi64_vlen)
  then have g: "sint (word_of_int (encoded_length_vstr (2 ^ 31)) :: i32) = - 2147483642"
    by (simp add: sint_uint)
  show ?thesis
    using assms g v
    by (simp add: encode_vstr_def encode_vi64_eq rd_bytes_def wr_bytes_def)
qed

section \<open>The \<open>str\<close> format\<close>

definition str_len_bytes :: "nat \<Rightarrow> nat" where
  "str_len_bytes n =
     (if n \<le> 55 then 0 else if n \<le> 0xff then 1 else if n \<le> 0xffff then 2
      else if n \<le> 0xffffff then 3 else 4)"

definition str_tag :: "nat \<Rightarrow> u8" where
  "str_tag n = 0x80 OR of_nat (if n \<le> 55 then n else 55 + str_len_bytes n)"

definition wire_str :: "u8 list \<Rightarrow> u8 list" where
  "wire_str bs =
     str_tag (length bs) # wire_le (str_len_bytes (length bs)) (of_nat (length bs) :: u64) @ bs"

lemma encoded_length_str_len_eq:
  "n < 2 ^ 32 \<Longrightarrow> encoded_length_str_len (int n) = int (Suc (str_len_bytes n))"
  by (simp add: encoded_length_str_len_def str_len_bytes_def)

lemma length_wire_str: "length (wire_str bs) = Suc (str_len_bytes (length bs) + length bs)"
  by (simp add: wire_str_def)

lemma encoded_length_str_eq:
  "length bs < 2 ^ 32 \<Longrightarrow> encoded_length_str (int (length bs)) = int (length (wire_str bs))"
  by (simp add: encoded_length_str_def encoded_length_str_len_eq length_wire_str)

lemma str_byte: "n < 8 \<Longrightarrow> word_of_int (drop_bit (8 * n) (int l)) = byte_at n (of_nat l :: u64)"
  unfolding byte_at_def
  by (rule bit_word_eqI) (auto simp: bit_simps)

lemma str_len_put_eq:
  assumes "0 \<le> p" and "q = p + int (length bs)" and "q + int r \<le> buf_len"
    and "buf_len \<le> int (length m)" and "n + r \<le> 8"
  shows "str_len_put (Some (put m p bs)) buf_len q (int l) n r
    = Some (OB_SUCCESS,
            Some (put m p (bs @ map (\<lambda>k. byte_at k (of_nat l :: u64)) [n..<n + r])), q + int r)"
  using assms
proof (induction r arbitrary: n bs q)
  case 0
  then show ?case by simp
next
  case (Suc r)
  have "n < 8" using Suc.prems(5) by simp
  note b = str_byte [OF this, of l]
  have "[n..<n + Suc r] = n # [Suc n..<Suc n + r]" by (simp add: upt_conv_Cons del: upt_Suc)
  with Suc.prems Suc.IH [of "q + 1" "bs @ [byte_at n (of_nat l :: u64)]" "Suc n"] b show ?case
    by (simp add: encode_i8_eq mem_simps add_ac del: upt_Suc)
qed

lemma str_len_get_eq:
  assumes "holds m q (map (\<lambda>k. byte_at k v) [n..<n + r])" and "q + int r \<le> data_len"
    and "n + r \<le> 8"
  shows "str_len_get (Some m) data_len q (take_bit (8 * n) v) n r
    = Some (OB_SUCCESS, q + int r, take_bit (8 * (n + r)) v)"
  using assms
proof (induction r arbitrary: n q)
  case 0
  then show ?case by simp
next
  case (Suc r)
  have "[n..<n + Suc r] = n # [Suc n..<Suc n + r]" by (simp add: upt_conv_Cons del: upt_Suc)
  with Suc.prems Suc.IH [of "q + 1" "Suc n"] show ?case
    by (simp add: decode_i8_def byte_join [simplified] add_ac del: upt_Suc)
qed

lemma str_first_byte:
  assumes "n < 2 ^ 32"
  shows "(if int (Suc (str_len_bytes n)) = 1 then word_of_int (sint OB_VARCHAR_TYPE OR (int n AND 0xff))
      else word_of_int (sint OB_VARCHAR_TYPE OR (int (Suc (str_len_bytes n)) - 1 + 55))) = str_tag n"
proof -
  have or_word: "(word_of_int (a OR b) :: u8) = word_of_int a OR word_of_int b" for a b
    by (rule bit_word_eqI) (auto simp: bit_simps)
  have "int n AND 0xff = take_bit 8 (int n)"
    by (simp add: take_bit_eq_mask mask_eq_exp_minus_1)
  then have "word_of_int (int n AND 0xff) = (word_of_int (int n) :: u8)"
    by (simp only:) (rule bit_word_eqI, auto simp: bit_simps)
  moreover have "(- 128 :: u8) = 128" by simp
  then have "(- 128 :: u8) OR x = 128 OR x" for x by (simp only:)
  ultimately show ?thesis
    by (auto simp: OB_VARCHAR_TYPE_def or_word str_tag_def str_len_bytes_def)
qed

lemma encode_str_eq:
  assumes "length bs < 2 ^ 32" and "0 \<le> pos" and "buf_len \<le> int (length m)"
  shows "encode_str (Some m) buf_len pos (Some bs) (int (length bs)) =
    (if pos + int (length (wire_str bs)) \<le> buf_len
     then Some (OB_SUCCESS, Some (put m pos (wire_str bs)), pos + int (length (wire_str bs)))
     else Some (OB_SIZE_OVERFLOW, Some m, pos))"
proof (cases "pos + int (length (wire_str bs)) \<le> buf_len")
  case False
  then show ?thesis
    using assms(1) encoded_length_str_len_eq [of "length bs"]
    by (simp add: encode_str_def Let_def length_wire_str)
next
  case True
  let ?n = "length bs"
  let ?k = "str_len_bytes ?n"
  have n: "?n < 2 ^ 32" using assms(1) by simp
  have k: "?k \<le> 4" by (simp add: str_len_bytes_def)
  have rb: "rd_bytes bs 0 (int ?n) = Some bs" by (simp add: rd_bytes_def)
  have nk: "nat (int (Suc ?k) - 1) = ?k" "int (Suc ?k) > 1 \<longleftrightarrow> 0 < ?k" by simp_all
  have body: "encode_str (Some m) buf_len pos (Some bs) (int ?n) = do {
        (ret, buf, pos) \<leftarrow> encode_i8 (Some m) buf_len pos (str_tag ?n);
        (ret, buf, pos) \<leftarrow>
          (if ret \<noteq> OB_SUCCESS then Some (OB_SIZE_OVERFLOW, buf, pos)
           else if 0 < ?k then str_len_put buf buf_len pos (int ?n) 0 ?k
           else Some (ret, buf, pos));
        if ret = OB_SUCCESS \<and> 0 < ?n then do {
          m \<leftarrow> buf;
          bs \<leftarrow> rd_bytes bs 0 (int ?n);
          m \<leftarrow> wr_bytes m pos bs;
          Some (ret, Some m, pos + int ?n)
        } else Some (ret, buf, pos)
      }"
    using True assms(2) n unfolding length_wire_str
    unfolding encode_str_def Let_def encoded_length_str_len_eq [OF n] str_first_byte [OF n]
      nk bind.simps
    by simp
  show ?thesis
    unfolding body using True assms k rb
      str_len_put_eq [of pos "pos + 1" "[str_tag ?n]" ?k buf_len m 0 ?n]
    by (cases "?k = 0"; cases "?n = 0")
      (simp_all add: length_wire_str encode_i8_eq mem_simps wire_str_def wire_le_def add_ac)
qed

text \<open>A null source of positive length: the length is written, and nothing else.\<close>

lemma encode_str_null:
  assumes "n < 2 ^ 32" and "0 \<le> pos" and "buf_len \<le> int (length m)"
    and "pos + int (Suc (str_len_bytes n) + n) \<le> buf_len" 
  shows "encode_str (Some m) buf_len pos None (int n) =
    Some (OB_SUCCESS, Some (put m pos (str_tag n # wire_le (str_len_bytes n) (of_nat n :: u64))),
          pos + int (Suc (str_len_bytes n)))"
proof -
  let ?k = "str_len_bytes n"
  have k: "?k \<le> 4" by (simp add: str_len_bytes_def)
  have nk: "nat (int (Suc ?k) - 1) = ?k" "int (Suc ?k) > 1 \<longleftrightarrow> 0 < ?k" by simp_all
  have body: "encode_str (Some m) buf_len pos None (int n) = do {
        (ret, buf, pos) \<leftarrow> encode_i8 (Some m) buf_len pos (str_tag n);
        if ret \<noteq> OB_SUCCESS then Some (OB_SIZE_OVERFLOW, buf, pos)
        else if 0 < ?k then str_len_put buf buf_len pos (int n) 0 ?k
        else Some (ret, buf, pos)
      }"
    using assms(2,4)
    unfolding encode_str_def Let_def encoded_length_str_len_eq [OF assms(1)]
      str_first_byte [OF assms(1)] nk bind.simps
    by simp
  show ?thesis
    unfolding body using assms k
      str_len_put_eq [of pos "pos + 1" "[str_tag n]" ?k buf_len m 0 n]
    by (cases "?k = 0") (simp_all add: encode_i8_eq wire_le_def add_ac)
qed

lemma str_tag_code:
  assumes "n < 2 ^ 32"
  shows "sint (str_tag n AND 0x3f) = int (if n \<le> 55 then n else 55 + str_len_bytes n)"
proof -
  let ?c = "if n \<le> 55 then n else 55 + str_len_bytes n"
  have c: "?c < 64" by (simp add: str_len_bytes_def)
  have low: "x AND 0x3f = take_bit 6 x" for x :: u8
    by (simp add: take_bit_eq_mask mask_eq_exp_minus_1)
  have "str_tag n AND 0x3f = (0x80 AND 0x3f) OR (of_nat ?c AND 0x3f)"
    unfolding str_tag_def by (rule bit.conj_disj_distrib2)
  also have "\<dots> = of_nat ?c AND 0x3f" by simp
  also have "\<dots> = of_nat (take_bit 6 ?c)"
    by (simp only: low take_bit_of_nat)
  also have "take_bit 6 ?c = ?c" using c by (simp add: take_bit_nat_eq_self)
  finally show ?thesis
    using c by (simp add: signed_of_nat signed_take_bit_int_eq_self)
qed

lemma decode_str_wire:
  assumes "length bs < 2 ^ 31" and "holds m pos (wire_str bs)"
    and "pos + int (length (wire_str bs)) \<le> data_len"
  defines "p \<equiv> pos + 1 + int (str_len_bytes (length bs))"
  shows "decode_str (Some m) data_len (str_tag (length bs)) (pos + 1) l =
      Some (Some p, pos + int (length (wire_str bs)), of_nat (length bs))"
    and "rd_bytes m p (int (length bs)) = Some bs"
proof -
  let ?n = "length bs"
  let ?k = "str_len_bytes ?n"
  let ?v = "of_nat ?n :: u64"
  have n: "?n < 2 ^ 32" using assms(1) by simp
  have h: "holds m (pos + 1) (wire_le ?k ?v)" "holds m p bs"
    using assms(2) by (simp_all add: wire_str_def holds_append p_def)
  then have b: "0 \<le> pos + 1" using holds_bounds by blast
  have u: "unat ?v = ?n" using assms(1) by (rule unat_of_nat_64)
  have s: "sint ?v = int ?n"
    using assms(1) by (simp add: signed_of_nat signed_take_bit_int_eq_self)
  have c: "(ucast ?v :: u32) = of_nat ?n"
    by (rule bit_word_eqI) (auto simp: bit_simps)
  show "rd_bytes m p (int ?n) = Some bs" using h(2) by (rule rd_bytes_holds)
  show "decode_str (Some m) data_len (str_tag ?n) (pos + 1) l =
      Some (Some p, pos + int (length (wire_str bs)), of_nat ?n)"
  proof (cases "?n \<le> 55")
    case True
    have "scast (str_tag ?n AND 0x3f) = ?v"
      using str_tag_code [OF n] True by (simp add: scast_eq)
    with True assms(3) b str_tag_code [OF n] s c show ?thesis
      by (simp add: decode_str_def Let_def length_wire_str p_def str_len_bytes_def)
  next
    case False
    have k: "0 < ?k" "?k \<le> 4" using False by (simp_all add: str_len_bytes_def)
    have "?n < 256 ^ ?k" using False n by (simp add: str_len_bytes_def)
    then have "take_bit (8 * ?k) ?v = ?v" by (intro take_bit_fits) (simp only: u)
    then have g: "str_len_get (Some m) data_len (pos + 1) 0 0 ?k = Some (OB_SUCCESS, p, ?v)"
      using str_len_get_eq [of m "pos + 1" ?v 0 ?k data_len] h(1) assms(3) k
      by (simp add: wire_le_def length_wire_str p_def)
    have c55: "sint (str_tag ?n AND 0x3f) = 55 + int ?k"
      using False unfolding str_tag_code [OF n] by simp
    have room: "0 \<le> data_len" "int ?n \<le> data_len - p"
      using assms(3) b by (simp_all add: length_wire_str p_def)
    have "decode_str (Some m) data_len (str_tag ?n) (pos + 1) l
        = Some (Some p, p + int ?n, of_nat ?n)"
      unfolding decode_str_def Let_def c55 using room k by (simp add: g s c)
    then show ?thesis by (simp add: length_wire_str p_def)
  qed
qed

text \<open>A returned pointer addresses bytes inside the declared data.\<close>

lemma ucast_sint: "0 \<le> sint (v :: u64) \<Longrightarrow> (ucast v :: u32) = word_of_int (sint v)"
proof -
  assume "0 \<le> sint v"
  then have "sint v = uint v" by (intro sint_nonneg) linarith
  then show ?thesis by (simp only: ucast_eq)
qed

lemma str_len_get_pos:
  assumes "str_len_get buf data_len pos v n r = Some (ret, q, w)"
  shows "pos \<le> q"
  using assms
proof (induction r arbitrary: pos v n)
  case 0
  then show ?case by simp
next
  case (Suc r)
  obtain e p b where d: "decode_i8 buf data_len pos 0 = Some (e, p, b)"
    using Suc.prems by (auto simp: Option.bind_eq_Some_conv)
  then have "pos \<le> p"
    by (auto simp: decode_i8_def Option.bind_eq_Some_conv split: option.splits if_splits)
  with Suc.prems Suc.IH [of p] d show ?case
    by (fastforce split: if_splits)
qed

lemma decode_str_inside:
  assumes "decode_str buf data_len t pos l = Some (Some p, pos', lenp)"
  shows "pos \<le> p \<and> p \<le> pos' \<and> pos' \<le> data_len \<and> lenp = word_of_int (pos' - p)"
  using assms
  by (auto simp: decode_str_def Let_def Option.bind_eq_Some_conv ucast_sint
      dest!: str_len_get_pos split: if_splits)

end
