(* ===== verification/SerialTypes.thy ===== *)
theory SerialTypes
  imports SerialStr
begin

text \<open>
  The type-tagged scalars of \<open>src/src/lib/utility/serialization.h\<close>: booleans, null, floating-point
  numbers, decimals in both representations, timestamps, the date and time types and the extend
  type.  A \<open>float\<close> or \<open>double\<close> is its bit pattern.
\<close>

text \<open>\<open>if (OB_SUCCESS == err) err = f(...)\<close>.\<close>

definition and_then :: "enc_res \<Rightarrow> (cbuf \<Rightarrow> int \<Rightarrow> enc_res) \<Rightarrow> enc_res" where
  "and_then r f = do {
     (err, buf, pos) \<leftarrow> r;
     if err = OB_SUCCESS then f buf pos else Some (err, buf, pos)
   }"

lemma and_then_success [simp]: "and_then (Some (OB_SUCCESS, buf, pos)) f = f buf pos"
  by (simp add: and_then_def)

lemma and_then_error [simp]: "e \<noteq> OB_SUCCESS \<Longrightarrow> and_then (Some (e, buf, pos)) f = Some (e, buf, pos)"
  by (simp add: and_then_def)

section \<open>Booleans and null\<close>

definition OB_DATETIME_TYPE :: i8 where "OB_DATETIME_TYPE = 0xd0"
definition OB_PRECISE_DATETIME_TYPE :: i8 where "OB_PRECISE_DATETIME_TYPE = 0xe0"
definition OB_MODIFYTIME_TYPE :: i8 where "OB_MODIFYTIME_TYPE = 0xf0"
definition OB_CREATETIME_TYPE :: i8 where "OB_CREATETIME_TYPE = 0xf4"
definition OB_FLOAT_TYPE :: i8 where "OB_FLOAT_TYPE = 0xf8"
definition OB_DOUBLE_TYPE :: i8 where "OB_DOUBLE_TYPE = 0xfa"
definition OB_NULL_TYPE :: i8 where "OB_NULL_TYPE = 0xfc"
definition OB_BOOL_TYPE :: i8 where "OB_BOOL_TYPE = 0xfd"
definition OB_EXTEND_TYPE :: i8 where "OB_EXTEND_TYPE = 0xfe"
definition OB_DECIMAL_TYPE :: i8 where "OB_DECIMAL_TYPE = 0xff"
definition OB_FLOAT_OPERATION_BIT_POS :: nat where "OB_FLOAT_OPERATION_BIT_POS = 0"
definition OB_DATETIME_OPERATION_BIT :: nat where "OB_DATETIME_OPERATION_BIT = 3"
definition OB_DATETIME_SIGN_BIT :: nat where "OB_DATETIME_SIGN_BIT = 2"

definition encoded_length_bool_type :: "bool \<Rightarrow> int" where
  "encoded_length_bool_type val = 1 + encoded_length_bool val"

definition encode_bool_type :: "cbuf \<Rightarrow> int \<Rightarrow> int \<Rightarrow> bool \<Rightarrow> enc_res" where
  "encode_bool_type buf buf_len pos val = do {
     (ret, buf, pos) \<leftarrow> encode_i8 buf buf_len pos OB_BOOL_TYPE;
     if ret \<noteq> OB_SUCCESS then Some (OB_SIZE_OVERFLOW, buf, pos)
     else do {
       (ret, buf, pos) \<leftarrow> encode_bool buf buf_len pos val;
       Some (if ret \<noteq> OB_SUCCESS then OB_SIZE_OVERFLOW else OB_SUCCESS, buf, pos)
     }
   }"

definition decode_bool_type :: "cbuf \<Rightarrow> int \<Rightarrow> i8 \<Rightarrow> int \<Rightarrow> bool \<Rightarrow> bool dec_res" where
  "decode_bool_type buf buf_len first_byte pos val =
     (if buf = None \<or> buf_len - pos < 1 then Some (OB_DESERIALIZE_ERROR, pos, val)
      else do {
        (ret, pos, tmp) \<leftarrow> decode_bool buf buf_len pos False;
        Some (if ret \<noteq> OB_SUCCESS then (OB_DESERIALIZE_ERROR, pos, val)
              else (OB_SUCCESS, pos, tmp))
      })"

definition encoded_length_null :: int where
  "encoded_length_null = 1"

definition encode_null :: "cbuf \<Rightarrow> int \<Rightarrow> int \<Rightarrow> enc_res" where
  "encode_null buf buf_len pos = encode_i8 buf buf_len pos OB_NULL_TYPE"

section \<open>Floating-point numbers\<close>

definition encoded_length_float_type :: int where
  "encoded_length_float_type = 4 + 1"

definition encode_float_type :: "cbuf \<Rightarrow> int \<Rightarrow> int \<Rightarrow> u32 \<Rightarrow> bool \<Rightarrow> enc_res" where
  "encode_float_type buf buf_len pos val is_add = do {
     let first_byte =
       (if is_add then ser_set_bit OB_FLOAT_TYPE OB_FLOAT_OPERATION_BIT_POS else OB_FLOAT_TYPE);
     (ret, buf, pos) \<leftarrow> encode_i8 buf buf_len pos first_byte;
     if ret \<noteq> OB_SUCCESS then Some (OB_SIZE_OVERFLOW, buf, pos)
     else encode_i32 buf buf_len pos val
   }"

definition decode_float_type ::
    "cbuf \<Rightarrow> int \<Rightarrow> i8 \<Rightarrow> int \<Rightarrow> u32 \<times> bool \<Rightarrow> (u32 \<times> bool) dec_res" where
  "decode_float_type buf data_len first_byte pos val =
     (if buf = None \<or> data_len - pos < 4 then Some (OB_DESERIALIZE_ERROR, pos, val)
      else do {
        (ret, pos, tmp) \<leftarrow> decode_i32 buf data_len pos 0;
        Some (if ret \<noteq> OB_SUCCESS then (OB_DESERIALIZE_ERROR, pos, val)
              else (OB_SUCCESS, pos, (tmp, ser_test_bit first_byte OB_FLOAT_OPERATION_BIT_POS)))
      })"

definition encoded_length_double_type :: int where
  "encoded_length_double_type = 8 + 1"

definition encode_double_type :: "cbuf \<Rightarrow> int \<Rightarrow> int \<Rightarrow> u64 \<Rightarrow> bool \<Rightarrow> enc_res" where
  "encode_double_type buf buf_len pos val is_add = do {
     let first_byte =
       (if is_add then ser_set_bit OB_DOUBLE_TYPE OB_FLOAT_OPERATION_BIT_POS else OB_DOUBLE_TYPE);
     (ret, buf, pos) \<leftarrow> encode_i8 buf buf_len pos first_byte;
     if ret \<noteq> OB_SUCCESS then Some (OB_SIZE_OVERFLOW, buf, pos)
     else encode_i64 buf buf_len pos val
   }"

definition decode_double_type ::
    "cbuf \<Rightarrow> int \<Rightarrow> i8 \<Rightarrow> int \<Rightarrow> u64 \<times> bool \<Rightarrow> (u64 \<times> bool) dec_res" where
  "decode_double_type buf data_len first_byte pos val =
     (if buf = None \<or> data_len - pos < 8 then Some (OB_DESERIALIZE_ERROR, pos, val)
      else do {
        (ret, pos, tmp) \<leftarrow> decode_i64 buf data_len pos 0;
        Some (if ret \<noteq> OB_SUCCESS then (OB_DESERIALIZE_ERROR, pos, val)
              else (ret, pos, (tmp, ser_test_bit first_byte OB_FLOAT_OPERATION_BIT_POS)))
      })"

section \<open>Numbers\<close>

text \<open>\<open>ObNumberDesc\<close> lays the field \<open>len_\<close> over the low byte of the description word; the digits
  are copied as the bytes of a \<open>uint32_t\<close> array.\<close>

definition desc_len :: "u32 \<Rightarrow> int" where
  "desc_len desc = uint (ucast desc :: u8)"

definition encode_length_number_type :: "u32 \<Rightarrow> int" where
  "encode_length_number_type desc = encoded_length_i32 desc + 4 * desc_len desc"

definition decode_number_type ::
    "cbuf \<Rightarrow> int \<Rightarrow> int \<Rightarrow> u32 \<times> int option \<Rightarrow> (u32 \<times> int option) dec_res" where
  "decode_number_type buf buf_len pos val = do {
     (err, tmp_pos, desc) \<leftarrow> decode_i32 buf buf_len pos (fst val);
     if err \<noteq> OB_SUCCESS then Some (err, pos, (desc, snd val))
     else if desc_len desc = 0 then Some (OB_SUCCESS, tmp_pos, (desc, None))
     else if buf_len < tmp_pos + 4 * desc_len desc
       then Some (OB_DESERIALIZE_ERROR, pos, (desc, snd val))
     else Some (OB_SUCCESS, tmp_pos + 4 * desc_len desc, (desc, Some tmp_pos))
   }"

definition encode_number_type :: "cbuf \<Rightarrow> int \<Rightarrow> int \<Rightarrow> u32 \<Rightarrow> cbuf \<Rightarrow> enc_res" where
  "encode_number_type buf buf_len pos desc digits = do {
     (err, buf, tmp_pos) \<leftarrow> encode_i32 buf buf_len pos desc;
     if err \<noteq> OB_SUCCESS then Some (err, buf, pos)
     else if buf_len < tmp_pos + 4 * desc_len desc then Some (OB_BUF_NOT_ENOUGH, buf, pos)
     else if 0 < desc_len desc then do {
       m \<leftarrow> buf;
       d \<leftarrow> digits;
       bs \<leftarrow> rd_bytes d 0 (4 * desc_len desc);
       m \<leftarrow> wr_bytes m tmp_pos bs;
       Some (OB_SUCCESS, Some m, tmp_pos + 4 * desc_len desc)
     } else Some (OB_SUCCESS, buf, tmp_pos)
   }"

section \<open>Timestamps\<close>

definition encode_length_otimestamp_tz_type :: int where
  "encode_length_otimestamp_tz_type = 8 + 4"

definition decode_otimestamp_tz_type ::
    "cbuf \<Rightarrow> int \<Rightarrow> int \<Rightarrow> i64 \<times> u32 \<Rightarrow> (i64 \<times> u32) dec_res" where
  "decode_otimestamp_tz_type buf buf_len pos val = do {
     (ret, pos, time_us) \<leftarrow> decode_i64 buf buf_len pos (fst val);
     if ret \<noteq> OB_SUCCESS then Some (ret, pos, (time_us, snd val))
     else do {
       (ret, pos, tz_ctx) \<leftarrow> decode_i32 buf buf_len pos (snd val);
       Some (ret, pos, (time_us, tz_ctx))
     }
   }"

definition encode_otimestamp_tz_type :: "cbuf \<Rightarrow> int \<Rightarrow> int \<Rightarrow> i64 \<times> u32 \<Rightarrow> enc_res" where
  "encode_otimestamp_tz_type buf buf_len pos val = do {
     (ret, buf, pos) \<leftarrow> encode_i64 buf buf_len pos (fst val);
     if ret \<noteq> OB_SUCCESS then Some (ret, buf, pos)
     else encode_i32 buf buf_len pos (snd val)
   }"

definition encode_length_otimestamp_type :: int where
  "encode_length_otimestamp_type = 8 + 2"

definition decode_otimestamp_type ::
    "cbuf \<Rightarrow> int \<Rightarrow> int \<Rightarrow> i64 \<times> u16 \<Rightarrow> (i64 \<times> u16) dec_res" where
  "decode_otimestamp_type buf buf_len pos val = do {
     (ret, pos, time_us) \<leftarrow> decode_i64 buf buf_len pos (fst val);
     if ret \<noteq> OB_SUCCESS then Some (ret, pos, (time_us, snd val))
     else do {
       (ret, pos, time_desc) \<leftarrow> decode_i16 buf buf_len pos (snd val);
       Some (ret, pos, (time_us, time_desc))
     }
   }"

definition encode_otimestamp_type :: "cbuf \<Rightarrow> int \<Rightarrow> int \<Rightarrow> i64 \<times> u16 \<Rightarrow> enc_res" where
  "encode_otimestamp_type buf buf_len pos val = do {
     (ret, buf, pos) \<leftarrow> encode_i64 buf buf_len pos (fst val);
     if ret \<noteq> OB_SUCCESS then Some (ret, buf, pos)
     else encode_i16 buf buf_len pos (snd val)
   }"

section \<open>Decimals\<close>

record decimal =
  dec_is_add :: bool
  dec_precision :: i8
  dec_scale :: i8
  dec_vscale :: i8
  dec_nwords :: i8
  dec_words :: "u32 list option"

text \<open>The loops over \<open>words\<close>: \<open>i\<close> is the index, \<open>r\<close> the number of iterations left.  The
  array is an object of its own, and an index outside it is undefined.\<close>

fun decimal_put :: "cbuf \<Rightarrow> int \<Rightarrow> int \<Rightarrow> u32 list \<Rightarrow> nat \<Rightarrow> nat \<Rightarrow> enc_res" where
  "decimal_put buf buf_len pos words i 0 = Some (OB_SUCCESS, buf, pos)"
| "decimal_put buf buf_len pos words i (Suc r) =
     (if i < length words then do {
        (err, buf, pos) \<leftarrow> encode_vi32 buf buf_len pos (words ! i);
        if err \<noteq> OB_SUCCESS then Some (err, buf, pos)
        else decimal_put buf buf_len pos words (Suc i) r
      } else None)"

definition encode_decimal_type ::
    "cbuf \<Rightarrow> int \<Rightarrow> int \<Rightarrow> bool \<Rightarrow> i8 \<Rightarrow> i8 \<Rightarrow> i8 \<Rightarrow> i8 \<Rightarrow> u32 list option \<Rightarrow> enc_res" where
  "encode_decimal_type buf buf_len pos is_add precision scale vscale nwords words =
     (if buf = None \<or> buf_len \<le> 0 \<or> pos \<ge> buf_len \<or> words = None
      then Some (OB_INVALID_ARGUMENT, buf, pos)
      else
        and_then (encode_i8 buf buf_len pos OB_DECIMAL_TYPE) (\<lambda>buf pos.
        and_then (encode_i8 buf buf_len pos (if is_add then 1 else 0)) (\<lambda>buf pos.
        and_then (encode_i8 buf buf_len pos precision) (\<lambda>buf pos.
        and_then (encode_i8 buf buf_len pos scale) (\<lambda>buf pos.
        and_then (encode_i8 buf buf_len pos vscale) (\<lambda>buf pos.
        and_then (encode_i8 buf buf_len pos nwords) (\<lambda>buf pos. do {
          ws \<leftarrow> words;
          decimal_put buf buf_len pos ws 0 (nat (sint nwords))
        })))))))"

fun decimal_get ::
    "cbuf \<Rightarrow> int \<Rightarrow> int \<Rightarrow> u32 list \<Rightarrow> nat \<Rightarrow> nat \<Rightarrow> u32 list dec_res" where
  "decimal_get buf buf_len pos words i 0 = Some (OB_SUCCESS, pos, words)"
| "decimal_get buf buf_len pos words i (Suc r) = do {
     (err, pos, w) \<leftarrow> decode_vi32 buf buf_len pos 0;
     if err \<noteq> OB_SUCCESS then Some (err, pos, words)
     else if i < length words
       then decimal_get buf buf_len pos (words[i := w]) (Suc i) r
     else None
   }"

definition decode_decimal_type :: "cbuf \<Rightarrow> int \<Rightarrow> int \<Rightarrow> decimal \<Rightarrow> decimal dec_res" where
  "decode_decimal_type buf buf_len pos d =
     (if buf = None \<or> buf_len \<le> 0 \<or> pos \<ge> buf_len \<or> dec_words d = None
      then Some (OB_DESERIALIZE_ERROR, pos, d)
      else do {
        (err, pos, op) \<leftarrow> decode_i8 buf buf_len pos 0;
        if err \<noteq> OB_SUCCESS then Some (err, pos, d) else do {
        let d = d\<lparr>dec_is_add := (op \<noteq> 0)\<rparr>;
        (err, pos, v) \<leftarrow> decode_i8 buf buf_len pos (dec_precision d);
        let d = d\<lparr>dec_precision := v\<rparr>;
        if err \<noteq> OB_SUCCESS then Some (err, pos, d) else do {
        (err, pos, v) \<leftarrow> decode_i8 buf buf_len pos (dec_scale d);
        let d = d\<lparr>dec_scale := v\<rparr>;
        if err \<noteq> OB_SUCCESS then Some (err, pos, d) else do {
        (err, pos, v) \<leftarrow> decode_i8 buf buf_len pos (dec_vscale d);
        let d = d\<lparr>dec_vscale := v\<rparr>;
        if err \<noteq> OB_SUCCESS then Some (err, pos, d) else do {
        (err, pos, v) \<leftarrow> decode_i8 buf buf_len pos (dec_nwords d);
        let d = d\<lparr>dec_nwords := v\<rparr>;
        if err \<noteq> OB_SUCCESS then Some (err, pos, d) else do {
        ws \<leftarrow> dec_words d;
        (err, pos, ws) \<leftarrow> decimal_get buf buf_len pos ws 0 (nat (sint (dec_nwords d)));
        Some (err, pos, d\<lparr>dec_words := Some ws\<rparr>)
      }}}}}})"

fun decimal_len :: "u32 list \<Rightarrow> nat \<Rightarrow> nat \<Rightarrow> int \<Rightarrow> int option" where
  "decimal_len words i 0 ret = Some ret"
| "decimal_len words i (Suc r) ret =
     (if i < length words
      then decimal_len words (Suc i) r (ret + encoded_length_vi32 (words ! i)) else None)"

definition encoded_length_decimal_type :: "i8 \<Rightarrow> u32 list option \<Rightarrow> int option" where
  "encoded_length_decimal_type nwords words =
     (case words of
        None \<Rightarrow> Some 6
      | Some ws \<Rightarrow> decimal_len ws 0 (nat (sint nwords)) 6)"

section \<open>Dates and times\<close>

definition encoded_length_datetime :: "i64 \<Rightarrow> int" where
  "encoded_length_datetime value =
     (let tmp_value = safe_int64_abs value in
      if tmp_value \<le> 0xffffffff then 5 else if tmp_value \<le> 0xffffffffffff then 7 else 9)"

definition encoded_length_precise_datetime :: "i64 \<Rightarrow> int" where
  "encoded_length_precise_datetime value = encoded_length_datetime value"

definition encode_time_type :: "cbuf \<Rightarrow> int \<Rightarrow> i8 \<Rightarrow> int \<Rightarrow> i64 \<Rightarrow> enc_res" where
  "encode_time_type buf buf_len first_byte pos val =
     (let len = encoded_length_datetime val in
      if buf = None \<or> buf_len - pos < len then Some (OB_SIZE_OVERFLOW, buf, pos)
      else do {
        let first_byte =
          (if len = 7 then first_byte OR 1 else if len = 9 then first_byte OR 2 else first_byte);
        (ret, buf, tmp_pos) \<leftarrow> encode_i8 buf buf_len pos first_byte;
        (ret, buf, tmp_pos) \<leftarrow>
          (if ret = OB_SUCCESS
           then encode_uint_with_given_length buf buf_len tmp_pos (safe_int64_abs val) (len - 1)
           else Some (ret, buf, tmp_pos));
        Some (ret, buf, if ret = OB_SUCCESS then tmp_pos else pos)
      })"

definition decode_time_type :: "cbuf \<Rightarrow> int \<Rightarrow> i8 \<Rightarrow> int \<Rightarrow> i64 \<Rightarrow> i64 dec_res" where
  "decode_time_type buf data_len first_byte pos val =
     (if buf = None \<or> data_len - pos < 0 then Some (OB_DESERIALIZE_ERROR, pos, val)
      else
        let len_mark = first_byte AND 0x3;
            len = (if len_mark = 0 then 4 else if len_mark = 1 then 6
                   else if len_mark = 2 then 8 else 0)
        in if len = 0 then Some (OB_DESERIALIZE_ERROR, pos, val)
           else do {
             (ret, pos, uv) \<leftarrow> decode_uint_with_given_length buf data_len pos 0 len;
             Some (ret, pos, if ret = OB_SUCCESS then uv else val)
           })"

text \<open>\<open>encode_datetime_type\<close> and \<open>encode_precise_datetime_type\<close>, and their inverses, are one text
  with two type bytes.\<close>

definition encode_signed_time :: "i8 \<Rightarrow> cbuf \<Rightarrow> int \<Rightarrow> int \<Rightarrow> i64 \<Rightarrow> bool \<Rightarrow> enc_res" where
  "encode_signed_time type_byte buf buf_len pos val is_add =
     (if buf = None \<or> buf_len - pos \<le> 0 then Some (OB_SIZE_OVERFLOW, buf, pos)
      else
        let first_byte = type_byte;
            first_byte =
              (if val <s 0 then ser_set_bit first_byte OB_DATETIME_SIGN_BIT else first_byte);
            first_byte =
              (if is_add then ser_set_bit first_byte OB_DATETIME_OPERATION_BIT else first_byte)
        in encode_time_type buf buf_len first_byte pos val)"

definition decode_signed_time ::
    "cbuf \<Rightarrow> int \<Rightarrow> i8 \<Rightarrow> int \<Rightarrow> i64 \<times> bool \<Rightarrow> (i64 \<times> bool) dec_res" where
  "decode_signed_time buf data_len first_byte pos val =
     (if buf = None \<or> data_len - pos < 0 then Some (OB_DESERIALIZE_ERROR, pos, val)
      else do {
        let is_neg = ser_test_bit first_byte OB_DATETIME_SIGN_BIT;
        let is_add = ser_test_bit first_byte OB_DATETIME_OPERATION_BIT;
        (ret, pos, v) \<leftarrow> decode_time_type buf data_len first_byte pos 0;
        if ret = OB_SUCCESS then do {
          v \<leftarrow> (if is_neg then neg_i64 v else Some v);
          Some (ret, pos, (v, is_add))
        } else Some (ret, pos, (fst val, is_add))
      })"

definition encode_datetime_type :: "cbuf \<Rightarrow> int \<Rightarrow> int \<Rightarrow> i64 \<Rightarrow> bool \<Rightarrow> enc_res" where
  "encode_datetime_type = encode_signed_time OB_DATETIME_TYPE"

definition decode_datetime_type ::
    "cbuf \<Rightarrow> int \<Rightarrow> i8 \<Rightarrow> int \<Rightarrow> i64 \<times> bool \<Rightarrow> (i64 \<times> bool) dec_res" where
  "decode_datetime_type = decode_signed_time"

definition encode_precise_datetime_type :: "cbuf \<Rightarrow> int \<Rightarrow> int \<Rightarrow> i64 \<Rightarrow> bool \<Rightarrow> enc_res" where
  "encode_precise_datetime_type = encode_signed_time OB_PRECISE_DATETIME_TYPE"

definition decode_precise_datetime_type ::
    "cbuf \<Rightarrow> int \<Rightarrow> i8 \<Rightarrow> int \<Rightarrow> i64 \<times> bool \<Rightarrow> (i64 \<times> bool) dec_res" where
  "decode_precise_datetime_type = decode_signed_time"

definition encoded_length_modifytime :: "i64 \<Rightarrow> int" where
  "encoded_length_modifytime value = encoded_length_datetime value"

definition encode_modifytime_type :: "cbuf \<Rightarrow> int \<Rightarrow> int \<Rightarrow> i64 \<Rightarrow> enc_res" where
  "encode_modifytime_type buf buf_len pos val =
     (if buf = None \<or> buf_len - pos \<le> 0 \<or> val <s 0 then Some (OB_SIZE_OVERFLOW, buf, pos)
      else encode_time_type buf buf_len OB_MODIFYTIME_TYPE pos val)"

definition decode_modifytime_type :: "cbuf \<Rightarrow> int \<Rightarrow> i8 \<Rightarrow> int \<Rightarrow> i64 \<Rightarrow> i64 dec_res" where
  "decode_modifytime_type buf data_len first_byte pos val =
     (if buf = None \<or> data_len - pos \<le> 0 then Some (OB_DESERIALIZE_ERROR, pos, val)
      else decode_time_type buf data_len first_byte pos val)"

definition encoded_length_createtime :: "i64 \<Rightarrow> int" where
  "encoded_length_createtime value = encoded_length_datetime value"

definition encode_createtime_type :: "cbuf \<Rightarrow> int \<Rightarrow> int \<Rightarrow> i64 \<Rightarrow> enc_res" where
  "encode_createtime_type buf buf_len pos val =
     (if buf = None \<or> buf_len - pos \<le> 0 \<or> val <s 0 then Some (OB_SIZE_OVERFLOW, buf, pos)
      else encode_time_type buf buf_len OB_CREATETIME_TYPE pos val)"

definition decode_createtime_type :: "cbuf \<Rightarrow> int \<Rightarrow> i8 \<Rightarrow> int \<Rightarrow> i64 \<Rightarrow> i64 dec_res" where
  "decode_createtime_type buf data_len first_byte pos val =
     (if buf = None \<or> data_len - pos \<le> 0 then Some (OB_DESERIALIZE_ERROR, pos, val)
      else decode_time_type buf data_len first_byte pos val)"

section \<open>Extend values\<close>

definition encoded_length_extend :: "i64 \<Rightarrow> int" where
  "encoded_length_extend value = encoded_length_vi64 value + 1"

definition encode_extend_type :: "cbuf \<Rightarrow> int \<Rightarrow> int \<Rightarrow> i64 \<Rightarrow> enc_res" where
  "encode_extend_type buf buf_len pos val =
     (let len = encoded_length_extend val in
      if buf = None \<or> buf_len < 0 \<or> buf_len - pos < len then Some (OB_SIZE_OVERFLOW, buf, pos)
      else do {
        (ret, buf, tmp_pos) \<leftarrow>
          and_then (encode_i8 buf buf_len pos OB_EXTEND_TYPE)
            (\<lambda>buf tmp_pos. encode_vi64 buf buf_len tmp_pos val);
        Some (ret, buf, if ret = OB_SUCCESS then tmp_pos else pos)
      })"

section \<open>Formats of the simple types\<close>

lemma encode_bool_type_eq:
  assumes "0 \<le> pos" and "pos + 2 \<le> buf_len" and "buf_len \<le> int (length m)"
  shows "encode_bool_type (Some m) buf_len pos v
    = Some (OB_SUCCESS, Some (put m pos [OB_BOOL_TYPE, if v then 1 else 0]), pos + 2)"
  using assms by (simp add: encode_bool_type_def encode_i8_eq encode_bool_eq mem_simps)

lemma decode_bool_type_wire:
  assumes "holds m pos [OB_BOOL_TYPE, if v then 1 else 0]" and "pos + 2 \<le> data_len"
  shows "decode_bool_type (Some m) data_len t (pos + 1) v0 = Some (OB_SUCCESS, pos + 2, v)"
  using assms by (simp add: decode_bool_type_def decode_bool_wire del: holds.simps) 
    (simp add: decode_bool_def decode_i8_def)

lemma float_tags:
  "ser_test_bit (if is_add then ser_set_bit OB_FLOAT_TYPE OB_FLOAT_OPERATION_BIT_POS
     else OB_FLOAT_TYPE) OB_FLOAT_OPERATION_BIT_POS \<longleftrightarrow> is_add"
  "ser_test_bit (if is_add then ser_set_bit OB_DOUBLE_TYPE OB_FLOAT_OPERATION_BIT_POS
     else OB_DOUBLE_TYPE) OB_FLOAT_OPERATION_BIT_POS \<longleftrightarrow> is_add"
  by (simp_all add: ser_test_bit_def ser_set_bit_def OB_FLOAT_TYPE_def OB_DOUBLE_TYPE_def
      OB_FLOAT_OPERATION_BIT_POS_def)

definition float_tag :: "bool \<Rightarrow> i8" where
  "float_tag is_add =
     (if is_add then ser_set_bit OB_FLOAT_TYPE OB_FLOAT_OPERATION_BIT_POS else OB_FLOAT_TYPE)"

definition double_tag :: "bool \<Rightarrow> i8" where
  "double_tag is_add =
     (if is_add then ser_set_bit OB_DOUBLE_TYPE OB_FLOAT_OPERATION_BIT_POS else OB_DOUBLE_TYPE)"

lemma float_type_roundtrip:
  assumes "0 \<le> pos" and "pos + 5 \<le> buf_len" and "buf_len \<le> int (length m)"
  shows "\<exists>m'. encode_float_type (Some m) buf_len pos v is_add = Some (OB_SUCCESS, Some m', pos + 5)
    \<and> rd m' pos = Some (float_tag is_add)
    \<and> decode_float_type (Some m') buf_len (float_tag is_add) (pos + 1) w
        = Some (OB_SUCCESS, pos + 5, (v, is_add))"
proof -
  have h: "holds (put m pos (float_tag is_add # wire_be 4 v)) pos (float_tag is_add # wire_be 4 v)"
    using assms by (intro holds_put) simp_all
  then have "decode_i32 (Some (put m pos (float_tag is_add # wire_be 4 v))) buf_len (pos + 1) 0
      = Some (OB_SUCCESS, pos + 5, v)"
    using decode_i32_wire [of _ "pos + 1" v buf_len 0] assms by simp
  with h assms float_tags(1) [of is_add] show ?thesis
    by (simp add: encode_float_type_def decode_float_type_def float_tag_def [symmetric] encode_i8_eq
        encode_i32_eq mem_simps)
qed

lemma double_type_roundtrip:
  assumes "0 \<le> pos" and "pos + 9 \<le> buf_len" and "buf_len \<le> int (length m)"
  shows "\<exists>m'. encode_double_type (Some m) buf_len pos v is_add = Some (OB_SUCCESS, Some m', pos + 9)
    \<and> rd m' pos = Some (double_tag is_add)
    \<and> decode_double_type (Some m') buf_len (double_tag is_add) (pos + 1) w
        = Some (OB_SUCCESS, pos + 9, (v, is_add))"
proof -
  have h: "holds (put m pos (double_tag is_add # wire_be 8 v)) pos (double_tag is_add # wire_be 8 v)"
    using assms by (intro holds_put) simp_all
  then have "decode_i64 (Some (put m pos (double_tag is_add # wire_be 8 v))) buf_len (pos + 1) 0
      = Some (OB_SUCCESS, pos + 9, v)"
    using decode_i64_wire [of _ "pos + 1" v buf_len 0] assms by simp
  with h assms float_tags(2) [of is_add] show ?thesis
    by (simp add: encode_double_type_def decode_double_type_def double_tag_def [symmetric]
        encode_i8_eq encode_i64_eq mem_simps)
qed

section \<open>Timestamps as pairs of codecs\<close>

interpretation ts_tz: codec_pair encode_i64 decode_i64 "wire_be 8" "\<lambda>_. True"
    encode_i32 decode_i32 "wire_be 4" "\<lambda>_. True"
  by unfold_locales

interpretation ts: codec_pair encode_i64 decode_i64 "wire_be 8" "\<lambda>_. True"
    encode_i16 decode_i16 "wire_be 2" "\<lambda>_. True"
  by unfold_locales

lemma ob_err_not_success: "e \<noteq> OB_SUCCESS \<Longrightarrow> Some (e, b, p) \<noteq> Some (OB_SUCCESS, b', p')"
  by simp

interpretation otimestamp_tz: codec encode_otimestamp_tz_type decode_otimestamp_tz_type
    "\<lambda>(t, z). wire_be 8 t @ wire_be 4 z" "\<lambda>_. True"
proof (unfold_locales, goal_cases)
  case (1 v pos buf_len m)
  then show ?case
    using ts_tz.enc_both [of pos "fst v" "snd v" buf_len m]
    by (simp add: encode_otimestamp_tz_type_def split: prod.splits)
next
  case (2 v pos buf_len m)
  then show ?case
    by (auto simp: encode_otimestamp_tz_type_def encode_i64_eq encode_i32_eq split: prod.splits)
next
  case (3 v m pos data_len v0)
  then show ?case
    using ts_tz.dec_both(1) [where m = m and pos = pos and x = "fst v" and y = "snd v"
        and data_len = data_len and ?x0.0 = "fst v0"]
      ts_tz.dec_both(2) [where m = m and pos = pos and x = "fst v" and y = "snd v"
        and data_len = data_len and ?y0.0 = "snd v0"]
    by (simp add: decode_otimestamp_tz_type_def split: prod.splits)
qed

interpretation otimestamp: codec encode_otimestamp_type decode_otimestamp_type
    "\<lambda>(t, d). wire_be 8 t @ wire_be 2 d" "\<lambda>_. True"
proof (unfold_locales, goal_cases)
  case (1 v pos buf_len m)
  then show ?case
    using ts.enc_both [of pos "fst v" "snd v" buf_len m]
    by (simp add: encode_otimestamp_type_def split: prod.splits)
next
  case (2 v pos buf_len m)
  then show ?case
    by (auto simp: encode_otimestamp_type_def encode_i64_eq encode_i16_eq split: prod.splits)
next
  case (3 v m pos data_len v0)
  then show ?case
    using ts.dec_both(1) [where m = m and pos = pos and x = "fst v" and y = "snd v"
        and data_len = data_len and ?x0.0 = "fst v0"]
      ts.dec_both(2) [where m = m and pos = pos and x = "fst v" and y = "snd v"
        and data_len = data_len and ?y0.0 = "snd v0"]
    by (simp add: decode_otimestamp_type_def split: prod.splits)
qed

text \<open>When only the first half fits, the position is left in the middle of the value.\<close>

lemma otimestamp_half_written:
  assumes "0 \<le> pos" and "pos + 8 \<le> buf_len" and "buf_len < pos + 12" and "buf_len \<le> int (length m)"
  shows "encode_otimestamp_tz_type (Some m) buf_len pos (t, z)
    = Some (OB_SIZE_OVERFLOW, Some (put m pos (wire_be 8 t)), pos + 8)"
  using assms by (simp add: encode_otimestamp_tz_type_def encode_i64_eq encode_i32_eq)

section \<open>Numbers\<close>

definition wire_number :: "u32 \<Rightarrow> u8 list \<Rightarrow> u8 list" where
  "wire_number desc digits = wire_be 4 desc @ digits"

lemma desc_len_bounds: "0 \<le> desc_len d \<and> desc_len d < 256"
proof -
  have "uint (ucast d :: u8) < 2 ^ LENGTH(8)" by (rule unsigned_less)
  then show ?thesis by (simp add: desc_len_def)
qed

lemma encode_number_type_eq:
  assumes "int (length digits) = 4 * desc_len desc" and "0 \<le> pos" and "buf_len \<le> int (length m)"
  shows "encode_number_type (Some m) buf_len pos desc (Some digits) =
    (if pos + int (length (wire_number desc digits)) \<le> buf_len
     then Some (OB_SUCCESS, Some (put m pos (wire_number desc digits)),
                pos + int (length (wire_number desc digits)))
     else if pos + 4 \<le> buf_len then Some (OB_BUF_NOT_ENOUGH, Some (put m pos (wire_be 4 desc)), pos)
     else Some (OB_SIZE_OVERFLOW, Some m, pos))"
proof -
  have rb: "rd_bytes digits 0 (4 * desc_len desc) = Some digits"
    using assms(1) by (simp add: rd_bytes_def)
  have "desc_len desc = 0 \<Longrightarrow> digits = []" using assms(1) by simp
  then show ?thesis
    using assms desc_len_bounds [of desc]
    by (auto simp: encode_number_type_def encode_i32_eq wire_number_def rb mem_simps)
qed

lemma decode_number_type_wire:
  assumes "holds m pos (wire_number desc digits)" and "int (length digits) = 4 * desc_len desc"
    and "pos + int (length (wire_number desc digits)) \<le> data_len"
  shows "decode_number_type (Some m) data_len pos v0 =
      Some (OB_SUCCESS, pos + int (length (wire_number desc digits)),
            (desc, if desc_len desc = 0 then None else Some (pos + 4)))"
    and "rd_bytes m (pos + 4) (int (length digits)) = Some digits"
proof -
  have h: "holds m pos (wire_be 4 desc)" "holds m (pos + 4) digits"
    using assms(1) by (simp_all add: wire_number_def holds_append)
  then show "rd_bytes m (pos + 4) (int (length digits)) = Some digits" by (intro rd_bytes_holds)
  have "decode_i32 (Some m) data_len pos (fst v0) = Some (OB_SUCCESS, pos + 4, desc)"
    using h(1) assms(3) by (intro decode_i32_wire) (simp_all add: wire_number_def)
  with assms(2,3) show "decode_number_type (Some m) data_len pos v0 =
      Some (OB_SUCCESS, pos + int (length (wire_number desc digits)),
            (desc, if desc_len desc = 0 then None else Some (pos + 4)))"
    by (simp add: decode_number_type_def wire_number_def)
qed

lemma encode_length_number_type_eq:
  "int (length digits) = 4 * desc_len desc \<Longrightarrow>
     encode_length_number_type desc = int (length (wire_number desc digits))"
  by (simp add: encode_length_number_type_def encoded_length_i32_def wire_number_def)

section \<open>Decimals\<close>

definition wire_words :: "u32 list \<Rightarrow> u8 list" where
  "wire_words ws = concat (map wire_vi ws)"

definition wire_decimal :: "bool \<Rightarrow> i8 \<Rightarrow> i8 \<Rightarrow> i8 \<Rightarrow> i8 \<Rightarrow> u32 list \<Rightarrow> u8 list" where
  "wire_decimal is_add precision scale vscale nwords ws =
     [OB_DECIMAL_TYPE, if is_add then 1 else 0, precision, scale, vscale, nwords] @ wire_words ws"

lemma wire_words_Cons: "wire_words (w # ws) = wire_vi w @ wire_words ws"
  by (simp add: wire_words_def)

lemma decimal_put_eq:
  assumes "0 \<le> p" and "q = p + int (length bs)" and "i + r = length ws"
    and "q + int (length (wire_words (drop i ws))) \<le> buf_len" and "buf_len \<le> int (length m)"
  shows "decimal_put (Some (put m p bs)) buf_len q ws i r
    = Some (OB_SUCCESS, Some (put m p (bs @ wire_words (drop i ws))),
            q + int (length (wire_words (drop i ws))))"
  using assms
proof (induction r arbitrary: i bs q)
  case 0
  then show ?case by (simp add: wire_words_def)
next
  case (Suc r)
  then have d: "drop i ws = ws ! i # drop (Suc i) ws" by (simp add: Cons_nth_drop_Suc)
  with Suc.prems Suc.IH [of "q + int (vlen (unat (ws ! i)))" "bs @ wire_vi (ws ! i)" "Suc i"]
  show ?case
    by (simp add: encode_vi32_eq put_put wire_words_Cons add_ac)
qed

lemma decimal_get_eq:
  assumes "holds m q (wire_words (drop i ws))" and "i + r = length ws"
    and "q + int (length (wire_words (drop i ws))) \<le> data_len" and "length ws \<le> length out"
    and "take i out = take i ws"
  shows "decimal_get (Some m) data_len q out i r
    = Some (OB_SUCCESS, q + int (length (wire_words (drop i ws))), ws @ drop (length ws) out)"
  using assms
proof (induction r arbitrary: i q out)
  case 0
  then have "take (length ws) out = ws" by simp
  then have "ws @ drop (length ws) out = out" by (metis append_take_drop_id)
  with 0 show ?case by (simp add: wire_words_def)
next
  case (Suc r)
  then have i: "i < length ws" by simp
  then have d: "drop i ws = ws ! i # drop (Suc i) ws" by (simp add: Cons_nth_drop_Suc)
  let ?w = "ws ! i"
  have h: "holds m q (wire_vi ?w)" "holds m (q + int (vlen (unat ?w))) (wire_words (drop (Suc i) ws))"
    using Suc.prems(1) unfolding d wire_words_Cons holds_append by simp_all
  have dv: "decode_vi32 (Some m) data_len q 0 = Some (OB_SUCCESS, q + int (vlen (unat ?w)), ?w)"
    using h(1) Suc.prems(3) by (intro decode_vi32_wire) (simp_all add: d wire_words_Cons)
  have t: "take (Suc i) (out[i := ?w]) = take (Suc i) ws"
    using Suc.prems(4,5) i by (simp add: take_Suc_conv_app_nth)
  have "decimal_get (Some m) data_len (q + int (vlen (unat ?w))) (out[i := ?w]) (Suc i) r
      = Some (OB_SUCCESS, q + int (vlen (unat ?w)) + int (length (wire_words (drop (Suc i) ws))),
              ws @ drop (length ws) (out[i := ?w]))"
    using Suc.prems h(2) t by (intro Suc.IH) (simp_all add: d wire_words_Cons add_ac)
  with dv i Suc.prems(4) show ?case
    by (simp add: d wire_words_Cons add_ac)
qed

lemma decimal_len_eq:
  "i + r = length ws \<Longrightarrow>
     decimal_len ws i r n = Some (n + int (length (wire_words (drop i ws))))"
proof (induction r arbitrary: i n)
  case 0
  then show ?case by (simp add: wire_words_def)
next
  case (Suc r)
  then have "drop i ws = ws ! i # drop (Suc i) ws" by (simp add: Cons_nth_drop_Suc)
  with Suc show ?case by (simp add: wire_words_Cons encoded_length_vi32_vlen)
qed

lemma encoded_length_decimal_type_eq:
  assumes "sint nwords = int (length ws)"
  shows "encoded_length_decimal_type nwords (Some ws)
    = Some (int (length (wire_decimal is_add precision scale vscale nwords ws)))"
  using assms by (simp add: encoded_length_decimal_type_def decimal_len_eq wire_decimal_def)

lemma encode_decimal_type_eq:
  assumes "sint nwords = int (length ws)" and "0 \<le> pos" and "buf_len \<le> int (length m)"
    and "pos + int (length (wire_decimal is_add precision scale vscale nwords ws)) \<le> buf_len"
  shows "encode_decimal_type (Some m) buf_len pos is_add precision scale vscale nwords (Some ws)
    = Some (OB_SUCCESS, Some (put m pos (wire_decimal is_add precision scale vscale nwords ws)),
            pos + int (length (wire_decimal is_add precision scale vscale nwords ws)))"
proof -
  let ?h = "[OB_DECIMAL_TYPE, if is_add then 1 else 0, precision, scale, vscale, nwords]"
  have "decimal_put (Some (put m pos ?h)) buf_len (6 + pos) ws 0 (length ws)
      = Some (OB_SUCCESS, Some (put m pos (?h @ wire_words ws)),
              6 + pos + int (length (wire_words ws)))"
    using decimal_put_eq [of pos "6 + pos" ?h 0 "length ws" ws buf_len m] assms
    by (simp add: wire_decimal_def)
  moreover have "encode_decimal_type (Some m) buf_len pos is_add precision scale vscale nwords (Some ws)
      = decimal_put (Some (put m pos ?h)) buf_len (6 + pos) ws 0 (length ws)"
    using assms by (simp add: encode_decimal_type_def wire_decimal_def encode_i8_eq put_put)
  ultimately show ?thesis by (simp add: wire_decimal_def)
qed

lemma decode_decimal_type_wire:
  assumes "holds m pos (wire_decimal is_add precision scale vscale nwords ws)"
    and "sint nwords = int (length ws)" and "dec_words d = Some out" and "length ws \<le> length out"
    and "pos + int (length (wire_decimal is_add precision scale vscale nwords ws)) \<le> data_len"
  shows "decode_decimal_type (Some m) data_len (pos + 1) d
    = Some (OB_SUCCESS, pos + int (length (wire_decimal is_add precision scale vscale nwords ws)),
            d\<lparr>dec_is_add := is_add, dec_precision := precision, dec_scale := scale,
              dec_vscale := vscale, dec_nwords := nwords,
              dec_words := Some (ws @ drop (length ws) out)\<rparr>)"
proof -
  have "0 \<le> pos" using holds_bounds [OF assms(1)] by simp
  moreover have "decimal_get (Some m) data_len (6 + pos) out 0 (length ws)
      = Some (OB_SUCCESS, 6 + pos + int (length (wire_words ws)), ws @ drop (length ws) out)"
    using decimal_get_eq [of m "6 + pos" 0 ws "length ws" data_len out] assms
    by (simp add: wire_decimal_def add.commute [of pos])
  ultimately show ?thesis
    using assms by (simp add: decode_decimal_type_def decode_i8_def wire_decimal_def)
qed

text \<open>The count of words comes from the data, and no capacity is passed: a larger count overruns the
  caller's array.\<close>

lemma decimal_get_overrun:
  assumes "holds m q (wire_words (drop i ws))" and "i + r = length ws"
    and "q + int (length (wire_words (drop i ws))) \<le> data_len" and "i \<le> length out"
    and "length out < length ws"
  shows "decimal_get (Some m) data_len q out i r = None"
  using assms
proof (induction r arbitrary: i q out)
  case 0
  then show ?case by simp
next
  case (Suc r)
  then have i: "i < length ws" by simp
  then have d: "drop i ws = ws ! i # drop (Suc i) ws" by (simp add: Cons_nth_drop_Suc)
  let ?w = "ws ! i"
  have h: "holds m q (wire_vi ?w)" "holds m (q + int (vlen (unat ?w))) (wire_words (drop (Suc i) ws))"
    using Suc.prems(1) unfolding d wire_words_Cons holds_append by simp_all
  have dv: "decode_vi32 (Some m) data_len q 0 = Some (OB_SUCCESS, q + int (vlen (unat ?w)), ?w)"
    using h(1) Suc.prems(3) by (intro decode_vi32_wire) (simp_all add: d wire_words_Cons)
  show ?case
  proof (cases "i < length out")
    case True
    then have "decimal_get (Some m) data_len (q + int (vlen (unat ?w))) (out[i := ?w]) (Suc i) r = None"
      using Suc.prems h(2) by (intro Suc.IH) (simp_all add: d wire_words_Cons add_ac)
    with dv show ?thesis by simp
  next
    case False
    with dv show ?thesis by simp
  qed
qed

section \<open>Dates and times\<close>

definition time_bytes :: "u64 \<Rightarrow> nat" where
  "time_bytes a = (if a \<le> 0xffffffff then 4 else if a \<le> 0xffffffffffff then 6 else 8)"

definition time_mark :: "u64 \<Rightarrow> u8" where
  "time_mark a = (if a \<le> 0xffffffff then 0 else if a \<le> 0xffffffffffff then 1 else 2)"

definition wire_time :: "i8 \<Rightarrow> i64 \<Rightarrow> u8 list" where
  "wire_time t v =
     (t OR time_mark (safe_int64_abs v)) # wire_le (time_bytes (safe_int64_abs v)) (safe_int64_abs v)"

lemma length_wire_time: "length (wire_time t v) = Suc (time_bytes (safe_int64_abs v))"
  by (simp add: wire_time_def)

lemma encoded_length_datetime_eq: "encoded_length_datetime v = int (length (wire_time t v))"
  by (simp add: encoded_length_datetime_def length_wire_time time_bytes_def Let_def)

lemma encode_time_type_eq:
  assumes "0 \<le> pos" and "buf_len \<le> int (length m)"
  shows "encode_time_type (Some m) buf_len t pos v =
    (if pos + int (length (wire_time t v)) \<le> buf_len
     then Some (OB_SUCCESS, Some (put m pos (wire_time t v)), pos + int (length (wire_time t v)))
     else Some (OB_SIZE_OVERFLOW, Some m, pos))"
proof -
  let ?a = "safe_int64_abs v"
  have tag: "(if int (Suc (time_bytes ?a)) = 7 then t OR 1
      else if int (Suc (time_bytes ?a)) = 9 then t OR 2 else t) = t OR time_mark ?a"
    by (simp add: time_bytes_def time_mark_def)
  have k: "0 < time_bytes ?a" "time_bytes ?a \<le> 8" by (simp_all add: time_bytes_def)
  have body: "encode_time_type (Some m) buf_len t pos v =
     (if Some m = None \<or> buf_len - pos < int (Suc (time_bytes ?a))
      then Some (OB_SIZE_OVERFLOW, Some m, pos)
      else do {
        (ret, buf, tmp_pos) \<leftarrow> encode_i8 (Some m) buf_len pos (t OR time_mark ?a);
        (ret, buf, tmp_pos) \<leftarrow>
          (if ret = OB_SUCCESS
           then encode_uint_with_given_length buf buf_len tmp_pos ?a (int (Suc (time_bytes ?a)) - 1)
           else Some (ret, buf, tmp_pos));
        Some (ret, buf, if ret = OB_SUCCESS then tmp_pos else pos)
      })"
    unfolding encode_time_type_def encoded_length_datetime_eq [of v t] length_wire_time Let_def tag
    by (rule refl)
  show ?thesis
    unfolding body using assms k
    by (simp add: length_wire_time encode_i8_eq encode_uint_eq put_put wire_time_def)
qed

lemma low_two: "t AND 3 = 0 \<Longrightarrow> (t OR time_mark a) AND 3 = time_mark a"
  by (simp add: bit.conj_disj_distrib2 time_mark_def)

lemma decode_time_type_wire:
  assumes "holds m pos (wire_time t v)" and "t AND 3 = 0"
    and "pos + int (length (wire_time t v)) \<le> data_len"
  shows "decode_time_type (Some m) data_len (t OR time_mark (safe_int64_abs v)) (pos + 1) v0
    = Some (OB_SUCCESS, pos + int (length (wire_time t v)), safe_int64_abs v)"
proof -
  let ?a = "safe_int64_abs v"
  have len: "(if time_mark ?a = 0 then 4 else if time_mark ?a = 1 then 6
      else if time_mark ?a = 2 then 8 else 0) = int (time_bytes ?a)"
    by (simp add: time_mark_def time_bytes_def)
  have k: "0 < time_bytes ?a" "time_bytes ?a \<le> 8" by (simp_all add: time_bytes_def)
  have "unat ?a < 2 ^ LENGTH(64)" by (rule unsigned_less)
  then have "unat ?a < 256 ^ time_bytes ?a" by (simp add: time_bytes_def word_le_nat_alt)
  then have "decode_uint_with_given_length (Some m) data_len (pos + 1) 0 (int (time_bytes ?a))
      = Some (OB_SUCCESS, pos + 1 + int (time_bytes ?a), ?a)"
    using assms k by (intro decode_uint_wire) (simp_all add: wire_time_def)
  then show ?thesis
    using assms(3) k unfolding decode_time_type_def low_two [OF assms(2)] Let_def len
    by (simp add: length_wire_time)
qed

text \<open>The signed types keep sign and operation in bits 2 and 3 of the tag.\<close>

definition signed_time_tag :: "i8 \<Rightarrow> i64 \<Rightarrow> bool \<Rightarrow> i8" where
  "signed_time_tag type_byte v is_add =
     type_byte OR (if sint v < 0 then 4 else 0) OR (if is_add then 8 else 0)"

lemma encode_signed_time_eq:
  assumes "0 \<le> pos" and "buf_len \<le> int (length m)"
  shows "encode_signed_time type_byte (Some m) buf_len pos v is_add =
    (if pos + int (length (wire_time (signed_time_tag type_byte v is_add) v)) \<le> buf_len
     then Some (OB_SUCCESS, Some (put m pos (wire_time (signed_time_tag type_byte v is_add) v)),
                pos + int (length (wire_time (signed_time_tag type_byte v is_add) v)))
     else Some (OB_SIZE_OVERFLOW, Some m, pos))"
proof -
  have tag: "(if is_add then ser_set_bit
        (if v <s 0 then ser_set_bit type_byte OB_DATETIME_SIGN_BIT else type_byte)
        OB_DATETIME_OPERATION_BIT
      else if v <s 0 then ser_set_bit type_byte OB_DATETIME_SIGN_BIT else type_byte)
    = signed_time_tag type_byte v is_add"
    by (simp add: signed_time_tag_def ser_set_bit_def OB_DATETIME_SIGN_BIT_def
        OB_DATETIME_OPERATION_BIT_def word_sless_alt or.assoc)
  show ?thesis
    unfolding encode_signed_time_def Let_def tag
    using assms by (simp add: encode_time_type_eq length_wire_time)
qed

lemma signed_time_tag_bits:
  assumes "type_byte AND 0xf = 0"
  shows "signed_time_tag type_byte v is_add AND 3 = 0"
    and "ser_test_bit (signed_time_tag type_byte v is_add OR time_mark a) OB_DATETIME_SIGN_BIT
      \<longleftrightarrow> sint v < 0"
    and "ser_test_bit (signed_time_tag type_byte v is_add OR time_mark a) OB_DATETIME_OPERATION_BIT
      \<longleftrightarrow> is_add"
proof -
  have "type_byte AND 0xf = take_bit 4 type_byte"
    by (simp add: take_bit_eq_mask mask_eq_exp_minus_1)
  then have low: "\<not> bit type_byte n" if "n < 4" for n
    using assms that by (metis bit_0_eq bit_take_bit_iff bot_apply bot_bool_def)
  have "type_byte AND 3 = take_bit 2 type_byte"
    by (simp add: take_bit_eq_mask mask_eq_exp_minus_1)
  also have "\<dots> = 0" by (rule bit_word_eqI) (auto simp: bit_simps low)
  finally show "signed_time_tag type_byte v is_add AND 3 = 0"
    by (simp add: signed_time_tag_def bit.conj_disj_distrib2)
  show "ser_test_bit (signed_time_tag type_byte v is_add OR time_mark a) OB_DATETIME_SIGN_BIT
      \<longleftrightarrow> sint v < 0"
    and "ser_test_bit (signed_time_tag type_byte v is_add OR time_mark a) OB_DATETIME_OPERATION_BIT
      \<longleftrightarrow> is_add"
    by (simp_all add: test_bit_8 OB_DATETIME_SIGN_BIT_def OB_DATETIME_OPERATION_BIT_def
        signed_time_tag_def time_mark_def bit_or_iff low)
qed

lemma decode_signed_time_wire:
  assumes "type_byte AND 0xf = 0" and "v \<noteq> 0x8000000000000000"
    and "holds m pos (wire_time (signed_time_tag type_byte v is_add) v)"
    and "pos + int (length (wire_time (signed_time_tag type_byte v is_add) v)) \<le> data_len"
  shows "decode_signed_time (Some m) data_len
      (signed_time_tag type_byte v is_add OR time_mark (safe_int64_abs v)) (pos + 1) v0
    = Some (OB_SUCCESS, pos + int (length (wire_time (signed_time_tag type_byte v is_add) v)),
            (v, is_add))"
proof -
  let ?a = "safe_int64_abs v"
  have v: "(if sint v < 0 then - ?a else ?a) = v" by (simp add: safe_int64_abs_eq)
  then have "?a \<noteq> 0x8000000000000000" using assms(2) by (auto split: if_splits)
  with v have "(if sint v < 0 then neg_i64 ?a else Some ?a) = Some v"
    by (auto simp: neg_i64_def split: if_splits)
  then show ?thesis
    using decode_time_type_wire [OF assms(3) signed_time_tag_bits(1) [OF assms(1)] assms(4), of 0]
      assms(4)
    by (simp add: decode_signed_time_def signed_time_tag_bits [OF assms(1)] length_wire_time)
qed

lemma type_bytes_low: "OB_DATETIME_TYPE AND 0xf = 0" "OB_PRECISE_DATETIME_TYPE AND 0xf = 0"
  "OB_MODIFYTIME_TYPE AND 3 = 0" "OB_CREATETIME_TYPE AND 3 = 0"
  by (simp_all add: OB_DATETIME_TYPE_def OB_PRECISE_DATETIME_TYPE_def OB_MODIFYTIME_TYPE_def
      OB_CREATETIME_TYPE_def)

lemma encode_modifytime_type_eq:
  assumes "0 \<le> pos" and "buf_len \<le> int (length m)"
  shows "encode_modifytime_type (Some m) buf_len pos v =
    (if 0 \<le> sint v \<and> pos + int (length (wire_time OB_MODIFYTIME_TYPE v)) \<le> buf_len
     then Some (OB_SUCCESS, Some (put m pos (wire_time OB_MODIFYTIME_TYPE v)),
                pos + int (length (wire_time OB_MODIFYTIME_TYPE v)))
     else Some (OB_SIZE_OVERFLOW, Some m, pos))"
  using assms
  by (auto simp: encode_modifytime_type_def encode_time_type_eq length_wire_time word_sless_alt)

lemma encode_createtime_type_eq:
  assumes "0 \<le> pos" and "buf_len \<le> int (length m)"
  shows "encode_createtime_type (Some m) buf_len pos v =
    (if 0 \<le> sint v \<and> pos + int (length (wire_time OB_CREATETIME_TYPE v)) \<le> buf_len
     then Some (OB_SUCCESS, Some (put m pos (wire_time OB_CREATETIME_TYPE v)),
                pos + int (length (wire_time OB_CREATETIME_TYPE v)))
     else Some (OB_SIZE_OVERFLOW, Some m, pos))"
  using assms
  by (auto simp: encode_createtime_type_def encode_time_type_eq length_wire_time word_sless_alt)

lemma decode_modify_create_wire:
  assumes "t AND 3 = 0" and "0 \<le> sint v" and "holds m pos (wire_time t v)"
    and "pos + int (length (wire_time t v)) \<le> data_len"
  shows "decode_modifytime_type (Some m) data_len (t OR time_mark (safe_int64_abs v)) (pos + 1) v0
      = Some (OB_SUCCESS, pos + int (length (wire_time t v)), v)"
    and "decode_createtime_type (Some m) data_len (t OR time_mark (safe_int64_abs v)) (pos + 1) v0
      = Some (OB_SUCCESS, pos + int (length (wire_time t v)), v)"
proof -
  have "0 < time_bytes (safe_int64_abs v)" by (simp add: time_bytes_def)
  moreover have "safe_int64_abs v = v" using assms(2) by (simp add: safe_int64_abs_eq)
  ultimately show "decode_modifytime_type (Some m) data_len (t OR time_mark (safe_int64_abs v)) (pos + 1) v0
      = Some (OB_SUCCESS, pos + int (length (wire_time t v)), v)"
    and "decode_createtime_type (Some m) data_len (t OR time_mark (safe_int64_abs v)) (pos + 1) v0
      = Some (OB_SUCCESS, pos + int (length (wire_time t v)), v)"
    using decode_time_type_wire [OF assms(3,1,4), of v0] assms(4)
    by (simp_all add: decode_modifytime_type_def decode_createtime_type_def length_wire_time)
qed

section \<open>Extend values\<close>

definition wire_extend :: "i64 \<Rightarrow> u8 list" where
  "wire_extend v = OB_EXTEND_TYPE # wire_vi v"

lemma encode_extend_type_eq:
  assumes "0 \<le> pos" and "0 \<le> buf_len" and "buf_len \<le> int (length m)"
  shows "encode_extend_type (Some m) buf_len pos v =
    (if pos + int (length (wire_extend v)) \<le> buf_len
     then Some (OB_SUCCESS, Some (put m pos (wire_extend v)), pos + int (length (wire_extend v)))
     else Some (OB_SIZE_OVERFLOW, Some m, pos))"
  using assms
  by (simp add: encode_extend_type_def encoded_length_extend_def encoded_length_vi64_vlen
      wire_extend_def encode_i8_eq encode_vi64_eq put_put)

end
