(* ===== verification/SerialGeneric.thy ===== *)
theory SerialGeneric
  imports SerialTypes
begin

text \<open>
  The overload set \<open>encode\<close>, \<open>decode\<close>, \<open>encoded_length\<close> at the end of
  \<open>src/src/lib/utility/serialization.h\<close>, which every serialisable struct is built from: scalars,
  enumerations, zero-terminated character arrays and fixed-size arrays.  An overload is named
  after its argument type.  The array templates call the overload for their element, which is a
  function argument here.
\<close>

section \<open>Enumerations\<close>

definition encode_enum :: "cbuf \<Rightarrow> int \<Rightarrow> int \<Rightarrow> i32 \<Rightarrow> enc_res" where
  "encode_enum buf buf_len pos val = encode_vi32 buf buf_len pos val"

definition decode_enum :: "cbuf \<Rightarrow> int \<Rightarrow> int \<Rightarrow> i32 \<Rightarrow> i32 dec_res" where
  "decode_enum buf data_len pos val = do {
     (ret, pos, ival) \<leftarrow> decode_vi32 buf data_len pos 0;
     Some (ret, pos, ival)
   }"

definition encoded_length_enum :: "i32 \<Rightarrow> int" where
  "encoded_length_enum val = encoded_length_vi32 val"

section \<open>Scalars\<close>

definition encode_int64 :: "cbuf \<Rightarrow> int \<Rightarrow> int \<Rightarrow> i64 \<Rightarrow> enc_res" where
  "encode_int64 buf buf_len pos val = encode_vi64 buf buf_len pos val"

definition encode_int32 :: "cbuf \<Rightarrow> int \<Rightarrow> int \<Rightarrow> i32 \<Rightarrow> enc_res" where
  "encode_int32 buf buf_len pos val = encode_vi32 buf buf_len pos val"

definition encode_int16 :: "cbuf \<Rightarrow> int \<Rightarrow> int \<Rightarrow> i16 \<Rightarrow> enc_res" where
  "encode_int16 buf buf_len pos val = encode_vi32 buf buf_len pos (scast val)"

definition encode_uint16 :: "cbuf \<Rightarrow> int \<Rightarrow> int \<Rightarrow> u16 \<Rightarrow> enc_res" where
  "encode_uint16 buf buf_len pos val = encode_vi32 buf buf_len pos (ucast val)"

definition encode_int8 :: "cbuf \<Rightarrow> int \<Rightarrow> int \<Rightarrow> i8 \<Rightarrow> enc_res" where
  "encode_int8 buf buf_len pos val = encode_i8 buf buf_len pos val"

text \<open>The decoding overloads clear the variable first; the 16-bit ones assign it whatever the result.\<close>

definition decode_int8 :: "cbuf \<Rightarrow> int \<Rightarrow> int \<Rightarrow> i8 \<Rightarrow> i8 dec_res" where
  "decode_int8 buf data_len pos val = decode_i8 buf data_len pos 0"

definition decode_int16 :: "cbuf \<Rightarrow> int \<Rightarrow> int \<Rightarrow> i16 \<Rightarrow> i16 dec_res" where
  "decode_int16 buf data_len pos val = do {
     (ret, pos, v) \<leftarrow> decode_vi32 buf data_len pos 0;
     Some (ret, pos, ucast v)
   }"

definition decode_int32 :: "cbuf \<Rightarrow> int \<Rightarrow> int \<Rightarrow> i32 \<Rightarrow> i32 dec_res" where
  "decode_int32 buf data_len pos val = decode_vi32 buf data_len pos 0"

definition decode_int64 :: "cbuf \<Rightarrow> int \<Rightarrow> int \<Rightarrow> i64 \<Rightarrow> i64 dec_res" where
  "decode_int64 buf data_len pos val = decode_vi64 buf data_len pos 0"

definition decode_boolean :: "cbuf \<Rightarrow> int \<Rightarrow> int \<Rightarrow> bool \<Rightarrow> bool dec_res" where
  "decode_boolean buf data_len pos val = decode_bool buf data_len pos False"

definition decode_flt :: "cbuf \<Rightarrow> int \<Rightarrow> int \<Rightarrow> u32 \<Rightarrow> u32 dec_res" where
  "decode_flt buf data_len pos val = decode_float buf data_len pos 0"

definition decode_dbl :: "cbuf \<Rightarrow> int \<Rightarrow> int \<Rightarrow> u64 \<Rightarrow> u64 dec_res" where
  "decode_dbl buf data_len pos val = decode_double buf data_len pos 0"

definition encoded_length_int16 :: "i16 \<Rightarrow> int" where
  "encoded_length_int16 val = encoded_length_vi32 (scast val)"

definition encoded_length_uint16 :: "u16 \<Rightarrow> int" where
  "encoded_length_uint16 val = encoded_length_vi32 (ucast val)"

section \<open>Character arrays\<close>

definition encode_chars :: "cbuf \<Rightarrow> int \<Rightarrow> int \<Rightarrow> mem \<Rightarrow> enc_res" where
  "encode_chars buf buf_len pos val = do {
     n \<leftarrow> c_strlen val;
     let size = n + 1;
     (ret, buf, pos) \<leftarrow> encode_vi64 buf buf_len pos (word_of_int size);
     if ret \<noteq> OB_SUCCESS then Some (ret, buf, pos)
     else if buf_len - pos \<ge> size then do {
       m \<leftarrow> buf;
       bs \<leftarrow> rd_bytes val 0 size;
       m \<leftarrow> wr_bytes m pos bs;
       Some (ret, Some m, pos + size)
     } else Some (OB_BUF_NOT_ENOUGH, buf, pos)
   }"

definition decode_chars :: "cbuf \<Rightarrow> int \<Rightarrow> int \<Rightarrow> mem \<Rightarrow> mem dec_res" where
  "decode_chars buf data_len pos val = do {
     (ret, pos, rsize) \<leftarrow> decode_int64 buf data_len pos 0;
     let rsize = sint rsize;
     if ret \<noteq> OB_SUCCESS then Some (ret, pos, val)
     else if int (length val) \<ge> rsize \<and> data_len - pos \<ge> rsize then do {
       m \<leftarrow> buf;
       bs \<leftarrow> rd_bytes m pos rsize;
       val \<leftarrow> wr_bytes val 0 bs;
       Some (ret, pos + rsize, val)
     } else Some (OB_DESERIALIZE_ERROR, pos, val)
   }"

definition encoded_length_chars :: "mem \<Rightarrow> int option" where
  "encoded_length_chars val = do {
     n \<leftarrow> c_strlen val;
     let size = n + 1;
     Some (size + encoded_length_vi64 (word_of_int size))
   }"

section \<open>Fixed-size arrays\<close>

fun encode_elems ::
    "(cbuf \<Rightarrow> int \<Rightarrow> int \<Rightarrow> 'v \<Rightarrow> enc_res) \<Rightarrow> cbuf \<Rightarrow> int \<Rightarrow> int \<Rightarrow> 'v list \<Rightarrow> enc_res" where
  "encode_elems enc buf buf_len pos [] = Some (OB_SUCCESS, buf, pos)"
| "encode_elems enc buf buf_len pos (v # vs) = do {
     (ret, buf, pos) \<leftarrow> enc buf buf_len pos v;
     if ret = OB_SUCCESS then encode_elems enc buf buf_len pos vs else Some (ret, buf, pos)
   }"

definition encode_array ::
    "(cbuf \<Rightarrow> int \<Rightarrow> int \<Rightarrow> 'v \<Rightarrow> enc_res) \<Rightarrow> cbuf \<Rightarrow> int \<Rightarrow> int \<Rightarrow> 'v list \<Rightarrow> enc_res" where
  "encode_array enc buf buf_len pos val = do {
     (ret, buf, pos) \<leftarrow> encode_vi64 buf buf_len pos (of_nat (length val));
     if ret \<noteq> OB_SUCCESS then Some (ret, buf, pos)
     else encode_elems enc buf buf_len pos val
   }"

fun decode_elems ::
    "(cbuf \<Rightarrow> int \<Rightarrow> int \<Rightarrow> 'v \<Rightarrow> 'v dec_res) \<Rightarrow> cbuf \<Rightarrow> int \<Rightarrow> int \<Rightarrow> 'v list \<Rightarrow> 'v list dec_res"
where
  "decode_elems dec buf data_len pos [] = Some (OB_SUCCESS, pos, [])"
| "decode_elems dec buf data_len pos (v # vs) = do {
     (ret, pos, v) \<leftarrow> dec buf data_len pos v;
     if ret = OB_SUCCESS then do {
       (ret, pos, vs) \<leftarrow> decode_elems dec buf data_len pos vs;
       Some (ret, pos, v # vs)
     } else Some (ret, pos, v # vs)
   }"

text \<open>A count that differs from the array's is logged, and the result is success.\<close>

definition decode_array ::
    "(cbuf \<Rightarrow> int \<Rightarrow> int \<Rightarrow> 'v \<Rightarrow> 'v dec_res) \<Rightarrow> cbuf \<Rightarrow> int \<Rightarrow> int \<Rightarrow> 'v list \<Rightarrow> 'v list dec_res"
where
  "decode_array dec buf data_len pos val = do {
     (ret, pos, rsize) \<leftarrow> decode_vi64 buf data_len pos 0;
     if ret \<noteq> OB_SUCCESS then Some (ret, pos, val)
     else if int (length val) \<noteq> sint rsize then Some (ret, pos, val)
     else decode_elems dec buf data_len pos val
   }"

fun sum_lengths :: "('v \<Rightarrow> int) \<Rightarrow> int \<Rightarrow> 'v list \<Rightarrow> int" where
  "sum_lengths len acc [] = acc"
| "sum_lengths len acc (v # vs) = sum_lengths len (acc + len v) vs"

definition encoded_length_array :: "('v \<Rightarrow> int) \<Rightarrow> 'v list \<Rightarrow> int" where
  "encoded_length_array len val =
     sum_lengths len (encoded_length_vi64 (of_nat (length val))) val"

section \<open>Scalar codecs\<close>

lemma scast_16_32: "(ucast (scast (v :: u16) :: u32) :: u16) = v"
proof (rule bit_word_eqI)
  fix n assume "n < LENGTH(16)"
  then show "bit (ucast (scast v :: u32) :: u16) n = bit v n"
    by (cases "n = 15") (auto simp: bit_simps min_def)
qed

lemma ucast_16_32: "(ucast (ucast (v :: u16) :: u32) :: u16) = v"
  by (rule bit_word_eqI) (auto simp: bit_simps)

interpretation enumc: strict_codec encode_enum decode_enum wire_vi "\<lambda>_. True"
  by unfold_locales (simp_all add: encode_enum_def decode_enum_def encode_vi32_eq decode_vi32_wire)

interpretation int16: strict_codec encode_int16 decode_int16 "\<lambda>v. wire_vi (scast v :: u32)" "\<lambda>_. True"
  by unfold_locales
    (simp_all add: encode_int16_def decode_int16_def encode_vi32_eq decode_vi32_wire scast_16_32)

interpretation uint16: strict_codec encode_uint16 decode_int16 "\<lambda>v. wire_vi (ucast v :: u32)" "\<lambda>_. True"
  by unfold_locales
    (simp_all add: encode_uint16_def decode_int16_def encode_vi32_eq decode_vi32_wire ucast_16_32)

interpretation int32: strict_codec encode_int32 decode_int32 wire_vi "\<lambda>_. True"
  by unfold_locales (simp_all add: encode_int32_def decode_int32_def encode_vi32_eq decode_vi32_wire)

interpretation int64: strict_codec encode_int64 decode_int64 wire_vi "\<lambda>_. True"
  by unfold_locales (simp_all add: encode_int64_def decode_int64_def encode_vi64_eq decode_vi64_wire)

interpretation int8: strict_codec encode_int8 decode_int8 "\<lambda>v. [v]" "\<lambda>_. True"
  by unfold_locales (simp_all add: encode_int8_def decode_int8_def encode_i8_eq decode_i8_wire)

interpretation boolean: strict_codec encode_bool decode_boolean "\<lambda>v. [if v then 1 else 0]" "\<lambda>_. True"
  by unfold_locales (simp_all add: decode_boolean_def encode_bool_eq boolc.dec_wire)

interpretation flt: strict_codec encode_float decode_flt wire_vi "\<lambda>_. True"
  by unfold_locales
    (use floatc.enc_cases floatc.dec_wire in \<open>simp_all add: decode_flt_def\<close>)

interpretation dbl: strict_codec encode_double decode_dbl wire_vi "\<lambda>_. True"
  by unfold_locales
    (use doublec.enc_cases doublec.dec_wire in \<open>simp_all add: decode_dbl_def\<close>)

section \<open>Arrays of any codec\<close>

definition wire_elems :: "('v \<Rightarrow> u8 list) \<Rightarrow> 'v list \<Rightarrow> u8 list" where
  "wire_elems wire vs = concat (map wire vs)"

definition wire_array :: "('v \<Rightarrow> u8 list) \<Rightarrow> 'v list \<Rightarrow> u8 list" where
  "wire_array wire vs = wire_vi (of_nat (length vs) :: u64) @ wire_elems wire vs"

lemma wire_elems_simps [simp]:
  "wire_elems wire [] = []" "wire_elems wire (v # vs) = wire v @ wire_elems wire vs"
  by (simp_all add: wire_elems_def)

context codec
begin

lemma encode_elems_fits:
  assumes "list_all ok vs" and "0 \<le> p" and "q = p + int (length bs)"
    and "q + int (length (wire_elems wire vs)) \<le> buf_len" and "buf_len \<le> int (length m)"
  shows "encode_elems enc (Some (put m p bs)) buf_len q vs
    = Some (OB_SUCCESS, Some (put m p (bs @ wire_elems wire vs)),
            q + int (length (wire_elems wire vs)))"
  using assms
proof (induction vs arbitrary: q bs)
  case Nil
  then show ?case by simp
next
  case (Cons v vs)
  then have "enc (Some (put m p bs)) buf_len q v
      = Some (OB_SUCCESS, Some (put m p (bs @ wire v)), q + int (length (wire v)))"
    using enc_fits [of v q buf_len "put m p bs"] by (simp add: put_put)
  with Cons.prems Cons.IH [of "q + int (length (wire v))" "bs @ wire v"] show ?case by simp
qed

lemma encode_elems_short:
  assumes "list_all ok vs" and "0 \<le> q" and "buf_len < q + int (length (wire_elems wire vs))"
    and "buf_len \<le> int (length m)" and "q \<le> buf_len"
  shows "\<exists>e b p. encode_elems enc (Some m) buf_len q vs = Some (e, b, p) \<and> e \<noteq> OB_SUCCESS"
  using assms
proof (induction vs arbitrary: q m)
  case Nil
  then show ?case by simp
next
  case (Cons v vs)
  show ?case
  proof (cases "q + int (length (wire v)) \<le> buf_len")
    case True
    with Cons.prems have "enc (Some m) buf_len q v
        = Some (OB_SUCCESS, Some (put m q (wire v)), q + int (length (wire v)))"
      by (intro enc_fits) simp_all
    with Cons.prems True Cons.IH [of "q + int (length (wire v))" "put m q (wire v)"]
    show ?thesis by simp
  next
    case False
    with Cons.prems enc_short [of v q buf_len m] show ?thesis by auto
  qed
qed

lemma decode_elems_wire:
  assumes "list_all ok vs" and "holds m q (wire_elems wire vs)"
    and "q + int (length (wire_elems wire vs)) \<le> data_len" and "data_len \<le> int (length m)"
    and "length ws = length vs"
  shows "decode_elems dec (Some m) data_len q ws
    = Some (OB_SUCCESS, q + int (length (wire_elems wire vs)), vs)"
  using assms
proof (induction vs arbitrary: q ws)
  case Nil
  then show ?case by simp
next
  case (Cons v vs)
  then obtain w ws' where ws: "ws = w # ws'" "length ws' = length vs" by (cases ws) auto
  from Cons.prems have "dec (Some m) data_len q w = Some (OB_SUCCESS, q + int (length (wire v)), v)"
    by (intro dec_wire) (simp_all add: holds_append)
  with Cons ws show ?case by (simp add: holds_append add.assoc)
qed

text \<open>An array of \<open>n\<close> elements of a codec is a codec again.\<close>

lemma encode_array_fits:
  assumes "list_all ok vs" and "0 \<le> pos" and "pos + int (length (wire_array wire vs)) \<le> buf_len"
    and "buf_len \<le> int (length m)"
  shows "encode_array enc (Some m) buf_len pos vs
    = Some (OB_SUCCESS, Some (put m pos (wire_array wire vs)), pos + int (length (wire_array wire vs)))"
  using assms
    encode_elems_fits [of vs pos _ "wire_vi (of_nat (length vs) :: u64)" buf_len m]
  by (simp add: encode_array_def wire_array_def encode_vi64_eq add.assoc)

lemma encode_array_short:
  assumes "list_all ok vs" and "0 \<le> pos" and "buf_len < pos + int (length (wire_array wire vs))"
    and "buf_len \<le> int (length m)"
  shows "\<exists>e b p. encode_array enc (Some m) buf_len pos vs = Some (e, b, p) \<and> e \<noteq> OB_SUCCESS"
  using assms encode_elems_short [of vs "pos + int (vlen (unat (of_nat (length vs) :: u64)))" buf_len
      "put m pos (wire_vi (of_nat (length vs) :: u64))"]
  by (auto simp: encode_array_def wire_array_def encode_vi64_eq)

lemma decode_array_wire:
  assumes "list_all ok vs" and "holds m pos (wire_array wire vs)"
    and "pos + int (length (wire_array wire vs)) \<le> data_len" and "data_len \<le> int (length m)"
    and "length ws = length vs" and "length vs < 2 ^ 63"
  shows "decode_array dec (Some m) data_len pos ws
    = Some (OB_SUCCESS, pos + int (length (wire_array wire vs)), vs)"
proof -
  let ?n = "of_nat (length vs) :: u64"
  have s: "sint ?n = int (length vs)"
    using assms(6) by (simp add: signed_of_nat signed_take_bit_int_eq_self)
  have "decode_vi64 (Some m) data_len pos 0 = Some (OB_SUCCESS, pos + int (vlen (unat ?n)), ?n)"
    using assms by (intro decode_vi64_wire) (simp_all add: wire_array_def holds_append)
  moreover have "decode_elems dec (Some m) data_len (pos + int (vlen (unat ?n))) ws
      = Some (OB_SUCCESS, pos + int (vlen (unat ?n)) + int (length (wire_elems wire vs)), vs)"
    using assms by (intro decode_elems_wire) (simp_all add: wire_array_def holds_append add.assoc)
  ultimately show ?thesis
    using assms(5) by (simp add: decode_array_def s wire_array_def add.assoc)
qed

end

text \<open>Instances: \<open>int64_t[n]\<close>, as the plans and statistics of the proxy use it, and an array of
  enumeration values.  The decoder fills a fresh array.\<close>

interpretation int64_array: codec "encode_array encode_int64"
    "\<lambda>buf data_len pos _. decode_array decode_int64 buf data_len pos (replicate n 0)"
    "wire_array wire_vi" "\<lambda>vs. length vs = n \<and> n < 2 ^ 63" for n
proof (unfold_locales, goal_cases)
  case (1 v pos buf_len m)
  then show ?case by (intro int64.encode_array_fits) (simp_all add: list_all_iff)
next
  case (2 v pos buf_len m)
  then show ?case by (intro int64.encode_array_short) (simp_all add: list_all_iff)
next
  case (3 v m pos data_len v0)
  then show ?case by (intro int64.decode_array_wire) (simp_all add: list_all_iff)
qed

lemma encoded_length_array_eq:
  assumes "\<And>v. len v = int (length (wire v))"
  shows "encoded_length_array len vs = int (length (wire_array wire vs))"
proof -
  have "sum_lengths len k vs = k + int (length (wire_elems wire vs))" for k
    by (induction vs arbitrary: k) (simp_all add: assms)
  then show ?thesis
    by (simp add: encoded_length_array_def wire_array_def encoded_length_vi64_vlen)
qed

text \<open>An array whose count does not match is left alone, and the caller is told success.\<close>

lemma decode_array_mismatch:
  assumes "holds m pos (wire_vi (of_nat n :: u64))" and "n < 2 ^ 31" and "n \<noteq> length ws"
    and "pos + int (vlen n) \<le> data_len"
  shows "decode_array dec (Some m) data_len pos ws = Some (OB_SUCCESS, pos + int (vlen n), ws)"
proof -
  have u: "unat (of_nat n :: u64) = n" using assms(2) by (rule unat_of_nat_64)
  have s: "sint (of_nat n :: u64) = int n"
    using assms(2) by (simp add: signed_of_nat signed_take_bit_int_eq_self)
  have "decode_vi64 (Some m) data_len pos 0 = Some (OB_SUCCESS, pos + int (vlen n), of_nat n)"
    using decode_vi64_wire [OF assms(1), of data_len 0] assms(4) unfolding u by simp
  with assms(3) show ?thesis by (simp add: decode_array_def s)
qed

section \<open>Character arrays\<close>

definition wire_chars :: "u8 list \<Rightarrow> u8 list" where
  "wire_chars s = wire_vi (of_nat (length s + 1) :: u64) @ s @ [0]"

lemma length_wire_chars:
  "length s + 1 < 2 ^ 31 \<Longrightarrow> length (wire_chars s) = vlen (length s + 1) + length s + 1"
  using unat_of_nat_64 [of "length s + 1"] by (simp add: wire_chars_def)

lemma rd_bytes_prefix: "rd_bytes (bs @ rest) 0 (int (length bs)) = Some bs"
  by (simp add: rd_bytes_def)

lemma c_string:
  assumes "0 \<notin> set s"
  shows "c_strlen (s @ 0 # rest) = Some (int (length s))"
    and "rd_bytes (s @ 0 # rest) 0 (int (length s) + 1) = Some (s @ [0])"
  using assms rd_bytes_prefix [of "s @ [0]" rest] by (simp_all add: c_strlen_append add.commute)

lemma encode_chars_eq:
  assumes "0 \<notin> set s" and "length s + 1 < 2 ^ 31" and "0 \<le> pos"
    and "pos + int (length (wire_chars s)) \<le> buf_len" and "buf_len \<le> int (length m)"
  shows "encode_chars (Some m) buf_len pos (s @ 0 # rest)
    = Some (OB_SUCCESS, Some (put m pos (wire_chars s)), pos + int (length (wire_chars s)))"
proof -
  let ?n = "of_nat (length s + 1) :: u64"
  have u: "unat ?n = length s + 1" using assms(2) by (rule unat_of_nat_64)
  have w: "word_of_int (int (length s) + 1) = ?n" by simp
  have e: "encode_vi64 (Some m) buf_len pos ?n
      = Some (OB_SUCCESS, Some (put m pos (wire_vi ?n)), pos + int (vlen (length s + 1)))"
    using assms(4) unfolding length_wire_chars [OF assms(2)] encode_vi64_eq [OF assms(3,5)] u
    by simp
  have c: "wr_bytes (put m pos (wire_vi ?n)) (pos + int (vlen (length s + 1))) (s @ [0])
      = Some (put m pos (wire_chars s))"
    using assms(3-5) unfolding length_wire_chars [OF assms(2)]
    unfolding wire_chars_def by (subst wr_bytes_put) (simp_all only: u length_wire_vi, simp_all)
  show ?thesis
    using assms(4) c unfolding encode_chars_def c_string [OF assms(1)] Let_def w e bind.simps prod.case
      length_wire_chars [OF assms(2)]
    by (simp add: c_string [OF assms(1)])
qed

lemma decode_chars_wire:
  assumes "length s + 1 < 2 ^ 31" and "holds m pos (wire_chars s)"
    and "pos + int (length (wire_chars s)) \<le> data_len" and "length s + 1 \<le> length dst"
  shows "decode_chars (Some m) data_len pos dst
    = Some (OB_SUCCESS, pos + int (length (wire_chars s)), s @ 0 # drop (length s + 1) dst)"
proof -
  let ?n = "of_nat (length s + 1) :: u64"
  have u: "unat ?n = length s + 1" using assms(1) by (rule unat_of_nat_64)
  have sn: "sint ?n = int (length s + 1)"
    using assms(1) by (subst signed_of_nat) (simp add: signed_take_bit_int_eq_self del: of_nat_Suc)
  have h: "holds m pos (wire_vi ?n)" "holds m (pos + int (vlen (length s + 1))) (s @ [0])"
    using assms(2) u unfolding wire_chars_def holds_append by simp_all
  have d: "decode_vi64 (Some m) data_len pos 0 = Some (OB_SUCCESS, pos + int (vlen (length s + 1)), ?n)"
    using decode_vi64_wire [OF h(1), of data_len 0] assms(3) unfolding u length_wire_chars [OF assms(1)]
    by simp
  have r: "rd_bytes m (pos + int (vlen (length s + 1))) (int (length s + 1)) = Some (s @ [0])"
    using rd_bytes_holds [OF h(2)] by simp
  have w: "wr_bytes dst 0 (s @ [0]) = Some (s @ 0 # drop (length s + 1) dst)"
    using assms(4) by (simp add: wr_bytes_def put_def)
  show ?thesis
    using assms(3,4) unfolding decode_chars_def decode_int64_def d bind.simps prod.case sn Let_def
      length_wire_chars [OF assms(1)]
    by (simp only: r) (simp add: w)
qed

text \<open>A negative length passes both comparisons, and reaches \<open>memcpy\<close> as a size.\<close>

lemma decode_chars_negative:
  assumes "holds m pos (wire_vi v)" and "sint (v :: u64) < 0" and "pos + int (vlen (unat v)) \<le> data_len"
  shows "decode_chars (Some m) data_len pos dst = None"
  using assms decode_vi64_wire [OF assms(1,3), of 0]
  by (simp add: decode_chars_def decode_int64_def rd_bytes_def)

end
