(* ===== verification/MysqlStore.thy ===== *)
theory MysqlStore
  imports Codec "HOL-Library.Signed_Division"
begin

text \<open>
  The integers and length-coded values of the MySQL wire protocol: \<open>src/src/rpc/obmysql/ob_mysql_util.h\<close>,
  the first half of \<open>ob_mysql_util.cpp\<close>, and the store and load macros of
  \<open>src/src/lib/charset/ob_mysql_global.h\<close> they expand.  The target is little-endian, and the casts
  to wider pointer types in the macros are plain loads and stores there.

  The \<open>get\<close> functions advance a pointer and take no length.  Here the pointer is an offset into
  its object, and a load that leaves the object is undefined.
\<close>

section \<open>Storing\<close>

definition store_int1 :: "cbuf \<Rightarrow> int \<Rightarrow> int \<Rightarrow> i8 \<Rightarrow> enc_res" where
  "store_int1 buf len pos v =
     (case buf of
        None \<Rightarrow> Some (OB_INVALID_ARGUMENT, None, pos)
      | Some m \<Rightarrow>
          if len \<ge> pos + 1 then do {
            m \<leftarrow> wr m pos v;
            Some (OB_SUCCESS, Some m, pos + 1)
          } else Some (OB_SIZE_OVERFLOW, Some m, pos))"

definition store_int2 :: "cbuf \<Rightarrow> int \<Rightarrow> int \<Rightarrow> i16 \<Rightarrow> enc_res" where
  "store_int2 buf len pos v =
     (case buf of
        None \<Rightarrow> Some (OB_INVALID_ARGUMENT, None, pos)
      | Some m \<Rightarrow>
          if len \<ge> pos + 2 then do {
            m \<leftarrow> wr_bytes m pos (wire_le 2 v);
            Some (OB_SUCCESS, Some m, pos + 2)
          } else Some (OB_SIZE_OVERFLOW, Some m, pos))"

definition store_int3 :: "cbuf \<Rightarrow> int \<Rightarrow> int \<Rightarrow> i32 \<Rightarrow> enc_res" where
  "store_int3 buf len pos v =
     (case buf of
        None \<Rightarrow> Some (OB_INVALID_ARGUMENT, None, pos)
      | Some m \<Rightarrow>
          if len \<ge> pos + 3 then do {
            m \<leftarrow> wr m pos (ucast v);
            m \<leftarrow> wr m (pos + 1) (ucast (drop_bit 8 v));
            m \<leftarrow> wr m (pos + 2) (ucast (signed_drop_bit 16 v));
            Some (OB_SUCCESS, Some m, pos + 3)
          } else Some (OB_SIZE_OVERFLOW, Some m, pos))"

definition store_int4 :: "cbuf \<Rightarrow> int \<Rightarrow> int \<Rightarrow> i32 \<Rightarrow> enc_res" where
  "store_int4 buf len pos v =
     (case buf of
        None \<Rightarrow> Some (OB_INVALID_ARGUMENT, None, pos)
      | Some m \<Rightarrow>
          if len \<ge> pos + 4 then do {
            m \<leftarrow> wr_bytes m pos (wire_le 4 v);
            Some (OB_SUCCESS, Some m, pos + 4)
          } else Some (OB_SIZE_OVERFLOW, Some m, pos))"

definition store_int5 :: "cbuf \<Rightarrow> int \<Rightarrow> int \<Rightarrow> i64 \<Rightarrow> enc_res" where
  "store_int5 buf len pos v =
     (case buf of
        None \<Rightarrow> Some (OB_INVALID_ARGUMENT, None, pos)
      | Some m \<Rightarrow>
          if len \<ge> pos + 5 then do {
            m \<leftarrow> wr m pos (ucast v);
            m \<leftarrow> wr m (pos + 1) (ucast (signed_drop_bit 8 v));
            m \<leftarrow> wr m (pos + 2) (ucast (signed_drop_bit 16 v));
            m \<leftarrow> wr m (pos + 3) (ucast (signed_drop_bit 24 v));
            m \<leftarrow> wr m (pos + 4) (ucast (signed_drop_bit 32 v));
            Some (OB_SUCCESS, Some m, pos + 5)
          } else Some (OB_SIZE_OVERFLOW, Some m, pos))"

definition store_int6 :: "cbuf \<Rightarrow> int \<Rightarrow> int \<Rightarrow> i64 \<Rightarrow> enc_res" where
  "store_int6 buf len pos v =
     (case buf of
        None \<Rightarrow> Some (OB_INVALID_ARGUMENT, None, pos)
      | Some m \<Rightarrow>
          if len \<ge> pos + 6 then do {
            m \<leftarrow> wr m pos (ucast v);
            m \<leftarrow> wr m (pos + 1) (ucast (signed_drop_bit 8 v));
            m \<leftarrow> wr m (pos + 2) (ucast (signed_drop_bit 16 v));
            m \<leftarrow> wr m (pos + 3) (ucast (signed_drop_bit 24 v));
            m \<leftarrow> wr m (pos + 4) (ucast (signed_drop_bit 32 v));
            m \<leftarrow> wr m (pos + 5) (ucast (signed_drop_bit 40 v));
            Some (OB_SUCCESS, Some m, pos + 6)
          } else Some (OB_SIZE_OVERFLOW, Some m, pos))"

definition store_int8 :: "cbuf \<Rightarrow> int \<Rightarrow> int \<Rightarrow> i64 \<Rightarrow> enc_res" where
  "store_int8 buf len pos v =
     (case buf of
        None \<Rightarrow> Some (OB_INVALID_ARGUMENT, None, pos)
      | Some m \<Rightarrow>
          if len \<ge> pos + 8 then do {
            m \<leftarrow> wr_bytes m pos (wire_le 8 v);
            Some (OB_SUCCESS, Some m, pos + 8)
          } else Some (OB_SIZE_OVERFLOW, Some m, pos))"

definition store_null :: "cbuf \<Rightarrow> int \<Rightarrow> int \<Rightarrow> enc_res" where
  "store_null buf len pos = store_int1 buf len pos 251"

section \<open>Loading\<close>

text \<open>A load of \<open>k\<close> consecutive bytes as a little-endian word of the native widths.\<close>

definition le_word :: "u8 list \<Rightarrow> 'a::len word" where
  "le_word bs = word_rcat (rev bs)"

definition get_uint1 :: "cbuf \<Rightarrow> int \<Rightarrow> u8 \<Rightarrow> (int \<times> u8) option" where
  "get_uint1 buf pos v =
     (case buf of None \<Rightarrow> Some (pos, v) | Some m \<Rightarrow> do { b \<leftarrow> rd m pos; Some (pos + 1, b) })"

definition get_uint2 :: "cbuf \<Rightarrow> int \<Rightarrow> u16 \<Rightarrow> (int \<times> u16) option" where
  "get_uint2 buf pos v =
     (case buf of None \<Rightarrow> Some (pos, v)
      | Some m \<Rightarrow> do { bs \<leftarrow> rd_bytes m pos 2; Some (pos + 2, le_word bs) })"

definition get_uint3 :: "cbuf \<Rightarrow> int \<Rightarrow> u32 \<Rightarrow> (int \<times> u32) option" where
  "get_uint3 buf pos v =
     (case buf of None \<Rightarrow> Some (pos, v)
      | Some m \<Rightarrow> do {
          b0 \<leftarrow> rd m pos;
          b1 \<leftarrow> rd m (pos + 1);
          b2 \<leftarrow> rd m (pos + 2);
          Some (pos + 3, ucast b0 + push_bit 8 (ucast b1) + push_bit 16 (ucast b2))
        })"

definition get_uint4 :: "cbuf \<Rightarrow> int \<Rightarrow> u32 \<Rightarrow> (int \<times> u32) option" where
  "get_uint4 buf pos v =
     (case buf of None \<Rightarrow> Some (pos, v)
      | Some m \<Rightarrow> do { bs \<leftarrow> rd_bytes m pos 4; Some (pos + 4, le_word bs) })"

definition get_uint5 :: "cbuf \<Rightarrow> int \<Rightarrow> u64 \<Rightarrow> (int \<times> u64) option" where
  "get_uint5 buf pos v =
     (case buf of None \<Rightarrow> Some (pos, v)
      | Some m \<Rightarrow> do {
          b0 \<leftarrow> rd m pos;
          b1 \<leftarrow> rd m (pos + 1);
          b2 \<leftarrow> rd m (pos + 2);
          b3 \<leftarrow> rd m (pos + 3);
          b4 \<leftarrow> rd m (pos + 4);
          Some (pos + 5,
            ucast (ucast b0 + push_bit 8 (ucast b1) + push_bit 16 (ucast b2)
                   + push_bit 24 (ucast b3) :: u32) + push_bit 32 (ucast b4))
        })"

definition get_uint6 :: "cbuf \<Rightarrow> int \<Rightarrow> u64 \<Rightarrow> (int \<times> u64) option" where
  "get_uint6 buf pos v =
     (case buf of None \<Rightarrow> Some (pos, v)
      | Some m \<Rightarrow> do {
          b0 \<leftarrow> rd m pos;
          b1 \<leftarrow> rd m (pos + 1);
          b2 \<leftarrow> rd m (pos + 2);
          b3 \<leftarrow> rd m (pos + 3);
          b4 \<leftarrow> rd m (pos + 4);
          b5 \<leftarrow> rd m (pos + 5);
          Some (pos + 6,
            ucast (ucast b0 + push_bit 8 (ucast b1) + push_bit 16 (ucast b2)
                   + push_bit 24 (ucast b3) :: u32) + push_bit 32 (ucast b4) + push_bit 40 (ucast b5))
        })"

definition get_uint8 :: "cbuf \<Rightarrow> int \<Rightarrow> u64 \<Rightarrow> (int \<times> u64) option" where
  "get_uint8 buf pos v =
     (case buf of None \<Rightarrow> Some (pos, v)
      | Some m \<Rightarrow> do { bs \<leftarrow> rd_bytes m pos 8; Some (pos + 8, le_word bs) })"

definition get_int3 :: "cbuf \<Rightarrow> int \<Rightarrow> i32 \<Rightarrow> (int \<times> i32) option" where
  "get_int3 buf pos v =
     (case buf of None \<Rightarrow> Some (pos, v)
      | Some m \<Rightarrow> do {
          b2 \<leftarrow> rd m (pos + 2);
          b1 \<leftarrow> rd m (pos + 1);
          b0 \<leftarrow> rd m pos;
          Some (pos + 3,
            if b2 AND 128 \<noteq> 0
            then push_bit 24 255 OR push_bit 16 (ucast b2) OR push_bit 8 (ucast b1) OR ucast b0
            else push_bit 16 (ucast b2) OR push_bit 8 (ucast b1) OR ucast b0)
        })"

text \<open>The remaining signed loads read the same words.\<close>

definition get_int1 :: "cbuf \<Rightarrow> int \<Rightarrow> i8 \<Rightarrow> (int \<times> i8) option" where
  "get_int1 = get_uint1"

definition get_int2 :: "cbuf \<Rightarrow> int \<Rightarrow> i16 \<Rightarrow> (int \<times> i16) option" where
  "get_int2 = get_uint2"

definition get_int4 :: "cbuf \<Rightarrow> int \<Rightarrow> i32 \<Rightarrow> (int \<times> i32) option" where
  "get_int4 = get_uint4"

definition get_int8 :: "cbuf \<Rightarrow> int \<Rightarrow> i64 \<Rightarrow> (int \<times> i64) option" where
  "get_int8 = get_uint8"

section \<open>Length-coded numbers\<close>

definition store_length :: "cbuf \<Rightarrow> int \<Rightarrow> int \<Rightarrow> u64 \<Rightarrow> enc_res" where
  "store_length buf len pos num =
     (if len < 0 \<or> pos < 0 \<or> len \<le> pos then Some (OB_SIZE_OVERFLOW, buf, pos)
      else if buf = None then Some (OB_INVALID_ARGUMENT, buf, pos)
      else
        let remain = len - pos in
        if num < 251 \<and> remain \<ge> 1 then store_int1 buf len pos (ucast num)
        else if num < 0x10000 \<and> remain \<ge> 3 then do {
          (ret, buf, pos) \<leftarrow> store_int1 buf len pos 252;
          if ret \<noteq> OB_SUCCESS then Some (ret, buf, pos)
          else do {
            (ret, buf, pos) \<leftarrow> store_int2 buf len pos (ucast num);
            Some (ret, buf, if ret \<noteq> OB_SUCCESS then pos - 1 else pos)
          }
        }
        else if num < 0x1000000 \<and> remain \<ge> 4 then do {
          (ret, buf, pos) \<leftarrow> store_int1 buf len pos 253;
          if ret \<noteq> OB_SUCCESS then Some (ret, buf, pos)
          else do {
            (ret, buf, pos) \<leftarrow> store_int3 buf len pos (ucast num);
            Some (ret, buf, if ret \<noteq> OB_SUCCESS then pos - 1 else pos)
          }
        }
        else if num < 0xffffffffffffffff \<and> remain \<ge> 9 then do {
          (ret, buf, pos) \<leftarrow> store_int1 buf len pos 254;
          if ret \<noteq> OB_SUCCESS then Some (ret, buf, pos)
          else do {
            (ret, buf, pos) \<leftarrow> store_int8 buf len pos num;
            Some (ret, buf, if ret \<noteq> OB_SUCCESS then pos - 1 else pos)
          }
        }
        else if num = 0xffffffffffffffff then store_null buf len pos
        else Some (OB_SIZE_OVERFLOW, buf, pos))"

definition get_length :: "cbuf \<Rightarrow> int \<Rightarrow> u64 \<Rightarrow> u64 dec_res" where
  "get_length buf pos num =
     (if buf = None then Some (OB_INVALID_ARGUMENT, pos, num)
      else do {
        (pos, sentinel) \<leftarrow> get_uint1 buf pos 0;
        if sentinel < 251 then Some (OB_SUCCESS, pos, ucast sentinel)
        else if sentinel = 251 then Some (OB_SUCCESS, pos, 0xffffffffffffffff)
        else if sentinel = 252 then do {
          (pos, s2) \<leftarrow> get_uint2 buf pos 0;
          Some (OB_SUCCESS, pos, ucast s2)
        }
        else if sentinel = 253 then do {
          (pos, s4) \<leftarrow> get_uint3 buf pos 0;
          Some (OB_SUCCESS, pos, ucast s4)
        }
        else if sentinel = 254 then do {
          (pos, num) \<leftarrow> get_uint8 buf pos num;
          Some (OB_SUCCESS, pos, num)
        }
        else Some (OB_INVALID_DATA, pos - 1, num)
      })"

text \<open>The overload that also reports how far the pointer moved.\<close>

definition get_length_inc :: "cbuf \<Rightarrow> int \<Rightarrow> u64 \<times> int \<Rightarrow> (u64 \<times> int) dec_res" where
  "get_length_inc buf pos v = do {
     (ret, pos', num) \<leftarrow> get_length buf pos (fst v);
     Some (ret, pos', (num, if ret \<noteq> OB_SUCCESS then snd v else pos' - pos))
   }"

definition get_number_store_len :: "u64 \<Rightarrow> u64" where
  "get_number_store_len num =
     (if num < 251 then 1
      else if num < push_bit 16 1 then 3
      else if num < push_bit 24 1 then 4
      else if num < 0xffffffffffffffff then 9
      else if num = 0xffffffffffffffff then 1
      else 0)"

section \<open>Little-endian words\<close>

lemma horner_wire_le:
  "horner_sum uint 256 (wire_le k v) = take_bit (8 * k) (uint (v :: 'a::len word))"
proof (induction k)
  case 0
  then show ?case by (simp add: wire_le_def)
next
  case (Suc k)
  have "wire_le (Suc k) v = wire_le k v @ [byte_at k v]" by (simp add: wire_le_def)
  moreover have "uint (byte_at k v) = take_bit 8 (drop_bit (8 * k) (uint v))"
    by (rule bit_eqI) (auto simp: byte_at_def bit_simps)
  moreover have "take_bit (8 * Suc k) x = take_bit (8 * k) x + 256 ^ k * take_bit 8 (drop_bit (8 * k) x)"
    for x :: int
  proof -
    have "take_bit (8 * Suc k) x = take_bit (8 * k) x + push_bit (8 * k) (take_bit 8 (drop_bit (8 * k) x))"
      by (subst disjunctive_add_eq_or)
        (auto intro!: bit_eqI simp: bit_simps)
    moreover have "(256 :: int) ^ k = 2 ^ (8 * k)" by (simp add: power_mult)
    ultimately show ?thesis by (simp add: push_bit_eq_mult mult.commute)
  qed
  ultimately show ?case using Suc by (simp add: horner_sum_append)
qed

lemma le_word_wire_le:
  assumes "LENGTH('a) \<le> 8 * k"
  shows "le_word (wire_le k (v :: 'a::len word)) = v"
proof -
  have "le_word (wire_le k v) = word_of_int (horner_sum uint 256 (wire_le k v))"
    by (simp add: le_word_def word_rcat_def)
  also have "\<dots> = word_of_int (take_bit (8 * k) (uint v))" by (simp only: horner_wire_le)
  also have "\<dots> = v"
    using assms by (intro bit_word_eqI) (auto simp: bit_simps)
  finally show ?thesis .
qed

section \<open>Integer codecs\<close>

text \<open>A load seen as a decoder: it reports no error and has no limit.\<close>

definition loaded :: "(int \<times> 'v) option \<Rightarrow> 'v dec_res" where
  "loaded r = map_option (\<lambda>(pos, v). (OB_SUCCESS, pos, v)) r"

lemma wire_le_explicit:
  "wire_le 3 v = [byte_at 0 v, byte_at 1 v, byte_at 2 v]"
  "wire_le 5 v = [byte_at 0 v, byte_at 1 v, byte_at 2 v, byte_at 3 v, byte_at 4 v]"
  "wire_le 6 v = [byte_at 0 v, byte_at 1 v, byte_at 2 v, byte_at 3 v, byte_at 4 v, byte_at 5 v]"
  by (simp_all add: wire_le_def upt_rec numeral_eq_Suc)

lemma store_int_eq:
  assumes "0 \<le> pos" and "len \<le> int (length m)"
  shows store_int1_eq: "store_int1 (Some m) len pos v1 =
    (if pos + 1 \<le> len then Some (OB_SUCCESS, Some (put m pos [v1]), pos + 1)
     else Some (OB_SIZE_OVERFLOW, Some m, pos))"
    and store_int2_eq: "store_int2 (Some m) len pos v2 =
    (if pos + 2 \<le> len then Some (OB_SUCCESS, Some (put m pos (wire_le 2 v2)), pos + 2)
     else Some (OB_SIZE_OVERFLOW, Some m, pos))"
    and store_int3_eq: "store_int3 (Some m) len pos v3 =
    (if pos + 3 \<le> len then Some (OB_SUCCESS, Some (put m pos (wire_le 3 v3)), pos + 3)
     else Some (OB_SIZE_OVERFLOW, Some m, pos))"
    and store_int4_eq: "store_int4 (Some m) len pos v4 =
    (if pos + 4 \<le> len then Some (OB_SUCCESS, Some (put m pos (wire_le 4 v4)), pos + 4)
     else Some (OB_SIZE_OVERFLOW, Some m, pos))"
  using assms byte_at_drop_bit [of 1 v3]
  by (simp_all add: store_int1_def store_int2_def store_int3_def store_int4_def mem_simps
      wr_bytes_def wire_le_explicit byte_at_low byte_sdrop)

lemma store_int_eq_64:
  assumes "0 \<le> pos" and "len \<le> int (length m)"
  shows store_int5_eq: "store_int5 (Some m) len pos v =
    (if pos + 5 \<le> len then Some (OB_SUCCESS, Some (put m pos (wire_le 5 v)), pos + 5)
     else Some (OB_SIZE_OVERFLOW, Some m, pos))"
    and store_int6_eq: "store_int6 (Some m) len pos v =
    (if pos + 6 \<le> len then Some (OB_SUCCESS, Some (put m pos (wire_le 6 v)), pos + 6)
     else Some (OB_SIZE_OVERFLOW, Some m, pos))"
    and store_int8_eq: "store_int8 (Some m) len pos v =
    (if pos + 8 \<le> len then Some (OB_SUCCESS, Some (put m pos (wire_le 8 v)), pos + 8)
     else Some (OB_SIZE_OVERFLOW, Some m, pos))"
  using assms
  by (simp_all add: store_int5_def store_int6_def store_int8_def mem_simps
      wr_bytes_def wire_le_explicit byte_at_low byte_sdrop)

text \<open>The sums of shifted bytes in the macros have no carries.\<close>

lemma byte_join_add:
  fixes v :: "'a::len word"
  shows "take_bit (8 * k) v + push_bit (8 * k) (ucast (byte_at k v)) = take_bit (8 * Suc k) v"
proof -
  have "take_bit (8 * k) v + push_bit (8 * k) (ucast (byte_at k v))
      = take_bit (8 * k) v OR push_bit (8 * k) (ucast (byte_at k v))"
    by (rule disjunctive_add_eq_or) (auto intro!: bit_word_eqI simp: bit_simps)
  then show ?thesis by (simp only: byte_join)
qed

lemma byte_join_adds:
  fixes v :: "'a::len word"
  shows "ucast (byte_at 0 v) = take_bit 8 v"
    and "take_bit 8 v + push_bit 8 (ucast (byte_at 1 v)) = take_bit 16 v"
    and "take_bit 16 v + push_bit 16 (ucast (byte_at 2 v)) = take_bit 24 v"
    and "take_bit 24 v + push_bit 24 (ucast (byte_at 3 v)) = take_bit 32 v"
    and "take_bit 32 v + push_bit 32 (ucast (byte_at 4 v)) = take_bit 40 v"
    and "take_bit 40 v + push_bit 40 (ucast (byte_at 5 v)) = take_bit 48 v"
  using byte_join_add [of 0 v] byte_join_add [of 1 v] byte_join_add [of 2 v] byte_join_add [of 3 v]
    byte_join_add [of 4 v] byte_join_add [of 5 v]
  by simp_all

lemma byte_at_ucast_32:
  "k < 4 \<Longrightarrow> byte_at k (v :: u64) = byte_at k (ucast v :: u32)"
  unfolding byte_at_def by (rule bit_word_eqI) (auto simp: bit_simps)

lemma low_sum_32:
  fixes v :: u64
  shows "(ucast (byte_at 0 v) + push_bit 8 (ucast (byte_at 1 v)) + push_bit 16 (ucast (byte_at 2 v))
    + push_bit 24 (ucast (byte_at 3 v)) :: u32) = ucast v"
proof -
  let ?w = "ucast v :: u32"
  have "ucast (byte_at 0 ?w) + push_bit 8 (ucast (byte_at 1 ?w)) + push_bit 16 (ucast (byte_at 2 ?w))
    + push_bit 24 (ucast (byte_at 3 ?w)) = take_bit 32 ?w"
    by (simp only: byte_join_adds)
  then show ?thesis by (simp add: byte_at_ucast_32 take_bit_word_eq_self)
qed

lemma get_uint_wire:
  assumes "holds m pos (wire_le k v)"
  shows "k = 3 \<Longrightarrow> get_uint3 (Some m) pos v0 = Some (pos + 3, take_bit 24 (v :: u32))"
  using assms byte_join_adds(2,3) [of v]
  by (simp add: get_uint3_def wire_le_explicit byte_join_adds(1) add.commute [of _ pos])

lemma get_uint_wire_64:
  shows "holds m pos (wire_le 5 v) \<Longrightarrow> get_uint5 (Some m) pos v0 = Some (pos + 5, take_bit 40 (v :: u64))"
    and "holds m pos (wire_le 6 v) \<Longrightarrow> get_uint6 (Some m) pos v0 = Some (pos + 6, take_bit 48 (v :: u64))"
proof -
  have u: "(ucast (ucast v :: u32) :: u64) = take_bit 32 v"
    by (rule bit_word_eqI) (auto simp: bit_simps)
  show "holds m pos (wire_le 5 v) \<Longrightarrow> get_uint5 (Some m) pos v0 = Some (pos + 5, take_bit 40 (v :: u64))"
    and "holds m pos (wire_le 6 v) \<Longrightarrow> get_uint6 (Some m) pos v0 = Some (pos + 6, take_bit 48 (v :: u64))"
    using low_sum_32 [of v] byte_join_adds(5,6) [of v]
    by (simp_all add: get_uint5_def get_uint6_def wire_le_explicit u add.commute [of _ pos])
qed

lemma get_native_wire:
  shows "holds m pos (wire_le 2 v2) \<Longrightarrow> get_uint2 (Some m) pos w2 = Some (pos + 2, v2)"
    and "holds m pos (wire_le 4 v4) \<Longrightarrow> get_uint4 (Some m) pos w4 = Some (pos + 4, v4)"
    and "holds m pos (wire_le 8 v8) \<Longrightarrow> get_uint8 (Some m) pos w8 = Some (pos + 8, v8)"
  using rd_bytes_holds [of m pos "wire_le 2 v2"] rd_bytes_holds [of m pos "wire_le 4 v4"]
    rd_bytes_holds [of m pos "wire_le 8 v8"]
  by (simp_all add: get_uint2_def get_uint4_def get_uint8_def le_word_wire_le)

text \<open>The three-byte signed load extends the sign of its top byte.\<close>

lemma get_int3_wire:
  assumes "holds m pos (wire_le 3 v)" and "- (2 ^ 23) \<le> sint v" and "sint v < 2 ^ 23"
  shows "get_int3 (Some m) pos v0 = Some (pos + 3, v)"
proof -
  have top: "byte_at 2 v AND 128 \<noteq> 0 \<longleftrightarrow> bit v 23"
    using and_exp_eq_0_iff_not_bit [of "byte_at 2 v" 7] by (simp add: byte_at_def bit_simps)
  have "signed_take_bit 23 (sint v) = sint v"
    using assms(2,3) by (simp add: signed_take_bit_int_eq_self)
  then have "bit (signed_take_bit 23 (sint v)) n \<longleftrightarrow> bit (sint v) n" for n
    by (simp only:)
  then have st: "bit (sint v) n \<longleftrightarrow> bit (sint v) (min 23 n)" for n
    by (simp add: bit_signed_take_bit_iff min.commute)
  have sb: "bit (sint v) n \<longleftrightarrow> bit v n" if "n < 32" for n
    using that by (cases "n = 31") (auto simp: bit_sint_iff not_le)
  have b: "bit v n \<longleftrightarrow> bit v 23" if "23 \<le> n" "n < 32" for n
    using st [of n] sb [of n] sb [of 23] that by (simp add: min_def)
  have "(if bit v 23 then push_bit 24 255 OR push_bit 16 (ucast (byte_at 2 v))
        OR push_bit 8 (ucast (byte_at 1 v)) OR ucast (byte_at 0 v)
      else push_bit 16 (ucast (byte_at 2 v)) OR push_bit 8 (ucast (byte_at 1 v)) OR ucast (byte_at 0 v))
    = v"
  proof (rule bit_word_eqI)
    fix n assume "n < LENGTH(32)"
    then have n: "n < 32" by simp
    have m: "(255 :: u32) = mask 8" by (simp add: mask_eq_exp_minus_1)
    have e: "bit (push_bit 24 255 OR x) n \<longleftrightarrow> 24 \<le> n \<or> bit x n" for x :: u32
      using n by (auto simp: m bit_simps)
    have l: "bit (push_bit 16 (ucast (byte_at 2 v)) OR push_bit 8 (ucast (byte_at 1 v))
        OR ucast (byte_at 0 v) :: u32) n \<longleftrightarrow> n < 24 \<and> bit v n"
      using n by (cases "n < 8"; cases "n < 16"; cases "n < 24") (auto simp: byte_at_def bit_simps)
    show "bit (if bit v 23 then push_bit 24 255 OR push_bit 16 (ucast (byte_at 2 v))
        OR push_bit 8 (ucast (byte_at 1 v)) OR ucast (byte_at 0 v)
      else push_bit 16 (ucast (byte_at 2 v)) OR push_bit 8 (ucast (byte_at 1 v))
        OR ucast (byte_at 0 v) :: u32) n = bit v n"
    proof (cases "bit v 23")
      case True
      show ?thesis unfolding if_P [OF True] e l using True b [of n] n by auto
    next
      case False
      show ?thesis unfolding if_not_P [OF False] l
        using False b [of n] n by (cases "n < 23") auto
    qed
  qed
  with assms(1) top show ?thesis
    by (cases "bit v 23"; simp add: get_int3_def wire_le_explicit add.commute [of _ pos])
qed

interpretation sint1: strict_codec store_int1 "\<lambda>buf len pos v. loaded (get_int1 buf pos v)"
    "\<lambda>v. [v]" "\<lambda>_. True"
  by unfold_locales (simp_all add: store_int1_eq loaded_def get_int1_def get_uint1_def)

interpretation sint2: strict_codec store_int2 "\<lambda>buf len pos v. loaded (get_int2 buf pos v)"
    "wire_le 2" "\<lambda>_. True"
  by unfold_locales (simp_all add: store_int2_eq loaded_def get_int2_def get_native_wire)

interpretation sint3: strict_codec store_int3 "\<lambda>buf len pos v. loaded (get_int3 buf pos v)"
    "wire_le 3" "\<lambda>v. - (2 ^ 23) \<le> sint v \<and> sint v < 2 ^ 23"
  by unfold_locales (simp_all add: store_int3_eq loaded_def get_int3_wire)

interpretation uint3: strict_codec store_int3 "\<lambda>buf len pos v. loaded (get_uint3 buf pos v)"
    "wire_le 3" "\<lambda>v. take_bit 24 v = v"
  by unfold_locales (simp_all add: store_int3_eq loaded_def get_uint_wire)

interpretation sint4: strict_codec store_int4 "\<lambda>buf len pos v. loaded (get_int4 buf pos v)"
    "wire_le 4" "\<lambda>_. True"
  by unfold_locales (simp_all add: store_int4_eq loaded_def get_int4_def get_native_wire)

interpretation uint5: strict_codec store_int5 "\<lambda>buf len pos v. loaded (get_uint5 buf pos v)"
    "wire_le 5" "\<lambda>v. take_bit 40 v = v"
  by unfold_locales (simp_all add: store_int5_eq loaded_def get_uint_wire_64)

interpretation uint6: strict_codec store_int6 "\<lambda>buf len pos v. loaded (get_uint6 buf pos v)"
    "wire_le 6" "\<lambda>v. take_bit 48 v = v"
  by unfold_locales (simp_all add: store_int6_eq loaded_def get_uint_wire_64)

interpretation sint8: strict_codec store_int8 "\<lambda>buf len pos v. loaded (get_int8 buf pos v)"
    "wire_le 8" "\<lambda>_. True"
  by unfold_locales (simp_all add: store_int8_eq loaded_def get_int8_def get_native_wire)

section \<open>Length-coded numbers\<close>

text \<open>The protocol's length-encoded integer; the largest 64-bit value is the null marker.\<close>

definition wire_lenenc :: "u64 \<Rightarrow> u8 list" where
  "wire_lenenc n =
     (if n < 251 then [ucast n]
      else if n < 0x10000 then 252 # wire_le 2 n
      else if n < 0x1000000 then 253 # wire_le 3 n
      else if n < 0xffffffffffffffff then 254 # wire_le 8 n
      else [251])"

lemma wire_le_ucast:
  assumes "8 * k \<le> LENGTH('b)"
  shows "wire_le k (ucast (v :: 'a::len word) :: 'b::len word) = wire_le k v"
proof -
  have "byte_at i (ucast v :: 'b word) = byte_at i v" if "i < k" for i
    unfolding byte_at_def
  proof (rule bit_word_eqI)
    fix n assume "n < LENGTH(8)"
    then have "8 * i + n < LENGTH('b)" using that assms by simp
    then show "bit (ucast (drop_bit (8 * i) (ucast v :: 'b word)) :: u8) n
        = bit (ucast (drop_bit (8 * i) v) :: u8) n"
      by (auto simp: bit_simps)
  qed
  then show ?thesis by (simp add: wire_le_def)
qed

lemma max_u64: "\<not> (n :: u64) < 0xffffffffffffffff \<Longrightarrow> n = 0xffffffffffffffff"
proof -
  assume "\<not> n < 0xffffffffffffffff"
  moreover have "unat n < 2 ^ LENGTH(64)" by (rule unsigned_less)
  ultimately show ?thesis by (simp add: word_less_nat_alt word_unat_eq_iff)
qed

lemma get_number_store_len_eq: "uint (get_number_store_len n) = int (length (wire_lenenc n))"
proof -
  show ?thesis using max_u64 [of n] by (auto simp: get_number_store_len_def wire_lenenc_def)
qed

lemma store_length_eq:
  assumes "0 \<le> pos" and "len \<le> int (length m)"
  shows "store_length (Some m) len pos n =
    (if pos + int (length (wire_lenenc n)) \<le> len
     then Some (OB_SUCCESS, Some (put m pos (wire_lenenc n)), pos + int (length (wire_lenenc n)))
     else Some (OB_SIZE_OVERFLOW, Some m, pos))"
proof -
  note top = max_u64 [of n]
  consider "n < 251" | "\<not> n < 251" "n < 0x10000" | "\<not> n < 0x10000" "n < 0x1000000"
    | "\<not> n < 0x1000000" "n < 0xffffffffffffffff" | "n = 0xffffffffffffffff"
    using top by blast
  then show ?thesis
  proof cases
    case 1
    with assms show ?thesis
      by (simp add: store_length_def wire_lenenc_def store_int1_eq)
  next
    case 2
    then have "n < 0x1000000" "n < 0xffffffffffffffff" "n \<noteq> 0xffffffffffffffff"
      by (auto simp: word_less_nat_alt)
    with 2 assms show ?thesis
      by (simp add: store_length_def wire_lenenc_def Let_def store_int1_eq store_int2_eq
          wire_le_ucast put_put)
  next
    case 3
    then have "\<not> n < 251" "n < 0xffffffffffffffff" "n \<noteq> 0xffffffffffffffff"
      by (auto simp: word_less_nat_alt)
    with 3 assms show ?thesis
      by (simp add: store_length_def wire_lenenc_def Let_def store_int1_eq store_int3_eq
          wire_le_ucast put_put)
  next
    case 4
    then have "\<not> n < 251" "\<not> n < 0x10000" "n \<noteq> 0xffffffffffffffff"
      by (auto simp: word_less_nat_alt)
    with 4 assms show ?thesis
      by (simp add: store_length_def wire_lenenc_def Let_def store_int1_eq store_int8_eq put_put)
  next
    case 5
    with assms show ?thesis
      by (simp add: store_length_def wire_lenenc_def Let_def store_null_def store_int1_eq)
  qed
qed

lemma ucast_back: "(ucast (ucast (n :: u64) :: 'a::len word) :: u64) = take_bit (LENGTH('a)) n"
  by (rule bit_word_eqI) (auto simp: bit_simps)

lemma get_length_wire:
  assumes "holds m pos (wire_lenenc n)"
  shows "get_length (Some m) pos n0 = Some (OB_SUCCESS, pos + int (length (wire_lenenc n)), n)"
proof -
  note top = max_u64 [of n]
  have small: "take_bit k n = n" if "unat n < 2 ^ k" for k
    using that by (simp add: word_unat_eq_iff unsigned_take_bit_eq take_bit_nat_eq_self)
  consider "n < 251" | "\<not> n < 251" "n < 0x10000" | "\<not> n < 0x10000" "n < 0x1000000"
    | "\<not> n < 0x1000000" "n < 0xffffffffffffffff" | "n = 0xffffffffffffffff"
    using top by blast
  then show ?thesis
  proof cases
    case 1
    then have "unat n < 251" by (simp add: word_less_nat_alt)
    then have "(ucast n :: u8) < 251" and "take_bit 8 n = n"
      by (simp_all add: word_less_nat_alt unsigned_ucast_eq take_bit_nat_eq_self small)
    with 1 assms show ?thesis
      by (simp add: get_length_def get_uint1_def wire_lenenc_def ucast_back)
  next
    case 2
    then have "take_bit 16 n = n" by (intro small) (simp add: word_less_nat_alt)
    moreover have "get_uint2 (Some m) (pos + 1) 0 = Some (pos + 1 + 2, ucast n)"
      using assms 2 by (intro get_native_wire) (simp add: wire_lenenc_def wire_le_ucast)
    ultimately show ?thesis
      using 2 assms by (simp add: get_length_def get_uint1_def wire_lenenc_def ucast_back)
  next
    case 3
    then have "\<not> n < 251" by (auto simp: word_less_nat_alt)
    moreover have t: "take_bit 24 n = n" using 3 by (intro small) (simp add: word_less_nat_alt)
    moreover have "get_uint3 (Some m) (pos + 1) 0 = Some (pos + 1 + 3, take_bit 24 (ucast n))"
      using assms 3 \<open>\<not> n < 251\<close>
      by (intro get_uint_wire) (simp_all add: wire_lenenc_def wire_le_ucast)
    moreover have "(ucast (take_bit 24 (ucast n :: u32)) :: u64) = take_bit 24 n"
      by (rule bit_word_eqI) (auto simp: bit_simps)
    ultimately show ?thesis
      using 3 assms by (simp add: get_length_def get_uint1_def wire_lenenc_def)
  next
    case 4
    then have "\<not> n < 251" "\<not> n < 0x10000" by (auto simp: word_less_nat_alt)
    moreover have "get_uint8 (Some m) (pos + 1) n0 = Some (pos + 1 + 8, n)"
      using assms 4 calculation by (intro get_native_wire) (simp add: wire_lenenc_def)
    ultimately show ?thesis
      using 4 assms by (simp add: get_length_def get_uint1_def wire_lenenc_def)
  next
    case 5
    with assms show ?thesis
      by (simp add: get_length_def get_uint1_def wire_lenenc_def)
  qed
qed

interpretation lenenc: strict_codec store_length "\<lambda>buf len pos n. get_length buf pos n"
    wire_lenenc "\<lambda>_. True"
  by unfold_locales (simp_all add: store_length_eq get_length_wire)

text \<open>The byte 255 is refused, and the pointer stays on it.\<close>

lemma get_length_invalid:
  "rd m pos = Some 255 \<Longrightarrow> get_length (Some m) pos n0 = Some (OB_INVALID_DATA, pos, n0)"
  by (simp add: get_length_def get_uint1_def)

end
