(* ===== verification/MysqlCell.thy ===== *)
theory MysqlCell
  imports MysqlStore
begin

text \<open>
  Strings and result-set cells of \<open>src/src/rpc/obmysql/ob_mysql_util.cpp\<close>: the \<open>store_str\<close> family,
  the null bitmap, and the cells of the text and binary protocol for integers, null and strings.
  The cells of numbers, floats, dates and times format their value with code of other components
  and are not modelled.

  A source string is a \<open>cbuf\<close>; an \<open>ObString\<close> argument is its pointer and its 32-bit length.
\<close>

section \<open>Strings\<close>

text \<open>\<open>MEMCPY(buf + pos, str, length)\<close>; nothing happens for a length of zero.\<close>

definition copy_str :: "mem \<Rightarrow> int \<Rightarrow> cbuf \<Rightarrow> int \<Rightarrow> mem option" where
  "copy_str m pos str len =
     (if len = 0 then Some m
      else do {
        s \<leftarrow> str;
        bs \<leftarrow> rd_bytes s 0 len;
        wr_bytes m pos bs
      })"

definition store_str_v :: "cbuf \<Rightarrow> int \<Rightarrow> int \<Rightarrow> cbuf \<Rightarrow> u64 \<Rightarrow> enc_res" where
  "store_str_v buf len pos str num =
     (if buf = None then Some (OB_INVALID_ARGUMENT, buf, pos)
      else do {
        let pos_bk = pos;
        (ret, buf, pos) \<leftarrow> store_length buf len pos num;
        if ret \<noteq> OB_SUCCESS then Some (ret, buf, pos)
        else if len \<ge> pos \<and> uint num \<le> len - pos then
          if num = 0 \<or> num > 0 \<and> str \<noteq> None then do {
            m \<leftarrow> buf;
            m \<leftarrow> copy_str m pos str (uint num);
            Some (OB_SUCCESS, Some m, pos + uint num)
          } else Some (OB_INVALID_ARGUMENT, buf, pos)
        else Some (OB_SIZE_OVERFLOW, buf, pos_bk)
      })"

definition store_str :: "cbuf \<Rightarrow> int \<Rightarrow> int \<Rightarrow> mem \<Rightarrow> enc_res" where
  "store_str buf len pos str = do {
     n \<leftarrow> c_strlen str;
     store_str_v buf len pos (Some str) (word_of_int n)
   }"

definition store_obstr :: "cbuf \<Rightarrow> int \<Rightarrow> int \<Rightarrow> cbuf \<times> i32 \<Rightarrow> enc_res" where
  "store_obstr buf len pos str = store_str_v buf len pos (fst str) (scast (snd str))"

definition store_str_vnzt :: "cbuf \<Rightarrow> int \<Rightarrow> int \<Rightarrow> cbuf \<Rightarrow> int \<Rightarrow> enc_res" where
  "store_str_vnzt buf len pos str num =
     (if buf = None then Some (OB_INVALID_ARGUMENT, buf, pos)
      else if num \<ge> 0 then
        if len > 0 \<and> pos \<ge> 0 \<and> len \<ge> pos \<and> len - pos \<ge> num then
          if num = 0 \<or> num > 0 \<and> str \<noteq> None then do {
            m \<leftarrow> buf;
            m \<leftarrow> copy_str m pos str num;
            Some (OB_SUCCESS, Some m, pos + num)
          } else Some (OB_INVALID_ARGUMENT, buf, pos)
        else Some (OB_SIZE_OVERFLOW, buf, pos)
      else Some (OB_INVALID_ARGUMENT, buf, pos))"

definition store_str_nzt :: "cbuf \<Rightarrow> int \<Rightarrow> int \<Rightarrow> mem \<Rightarrow> enc_res" where
  "store_str_nzt buf len pos str = do {
     n \<leftarrow> c_strlen str;
     store_str_vnzt buf len pos (Some str) n
   }"

definition store_str_vzt :: "cbuf \<Rightarrow> int \<Rightarrow> int \<Rightarrow> cbuf \<Rightarrow> u64 \<Rightarrow> enc_res" where
  "store_str_vzt buf len pos str num =
     (if buf = None then Some (OB_INVALID_ARGUMENT, buf, pos)
      else if len > 0 \<and> pos \<ge> 0 \<and> len > pos \<and> len - pos > uint num then
        if num = 0 \<or> num > 0 \<and> str \<noteq> None then do {
          m \<leftarrow> buf;
          m \<leftarrow> copy_str m pos str (uint num);
          m \<leftarrow> wr m (pos + uint num) 0;
          Some (OB_SUCCESS, Some m, pos + uint num + 1)
        } else Some (OB_INVALID_ARGUMENT, buf, pos)
      else Some (OB_SIZE_OVERFLOW, buf, pos))"

definition store_str_zt :: "cbuf \<Rightarrow> int \<Rightarrow> int \<Rightarrow> mem \<Rightarrow> enc_res" where
  "store_str_zt buf len pos str = do {
     n \<leftarrow> c_strlen str;
     store_str_vzt buf len pos (Some str) (word_of_int n)
   }"

definition store_obstr_zt :: "cbuf \<Rightarrow> int \<Rightarrow> int \<Rightarrow> cbuf \<times> i32 \<Rightarrow> enc_res" where
  "store_obstr_zt buf len pos str = store_str_vzt buf len pos (fst str) (scast (snd str))"

definition store_obstr_nzt :: "cbuf \<Rightarrow> int \<Rightarrow> int \<Rightarrow> cbuf \<times> i32 \<Rightarrow> enc_res" where
  "store_obstr_nzt buf len pos str = store_str_vnzt buf len pos (fst str) (sint (snd str))"

section \<open>Cells\<close>

datatype MYSQL_PROTOCOL_TYPE = TEXT | BINARY

text \<open>Division and remainder of C++ round towards zero; a negative shift count is undefined.\<close>

definition update_null_bitmap :: "mem \<Rightarrow> int \<Rightarrow> mem option" where
  "update_null_bitmap bitmap field_index = do {
     let byte_pos = sint (word_of_int ((field_index + 2) sdiv 8) :: i32);
     let bit_pos = (field_index + 2) smod 8;
     b \<leftarrow> rd bitmap byte_pos;
     if bit_pos < 0 then None
     else wr bitmap byte_pos (b OR ucast (push_bit (nat bit_pos) (1 :: u32)))
   }"

definition null_cell_str ::
    "cbuf \<Rightarrow> int \<Rightarrow> int \<Rightarrow> MYSQL_PROTOCOL_TYPE \<Rightarrow> int \<Rightarrow> mem \<Rightarrow> (ob_err \<times> cbuf \<times> int \<times> mem) option" where
  "null_cell_str buf len pos type cell_index bitmap =
     (if buf = None then Some (OB_INVALID_ARGUMENT, buf, pos, bitmap)
      else if len - pos \<le> 0 then Some (OB_SIZE_OVERFLOW, buf, pos, bitmap)
      else if type = BINARY then do {
        bitmap \<leftarrow> update_null_bitmap bitmap cell_index;
        Some (OB_SUCCESS, buf, pos, bitmap)
      } else do {
        (ret, buf, pos) \<leftarrow> store_null buf len pos;
        Some (ret, buf, pos, bitmap)
      })"

text \<open>\<open>snprintf\<close> with \<open>%ld\<close> or \<open>%lu\<close>.\<close>

fun dec_digits :: "nat \<Rightarrow> u8 list" where
  "dec_digits n =
     (if n < 10 then [of_nat (48 + n)] else dec_digits (n div 10) @ [of_nat (48 + n mod 10)])"

declare dec_digits.simps [simp del]

definition print_int64 :: "bool \<Rightarrow> i64 \<Rightarrow> u8 list" where
  "print_int64 is_unsigned val =
     (if is_unsigned then dec_digits (unat val)
      else if sint val < 0 then 45 # dec_digits (nat (- sint val))
      else dec_digits (nat (sint val)))"

text \<open>\<open>prepend_zeros\<close> on the memory at \<open>base\<close>: the first loop copies backwards, the second one
  fills.\<close>

fun move_up :: "nat \<Rightarrow> mem \<Rightarrow> int \<Rightarrow> int \<Rightarrow> mem option" where
  "move_up 0 m dst_last src_last = Some m"
| "move_up (Suc n) m dst_last src_last = do {
     b \<leftarrow> rd m (src_last - 1);
     m \<leftarrow> wr m (dst_last - 1) b;
     move_up n m (dst_last - 1) (src_last - 1)
   }"

fun fill_zeros :: "nat \<Rightarrow> mem \<Rightarrow> int \<Rightarrow> mem option" where
  "fill_zeros 0 m base = Some m"
| "fill_zeros (Suc n) m base = do {
     m \<leftarrow> wr m (base + int n) 48;
     fill_zeros n m base
   }"

definition prepend_zeros :: "mem \<Rightarrow> int \<Rightarrow> int \<Rightarrow> int \<Rightarrow> mem option" where
  "prepend_zeros m base org_char_size offset = do {
     m \<leftarrow> move_up (nat org_char_size) m (base + org_char_size + offset) (base + org_char_size);
     fill_zeros (nat offset) m base
   }"

definition int_cell_str ::
    "cbuf \<Rightarrow> int \<Rightarrow> int \<Rightarrow> i64 \<Rightarrow> bool \<Rightarrow> MYSQL_PROTOCOL_TYPE \<Rightarrow> bool \<Rightarrow> int \<Rightarrow> enc_res" where
  "int_cell_str buf len pos val is_unsigned type zerofill zflength =
     (if buf = None then Some (OB_INVALID_ARGUMENT, buf, pos)
      else if zerofill \<and> pos + zflength + 1 > len then Some (OB_SIZE_OVERFLOW, buf, pos)
      else if len - pos < 29 then Some (OB_SIZE_OVERFLOW, buf, pos)
      else case type of
        TEXT \<Rightarrow> do {
          m \<leftarrow> buf;
          let tmp_buff = print_int64 is_unsigned val;
          let len_raw = int (length tmp_buff);
          let zero_cnt = (if zerofill then zflength - len_raw else 0);
          let num = (if zero_cnt > 0 then zflength else len_raw);
          let bytes_to_store_len = uint (get_number_store_len (word_of_int num));
          m \<leftarrow> wr_bytes m (pos + bytes_to_store_len) tmp_buff;
          m \<leftarrow> (if zero_cnt > 0 then prepend_zeros m (pos + bytes_to_store_len) num zero_cnt
                else Some m);
          (ret, buf, pos) \<leftarrow> store_length (Some m) (pos + bytes_to_store_len) pos (word_of_int num);
          Some (ret, buf, pos + num)
        }
      | BINARY \<Rightarrow> store_int8 buf len pos val)"

definition varchar_cell_str :: "cbuf \<Rightarrow> int \<Rightarrow> int \<Rightarrow> cbuf \<times> i32 \<Rightarrow> enc_res" where
  "varchar_cell_str buf len pos val =
     (if buf = None then Some (OB_INVALID_ARGUMENT, buf, pos)
      else
        let num = sint (snd val) in
        if num < len - pos then do {
          let pos_bk = pos;
          (ret, buf, pos) \<leftarrow> store_length buf len pos (word_of_int num);
          if ret \<noteq> OB_SUCCESS then Some (ret, buf, pos)
          else if num \<le> len - pos then do {
            m \<leftarrow> buf;
            m \<leftarrow> copy_str m pos (fst val) num;
            Some (OB_SUCCESS, Some m, pos + num)
          } else Some (OB_SIZE_OVERFLOW, buf, pos_bk)
        } else Some (OB_SIZE_OVERFLOW, buf, pos))"

section \<open>Strings\<close>

lemma copy_str_all:
  assumes "0 \<le> pos" and "pos + int (length s) \<le> int (length m)"
  shows "copy_str m pos (Some s) (int (length s)) = Some (put m pos s)"
  using assms by (cases s) (simp_all add: copy_str_def rd_bytes_def wr_bytes_def)

lemma copy_str_after:
  assumes "0 \<le> p" and "q = p + int (length bs)" and "q + int (length s) \<le> int (length m)"
  shows "copy_str (put m p bs) q (Some s) (int (length s)) = Some (put m p (bs @ s))"
  using assms by (simp add: copy_str_all put_put)

definition wire_lenstr :: "u8 list \<Rightarrow> u8 list" where
  "wire_lenstr s = wire_lenenc (of_nat (length s)) @ s"

lemma uint_of_nat_64: "n < 2 ^ 63 \<Longrightarrow> uint (of_nat n :: u64) = int n"
  by (simp add: unsigned_of_nat take_bit_nat_eq_self flip: of_nat_take_bit)

lemma store_str_v_eq:
  assumes "length s < 2 ^ 63" and "0 \<le> pos" and "len \<le> int (length m)"
  shows "store_str_v (Some m) len pos (Some s) (of_nat (length s)) =
    (if pos + int (length (wire_lenstr s)) \<le> len
     then Some (OB_SUCCESS, Some (put m pos (wire_lenstr s)), pos + int (length (wire_lenstr s)))
     else Some (OB_SIZE_OVERFLOW,
       Some (if pos + int (length (wire_lenenc (of_nat (length s)))) \<le> len
             then put m pos (wire_lenenc (of_nat (length s))) else m), pos))"
proof -
  let ?n = "of_nat (length s) :: u64"
  have u: "uint ?n = int (length s)" using assms(1) by (rule uint_of_nat_64)
  have z: "?n = 0 \<or> 0 < ?n" by (cases "?n = 0") (simp_all add: word_neq_0_conv)
  show ?thesis
    using assms(2,3) z copy_str_after [of pos "pos + int (length (wire_lenenc ?n))" "wire_lenenc ?n" s m]
    by (simp add: store_str_v_def store_length_eq u Let_def wire_lenstr_def)
qed

text \<open>What the reading side does with a length-coded string: the length, then the bytes.\<close>

definition lenstr_value :: "cbuf \<Rightarrow> int \<Rightarrow> u8 list \<Rightarrow> u8 list dec_res" where
  "lenstr_value buf pos s0 = do {
     (ret, pos, num) \<leftarrow> get_length buf pos 0;
     if ret \<noteq> OB_SUCCESS then Some (ret, pos, s0)
     else do {
       m \<leftarrow> buf;
       s \<leftarrow> rd_bytes m pos (uint num);
       Some (OB_SUCCESS, pos + uint num, s)
     }
   }"

interpretation lenstr: codec "\<lambda>buf len pos s. store_str_v buf len pos (Some s) (of_nat (length s))"
    "\<lambda>buf len pos s0. lenstr_value buf pos s0" wire_lenstr "\<lambda>s. length s < 2 ^ 63"
proof (unfold_locales, goal_cases)
  case (1 v pos buf_len m)
  then show ?case by (simp add: store_str_v_eq [simplified])
next
  case (2 v pos buf_len m)
  then show ?case by (simp add: store_str_v_eq [simplified])
next
  case (3 v m pos data_len v0)
  let ?n = "of_nat (length v) :: u64"
  have u: "uint ?n = int (length v)" using 3(1) by (intro uint_of_nat_64) simp
  have h: "holds m pos (wire_lenenc ?n)" "holds m (pos + int (length (wire_lenenc ?n))) v"
    using 3(2) by (simp_all add: wire_lenstr_def holds_append)
  show ?case
    using get_length_wire [OF h(1), of 0] rd_bytes_holds [OF h(2)]
    by (simp add: lenstr_value_def u wire_lenstr_def)
qed

lemma store_str_vnzt_eq:
  assumes "0 \<le> pos" and "0 < len" and "len \<le> int (length m)"
  shows "store_str_vnzt (Some m) len pos (Some s) (int (length s)) =
    (if pos + int (length s) \<le> len then Some (OB_SUCCESS, Some (put m pos s), pos + int (length s))
     else Some (OB_SIZE_OVERFLOW, Some m, pos))"
  using assms copy_str_all [of pos s m] by (auto simp: store_str_vnzt_def)

lemma store_str_vzt_eq:
  assumes "length s < 2 ^ 63" and "0 \<le> pos" and "len \<le> int (length m)"
  shows "store_str_vzt (Some m) len pos (Some s) (of_nat (length s)) =
    (if pos + int (length (s @ [0])) \<le> len
     then Some (OB_SUCCESS, Some (put m pos (s @ [0])), pos + int (length (s @ [0])))
     else Some (OB_SIZE_OVERFLOW, Some m, pos))"
proof -
  let ?n = "of_nat (length s) :: u64"
  have u: "uint ?n = int (length s)" using assms(1) by (rule uint_of_nat_64)
  have z: "?n = 0 \<or> 0 < ?n" by (cases "?n = 0") (simp_all add: word_neq_0_conv)
  show ?thesis
    using assms(2,3) z copy_str_all [of pos s m]
    by (auto simp: store_str_vzt_def u wr_put)
qed

text \<open>The C-string variants are the counted ones on the bytes before the terminating zero.\<close>

lemma store_str_counted:
  assumes "0 \<notin> set s"
  shows "store_str buf len pos (s @ 0 # rest) =
      store_str_v buf len pos (Some (s @ 0 # rest)) (of_nat (length s))"
    and "store_str_zt buf len pos (s @ 0 # rest) =
      store_str_vzt buf len pos (Some (s @ 0 # rest)) (of_nat (length s))"
    and "store_str_nzt buf len pos (s @ 0 # rest) =
      store_str_vnzt buf len pos (Some (s @ 0 # rest)) (int (length s))"
  using assms by (simp_all add: store_str_def store_str_zt_def store_str_nzt_def c_strlen_append)

section \<open>The null bitmap\<close>

text \<open>Bit \<open>i\<close> of the bitmap belongs to field \<open>i - 2\<close>.\<close>

definition null_bit :: "mem \<Rightarrow> nat \<Rightarrow> bool" where
  "null_bit bitmap i \<longleftrightarrow> bit (bitmap ! (i div 8)) (i mod 8)"

lemma update_null_bitmap_eq:
  assumes "i < 2 ^ 31" and "(i + 2) div 8 < length bitmap"
  shows "update_null_bitmap bitmap (int i)
    = Some (bitmap[(i + 2) div 8 := bitmap ! ((i + 2) div 8) OR push_bit ((i + 2) mod 8) 1])"
proof -
  let ?j = "i + 2"
  have d: "(int i + 2) sdiv 8 = int (?j div 8)" "(int i + 2) smod 8 = int (?j mod 8)"
    using zdiv_int [of ?j 8] zmod_int [of ?j 8]
    by (simp_all add: signed_divide_int_def signed_modulo_int_def add.commute [of 2])
  have s: "sint (word_of_int (int (?j div 8)) :: i32) = int (?j div 8)"
    using assms(1) unfolding signed_of_int
    by (subst signed_take_bit_int_eq_self) simp_all
  have b: "ucast (push_bit (?j mod 8) (1 :: u32)) = (push_bit (?j mod 8) 1 :: u8)"
    by (rule bit_word_eqI) (auto simp: bit_simps)
  show ?thesis
    using assms(2) unfolding update_null_bitmap_def d s Let_def
    by (simp add: rd_def wr_def b [simplified])
qed

lemma null_bit_update:
  assumes "i < 2 ^ 31" and "(i + 2) div 8 < length bitmap"
    and "update_null_bitmap bitmap (int i) = Some bitmap'" and "j div 8 < length bitmap"
  shows "null_bit bitmap' j \<longleftrightarrow> j = i + 2 \<or> null_bit bitmap j"
proof -
  have "(j div 8 = (i + 2) div 8 \<and> j mod 8 = (i + 2) mod 8) \<longleftrightarrow> j = i + 2"
    by (metis div_mult_mod_eq)
  moreover have "j mod 8 < 8" by simp
  ultimately show ?thesis
    using assms
    by (cases "(i + 2) div 8 = j div 8")
      (auto simp: update_null_bitmap_eq null_bit_def nth_list_update bit_simps)
qed

section \<open>Decimal digits\<close>

definition dec_value :: "u8 list \<Rightarrow> nat" where
  "dec_value ds = foldl (\<lambda>a d. 10 * a + (unat d - 48)) 0 ds"

lemma unat_digit: "d < 10 \<Longrightarrow> unat (of_nat (48 + d) :: u8) = 48 + d"
  by (simp only: unsigned_of_nat) (simp add: take_bit_nat_eq_self)

lemma dec_value_digits: "dec_value (dec_digits n) = n"
proof (induction n rule: dec_digits.induct)
  case (1 n)
  show ?case
  proof (cases "n < 10")
    case True
    then show ?thesis
      by (subst dec_digits.simps) (simp add: dec_value_def unat_digit del: of_nat_add)
  next
    case False
    with 1 show ?thesis
      by (subst dec_digits.simps) (simp add: dec_value_def unat_digit del: of_nat_add)
  qed
qed

lemma length_dec_digits: "n < 10 ^ k \<Longrightarrow> 0 < k \<Longrightarrow> length (dec_digits n) \<le> k"
proof (induction n arbitrary: k rule: dec_digits.induct)
  case (1 n)
  show ?case
  proof (cases "n < 10")
    case True
    with 1 show ?thesis by (subst dec_digits.simps) simp
  next
    case False
    with "1.prems" obtain k' where k: "k = Suc k'" "0 < k'" by (cases k; cases "k - 1") auto
    with False "1.prems" have "length (dec_digits (n div 10)) \<le> k'" by (intro "1.IH") auto
    with False k show ?thesis by (subst dec_digits.simps) simp
  qed
qed

lemma dec_digits_pos: "0 < length (dec_digits n)"
  by (subst dec_digits.simps) simp

lemma length_print_int64: "length (print_int64 u v) \<le> 20" and "0 < length (print_int64 u v)"
proof -
  have a: "unat v < 2 ^ LENGTH(64)" by (rule unsigned_less)
  have s: "- (2 ^ 63) \<le> sint v" "sint v < 2 ^ 63"
    using sint_greater_eq [of v] sint_less [of v] by simp_all
  have "length (dec_digits (unat v)) \<le> 20" using a by (intro length_dec_digits) simp_all
  moreover have "length (dec_digits (nat (sint v))) \<le> 19"
    using s by (intro length_dec_digits) (simp_all add: nat_less_iff)
  moreover have "length (dec_digits (nat (- sint v))) \<le> 19"
    using s by (intro length_dec_digits) (simp_all add: nat_less_iff)
  ultimately show "length (print_int64 u v) \<le> 20" by (simp add: print_int64_def)
  show "0 < length (print_int64 u v)" using dec_digits_pos by (simp add: print_int64_def)
qed

section \<open>Prepending zeros\<close>

lemma put_upd_end:
  assumes "nat p + length bs < length m"
  shows "put (m[nat p + length bs := x]) p bs = put m p (bs @ [x])"
proof -
  have "drop (nat p + length bs) (m[nat p + length bs := x]) = x # drop (Suc (nat p + length bs)) m"
    using assms by (simp add: drop_update_swap flip: Cons_nth_drop_Suc)
  then show ?thesis by (simp add: put_def)
qed

lemma move_up_eq:
  assumes "0 \<le> b" and "0 \<le> off" and "b + off + int n \<le> int (length m)"
  shows "move_up n m (b + off + int n) (b + int n) = Some (put m (b + off) (take n (drop (nat b) m)))"
  using assms
proof (induction n arbitrary: m)
  case 0
  then show ?case by simp
next
  case (Suc n)
  let ?x = "m ! nat (b + int n)"
  let ?m = "m[nat (b + off) + n := ?x]"
  have r: "rd m (b + int n) = Some ?x" using Suc.prems by (simp add: rd_def)
  have nn: "nat (b + off + int n) = nat (b + off) + n" using Suc.prems by simp
  have "wr m (b + off + int n) ?x = Some (m[nat (b + off + int n) := ?x])"
    using Suc.prems by (simp add: wr_def)
  then have w: "wr m (b + off + int n) ?x = Some ?m" by (simp only: nn)
  have e: "b + int (Suc n) - 1 = b + int n" "b + off + int (Suc n) - 1 = b + off + int n" by simp_all
  have t: "take n (drop (nat b) ?m) = take n (drop (nat b) m)"
    using Suc.prems by (intro nth_equalityI) (auto simp: nth_list_update nat_add_distrib)
  have l: "length (take n (drop (nat b) m)) = n" using Suc.prems by simp
  have "take (Suc n) (drop (nat b) m) = take n (drop (nat b) m) @ [?x]"
    using Suc.prems by (simp add: take_Suc_conv_app_nth nat_add_distrib)
  moreover have "move_up n ?m (b + off + int n) (b + int n) = Some (put ?m (b + off) (take n (drop (nat b) m)))"
    using Suc.prems Suc.IH [of ?m] t by simp
  moreover have "put ?m (b + off) (take n (drop (nat b) m))
      = put m (b + off) (take n (drop (nat b) m) @ [?x])"
    using put_upd_end [of "b + off" "take n (drop (nat b) m)" m ?x] Suc.prems l by simp
  ultimately show ?case
    using r w unfolding move_up.simps e by simp
qed

lemma fill_zeros_eq:
  assumes "0 \<le> b" and "b + int n \<le> int (length m)"
  shows "fill_zeros n m b = Some (put m b (replicate n 48))"
  using assms
proof (induction n arbitrary: m)
  case 0
  then show ?case by simp
next
  case (Suc n)
  have "nat (b + int n) = nat b + n" using Suc.prems by simp
  then have "wr m (b + int n) 48 = Some (m[nat b + n := 48])" using Suc.prems by (simp add: wr_def)
  moreover have "replicate (Suc n) (48 :: u8) = replicate n 48 @ [48]"
    by (simp add: replicate_append_same)
  moreover have "fill_zeros n (m[nat b + n := 48]) b = Some (put (m[nat b + n := 48]) b (replicate n 48))"
    using Suc.prems Suc.IH by simp
  ultimately show ?case
    using put_upd_end [of b "replicate n 48" m 48] Suc.prems by simp
qed

lemma put_before:
  assumes "0 \<le> b" and "q = b + int (length zs)" and "q + int (length bs) \<le> int (length m)"
  shows "put (put m q bs) b zs = put m b (zs @ bs)"
proof -
  let ?k = "nat b + length zs"
  have q: "nat q = ?k" and k: "?k \<le> length m" using assms by simp_all
  then have "take (nat b) (take ?k m @ bs @ drop (?k + length bs) m) = take (nat b) m"
    and "drop ?k (take ?k m @ bs @ drop (?k + length bs) m) = bs @ drop (?k + length bs) m"
    by simp_all
  then show ?thesis by (simp add: put_def q add.assoc)
qed

lemma prepend_zeros_eq:
  assumes "0 \<le> b" and "b + int off + int n \<le> int (length m)"
  shows "prepend_zeros m b (int n) (int off)
    = Some (put m b (replicate off 48 @ take n (drop (nat b) m)))"
proof -
  let ?bs = "take n (drop (nat b) m)"
  have "move_up n m (b + int n + int off) (b + int n) = Some (put m (b + int off) ?bs)"
    using move_up_eq [of b "int off" n m] assms by (simp add: algebra_simps)
  moreover have "fill_zeros off (put m (b + int off) ?bs) b
      = Some (put (put m (b + int off) ?bs) b (replicate off 48))"
    using assms by (intro fill_zeros_eq) simp_all
  moreover have "put (put m (b + int off) ?bs) b (replicate off 48) = put m b (replicate off 48 @ ?bs)"
    using assms by (intro put_before) simp_all
  ultimately show ?thesis by (simp add: prepend_zeros_def)
qed

text \<open>One character too many is already outside.\<close>

lemma prepend_zeros_overrun:
  assumes "0 < n" and "int (length m) < b + n + off"
  shows "prepend_zeros m b n off = None"
proof -
  obtain k where "nat n = Suc k" using assms(1) by (cases "nat n") auto
  with assms show ?thesis by (auto simp: prepend_zeros_def wr_def Option.bind_eq_None_conv)
qed

section \<open>Integer cells\<close>

lemma small_lenenc:
  assumes "n < 251"
  shows "wire_lenenc (word_of_int (int n)) = [of_nat n]"
    and "uint (get_number_store_len (word_of_int (int n))) = 1"
proof -
  have u: "unat (of_nat n :: u64) = n"
    using assms by (simp only: unsigned_of_nat) (simp add: take_bit_nat_eq_self)
  have "(of_nat n :: u64) < 251"
    using assms u by (simp add: word_less_nat_alt)
  moreover have "(ucast (of_nat n :: u64) :: u8) = of_nat n"
    by (rule bit_word_eqI) (auto simp: bit_simps)
  ultimately show "wire_lenenc (word_of_int (int n)) = [of_nat n]"
    and "uint (get_number_store_len (word_of_int (int n))) = 1"
    by (simp_all add: wire_lenenc_def get_number_store_len_def)
qed

lemma store_length_cell:
  assumes "n < 251" and "0 \<le> pos" and "pos + 1 \<le> int (length m)"
  shows "store_length (Some m) (pos + 1) pos (word_of_int (int n))
    = Some (OB_SUCCESS, Some (put m pos [of_nat n]), pos + 1)"
  using store_length_eq [of pos "pos + 1" m "word_of_int (int n)"] assms small_lenenc [OF assms(1)]
  by simp

text \<open>Without zero fill, a text cell is the length-coded decimal representation.\<close>

lemma int_cell_str_text:
  assumes "0 \<le> pos" and "pos + 29 \<le> len" and "len \<le> int (length m)"
    and "\<not> zerofill \<or> zflength \<le> int (length (print_int64 u v)) \<and> pos + zflength + 1 \<le> len"
  shows "int_cell_str (Some m) len pos v u TEXT zerofill zflength
    = Some (OB_SUCCESS, Some (put m pos (of_nat (length (print_int64 u v)) # print_int64 u v)),
            pos + 1 + int (length (print_int64 u v)))"
proof -
  let ?ds = "print_int64 u v"
  let ?n = "length ?ds"
  have n: "?n < 251" "?n \<le> 20" using length_print_int64 [of u v] by simp_all
  have w: "wr_bytes m (pos + 1) ?ds = Some (put m (pos + 1) ?ds)"
    using assms n by (simp add: wr_bytes_def)
  have sl: "store_length (Some (put m (pos + 1) ?ds)) (pos + 1) pos (word_of_int (int ?n))
      = Some (OB_SUCCESS, Some (put (put m (pos + 1) ?ds) pos [of_nat ?n]), pos + 1)"
    using assms n by (intro store_length_cell) simp_all
  have "put (put m (pos + 1) ?ds) pos [of_nat ?n] = put m pos (of_nat ?n # ?ds)"
    using put_before [of pos "pos + 1" "[of_nat ?n]" ?ds m] assms n by simp
  moreover have z: "\<not> (zerofill \<and> 0 < zflength - int ?n)" "\<not> (zerofill \<and> len < pos + zflength + 1)"
    using assms(4) by auto
  have c: "(if (if zerofill then zflength - int ?n else 0) > 0 then zflength else int ?n) = int ?n"
    "\<not> (if zerofill then zflength - int ?n else 0) > 0"
    using z by auto
  ultimately show ?thesis
    using assms(2) z(2) sl
    unfolding int_cell_str_def Let_def MYSQL_PROTOCOL_TYPE.case c small_lenenc(2) [OF n(1)] bind.simps
    by (simp add: w c(2) del: of_nat_less_iff)
qed

text \<open>With zero fill, the cell that is announced has the right content, provided that the object is
  larger than the cell by the number of added zeros: the shift moves \<open>zflength\<close> characters, not
  the digits alone.\<close>

lemma int_cell_str_zerofill:
  fixes u :: bool and v :: i64
  defines "ds \<equiv> print_int64 u v"
  assumes "0 \<le> pos" and "pos + 29 \<le> len" and "len \<le> int (length m)"
    and "length ds < n" and "n < 251" and "pos + int n + 1 \<le> len"
    and "pos + 1 + int n + int (n - length ds) \<le> int (length m)"
  shows "\<exists>m'. int_cell_str (Some m) len pos v u TEXT True (int n)
      = Some (OB_SUCCESS, Some m', pos + 1 + int n)
    \<and> holds m' pos (of_nat n # replicate (n - length ds) 48 @ ds)"
proof -
  let ?z = "n - length ds"
  let ?m1 = "put m (pos + 1) ds"
  let ?bs = "take n (drop (nat (pos + 1)) ?m1)"
  have w: "wr_bytes m (pos + 1) ds = Some ?m1"
    using assms by (simp add: wr_bytes_def)
  have l1: "length ?m1 = length m" using assms by simp
  have lb: "length ?bs = n" using assms by simp
  have pz: "prepend_zeros ?m1 (pos + 1) (int n) (int ?z) = Some (put ?m1 (pos + 1) (replicate ?z 48 @ ?bs))"
    using assms l1 by (intro prepend_zeros_eq) simp_all
  let ?m2 = "put ?m1 (pos + 1) (replicate ?z 48 @ ?bs)"
  have l2: "length ?m2 = length m" using assms l1 lb by simp
  have sl: "store_length (Some ?m2) (pos + 1) pos (word_of_int (int n))
      = Some (OB_SUCCESS, Some (put ?m2 pos [of_nat n]), pos + 1)"
    using assms l2 by (intro store_length_cell) simp_all
  have "take (length ds) ?bs = ds"
    using assms by (simp add: put_def nat_add_distrib min_def)
  then have "?bs = ds @ drop (length ds) ?bs" by (metis append_take_drop_id)
  moreover have "holds ?m2 (pos + 1) (replicate ?z 48 @ ?bs)"
    using assms l1 lb by (intro holds_put) simp_all
  ultimately have "holds ?m2 (pos + 1) ((replicate ?z 48 @ ds) @ drop (length ds) ?bs)"
    by (simp only: append.assoc)
  then have h: "holds ?m2 (pos + 1) (replicate ?z 48 @ ds)" by (simp only: holds_append)
  have h': "holds (put ?m2 pos [of_nat n]) (pos + 1) (replicate ?z 48 @ ds)"
    by (rule holds_put_frame [OF h]) (use assms l2 in simp_all)
  have "holds (put ?m2 pos [of_nat n]) pos [of_nat n]"
    using assms l2 by (intro holds_put) simp_all
  with h' have "holds (put ?m2 pos [of_nat n]) pos (of_nat n # replicate ?z 48 @ ds)"
    by simp
  moreover have zc: "int n - int (length ds) = int ?z" "0 < int ?z" using assms by simp_all
  have "int_cell_str (Some m) len pos v u TEXT True (int n)
      = Some (OB_SUCCESS, Some (put ?m2 pos [of_nat n]), pos + 1 + int n)"
    using assms(3,7) zc(2) pz sl
    unfolding int_cell_str_def Let_def MYSQL_PROTOCOL_TYPE.case ds_def [symmetric] zc(1) if_True
      if_P [OF zc(2)] small_lenenc(2) [OF assms(6)] bind.simps
    by (simp add: w)
  ultimately show ?thesis by blast
qed

lemma int_cell_str_overrun:
  fixes u :: bool and v :: i64
  defines "ds \<equiv> print_int64 u v"
  assumes "0 \<le> pos" and "pos + 29 \<le> len" and "len \<le> int (length m)"
    and "length ds < n" and "n < 251" and "pos + int n + 1 \<le> len"
    and "int (length m) < pos + 1 + int n + int (n - length ds)"
  shows "int_cell_str (Some m) len pos v u TEXT True (int n) = None"
proof -
  let ?z = "n - length ds"
  have w: "wr_bytes m (pos + 1) ds = Some (put m (pos + 1) ds)"
    using assms by (simp add: wr_bytes_def)
  have pz: "prepend_zeros (put m (pos + 1) ds) (pos + 1) (int n) (int ?z) = None"
    using assms by (intro prepend_zeros_overrun) simp_all
  have zc: "int n - int (length ds) = int ?z" "0 < int ?z" using assms by simp_all
  show ?thesis
    using assms(3,7) zc(2) pz
    unfolding int_cell_str_def Let_def MYSQL_PROTOCOL_TYPE.case ds_def [symmetric] zc(1) if_True
      if_P [OF zc(2)] small_lenenc(2) [OF assms(6)] bind.simps
    by (simp add: w)
qed

section \<open>String cells\<close>

lemma varchar_cell_str_eq:
  assumes "length s < 2 ^ 31" and "0 \<le> pos" and "len \<le> int (length m)"
    and "pos + int (length (wire_lenstr s)) \<le> len"
  shows "varchar_cell_str (Some m) len pos (Some s, of_nat (length s))
    = Some (OB_SUCCESS, Some (put m pos (wire_lenstr s)), pos + int (length (wire_lenstr s)))"
proof -
  have sn: "sint (of_nat (length s) :: i32) = int (length s)"
    using assms(1) by (simp add: signed_of_nat signed_take_bit_int_eq_self)
  have "0 < length (wire_lenenc (of_nat (length s)))" by (simp add: wire_lenenc_def)
  then have "int (length s) < len - pos"
    using assms(4) unfolding wire_lenstr_def length_append by linarith
  then show ?thesis
    using assms
      copy_str_after [of pos _ "wire_lenenc (of_nat (length s))" s m]
    by (simp add: varchar_cell_str_def sn Let_def store_length_eq wire_lenstr_def)
qed

end
