(* ===== verification/ObStr.thy ===== *)
theory ObStr
  imports SerialStr "HOL-Library.List_Lexorder"
begin

text \<open>
  \<open>ObString\<close> of \<open>src/src/lib/string/ob_string.h\<close>: a pointer with a data length and, when the string
  owns room to write, a capacity.  Strings alias one another, so memory is a heap of objects: a
  pointer is an object and an offset, and the null pointer is \<open>None\<close>.  The 32-bit lengths are
  integers; an operation whose signed sum leaves 32 bits is undefined.
\<close>

section \<open>Heap\<close>

type_synonym heap = "nat \<Rightarrow> mem option"
type_synonym ptr = "(nat \<times> int) option"

definition ptr_add :: "ptr \<Rightarrow> int \<Rightarrow> ptr" where
  "ptr_add p n = map_option (\<lambda>(o', i). (o', i + n)) p"

definition load :: "heap \<Rightarrow> ptr \<Rightarrow> int \<Rightarrow> u8 option" where
  "load h p i = do { (o', off) \<leftarrow> p; m \<leftarrow> h o'; rd m (off + i) }"

text \<open>A range of bytes; nothing is read when the length is zero.\<close>

definition load_bytes :: "heap \<Rightarrow> ptr \<Rightarrow> int \<Rightarrow> u8 list option" where
  "load_bytes h p n =
     (if n = 0 then Some [] else do { (o', off) \<leftarrow> p; m \<leftarrow> h o'; rd_bytes m off n })"

definition store_bytes :: "heap \<Rightarrow> ptr \<Rightarrow> u8 list \<Rightarrow> heap option" where
  "store_bytes h p bs = do { (o', off) \<leftarrow> p; m \<leftarrow> h o'; m \<leftarrow> wr_bytes m off bs; Some (h(o' \<mapsto> m)) }"

text \<open>The rest of the object behind a pointer.\<close>

definition view :: "heap \<Rightarrow> ptr \<Rightarrow> cbuf" where
  "view h p = do { (o', off) \<leftarrow> p; m \<leftarrow> h o'; Some (drop (nat off) m) }"

section \<open>The class\<close>

record obstring =
  buffer_size :: int
  data_length :: int
  sptr :: ptr

definition obstring_null :: obstring where
  "obstring_null = \<lparr>buffer_size = 0, data_length = 0, sptr = None\<rparr>"

definition obstring_make :: "int \<Rightarrow> int \<Rightarrow> ptr \<Rightarrow> obstring" where
  "obstring_make size' len p =
     (if p = None then obstring_null
      else \<lparr>buffer_size = size', data_length = len, sptr = p\<rparr>)"

definition obstring_of :: "int \<Rightarrow> ptr \<Rightarrow> obstring" where
  "obstring_of len p =
     \<lparr>buffer_size = 0,
      data_length = (if p = None then 0 else sint (word_of_int len :: i32)), sptr = p\<rparr>"

definition obstring_cstr :: "heap \<Rightarrow> ptr \<Rightarrow> obstring option" where
  "obstring_cstr h p =
     (case p of None \<Rightarrow> Some \<lparr>buffer_size = 0, data_length = 0, sptr = None\<rparr>
      | Some _ \<Rightarrow> do {
          m \<leftarrow> view h p;
          n \<leftarrow> c_strlen m;
          Some \<lparr>buffer_size = 0, data_length = sint (word_of_int n :: i32), sptr = p\<rparr>
        })"

definition obs_empty :: "obstring \<Rightarrow> bool" where
  "obs_empty s \<longleftrightarrow> sptr s = None \<or> data_length s = 0"

definition obs_reset :: "obstring \<Rightarrow> obstring" where
  "obs_reset s = s\<lparr>buffer_size := 0, data_length := 0, sptr := None\<rparr>"

text \<open>Do two ranges of bytes have a byte in common?\<close>

fun overlapping :: "ptr \<Rightarrow> ptr \<Rightarrow> int \<Rightarrow> bool" where
  "overlapping (Some (o1, i)) (Some (o2, j)) n = (o1 = o2 \<and> i < j + n \<and> j < i + n)"
| "overlapping _ _ n = False"

text \<open>\<open>write\<close>: the number of bytes written, the string and the heap.  It copies with \<open>memcpy\<close>, which is undefined
  when the bytes overlap the room they are copied to.\<close>

definition obs_write :: "heap \<Rightarrow> obstring \<Rightarrow> ptr \<Rightarrow> int \<Rightarrow> (int \<times> obstring \<times> heap) option" where
  "obs_write h s bytes len =
     (if bytes = None \<or> len \<le> 0 then Some (0, s, h)
      else if data_length s + len \<ge> 2 ^ 31 then None
      else if data_length s + len \<le> buffer_size s then do {
        bs \<leftarrow> load_bytes h bytes len;
        h \<leftarrow> (if overlapping bytes (ptr_add (sptr s) (data_length s)) len then None
             else store_bytes h (ptr_add (sptr s) (data_length s)) bs);
        Some (len, s\<lparr>data_length := data_length s + len\<rparr>, h)
      } else Some (0, s, h))"

definition obs_assign :: "obstring \<Rightarrow> ptr \<Rightarrow> int \<Rightarrow> obstring" where
  "obs_assign s bytes len =
     (let s = s\<lparr>sptr := bytes, buffer_size := len, data_length := len\<rparr> in
      if sptr s = None then s\<lparr>buffer_size := 0, data_length := 0\<rparr> else s)"

definition obs_assign_ptr :: "obstring \<Rightarrow> ptr \<Rightarrow> int \<Rightarrow> obstring" where
  "obs_assign_ptr s bytes len =
     (let s = s\<lparr>sptr := bytes, buffer_size := 0, data_length := len\<rparr> in
      if sptr s = None then s\<lparr>data_length := 0\<rparr> else s)"

definition obs_assign_buffer :: "obstring \<Rightarrow> ptr \<Rightarrow> int \<Rightarrow> obstring" where
  "obs_assign_buffer s buffer size' =
     (let s = s\<lparr>sptr := buffer, buffer_size := size', data_length := 0\<rparr> in
      if sptr s = None then s\<lparr>buffer_size := 0, data_length := 0\<rparr> else s)"

definition obs_set_length :: "obstring \<Rightarrow> int \<Rightarrow> int \<times> obstring" where
  "obs_set_length s len =
     (let s = (if sptr s \<noteq> None \<and> len \<le> buffer_size s then s\<lparr>data_length := len\<rparr> else s)
      in (data_length s, s))"

definition obs_remain :: "obstring \<Rightarrow> int" where
  "obs_remain s = (if buffer_size s > 0 then buffer_size s - data_length s else buffer_size s)"

definition obs_shrink :: "obstring \<Rightarrow> int \<times> obstring" where
  "obs_shrink s =
     (obs_remain s, if buffer_size s > 0 then s\<lparr>buffer_size := data_length s\<rparr> else s)"

section \<open>Comparison\<close>

text \<open>\<open>memcmp\<close> and \<open>strncasecmp\<close>: of the result only the sign is promised.  The second one
  stops at a zero byte.\<close>

fun c_memcmp :: "u8 list \<Rightarrow> u8 list \<Rightarrow> int" where
  "c_memcmp (a # as) (b # bs) = (if a = b then c_memcmp as bs else uint a - uint b)"
| "c_memcmp _ _ = 0"

definition c_tolower :: "u8 \<Rightarrow> u8" where
  "c_tolower c = (if 65 \<le> c \<and> c \<le> 90 then c + 32 else c)"

fun c_strncasecmp :: "u8 list \<Rightarrow> u8 list \<Rightarrow> int" where
  "c_strncasecmp (a # as) (b # bs) =
     (if c_tolower a \<noteq> c_tolower b then uint (c_tolower a) - uint (c_tolower b)
      else if a = 0 then 0 else c_strncasecmp as bs)"
| "c_strncasecmp _ _ = 0"

definition obs_case_compare :: "heap \<Rightarrow> obstring \<Rightarrow> obstring \<Rightarrow> int option" where
  "obs_case_compare h s t =
     (if sptr s = None then Some (if sptr t \<noteq> None then - 1 else 0)
      else if sptr t = None then Some 1
      else do {
        a \<leftarrow> load_bytes h (sptr s) (min (data_length s) (data_length t));
        b \<leftarrow> load_bytes h (sptr t) (min (data_length s) (data_length t));
        let cmp = c_strncasecmp a b;
        Some (if cmp = 0 then data_length s - data_length t else cmp)
      })"

definition obs_compare :: "heap \<Rightarrow> obstring \<Rightarrow> obstring \<Rightarrow> int option" where
  "obs_compare h s t =
     (if sptr s = sptr t then Some (data_length s - data_length t)
      else if data_length s = 0 \<and> data_length t = 0 then Some 0
      else do {
        a \<leftarrow> load_bytes h (sptr s) (min (data_length s) (data_length t));
        b \<leftarrow> load_bytes h (sptr t) (min (data_length s) (data_length t));
        let cmp = c_memcmp a b;
        Some (if cmp = 0 then data_length s - data_length t else cmp)
      })"

definition obs_prefix_case_match :: "heap \<Rightarrow> obstring \<Rightarrow> obstring \<Rightarrow> bool option" where
  "obs_prefix_case_match h s t =
     (if sptr s = sptr t then Some (data_length s \<ge> data_length t)
      else if data_length s < data_length t then Some False
      else do {
        a \<leftarrow> load_bytes h (sptr s) (data_length t);
        b \<leftarrow> load_bytes h (sptr t) (data_length t);
        Some (c_strncasecmp a b = 0)
      })"

definition obs_prefix_match :: "heap \<Rightarrow> obstring \<Rightarrow> obstring \<Rightarrow> bool option" where
  "obs_prefix_match h s t =
     (if sptr s = sptr t then Some (data_length s \<ge> data_length t)
      else if data_length s < data_length t then Some False
      else do {
        a \<leftarrow> load_bytes h (sptr s) (data_length t);
        b \<leftarrow> load_bytes h (sptr t) (data_length t);
        Some (c_memcmp a b = 0)
      })"

definition obs_less :: "heap \<Rightarrow> obstring \<Rightarrow> obstring \<Rightarrow> bool option" where
  "obs_less h s t = map_option (\<lambda>c. c < 0) (obs_compare h s t)"

definition obs_equal :: "heap \<Rightarrow> obstring \<Rightarrow> obstring \<Rightarrow> bool option" where
  "obs_equal h s t = map_option (\<lambda>c. c = 0) (obs_compare h s t)"

section \<open>Parts of a string\<close>

fun trim_start :: "nat \<Rightarrow> heap \<Rightarrow> ptr \<Rightarrow> int \<Rightarrow> int \<Rightarrow> int option" where
  "trim_start 0 h p start stop = Some start"
| "trim_start (Suc n) h p start stop =
     (if start < stop then do {
        c \<leftarrow> load h p start;
        if c = 32 then trim_start n h p (start + 1) stop else Some start
      } else Some start)"

fun trim_end :: "nat \<Rightarrow> heap \<Rightarrow> ptr \<Rightarrow> int \<Rightarrow> int \<Rightarrow> int option" where
  "trim_end 0 h p start stop = Some stop"
| "trim_end (Suc n) h p start stop =
     (if start < stop then do {
        c \<leftarrow> load h p (stop - 1);
        if c = 32 then trim_end n h p start (stop - 1) else Some stop
      } else Some stop)"

text \<open>The fuel of both loops is the data length: each iteration narrows the range by one.\<close>

definition obs_trim :: "heap \<Rightarrow> obstring \<Rightarrow> obstring option" where
  "obs_trim h s =
     (if sptr s = None then Some obstring_null
      else do {
        let stop = data_length s;
        start \<leftarrow> trim_start (nat stop) h (sptr s) 0 stop;
        stop \<leftarrow> trim_end (nat stop) h (sptr s) start stop;
        Some (obs_assign_ptr obstring_null (ptr_add (sptr s) start) (stop - start))
      })"

definition obs_incr :: "obstring \<Rightarrow> obstring" where
  "obs_incr s =
     (if sptr s \<noteq> None \<and> data_length s > 0
      then s\<lparr>sptr := ptr_add (sptr s) 1, data_length := data_length s - 1\<rparr> else s)"

definition obs_advance :: "obstring \<Rightarrow> int \<Rightarrow> obstring" where
  "obs_advance s n =
     (if sptr s \<noteq> None \<and> data_length s \<ge> n
      then s\<lparr>sptr := ptr_add (sptr s) n, data_length := data_length s - n\<rparr>
      else s\<lparr>sptr := None, data_length := 0\<rparr>)"

text \<open>Pointers into different objects cannot be compared.\<close>

definition obs_contains :: "obstring \<Rightarrow> ptr \<Rightarrow> bool option" where
  "obs_contains s p =
     (case (sptr s, p) of
        (Some (o1, i), Some (o2, j)) \<Rightarrow>
          if o1 = o2 then Some (i \<le> j \<and> j < i + data_length s) else None
      | (None, None) \<Rightarrow> Some (0 < data_length s)
      | (Some _, None) \<Rightarrow> Some False
      | (None, Some _) \<Rightarrow> Some False)"

fun index_of :: "u8 \<Rightarrow> u8 list \<Rightarrow> nat option" where
  "index_of c [] = None"
| "index_of c (b # bs) = (if b = c then Some 0 else map_option Suc (index_of c bs))"

text \<open>\<open>memchr\<close> and \<open>memrchr\<close>.\<close>

definition obs_find_char :: "heap \<Rightarrow> obstring \<Rightarrow> u8 \<Rightarrow> ptr option" where
  "obs_find_char h s c = do {
     bs \<leftarrow> load_bytes h (sptr s) (data_length s);
     Some (case index_of c bs of None \<Rightarrow> None | Some i \<Rightarrow> ptr_add (sptr s) (int i))
   }"

definition obs_reverse_find :: "heap \<Rightarrow> obstring \<Rightarrow> u8 \<Rightarrow> ptr option" where
  "obs_reverse_find h s c = do {
     bs \<leftarrow> load_bytes h (sptr s) (data_length s);
     Some (case index_of c (rev bs) of
             None \<Rightarrow> None
           | Some i \<Rightarrow> ptr_add (sptr s) (data_length s - 1 - int i))
   }"

text \<open>\<open>p - ptr_\<close>\<close>

definition ptr_diff :: "ptr \<Rightarrow> ptr \<Rightarrow> int option" where
  "ptr_diff p q = do { (o1, i) \<leftarrow> p; (o2, j) \<leftarrow> q; if o1 = o2 then Some (i - j) else None }"

definition obs_split_on :: "obstring \<Rightarrow> ptr \<Rightarrow> (obstring \<times> obstring) option" where
  "obs_split_on s p = do {
     inside \<leftarrow> obs_contains s p;
     if inside then do {
       n \<leftarrow> ptr_diff p (sptr s);
       Some (obs_assign obstring_null (sptr s) n,
             s\<lparr>sptr := ptr_add p 1, data_length := data_length s - (n + 1)\<rparr>)
     } else Some (obstring_null, s)
   }"

definition obs_split_on_char :: "heap \<Rightarrow> obstring \<Rightarrow> u8 \<Rightarrow> (obstring \<times> obstring) option" where
  "obs_split_on_char h s c = do { p \<leftarrow> obs_find_char h s c; obs_split_on s p }"

definition obs_after :: "obstring \<Rightarrow> ptr \<Rightarrow> obstring option" where
  "obs_after s p = do {
     inside \<leftarrow> obs_contains s p;
     if inside then do {
       n \<leftarrow> ptr_diff p (sptr s);
       Some (obstring_of (data_length s - n - 1) (ptr_add p 1))
     } else Some obstring_null
   }"

definition obs_after_char :: "heap \<Rightarrow> obstring \<Rightarrow> u8 \<Rightarrow> obstring option" where
  "obs_after_char h s c = do { p \<leftarrow> obs_find_char h s c; obs_after s p }"

definition obs_clip :: "obstring \<Rightarrow> ptr \<Rightarrow> obstring option" where
  "obs_clip s p = do {
     inside \<leftarrow> obs_contains s p;
     if inside then do {
       n \<leftarrow> ptr_diff p (sptr s);
       Some (s\<lparr>data_length := n\<rparr>)
     } else Some s
   }"

fun find_from :: "nat \<Rightarrow> heap \<Rightarrow> obstring \<Rightarrow> obstring \<Rightarrow> int \<Rightarrow> int option" where
  "find_from 0 h s sub i = Some (- 1)"
| "find_from (Suc n) h s sub i =
     (if i \<le> data_length s - data_length sub then do {
        a \<leftarrow> load_bytes h (ptr_add (sptr s) i) (data_length sub);
        b \<leftarrow> load_bytes h (sptr sub) (data_length sub);
        if c_memcmp a b = 0 then Some i else find_from n h s sub (i + 1)
      } else Some (- 1))"

definition obs_find :: "heap \<Rightarrow> obstring \<Rightarrow> obstring \<Rightarrow> int option" where
  "obs_find h s sub =
     (if data_length s \<ge> data_length sub
      then find_from (nat (data_length s - data_length sub + 1)) h s sub 0
      else Some (- 1))"

section \<open>Serialisation\<close>

definition obs_serialize_size :: "obstring \<Rightarrow> int" where
  "obs_serialize_size s = encoded_length_vstr (data_length s)"

definition obs_serialize :: "heap \<Rightarrow> obstring \<Rightarrow> cbuf \<Rightarrow> int \<Rightarrow> int \<Rightarrow> enc_res" where
  "obs_serialize h s buf buf_len pos =
     (if buf = None \<or> obs_serialize_size s > buf_len - pos then Some (OB_SIZE_OVERFLOW, buf, pos)
      else encode_vstr buf buf_len pos (view h (sptr s)) (data_length s))"

text \<open>The input is object \<open>b\<close> of the heap (\<open>None\<close> for a null pointer), because the result may point
  into it.\<close>

definition obs_deserialize ::
    "heap \<Rightarrow> obstring \<Rightarrow> nat option \<Rightarrow> int \<Rightarrow> int \<Rightarrow> (ob_err \<times> int \<times> obstring \<times> heap) option" where
  "obs_deserialize h s b data_len pos =
     (if b = None \<or> data_len - pos < 2 then Some (OB_INVALID_ARGUMENT, pos, s, h)
      else do {
        o' \<leftarrow> b;
        let buf = h o';
        if buffer_size s = 0 then do {
          (p, pos, lenp) \<leftarrow> decode_vstr buf data_len pos (Some 0);
          let s = s\<lparr>sptr := map_option (\<lambda>off. (o', off)) p\<rparr>;
          len \<leftarrow> lenp;
          if p = None then Some (OB_ERROR, pos, s, h)
          else Some (OB_SUCCESS, pos, s\<lparr>data_length := sint (word_of_int len :: i32)\<rparr>, h)
        } else do {
          str_len \<leftarrow> decoded_length_vstr buf data_len pos;
          if str_len < 0 \<or> buffer_size s < str_len \<or> data_len - pos < str_len
          then Some (OB_BUF_NOT_ENOUGH, pos, s, h)
          else do {
            (p, pos, dest, lenp) \<leftarrow>
              decode_vstr_copy buf data_len pos (view h (sptr s)) (buffer_size s) (Some 0);
            len \<leftarrow> lenp;
            if p = None then Some (OB_ERROR, pos, s, h)
            else do {
              d \<leftarrow> dest;
              h \<leftarrow> store_bytes h (sptr s) d;
              Some (OB_SUCCESS, pos, s\<lparr>data_length := sint (word_of_int len :: i32)\<rparr>, h)
            }
          }
        }
      })"

section \<open>Well-formed strings\<close>

text \<open>\<open>in_object h p n\<close>: the \<open>n\<close> bytes behind \<open>p\<close> are inside one object.\<close>

definition in_object :: "heap \<Rightarrow> ptr \<Rightarrow> int \<Rightarrow> bool" where
  "in_object h p n =
     (case p of None \<Rightarrow> False
      | Some (o', off) \<Rightarrow>
          (case h o' of None \<Rightarrow> False | Some m \<Rightarrow> 0 \<le> off \<and> 0 \<le> n \<and> off + n \<le> int (length m)))"

text \<open>The class invariant: a null string is empty; otherwise the data, and the capacity if there is
  one, are inside the object, and the data fits the capacity.\<close>

definition obs_wf :: "heap \<Rightarrow> obstring \<Rightarrow> bool" where
  "obs_wf h s =
     (case sptr s of None \<Rightarrow> buffer_size s = 0 \<and> data_length s = 0
      | Some _ \<Rightarrow> in_object h (sptr s) (data_length s)
          \<and> (buffer_size s = 0
             \<or> data_length s \<le> buffer_size s \<and> in_object h (sptr s) (buffer_size s)))"

definition content :: "heap \<Rightarrow> obstring \<Rightarrow> u8 list option" where
  "content h s = load_bytes h (sptr s) (data_length s)"

lemma in_objectE:
  assumes "in_object h p n"
  obtains o' off m where "p = Some (o', off)" "h o' = Some m" "0 \<le> off" "0 \<le> n"
    "off + n \<le> int (length m)"
  using assms by (auto simp: in_object_def split: option.splits)

lemma in_object_bytes:
  assumes "in_object h p n"
  shows "\<exists>bs. load_bytes h p n = Some bs \<and> int (length bs) = n"
  using assms by (elim in_objectE) (auto simp: load_bytes_def rd_bytes_def)

lemma in_object_mono: "in_object h p n \<Longrightarrow> 0 \<le> k \<Longrightarrow> k \<le> n \<Longrightarrow> in_object h p k"
  by (auto simp: in_object_def split: option.splits)

lemma in_object_add: "in_object h p n \<Longrightarrow> 0 \<le> k \<Longrightarrow> 0 \<le> l \<Longrightarrow> k + l \<le> n \<Longrightarrow> in_object h (ptr_add p k) l"
  by (auto simp: in_object_def ptr_add_def split: option.splits)

lemma load_bytes_part:
  assumes "load_bytes h p n = Some bs" and "in_object h p n" and "0 \<le> k" and "0 \<le> l" and "k + l \<le> n"
  shows "load_bytes h (ptr_add p k) l = Some (take (nat l) (drop (nat k) bs))"
proof -
  obtain o' off m where o: "p = Some (o', off)" "h o' = Some m" "0 \<le> off" "off + n \<le> int (length m)"
    using assms(2) by (elim in_objectE)
  then have "bs = take (nat n) (drop (nat off) m)"
    using assms by (auto simp: load_bytes_def rd_bytes_def split: if_splits)
  moreover have "take (nat l) (drop (nat k) (take (nat n) (drop (nat off) m)))
      = take (nat l) (drop (nat (off + k)) m)"
    using assms o by (simp add: drop_take nat_add_distrib add.commute min_def nat_diff_distrib [symmetric]
        nat_mono_iff)
  ultimately show ?thesis
    using assms o by (auto simp: load_bytes_def rd_bytes_def ptr_add_def)
qed

lemma ptr_add_0 [simp]: "ptr_add p 0 = p"
  by (cases p) (auto simp: ptr_add_def)

lemma load_bytes_prefix:
  assumes "load_bytes h p n = Some bs" and "in_object h p n" and "0 \<le> l" and "l \<le> n"
  shows "load_bytes h p l = Some (take (nat l) bs)"
  using load_bytes_part [OF assms(1,2), of 0 l] assms by simp

lemma obs_wfE:
  assumes "obs_wf h s"
  obtains "sptr s = None" "buffer_size s = 0" "data_length s = 0"
  | "sptr s \<noteq> None" "in_object h (sptr s) (data_length s)"
  using assms by (auto simp: obs_wf_def split: option.splits)

lemma obs_wf_length: "obs_wf h s \<Longrightarrow> 0 \<le> data_length s"
  by (erule obs_wfE) (auto elim: in_objectE)

lemma content_wf:
  assumes "obs_wf h s"
  obtains bs where "content h s = Some bs" "data_length s = int (length bs)"
  using assms
proof (cases rule: obs_wfE)
  case 1
  then show ?thesis by (intro that [of "[]"]) (simp_all add: content_def load_bytes_def)
next
  case 2
  obtain bs where "load_bytes h (sptr s) (data_length s) = Some bs" "int (length bs) = data_length s"
    using in_object_bytes [OF 2(2)] by blast
  then show ?thesis by (intro that [of bs]) (simp_all add: content_def)
qed

lemma content_length: "obs_wf h s \<Longrightarrow> content h s = Some bs \<Longrightarrow> data_length s = int (length bs)"
  by (erule content_wf) simp

text \<open>A prefix of the content of a well-formed string can be read.\<close>

lemma content_prefix:
  assumes "obs_wf h s" and "content h s = Some bs" and "0 \<le> l" and "l \<le> data_length s"
  shows "load_bytes h (sptr s) l = Some (take (nat l) bs)"
  using assms(1)
proof (cases rule: obs_wfE)
  case 1
  with assms show ?thesis by (simp add: load_bytes_def)
next
  case 2
  with assms show ?thesis by (intro load_bytes_prefix) (simp_all add: content_def)
qed

lemma content_part:
  assumes "obs_wf h s" and "content h s = Some bs" and "0 \<le> k" and "0 \<le> l" and "k + l \<le> data_length s"
  shows "load_bytes h (ptr_add (sptr s) k) l = Some (take (nat l) (drop (nat k) bs))"
  using assms(1)
proof (cases rule: obs_wfE)
  case 1
  with assms show ?thesis by (simp add: load_bytes_def)
next
  case 2
  with assms show ?thesis by (intro load_bytes_part [where n = "data_length s"]) (simp_all add: content_def)
qed

section \<open>The invariant and the operations\<close>

lemma obs_wf_constructors:
  shows "obs_wf h obstring_null"
    and "obs_wf h (obs_reset s)"
    and "p = None \<or> in_object h p len \<Longrightarrow> obs_wf h (obs_assign s p len)"
    and "p = None \<or> in_object h p len \<Longrightarrow> obs_wf h (obs_assign_ptr s p len)"
    and "p = None \<or> in_object h p len \<Longrightarrow> obs_wf h (obs_assign_buffer s p len)"
  by (auto simp: obs_wf_def obstring_null_def obs_reset_def obs_assign_def obs_assign_ptr_def
      obs_assign_buffer_def Let_def split: option.splits elim: in_object_mono)
    (auto simp: in_object_def split: option.splits)

lemma obs_wf_set_length:
  "obs_wf h s \<Longrightarrow> 0 < buffer_size s \<Longrightarrow> 0 \<le> len \<Longrightarrow> obs_wf h (snd (obs_set_length s len))"
  by (auto simp: obs_wf_def obs_set_length_def Let_def split: option.splits elim: in_object_mono)

lemma obs_wf_shrink: "obs_wf h s \<Longrightarrow> obs_wf h (snd (obs_shrink s))"
  by (auto simp: obs_wf_def obs_shrink_def split: option.splits)

lemma obs_remain_nonneg: "obs_wf h s \<Longrightarrow> 0 \<le> obs_remain s"
  by (auto simp: obs_wf_def obs_remain_def in_object_def split: option.splits)

text \<open>\<open>write\<close> appends to the content, or changes nothing; it stays inside the object.  It is undefined when the
  bytes are in the room that it writes to.\<close>

lemma obs_write_full:
  assumes "obs_wf h s" and "buffer_size s < data_length s + len" and "data_length s + len < 2 ^ 31"
  shows "obs_write h s bytes len = Some (0, s, h)"
  using assms by (simp add: obs_write_def)

lemma take_drop_put:
  assumes "a + k + length cs \<le> length m"
  shows "take (k + length cs) (drop a (take (a + k) m @ cs @ rest)) = take k (drop a m) @ cs"
proof -
  have "take (a + k) m = take a m @ take k (drop a m)" by (simp add: take_add)
  moreover have "length (take a m) = a" "length (take k (drop a m)) = k" using assms by simp_all
  ultimately show ?thesis by simp
qed

lemma obs_write_appends:
  assumes "obs_wf h s" and "content h s = Some bs" and "0 < len"
    and "load_bytes h bytes len = Some cs" and "bytes \<noteq> None"
    and "data_length s + len \<le> buffer_size s" and "data_length s + len < 2 ^ 31"
    and "\<not> overlapping bytes (ptr_add (sptr s) (data_length s)) len"
  shows "\<exists>s' h'. obs_write h s bytes len = Some (len, s', h') \<and> obs_wf h' s'
    \<and> content h' s' = Some (bs @ cs) \<and> buffer_size s' = buffer_size s \<and> sptr s' = sptr s"
proof -
  have "buffer_size s \<noteq> 0" using assms(1,3,6) obs_wf_length [of h s] by auto
  with assms(1) obtain o' off m where o: "sptr s = Some (o', off)" "h o' = Some m" "0 \<le> off"
    "off + buffer_size s \<le> int (length m)" "0 \<le> data_length s" "data_length s \<le> buffer_size s"
    by (auto simp: obs_wf_def in_object_def split: option.splits)
  have lc: "int (length cs) = len"
    using assms(3,4) by (auto simp: load_bytes_def rd_bytes_def Option.bind_eq_Some_conv split: if_splits)
  have bs: "bs = take (nat (data_length s)) (drop (nat off) m)"
    using assms(2) o by (auto simp: content_def load_bytes_def rd_bytes_def split: if_splits)
  let ?m = "put m (off + data_length s) cs"
  let ?h = "h(o' \<mapsto> ?m)"
  let ?s = "s\<lparr>data_length := data_length s + len\<rparr>"
  have w: "store_bytes h (ptr_add (sptr s) (data_length s)) cs = Some ?h"
    using o assms lc by (simp add: store_bytes_def ptr_add_def wr_bytes_def)
  have l: "length ?m = length m" using o assms lc by simp
  have nl: "nat off + nat (data_length s) + length cs \<le> length m" "0 < length cs"
    using o assms(3,6) lc by linarith+
  have n: "nat (data_length s + len) = nat (data_length s) + length cs"
    "nat (off + data_length s) = nat off + nat (data_length s)"
    using o(3,5) assms(3) lc by linarith+
  have "take (nat (data_length s + len)) (drop (nat off) ?m) = bs @ cs"
    unfolding bs put_def n by (rule take_drop_put [OF nl(1)])
  then have c: "content ?h ?s = Some (bs @ cs)"
    using o assms l by (simp add: content_def load_bytes_def rd_bytes_def)
  have "obs_wf ?h ?s"
    using o assms l by (simp add: obs_wf_def in_object_def)
  with w c assms show ?thesis by (auto simp: obs_write_def)
qed

lemma obs_write_overlap:
  assumes "0 < len" and "bytes \<noteq> None" and "data_length s + len \<le> buffer_size s"
    and "overlapping bytes (ptr_add (sptr s) (data_length s)) len"
  shows "obs_write h s bytes len = None"
  using assms by (auto simp: obs_write_def bind_eq_None_conv split: option.split)

section \<open>Comparison is the lexicographic order of the contents\<close>

lemma c_memcmp_zero: "length a = length b \<Longrightarrow> c_memcmp a b = 0 \<longleftrightarrow> a = b"
  by (induction a b rule: list_induct2) (auto simp flip: word_uint_eq_iff)

lemma c_memcmp_swap: "length a = length b \<Longrightarrow> c_memcmp b a = - c_memcmp a b"
  by (induction a b rule: list_induct2) auto

text \<open>The value \<open>compare\<close> computes from two contents.\<close>

definition cmp_value :: "u8 list \<Rightarrow> u8 list \<Rightarrow> int" where
  "cmp_value a b =
     (let k = min (length a) (length b); c = c_memcmp (take k a) (take k b)
      in if c = 0 then int (length a) - int (length b) else c)"

lemma cmp_value_simps:
  "cmp_value [] [] = 0"
  "cmp_value [] (b # bs) = - int (Suc (length bs))"
  "cmp_value (a # as) [] = int (Suc (length as))"
  "cmp_value (a # as) (b # bs) = (if a = b then cmp_value as bs else uint a - uint b)"
  by (simp_all add: cmp_value_def Let_def flip: word_uint_eq_iff)

lemma cmp_value_less: "cmp_value a b < 0 \<longleftrightarrow> a < b"
proof (induction a arbitrary: b)
  case Nil
  then show ?case by (cases b) (simp_all add: cmp_value_simps)
next
  case (Cons x xs)
  then show ?case
    by (cases b) (auto simp: cmp_value_simps word_less_def)
qed

lemma cmp_value_zero: "cmp_value a b = 0 \<longleftrightarrow> a = b"
proof (induction a arbitrary: b)
  case Nil
  then show ?case by (cases b) (simp_all add: cmp_value_simps)
next
  case (Cons x xs)
  then show ?case by (cases b) (auto simp: cmp_value_simps simp flip: word_uint_eq_iff)
qed

lemma c_memcmp_refl: "c_memcmp a a = 0"
  by (induction a) auto

lemma obs_compare_value:
  assumes "obs_wf h s" and "obs_wf h t" and "content h s = Some a" and "content h t = Some b"
  shows "obs_compare h s t = Some (cmp_value a b)"
proof -
  have l: "data_length s = int (length a)" "data_length t = int (length b)"
    using assms by (simp_all add: content_length)
  show ?thesis
  proof (cases "sptr s = sptr t")
    case True
    let ?k = "min (length a) (length b)"
    have "load_bytes h (sptr s) (int ?k) = Some (take ?k a)"
      using content_prefix [OF assms(1,3), of "int ?k"] l by simp
    moreover have "load_bytes h (sptr t) (int ?k) = Some (take ?k b)"
      using content_prefix [OF assms(2,4), of "int ?k"] l by simp
    ultimately have "take ?k a = take ?k b" using True by simp
    with True show ?thesis
      by (simp add: obs_compare_def cmp_value_def l c_memcmp_refl Let_def)
  next
    case False
    let ?k = "min (int (length a)) (int (length b))"
    have "load_bytes h (sptr s) ?k = Some (take (min (length a) (length b)) a)"
      using content_prefix [OF assms(1,3), of ?k] l by (simp add: min_def)
    moreover have "load_bytes h (sptr t) ?k = Some (take (min (length a) (length b)) b)"
      using content_prefix [OF assms(2,4), of ?k] l by (simp add: min_def)
    ultimately show ?thesis
      using False l by (auto simp: obs_compare_def cmp_value_def Let_def)
  qed
qed

lemma obs_less_lex:
  assumes "obs_wf h s" and "obs_wf h t" and "content h s = Some a" and "content h t = Some b"
  shows "obs_less h s t = Some (a < b)" and "obs_equal h s t = Some (a = b)"
  using obs_compare_value [OF assms]
  by (simp_all add: obs_less_def obs_equal_def cmp_value_less cmp_value_zero)

lemma obs_prefix_match_take:
  assumes "obs_wf h s" and "obs_wf h t" and "content h s = Some a" and "content h t = Some b"
  shows "obs_prefix_match h s t = Some (take (length b) a = b)"
proof -
  have l: "data_length s = int (length a)" "data_length t = int (length b)"
    using assms by (simp_all add: content_length)
  have long: "take (length b) a \<noteq> b" if "length a < length b"
  proof
    assume "take (length b) a = b"
    then have "length (take (length b) a) = length b" by simp
    with that show False by simp
  qed
  have pre: "load_bytes h (sptr s) (int (length b)) = Some (take (length b) a)" if "length b \<le> length a"
    using content_prefix [OF assms(1,3), of "int (length b)"] l that by simp
  have own: "load_bytes h (sptr t) (int (length b)) = Some b"
    using assms(4) l by (simp add: content_def)
  show ?thesis
  proof (cases "length a < length b")
    case True
    with l long show ?thesis by (simp add: obs_prefix_match_def)
  next
    case False
    show ?thesis
    proof (cases "sptr s = sptr t")
      case True
      then have "take (length b) a = b" using False pre own by simp
      with True False l show ?thesis by (simp add: obs_prefix_match_def)
    next
      case neq: False
      with False pre own l show ?thesis
        by (simp add: obs_prefix_match_def c_memcmp_zero)
    qed
  qed
qed

text \<open>Without zero bytes, the case-insensitive comparison decides equality up to the case of
  letters.\<close>

lemma c_strncasecmp_zero:
  assumes "length a = length b" and "0 \<notin> set a"
  shows "c_strncasecmp a b = 0 \<longleftrightarrow> map c_tolower a = map c_tolower b"
  using assms by (induction a b rule: list_induct2) (auto simp flip: word_uint_eq_iff)

lemma obs_case_compare_equal:
  assumes "obs_wf h s" and "obs_wf h t" and "content h s = Some a" and "content h t = Some b"
    and "sptr s \<noteq> None" and "sptr t \<noteq> None" and "0 \<notin> set a"
  shows "\<exists>c. obs_case_compare h s t = Some c \<and> (c = 0 \<longleftrightarrow> map c_tolower a = map c_tolower b)"
proof -
  have l: "data_length s = int (length a)" "data_length t = int (length b)"
    using assms by (simp_all add: content_length)
  let ?k = "min (length a) (length b)"
  have pa: "load_bytes h (sptr s) (int ?k) = Some (take ?k a)"
    using content_prefix [OF assms(1,3), of "int ?k"] l by simp
  have pb: "load_bytes h (sptr t) (int ?k) = Some (take ?k b)"
    using content_prefix [OF assms(2,4), of "int ?k"] l by simp
  have z: "c_strncasecmp (take ?k a) (take ?k b) = 0
      \<longleftrightarrow> map c_tolower (take ?k a) = map c_tolower (take ?k b)"
    using assms(7) by (intro c_strncasecmp_zero) (auto dest: in_set_takeD)
  have "map c_tolower a = map c_tolower b \<longleftrightarrow>
      length a = length b \<and> map c_tolower (take ?k a) = map c_tolower (take ?k b)"
    by (cases "length a = length b") (auto dest: map_eq_imp_length_eq)
  moreover have "obs_case_compare h s t = Some (if c_strncasecmp (take ?k a) (take ?k b) = 0
      then int (length a) - int (length b) else c_strncasecmp (take ?k a) (take ?k b))"
    using assms(5,6) pa pb unfolding obs_case_compare_def l Let_def of_nat_min by auto
  ultimately show ?thesis using z by auto
qed

section \<open>Trimming\<close>

lemma load_content:
  assumes "obs_wf h s" and "content h s = Some bs" and "0 \<le> i" and "i < data_length s"
  shows "load h (sptr s) i = Some (bs ! nat i)"
  using assms(1)
proof (cases rule: obs_wfE)
  case 1
  with assms show ?thesis by simp
next
  case 2
  then obtain o' off m where o: "sptr s = Some (o', off)" "h o' = Some m" "0 \<le> off"
    "off + data_length s \<le> int (length m)" by (elim in_objectE)
  then have "bs = take (nat (data_length s)) (drop (nat off) m)"
    using assms by (auto simp: content_def load_bytes_def rd_bytes_def split: if_splits)
  moreover have "nat i < nat (data_length s)" "nat (off + i) = nat off + nat i"
    "nat off + nat i < length m"
    using o assms by simp_all
  ultimately show ?thesis
    using o assms by (simp add: load_def rd_def)
qed

definition strip_spaces :: "u8 list \<Rightarrow> u8 list" where
  "strip_spaces bs = rev (dropWhile (\<lambda>c. c = 32) (rev (dropWhile (\<lambda>c. c = 32) bs)))"

lemma trim_start_eq:
  assumes "obs_wf h s" and "content h s = Some bs" and "i + n = length bs"
  shows "trim_start n h (sptr s) (int i) (int (length bs))
    = Some (int (length bs - length (dropWhile (\<lambda>c. c = 32) (drop i bs))))"
  using assms(3)
proof (induction n arbitrary: i)
  case 0
  then show ?case by simp
next
  case (Suc n)
  have len: "data_length s = int (length bs)" using assms by (simp add: content_length)
  have d: "drop i bs = bs ! i # drop (Suc i) bs" using Suc.prems by (simp add: Cons_nth_drop_Suc)
  have l: "load h (sptr s) (int i) = Some (bs ! i)"
    using load_content [OF assms(1,2), of "int i"] Suc.prems len by simp
  have "trim_start n h (sptr s) (int i + 1) (int (length bs))
      = Some (int (length bs - length (dropWhile (\<lambda>c. c = 32) (drop (Suc i) bs))))"
    using Suc.IH [of "Suc i"] Suc.prems by (simp add: add.commute)
  then show ?case
    using Suc.prems l by (simp add: d)
qed

lemma trim_end_eq:
  assumes "obs_wf h s" and "content h s = Some bs" and "i \<le> j" and "j \<le> length bs" and "j - i \<le> n"
  shows "trim_end n h (sptr s) (int i) (int j)
    = Some (int (i + length (dropWhile (\<lambda>c. c = 32) (rev (drop i (take j bs))))))"
  using assms(3-5)
proof (induction n arbitrary: j)
  case 0
  then show ?case by simp
next
  case (Suc n)
  have len: "data_length s = int (length bs)" using assms by (simp add: content_length)
  show ?case
  proof (cases "i < j")
    case False
    with Suc.prems show ?thesis by simp
  next
    case True
    then obtain k where k: "j = Suc k" by (cases j) auto
    have l: "load h (sptr s) (int k) = Some (bs ! k)"
      using load_content [OF assms(1,2), of "int k"] Suc.prems len k by simp
    have "drop i (take j bs) = drop i (take k bs) @ [bs ! k]"
      using True Suc.prems k by (simp add: take_Suc_conv_app_nth)
    then have r: "rev (drop i (take j bs)) = bs ! k # rev (drop i (take k bs))" by simp
    have "trim_end n h (sptr s) (int i) (int k)
        = Some (int (i + length (dropWhile (\<lambda>c. c = 32) (rev (drop i (take k bs))))))"
      using Suc.prems True k by (intro Suc.IH) simp_all
    with True l k Suc.prems show ?thesis by (simp add: r [unfolded k] del: drop_take)
  qed
qed

lemma obs_trim_strips:
  assumes "obs_wf h s" and "content h s = Some bs"
  shows "\<exists>t. obs_trim h s = Some t \<and> obs_wf h t \<and> content h t = Some (strip_spaces bs)"
proof (cases "sptr s = None")
  case True
  with assms have "bs = []" by (auto simp: obs_wf_def content_def load_bytes_def)
  with True show ?thesis
    using obs_wf_constructors(1) [of h]
    by (simp add: obs_trim_def content_def load_bytes_def strip_spaces_def)
      (simp add: obstring_null_def)
next
  case False
  let ?P = "\<lambda>c. c = (32 :: u8)"
  let ?i = "length bs - length (dropWhile ?P bs)"
  let ?e = "length (dropWhile ?P (rev (dropWhile ?P bs)))"
  have len: "data_length s = int (length bs)" using assms by (simp add: content_length)
  have le: "length (dropWhile ?P bs) \<le> length bs" "?e \<le> length (dropWhile ?P bs)"
    using length_dropWhile_le [of ?P bs] length_dropWhile_le [of ?P "rev (dropWhile ?P bs)"]
    by simp_all
  have "length bs = length (takeWhile ?P bs) + length (dropWhile ?P bs)"
    by (simp only: takeWhile_dropWhile_id flip: length_append)
  then have "?i = length (takeWhile ?P bs)" by linarith
  then have d: "drop ?i bs = dropWhile ?P bs" by (simp only: dropWhile_eq_drop [symmetric])
  have 1: "trim_start (length bs) h (sptr s) 0 (int (length bs)) = Some (int ?i)"
    using trim_start_eq [OF assms, of 0 "length bs"] by simp
  have 2: "trim_end (length bs) h (sptr s) (int ?i) (int (length bs)) = Some (int (?i + ?e))"
    using trim_end_eq [OF assms, of ?i "length bs" "length bs"] d by simp
  have "take ?e (dropWhile ?P bs) = rev (dropWhile ?P (rev (dropWhile ?P bs)))"
  proof -
    let ?r = "rev (dropWhile ?P bs)"
    have "dropWhile ?P bs = rev (takeWhile ?P ?r @ dropWhile ?P ?r)" by simp
    also have "\<dots> = rev (dropWhile ?P ?r) @ rev (takeWhile ?P ?r)" by (rule rev_append)
    finally have "take ?e (dropWhile ?P bs) = take ?e (rev (dropWhile ?P ?r) @ rev (takeWhile ?P ?r))"
      by (rule arg_cong)
    then show ?thesis by simp
  qed
  then have t: "take ?e (drop ?i bs) = strip_spaces bs"
    by (simp only: d strip_spaces_def)
  have "in_object h (ptr_add (sptr s) (int ?i)) (int ?e)"
    using assms(1)
  proof (cases rule: obs_wfE)
    case 2
    then show ?thesis using le len by (intro in_object_add [where n = "data_length s"]) simp_all
  qed (use False in simp)
  then have "obs_wf h (obs_assign_ptr obstring_null (ptr_add (sptr s) (int ?i)) (int ?e))"
    by (intro obs_wf_constructors) simp
  moreover have "load_bytes h (ptr_add (sptr s) (int ?i)) (int ?e) = Some (strip_spaces bs)"
    using content_part [OF assms, of "int ?i" "int ?e"] le len unfolding nat_int t
    by (simp del: of_nat_diff)
  moreover have "obs_trim h s
      = Some (obs_assign_ptr obstring_null (ptr_add (sptr s) (int ?i)) (int ?e))"
    using False by (auto simp: obs_trim_def len 1 2 simp del: of_nat_diff)
  moreover have "ptr_add (sptr s) (int ?i) \<noteq> None" using False by (cases "sptr s") (auto simp: ptr_add_def)
  ultimately show ?thesis
    by (auto simp: content_def obs_assign_ptr_def Let_def)
qed

section \<open>Searching\<close>

definition occurs_at :: "u8 list \<Rightarrow> u8 list \<Rightarrow> nat \<Rightarrow> bool" where
  "occurs_at sub bs i \<longleftrightarrow> i + length sub \<le> length bs \<and> take (length sub) (drop i bs) = sub"

lemma find_from_eq:
  assumes "obs_wf h s" and "obs_wf h t" and "content h s = Some a" and "content h t = Some b"
    and "i + n = Suc (length a - length b)" and "length b \<le> length a"
  shows "find_from n h s t (int i) =
    Some (case List.find (occurs_at b a) [i..<i + n] of None \<Rightarrow> - 1 | Some k \<Rightarrow> int k)"
  using assms(5)
proof (induction n arbitrary: i)
  case 0
  then show ?case by simp
next
  case (Suc n)
  have l: "data_length s = int (length a)" "data_length t = int (length b)"
    using assms by (simp_all add: content_length)
  have i: "i + length b \<le> length a" using Suc.prems assms(6) by simp
  have x: "load_bytes h (ptr_add (sptr s) (int i)) (int (length b)) = Some (take (length b) (drop i a))"
    using content_part [OF assms(1,3), of "int i" "int (length b)"] l i by simp
  have y: "load_bytes h (sptr t) (int (length b)) = Some b"
    using assms(4) l by (simp add: content_def)
  have c: "c_memcmp (take (length b) (drop i a)) b = 0 \<longleftrightarrow> occurs_at b a i"
    using i by (simp add: c_memcmp_zero occurs_at_def)
  have u: "[i..<i + Suc n] = i # [Suc i..<Suc i + n]" by (simp add: upt_conv_Cons del: upt_Suc)
  have "find_from n h s t (int i + 1) =
      Some (case List.find (occurs_at b a) [Suc i..<Suc i + n] of None \<Rightarrow> - 1 | Some k \<Rightarrow> int k)"
    using Suc.IH [of "Suc i"] Suc.prems by (simp add: add.commute)
  with x y c i l show ?case
    unfolding u by simp
qed

lemma find_occurs_none:
  "List.find (occurs_at b a) [0..<Suc (length a - length b)] = None \<longleftrightarrow> (\<forall>i. \<not> occurs_at b a i)"
  if "length b \<le> length a"
  using that by (auto simp: find_None_iff occurs_at_def)

text \<open>\<open>find\<close> returns the first occurrence, or -1 when there is none.\<close>

lemma obs_find_first:
  assumes "obs_wf h s" and "obs_wf h t" and "content h s = Some a" and "content h t = Some b"
  shows "\<exists>r. obs_find h s t = Some r
    \<and> (r = - 1 \<and> (\<forall>i. \<not> occurs_at b a i)
       \<or> (\<exists>k. r = int k \<and> occurs_at b a k \<and> (\<forall>i < k. \<not> occurs_at b a i)))"
proof (cases "length b \<le> length a")
  case False
  then have "obs_find h s t = Some (- 1)" and "\<forall>i. \<not> occurs_at b a i"
    using assms by (auto simp: obs_find_def content_length occurs_at_def)
  then show ?thesis by simp
next
  case True
  let ?n = "Suc (length a - length b)"
  have n: "nat (int (length a) - int (length b) + 1) = ?n" using True by simp
  have r: "obs_find h s t =
      Some (case List.find (occurs_at b a) [0..<?n] of None \<Rightarrow> - 1 | Some k \<Rightarrow> int k)"
    using find_from_eq [OF assms, of 0 ?n] True assms
    by (simp only: obs_find_def content_length n) simp
  show ?thesis
  proof (cases "List.find (occurs_at b a) [0..<?n]")
    case None
    with r find_occurs_none [OF True] show ?thesis by (simp del: upt_Suc)
  next
    case (Some k)
    then obtain j where j: "j < length [0..<?n]" "occurs_at b a ([0..<?n] ! j)" "k = [0..<?n] ! j"
      "\<forall>i < j. \<not> occurs_at b a ([0..<?n] ! i)"
      unfolding find_Some_iff by blast
    then have "k = j" "\<forall>i < j. \<not> occurs_at b a i" by (auto simp del: upt_Suc)
    with j r Some show ?thesis by (auto simp del: upt_Suc)
  qed
qed

section \<open>Splitting\<close>

lemma index_of_append: "c \<notin> set xs \<Longrightarrow> index_of c (xs @ c # ys) = Some (length xs)"
  by (induction xs) auto

lemma index_of_none: "index_of c bs = None \<longleftrightarrow> c \<notin> set bs"
  by (induction bs) auto

lemma obs_find_char_split:
  assumes "obs_wf h s" and "content h s = Some (xs @ c # ys)" and "c \<notin> set xs"
  shows "obs_find_char h s c = Some (ptr_add (sptr s) (int (length xs)))"
  using assms by (simp add: obs_find_char_def content_def index_of_append)

lemma nonempty_object:
  assumes "obs_wf h s" and "0 < data_length s"
  obtains o' off where "sptr s = Some (o', off)" "in_object h (Some (o', off)) (data_length s)"
  using assms(1)
proof (cases rule: obs_wfE)
  case 1
  with assms(2) show ?thesis by simp
next
  case 2
  then show ?thesis using that by (cases "sptr s") auto
qed

text \<open>\<open>split_on\<close> cuts at the first separator, which belongs to neither part.  Both parts are
  well-formed when the string owns no capacity.\<close>

lemma obs_split_on_char_parts:
  assumes "obs_wf h s" and "content h s = Some (xs @ c # ys)" and "c \<notin> set xs"
  shows "\<exists>l r. obs_split_on_char h s c = Some (l, r) \<and> obs_wf h l
    \<and> content h l = Some xs \<and> content h r = Some ys
    \<and> buffer_size r = buffer_size s \<and> (buffer_size s = 0 \<longrightarrow> obs_wf h r)"
proof -
  let ?n = "int (length xs)"
  have len: "data_length s = int (length (xs @ c # ys))" using assms by (simp only: content_length)
  then obtain o' off where o: "sptr s = Some (o', off)" "in_object h (Some (o', off)) (data_length s)"
    using nonempty_object [OF assms(1)] by auto
  let ?l = "\<lparr>buffer_size = ?n, data_length = ?n, sptr = Some (o', off)\<rparr>"
  let ?r = "s\<lparr>sptr := Some (o', off + ?n + 1), data_length := data_length s - (?n + 1)\<rparr>"
  have "obs_split_on_char h s c = Some (?l, ?r)"
    using o(1) len obs_find_char_split [OF assms]
    by (simp add: obs_split_on_char_def obs_split_on_def obs_contains_def ptr_add_def ptr_diff_def
        obs_assign_def obstring_null_def Let_def add.assoc)
  moreover have "content h ?l = Some xs"
    using content_prefix [OF assms(1,2), of ?n] o(1) len by (simp add: content_def)
  moreover have "content h ?r = Some ys"
    using content_part [OF assms(1,2), of "?n + 1" "int (length ys)"] o(1) len
    by (simp add: content_def ptr_add_def nat_add_distrib add.assoc)
  moreover have "obs_wf h ?l"
    using o len in_object_mono [OF o(2), of ?n] by (simp add: obs_wf_def)
  moreover have "obs_wf h ?r" if "buffer_size s = 0"
    using o(2) len that by (auto simp: obs_wf_def in_object_def split: option.splits)
  ultimately show ?thesis by auto
qed

lemma obs_split_on_absent:
  assumes "obs_wf h s" and "content h s = Some bs" and "c \<notin> set bs"
  shows "obs_split_on_char h s c = Some (obstring_null, s)"
proof -
  have "obs_find_char h s c = Some None"
    using assms(2,3) by (simp add: obs_find_char_def content_def index_of_none [THEN iffD2])
  moreover have "obs_contains s None = Some False"
    using assms(1) by (auto simp: obs_contains_def obs_wf_def split: option.splits)
  ultimately show ?thesis by (simp add: obs_split_on_char_def obs_split_on_def)
qed

text \<open>A string with a capacity keeps it while its pointer moves: a later \<open>write\<close> that fits the
  recorded capacity leaves the object.\<close>

lemma obs_incr_write_overrun:
  assumes "h o' = Some m" and "sptr s = Some (o', off)" and "0 \<le> off" and "0 < data_length s"
    and "data_length s \<le> buffer_size s" and "off + buffer_size s = int (length m)"
    and "load_bytes h bytes len = Some cs" and "bytes \<noteq> None"
    and "len = buffer_size s - data_length s + 1" and "buffer_size s < 2 ^ 31"
  shows "obs_wf h s" and "obs_write h (obs_incr s) bytes len = None"
proof -
  show "obs_wf h s" using assms by (simp add: obs_wf_def in_object_def)
  have "int (length cs) = len"
    using assms(5,7,9) by (auto simp: load_bytes_def rd_bytes_def Option.bind_eq_Some_conv split: if_splits)
  with assms show "obs_write h (obs_incr s) bytes len = None"
    by (auto simp: obs_write_def obs_incr_def store_bytes_def ptr_add_def wr_bytes_def)
qed

section \<open>Serialisation\<close>

lemma view_content:
  assumes "obs_wf h s" and "content h s = Some bs" and "sptr s \<noteq> None"
  shows "\<exists>rest. view h (sptr s) = Some (bs @ rest)"
  using assms(1)
proof (cases rule: obs_wfE)
  case 1
  with assms show ?thesis by simp
next
  case 2
  then obtain o' off m where o: "sptr s = Some (o', off)" "h o' = Some m" "0 \<le> off"
    "off + data_length s \<le> int (length m)" by (elim in_objectE)
  then have "bs = take (nat (data_length s)) (drop (nat off) m)"
    using assms by (auto simp: content_def load_bytes_def rd_bytes_def split: if_splits)
  then have "drop (nat off) m = bs @ drop (nat (data_length s)) (drop (nat off) m)"
    by (simp only: append_take_drop_id)
  with o show ?thesis by (auto simp: view_def)
qed

text \<open>\<open>encode_vstr\<close> looks at the counted bytes only.\<close>

lemma encode_vstr_prefix:
  "encode_vstr buf buf_len pos (Some (bs @ rest)) (int (length bs))
     = encode_vstr buf buf_len pos (Some bs) (int (length bs))"
  by (simp add: encode_vstr_def rd_bytes_def cong: if_cong)

lemma obs_serialize_eq:
  assumes "obs_wf h s" and "content h s = Some bs" and "length bs < 2 ^ 31 - 6"
    and "0 \<le> pos" and "buf_len \<le> int (length m)"
  shows "obs_serialize h s (Some m) buf_len pos =
    (if pos + int (length (wire_vstr bs)) \<le> buf_len
     then Some (OB_SUCCESS, Some (put m pos (wire_vstr bs)), pos + int (length (wire_vstr bs)))
     else Some (OB_SIZE_OVERFLOW, Some m, pos))"
proof -
  have len: "data_length s = int (length bs)" using assms(1,2) by (rule content_length)
  have sz: "obs_serialize_size s = int (length (wire_vstr bs))"
    using assms(3) by (simp add: obs_serialize_size_def len encoded_length_vstr_eq [simplified])
  have "encode_vstr (Some m) buf_len pos (view h (sptr s)) (int (length bs))
      = encode_vstr (Some m) buf_len pos (Some bs) (int (length bs))"
  proof (cases "sptr s = None")
    case True
    with assms(1,2) have "bs = []" by (auto simp: obs_wf_def content_def load_bytes_def)
    then show ?thesis by (simp add: encode_vstr_def)
  next
    case False
    with view_content [OF assms(1,2)] show ?thesis by (auto simp: encode_vstr_prefix)
  qed
  with assms(3-5) show ?thesis
    by (simp add: obs_serialize_def sz len encode_vstr_eq [simplified])
qed

lemma obs_deserialize_wire:
  assumes "h b = Some m" and "holds m pos (wire_vstr bs)" and "length bs < 2 ^ 31 - 6"
    and "pos + int (length (wire_vstr bs)) \<le> data_len" and "data_len \<le> int (length m)"
    and "buffer_size s = 0"
  shows "\<exists>t. obs_deserialize h s (Some b) data_len pos
      = Some (OB_SUCCESS, pos + int (length (wire_vstr bs)), t, h)
    \<and> obs_wf h t \<and> content h t = Some bs"
proof -
  have n: "length bs < 2 ^ 31" using assms(3) by simp
  let ?p = "pos + int (vlen (length bs))"
  have h: "holds m pos (wire_vi (of_nat (length bs) :: u64) @ bs)"
    using assms(2) by (simp add: wire_vstr_def holds_append)
  have pos: "0 \<le> pos" using holds_bounds [OF h] by simp
  have lw: "length (wire_vstr bs) = vlen (length bs) + length bs + 1" using n by (rule length_wire_vstr)
  have room: "pos + int (vlen (length bs) + length bs) \<le> data_len" "\<not> data_len - pos < 2"
    using assms(4) vlen_pos [of "length bs"] unfolding lw by simp_all
  have d: "decode_vstr (Some m) data_len pos (Some 0) =
      Some (Some ?p, pos + int (length (wire_vstr bs)), Some (int (length bs)))"
    using decode_vstr_wire(1) [OF h n room(1), of 0] unfolding lw by simp
  have l: "sint (word_of_int (int (length bs)) :: i32) = int (length bs)"
    using n by (intro sint_i32_small) simp_all
  let ?t = "s\<lparr>sptr := Some (b, ?p), data_length := int (length bs)\<rparr>"
  have "obs_deserialize h s (Some b) data_len pos
      = Some (OB_SUCCESS, pos + int (length (wire_vstr bs)), ?t, h)"
    using room(2) assms(1,6) unfolding obs_deserialize_def Let_def bind.simps assms(1) d l
    by (simp add: l [simplified])
  moreover have "content h ?t = Some bs"
    using decode_vstr_wire(2) [OF h n room(1)] assms(1) by (simp add: content_def load_bytes_def)
  moreover have "obs_wf h ?t"
    using assms(1,5,6) room(1) pos by (simp add: obs_wf_def in_object_def)
  ultimately show ?thesis by blast
qed

text \<open>A failed decode nulls the pointer and keeps the length, so the string is no longer
  well-formed.\<close>

lemma obs_deserialize_error_length:
  assumes "obs_deserialize h s (Some b) data_len pos = Some (OB_ERROR, pos', t, h')"
    and "buffer_size s = 0"
  shows "sptr t = None \<and> data_length t = data_length s \<and> h' = h"
  using assms
  by (auto simp: obs_deserialize_def Let_def Option.bind_eq_Some_conv split: if_splits)

end
