(* ===== verification/BitSet.thy ===== *)
theory BitSet
  imports SerialGeneric
begin

text \<open>
  \<open>ObBitSet\<close> of \<open>src/src/lib/container/ob_bit_set.h\<close>: a set of non-negative integers as an array of
  32-bit words.  The array is an \<open>ObSEArray\<close>, of which the model keeps the element list; \<open>push_back\<close>
  and the (de)serialisation of that class are here too.  How far the allocator lets an array grow
  is the parameter \<open>cap\<close>.
\<close>

section \<open>ObSEArray\<close>

definition push_back :: "nat \<Rightarrow> 'a list \<Rightarrow> 'a \<Rightarrow> ob_err \<times> 'a list" where
  "push_back cap xs x =
     (if length xs < cap then (OB_SUCCESS, xs @ [x]) else (OB_ALLOCATE_MEMORY_FAILED, xs))"

definition sea_serialize ::
    "(cbuf \<Rightarrow> int \<Rightarrow> int \<Rightarrow> 'v \<Rightarrow> enc_res) \<Rightarrow> cbuf \<Rightarrow> int \<Rightarrow> int \<Rightarrow> 'v list \<Rightarrow> enc_res" where
  "sea_serialize enc buf buf_len pos xs = do {
     (ret, buf, pos) \<leftarrow> encode_vi64 buf buf_len pos (of_nat (length xs));
     if ret = OB_SUCCESS then encode_elems enc buf buf_len pos xs else Some (ret, buf, pos)
   }"

text \<open>The loop of \<open>deserialize\<close>, with \<open>n\<close> items to go.  The variable \<open>item\<close> is declared outside.\<close>

fun sea_read ::
    "(cbuf \<Rightarrow> int \<Rightarrow> int \<Rightarrow> 'v \<Rightarrow> 'v dec_res) \<Rightarrow> nat \<Rightarrow> nat \<Rightarrow> cbuf \<Rightarrow> int \<Rightarrow> int \<Rightarrow> 'v \<Rightarrow> 'v list
       \<Rightarrow> 'v list dec_res"
where
  "sea_read dec cap 0 buf data_len pos item xs = Some (OB_SUCCESS, pos, xs)"
| "sea_read dec cap (Suc n) buf data_len pos item xs = do {
     (ret, pos, item) \<leftarrow> dec buf data_len pos item;
     if ret \<noteq> OB_SUCCESS then Some (ret, pos, xs)
     else (case push_back cap xs item of (ret, xs) \<Rightarrow>
       if ret \<noteq> OB_SUCCESS then Some (ret, pos, xs)
       else sea_read dec cap n buf data_len pos item xs)
   }"

definition sea_deserialize ::
    "(cbuf \<Rightarrow> int \<Rightarrow> int \<Rightarrow> 'v \<Rightarrow> 'v dec_res) \<Rightarrow> nat \<Rightarrow> cbuf \<Rightarrow> int \<Rightarrow> int \<Rightarrow> 'v \<Rightarrow> 'v list dec_res"
where
  "sea_deserialize dec cap buf data_len pos item = do {
     (ret, pos, count) \<leftarrow> decode_vi64 buf data_len pos 0;
     if ret = OB_SUCCESS then sea_read dec cap (nat (sint count)) buf data_len pos item []
     else Some (ret, pos, [])
   }"

definition sea_get_serialize_size :: "('v \<Rightarrow> int) \<Rightarrow> 'v list \<Rightarrow> int" where
  "sea_get_serialize_size len xs = sum_lengths len (0 + encoded_length_vi64 (of_nat (length xs))) xs"

section \<open>The set\<close>

type_synonym bitset = "u32 list"

definition bit_count :: "bitset \<Rightarrow> int" where
  "bit_count ws = int (length ws) * 32"

definition get_bitset_word :: "bitset \<Rightarrow> int \<Rightarrow> u32" where
  "get_bitset_word ws index =
     (if index < 0 \<or> index \<ge> int (length ws) then 0 else ws ! nat index)"

text \<open>Appending \<open>n\<close> zero words, until one append fails.\<close>

fun make_up :: "nat \<Rightarrow> nat \<Rightarrow> bitset \<Rightarrow> ob_err \<times> bitset" where
  "make_up cap 0 ws = (OB_SUCCESS, ws)"
| "make_up cap (Suc n) ws =
     (case push_back cap ws 0 of (ret, ws) \<Rightarrow>
        if ret = OB_SUCCESS then make_up cap n ws else (ret, ws))"

definition add_member :: "nat \<Rightarrow> bitset \<Rightarrow> int \<Rightarrow> ob_err \<times> bitset" where
  "add_member cap ws index =
     (if index < 0 then (OB_INVALID_ARGUMENT, ws)
      else let pos = drop_bit 5 index;
               (ret, ws) = (if pos \<ge> int (length ws)
                            then make_up cap (nat (pos + 1 - int (length ws))) ws
                            else (OB_SUCCESS, ws)) in
        if ret = OB_SUCCESS
        then (ret, ws[nat pos := ws ! nat pos OR push_bit (nat (index AND 31)) 1])
        else (ret, ws))"

definition del_member :: "bitset \<Rightarrow> int \<Rightarrow> ob_err \<times> bitset" where
  "del_member ws index =
     (if index < 0 then (OB_INVALID_ARGUMENT, ws)
      else let pos = drop_bit 5 index in
        if pos \<ge> int (length ws) then (OB_SUCCESS, ws)
        else (OB_SUCCESS, ws[nat pos := ws ! nat pos AND NOT (push_bit (nat (index AND 31)) 1)]))"

definition has_member :: "bitset \<Rightarrow> int \<Rightarrow> bool" where
  "has_member ws index =
     (if index < 0 then False
      else if index \<ge> bit_count ws then False
      else ws ! nat (drop_bit 5 index) AND push_bit (nat (index AND 31)) 1 \<noteq> 0)"

definition add_members :: "nat \<Rightarrow> bitset \<Rightarrow> bitset \<Rightarrow> ob_err \<times> bitset" where
  "add_members cap ws other =
     (let (ret, ws) = (if length ws < length other
                       then make_up cap (length other - length ws) ws else (OB_SUCCESS, ws)) in
      if ret = OB_SUCCESS
      then (ret, fold (\<lambda>i ws. ws[i := ws ! i OR get_bitset_word other (int i)]) [0..<length other] ws)
      else (ret, ws))"

definition del_members :: "bitset \<Rightarrow> bitset \<Rightarrow> bitset" where
  "del_members ws other =
     fold (\<lambda>i ws. ws[i := ws ! i AND NOT (get_bitset_word other (int i))]) [0..<length ws] ws"

definition clear_words :: "nat list \<Rightarrow> bitset \<Rightarrow> bitset" where
  "clear_words is ws = fold (\<lambda>i ws. ws[i := 0]) is ws"

definition clear_bits :: "nat \<Rightarrow> nat list \<Rightarrow> bitset \<Rightarrow> bitset" where
  "clear_bits w is ws = fold (\<lambda>i ws. ws[w := ws ! w AND NOT (push_bit i 1)]) is ws"

definition do_mask :: "bitset \<Rightarrow> int \<Rightarrow> int \<Rightarrow> ob_err \<times> bitset" where
  "do_mask ws begin_index end_index =
     (let max_bit_count = int (length ws) * 32 in
      if begin_index < 0 \<or> begin_index \<ge> max_bit_count \<or> end_index < 0 \<or> end_index \<ge> max_bit_count
         \<or> begin_index \<ge> end_index
      then (OB_INVALID_ARGUMENT, ws)
      else let begin_word = nat (begin_index div 32); end_word = nat (end_index div 32);
               begin_pos = nat (begin_index mod 32); end_pos = nat (end_index mod 32);
               ws = clear_words [0..<begin_word] ws;
               ws = clear_words (rev [end_word + 1..<length ws]) ws;
               ws = clear_bits begin_word [0..<begin_pos] ws;
               ws = clear_bits end_word [1 + end_pos..<32] ws in
        (OB_SUCCESS, ws))"

definition is_empty :: "bitset \<Rightarrow> bool" where
  "is_empty ws = (length ws = 0)"

definition is_superset :: "bitset \<Rightarrow> bitset \<Rightarrow> bool" where
  "is_superset ws other =
     (if is_empty other then True
      else if is_empty ws then False
      else if length ws < length other then False
      else list_all (\<lambda>i. get_bitset_word other (int i) AND NOT (get_bitset_word ws (int i)) = 0)
             [0..<length other])"

definition is_subset :: "bitset \<Rightarrow> bitset \<Rightarrow> bool" where
  "is_subset ws other =
     (if is_empty ws then True
      else if is_empty other then False
      else if length ws > length other then False
      else list_all (\<lambda>i. get_bitset_word ws (int i) AND NOT (get_bitset_word other (int i)) = 0)
             [0..<length ws])"

definition overlap :: "bitset \<Rightarrow> bitset \<Rightarrow> bool" where
  "overlap ws other =
     list_ex (\<lambda>i. get_bitset_word ws (int i) AND get_bitset_word other (int i) \<noteq> 0)
       [0..<min (length ws) (length other)]"

text \<open>The number of set bits of a word, by adding neighbouring fields of doubling width.\<close>

definition word_members :: "u32 \<Rightarrow> u32" where
  "word_members word =
     (let word = (word AND 0x55555555) + (drop_bit 1 word AND 0x55555555);
          word = (word AND 0x33333333) + (drop_bit 2 word AND 0x33333333);
          word = (word AND 0x0f0f0f0f) + (drop_bit 4 word AND 0x0f0f0f0f);
          word = (word AND 0x00ff00ff) + (drop_bit 8 word AND 0x00ff00ff)
      in (word AND 0x0000ffff) + (drop_bit 16 word AND 0x0000ffff))"

definition num_members :: "bitset \<Rightarrow> int" where
  "num_members ws =
     fold (\<lambda>i num. let word = get_bitset_word ws (int i) in
             if word = 0 then num else num + uint (word_members word)) [0..<length ws] 0"

fun to_array_loop ::
    "nat \<Rightarrow> bitset \<Rightarrow> int \<Rightarrow> int list \<Rightarrow> int \<Rightarrow> int list \<Rightarrow> ob_err \<times> int list" where
  "to_array_loop cap ws num [] count arr = (OB_SUCCESS, arr)"
| "to_array_loop cap ws num (i # is) count arr =
     (if \<not> count < num then (OB_SUCCESS, arr)
      else if has_member ws i
      then (case push_back cap arr i of (ret, arr) \<Rightarrow>
              if ret \<noteq> OB_SUCCESS then (ret, arr)
              else to_array_loop cap ws num is (count + 1) arr)
      else to_array_loop cap ws num is count arr)"

definition to_array :: "nat \<Rightarrow> bitset \<Rightarrow> ob_err \<times> int list" where
  "to_array cap ws =
     to_array_loop cap ws (num_members ws) [0..int (length ws) * 32 - 1] 0 []"

definition get_first_peculiar_bit :: "bitset \<Rightarrow> bitset \<Rightarrow> int" where
  "get_first_peculiar_bit ws other =
     (let min_bit_count = min (bit_count ws) (bit_count other) in
      case List.find (\<lambda>i. has_member ws i \<and> \<not> has_member other i) [0..min_bit_count - 1] of
        Some i \<Rightarrow> i
      | None \<Rightarrow>
          if min_bit_count < bit_count ws
          then (case List.find (has_member ws) [min_bit_count..bit_count ws - 1] of
                  Some i \<Rightarrow> i | None \<Rightarrow> -1)
          else -1)"

definition bitset_eq :: "bitset \<Rightarrow> bitset \<Rightarrow> bool" where
  "bitset_eq ws other =
     list_all (\<lambda>i. get_bitset_word ws (int i) = get_bitset_word other (int i))
       [0..<max (length ws) (length other)]"

definition bitset_reuse :: "bitset \<Rightarrow> bitset" where
  "bitset_reuse ws = []"

definition bitset_serialize :: "cbuf \<Rightarrow> int \<Rightarrow> int \<Rightarrow> bitset \<Rightarrow> enc_res" where
  "bitset_serialize buf buf_len pos ws = sea_serialize encode_int32 buf buf_len pos ws"

definition bitset_deserialize :: "nat \<Rightarrow> cbuf \<Rightarrow> int \<Rightarrow> int \<Rightarrow> bitset dec_res" where
  "bitset_deserialize cap buf data_len pos = sea_deserialize decode_int32 cap buf data_len pos 0"

definition bitset_get_serialize_size :: "bitset \<Rightarrow> int" where
  "bitset_get_serialize_size ws = sea_get_serialize_size encoded_length_vi32 ws"

section \<open>The abstract set\<close>

definition members :: "bitset \<Rightarrow> int set" where
  "members ws = {i. 0 \<le> i \<and> bit (get_bitset_word ws (i div 32)) (nat (i mod 32))}"

named_theorems bitset_simps \<open>words and positions of a bit set\<close>

lemma index_simps [bitset_simps]:
  "drop_bit 5 (i :: int) = i div 32" "(i :: int) AND 31 = i mod 32"
proof -
  show "drop_bit 5 i = i div 32" by (simp add: drop_bit_eq_div)
  have "i AND mask 5 = i mod 2 ^ 5" by (simp only: take_bit_eq_mask [symmetric] take_bit_eq_mod)
  then show "i AND 31 = i mod 32" by (simp add: mask_eq_exp_minus_1)
qed

lemma div_32_nonneg: "0 \<le> (i :: int) \<Longrightarrow> 0 \<le> i div 32"
  by simp

lemma members_iff: "i \<in> members ws \<longleftrightarrow> 0 \<le> i \<and> bit (get_bitset_word ws (i div 32)) (nat (i mod 32))"
  by (simp add: members_def)

lemma pos_32: "nat ((i :: int) mod 32) < 32"
  by simp

lemma and_single_bit: "(w :: u32) AND push_bit n 1 \<noteq> 0 \<longleftrightarrow> n < 32 \<and> bit w n"
  by (auto simp: and_exp_eq_0_iff_not_bit push_bit_eq_mult bit_imp_le_length dest: bit_imp_le_length)

lemma has_member_iff: "has_member ws i \<longleftrightarrow> i \<in> members ws"
  unfolding has_member_def members_iff get_bitset_word_def bit_count_def bitset_simps and_single_bit
  using pos_32 [of i] by (auto simp: not_le)

lemma members_bound: "i \<in> members ws \<Longrightarrow> 0 \<le> i \<and> i < bit_count ws"
  by (auto simp: members_iff get_bitset_word_def bit_count_def split: if_splits)

lemma members_subset_range: "members ws \<subseteq> {0..<bit_count ws}"
  using members_bound by auto

lemma finite_members [simp]: "finite (members ws)"
  using members_subset_range by (rule finite_subset) simp

lemma get_word_outside [simp]: "int (length ws) \<le> i \<Longrightarrow> get_bitset_word ws i = 0"
  by (simp add: get_bitset_word_def)

lemma get_word_nth: "k < length ws \<Longrightarrow> get_bitset_word ws (int k) = ws ! k"
  by (simp add: get_bitset_word_def)

text \<open>Two word arrays hold the same members when their words agree, missing words being zero.\<close>

lemma members_word:
  "k < 32 \<Longrightarrow> bit (get_bitset_word ws (int n)) k \<longleftrightarrow> 32 * int n + int k \<in> members ws"
  by (simp add: members_iff)

lemma word_cover:
  "(\<forall>i. i \<in> members a \<longrightarrow> i \<in> members b)
     \<longleftrightarrow> (\<forall>n. get_bitset_word a (int n) AND NOT (get_bitset_word b (int n)) = 0)"
proof
  assume *: "\<forall>i. i \<in> members a \<longrightarrow> i \<in> members b"
  show "\<forall>n. get_bitset_word a (int n) AND NOT (get_bitset_word b (int n)) = 0"
  proof
    fix n
    show "get_bitset_word a (int n) AND NOT (get_bitset_word b (int n)) = 0"
      by (rule bit_word_eqI) (use * in \<open>auto simp: bit_simps members_word\<close>)
  qed
next
  assume *: "\<forall>n. get_bitset_word a (int n) AND NOT (get_bitset_word b (int n)) = 0"
  show "\<forall>i. i \<in> members a \<longrightarrow> i \<in> members b"
  proof (intro allI impI)
    fix i assume i: "i \<in> members a"
    then have "0 \<le> i" by (simp add: members_iff)
    then have "int (nat (i div 32)) = i div 32" by (simp add: div_32_nonneg)
    then have "get_bitset_word a (i div 32) AND NOT (get_bitset_word b (i div 32)) = 0"
      using * [rule_format, of "nat (i div 32)"] by metis
    then have "\<not> bit (get_bitset_word a (i div 32) AND NOT (get_bitset_word b (i div 32))) (nat (i mod 32))"
      by simp
    with i pos_32 [of i] show "i \<in> members b" by (simp add: members_iff bit_simps)
  qed
qed

lemma subset_iff_words:
  "members a \<subseteq> members b \<longleftrightarrow>
     (\<forall>n < length a. get_bitset_word a (int n) AND NOT (get_bitset_word b (int n)) = 0)"
proof -
  have "get_bitset_word a (int n) AND NOT (get_bitset_word b (int n)) = 0" if "\<not> n < length a" for n
    using that by simp
  then have "(\<forall>n. get_bitset_word a (int n) AND NOT (get_bitset_word b (int n)) = 0)
      \<longleftrightarrow> (\<forall>n < length a. get_bitset_word a (int n) AND NOT (get_bitset_word b (int n)) = 0)"
    by blast
  then show ?thesis unfolding subset_iff word_cover .
qed

section \<open>Growing\<close>

lemma make_up_eq:
  "make_up cap n ws =
     (if length ws + n \<le> cap \<or> n = 0 then (OB_SUCCESS, ws @ replicate n 0)
      else (OB_ALLOCATE_MEMORY_FAILED, ws @ replicate (cap - length ws) 0))"
proof (induction n arbitrary: ws)
  case 0
  then show ?case by simp
next
  case (Suc n)
  show ?case
  proof (cases "length ws < cap")
    case True
    then have "cap - length ws = Suc (cap - Suc (length ws))" by simp
    with True Suc.IH [of "ws @ [0]"] show ?thesis by (auto simp: push_back_def)
  next
    case False
    then show ?thesis by (simp add: push_back_def)
  qed
qed

lemma get_word_zeros [simp]: "get_bitset_word (ws @ replicate n 0) i = get_bitset_word ws i"
  by (auto simp: get_bitset_word_def nth_append)

lemma members_zeros [simp]: "members (ws @ replicate n 0) = members ws"
  by (simp add: members_def)

lemma get_word_update:
  "k < length ws \<Longrightarrow> 0 \<le> i \<Longrightarrow>
     get_bitset_word (ws[k := w]) i = (if i = int k then w else get_bitset_word ws i)"
  by (auto simp: get_bitset_word_def nth_list_update)

lemma members_set_bit:
  assumes "0 \<le> i" and "nat (i div 32) < length ws"
  shows "members (ws[nat (i div 32) := ws ! nat (i div 32) OR push_bit (nat (i mod 32)) 1])
    = insert i (members ws)"
proof -
  have "j \<in> members (ws[nat (i div 32) := ws ! nat (i div 32) OR push_bit (nat (i mod 32)) 1])
      \<longleftrightarrow> j \<in> insert i (members ws)" for j
  proof (cases "0 \<le> j \<and> j div 32 = i div 32")
    case True
    then have g: "get_bitset_word ws (j div 32) = ws ! nat (i div 32)"
      using assms div_32_nonneg [of i] nat_less_iff [of "i div 32" "length ws"]
      by (simp add: get_bitset_word_def)
    have "nat (j mod 32) = nat (i mod 32) \<longleftrightarrow> j = i"
      using True by (metis eq_nat_nat_iff mod_div_mult_eq pos_mod_sign zero_less_numeral)
    then show ?thesis
      using True assms g pos_32 [of j] by (auto simp: members_iff get_word_update bit_simps)
  next
    case False
    with assms div_32_nonneg [of i] show ?thesis by (auto simp: members_iff get_word_update)
  qed
  then show ?thesis by blast
qed

lemma members_clear_bit:
  assumes "0 \<le> i" and "nat (i div 32) < length ws"
  shows "members (ws[nat (i div 32) := ws ! nat (i div 32) AND NOT (push_bit (nat (i mod 32)) 1)])
    = members ws - {i}"
proof -
  have "j \<in> members (ws[nat (i div 32) := ws ! nat (i div 32) AND NOT (push_bit (nat (i mod 32)) 1)])
      \<longleftrightarrow> j \<in> members ws - {i}" for j
  proof (cases "0 \<le> j \<and> j div 32 = i div 32")
    case True
    then have g: "get_bitset_word ws (j div 32) = ws ! nat (i div 32)"
      using assms div_32_nonneg [of i] nat_less_iff [of "i div 32" "length ws"]
      by (simp add: get_bitset_word_def)
    have "nat (j mod 32) = nat (i mod 32) \<longleftrightarrow> j = i"
      using True by (metis eq_nat_nat_iff mod_div_mult_eq pos_mod_sign zero_less_numeral)
    then show ?thesis
      using True assms g pos_32 [of j] by (auto simp: members_iff get_word_update bit_simps)
  next
    case False
    with assms div_32_nonneg [of i] show ?thesis by (auto simp: members_iff get_word_update)
  qed
  then show ?thesis by blast
qed

text \<open>Adding a member succeeds whenever its word exists or the allocator provides it; when memory
  runs out the set itself is unchanged.\<close>

lemma add_member_ok:
  assumes "0 \<le> i" and "nat (i div 32) < max cap (length ws)"
  obtains ws' where "add_member cap ws i = (OB_SUCCESS, ws')" and "members ws' = insert i (members ws)"
proof (cases "nat (i div 32) < length ws")
  case True
  then have "\<not> int (length ws) \<le> i div 32" by simp
  with True assms that members_set_bit [of i ws] show ?thesis
    by (simp add: add_member_def bitset_simps Let_def)
next
  case False
  let ?n = "nat (i div 32 + 1 - int (length ws))"
  have l: "length ws + ?n = nat (i div 32) + 1" and ge: "int (length ws) \<le> i div 32"
    using False assms by auto
  have "make_up cap ?n ws = (OB_SUCCESS, ws @ replicate ?n 0)"
  proof -
    have "length ws + ?n \<le> cap" using assms(2) False unfolding l by simp
    then show ?thesis unfolding make_up_eq by simp
  qed
  moreover have "nat (i div 32) < length (ws @ replicate ?n 0)" using l by simp
  note members_set_bit [OF assms(1) this]
  ultimately show ?thesis
    using that ge assms(1) unfolding members_zeros by (simp add: add_member_def bitset_simps Let_def)
qed

lemma add_member_no_memory:
  assumes "0 \<le> i" and "max cap (length ws) \<le> nat (i div 32)"
  shows "\<exists>ws'. add_member cap ws i = (OB_ALLOCATE_MEMORY_FAILED, ws') \<and> members ws' = members ws"
proof -
  let ?n = "nat (i div 32 + 1 - int (length ws))"
  have ge: "int (length ws) \<le> i div 32" and "\<not> length ws + ?n \<le> cap" and "?n \<noteq> 0" using assms by auto
  then have "make_up cap ?n ws = (OB_ALLOCATE_MEMORY_FAILED, ws @ replicate (cap - length ws) 0)"
    by (simp add: make_up_eq)
  with ge assms(1) show ?thesis by (simp add: add_member_def bitset_simps Let_def)
qed

lemma del_member_eq:
  assumes "0 \<le> i"
  shows "fst (del_member ws i) = OB_SUCCESS" and "members (snd (del_member ws i)) = members ws - {i}"
proof -
  have out: "i \<notin> members ws" if "int (length ws) \<le> i div 32"
    using that by (simp add: members_iff)
  show "fst (del_member ws i) = OB_SUCCESS" and "members (snd (del_member ws i)) = members ws - {i}"
    using assms out members_clear_bit [OF assms, of ws]
    by (auto simp: del_member_def bitset_simps Let_def not_le)
qed

section \<open>Word loops\<close>

text \<open>A loop that visits every index once applies its step once to each word.\<close>

lemma fold_update:
  assumes "distinct is" and "\<forall>i \<in> set is. i < length ws"
  shows "fold (\<lambda>i ws. ws[i := f i (ws ! i)]) is ws
    = map (\<lambda>i. if i \<in> set is then f i (ws ! i) else ws ! i) [0..<length ws]"
  using assms
proof (induction "is" arbitrary: ws)
  case Nil
  then show ?case by (simp add: map_nth)
next
  case (Cons k "is")
  then show ?case
    by (auto intro!: nth_equalityI simp: nth_list_update)
qed

lemma get_word_fold:
  assumes "distinct is" and "\<forall>i \<in> set is. i < length ws" and "0 \<le> j"
  shows "get_bitset_word (fold (\<lambda>i ws. ws[i := f i (ws ! i)]) is ws) j
    = (if nat j \<in> set is then f (nat j) (get_bitset_word ws j) else get_bitset_word ws j)"
  using assms by (auto simp: fold_update get_bitset_word_def)

lemma length_fold_update [simp]: "length (fold (\<lambda>i ws. ws[i := f i (ws ! i)]) is ws) = length ws"
  by (induction "is" arbitrary: ws) simp_all

lemma add_members_eq:
  assumes "length other \<le> max cap (length ws)"
  shows "\<exists>ws'. add_members cap ws other = (OB_SUCCESS, ws') \<and> members ws' = members ws \<union> members other"
proof -
  let ?ws = "ws @ replicate (length other - length ws) 0"
  let ?r = "fold (\<lambda>i ws. ws[i := ws ! i OR get_bitset_word other (int i)]) [0..<length other] ?ws"
  have e: "add_members cap ws other = (OB_SUCCESS, ?r)"
    using assms by (auto simp: add_members_def make_up_eq)
  have "get_bitset_word ?r j = get_bitset_word ws j OR get_bitset_word other j" if "0 \<le> j" for j
  proof -
    have b: "\<forall>i \<in> set [0..<length other]. i < length ?ws" by auto
    have "get_bitset_word ?r j
        = (if nat j \<in> set [0..<length other]
           then get_bitset_word ?ws j OR get_bitset_word other (int (nat j)) else get_bitset_word ?ws j)"
      using get_word_fold [OF _ b that, of "\<lambda>i w. w OR get_bitset_word other (int i)"] by simp
    then show ?thesis using that by auto
  qed
  then have "members ?r = members ws \<union> members other"
    by (auto simp: members_iff bit_simps)
  with e show ?thesis by blast
qed

lemma add_members_no_memory:
  assumes "max cap (length ws) < length other"
  shows "\<exists>ws'. add_members cap ws other = (OB_ALLOCATE_MEMORY_FAILED, ws') \<and> members ws' = members ws"
  using assms by (auto simp: add_members_def make_up_eq)

lemma del_members_eq: "members (del_members ws other) = members ws - members other"
proof -
  have "get_bitset_word (del_members ws other) j
      = get_bitset_word ws j AND NOT (get_bitset_word other j)" if "0 \<le> j" for j
    using that get_word_fold [of "[0..<length ws]" ws j "\<lambda>i w. w AND NOT (get_bitset_word other (int i))"]
    by (auto simp: del_members_def)
  then show ?thesis
    using pos_32 by (auto simp: members_iff bit_simps)
qed

section \<open>Comparison\<close>

lemma is_superset_iff:
  "is_superset ws other \<longleftrightarrow> length other \<le> length ws \<and> members other \<subseteq> members ws"
  by (auto simp: is_superset_def is_empty_def list_all_iff subset_iff_words)

lemma is_subset_iff:
  "is_subset ws other \<longleftrightarrow> length ws \<le> length other \<and> members ws \<subseteq> members other"
  by (auto simp: is_subset_def is_empty_def list_all_iff subset_iff_words)

lemma bitset_eq_iff: "bitset_eq ws other \<longleftrightarrow> members ws = members other"
proof
  assume eq: "bitset_eq ws other"
  have "get_bitset_word ws (int n) = get_bitset_word other (int n)" for n
  proof (cases "n < max (length ws) (length other)")
    case True
    with eq show ?thesis by (auto simp: bitset_eq_def list_all_iff)
  qed simp
  then show "members ws = members other"
    by (intro equalityI) (simp_all add: subset_iff_words)
next
  assume eq: "members ws = members other"
  have "get_bitset_word ws (int n) = get_bitset_word other (int n)" for n
    by (rule bit_word_eqI) (simp add: members_word eq)
  then show "bitset_eq ws other" by (simp add: bitset_eq_def list_all_iff)
qed

lemma u32_bit: "(w :: u32) \<noteq> 0 \<Longrightarrow> \<exists>k < 32. bit w k"
proof (rule ccontr)
  assume "w \<noteq> 0" and "\<not> (\<exists>k < 32. bit w k)"
  moreover from this have "w = 0" by (intro bit_word_eqI) simp
  ultimately show False by simp
qed

lemma overlap_iff: "overlap ws other \<longleftrightarrow> members ws \<inter> members other \<noteq> {}"
proof
  assume "overlap ws other"
  then obtain n where "get_bitset_word ws (int n) AND get_bitset_word other (int n) \<noteq> 0"
    by (auto simp: overlap_def list_ex_iff)
  then obtain k where "k < 32" and "bit (get_bitset_word ws (int n) AND get_bitset_word other (int n)) k"
    using u32_bit by blast
  then show "members ws \<inter> members other \<noteq> {}"
    by (auto simp: bit_simps members_word)
next
  assume "members ws \<inter> members other \<noteq> {}"
  then obtain i where i: "i \<in> members ws" "i \<in> members other" by blast
  let ?n = "nat (i div 32)"
  have n: "int ?n = i div 32" using i by (simp add: members_iff div_32_nonneg)
  have "bit (get_bitset_word ws (int ?n) AND get_bitset_word other (int ?n)) (nat (i mod 32))"
    using i unfolding n by (simp add: members_iff bit_simps)
  then have "get_bitset_word ws (int ?n) AND get_bitset_word other (int ?n) \<noteq> 0" by auto
  moreover from this have "?n < length ws" "?n < length other"
    by (auto simp: get_bitset_word_def split: if_splits)
  ultimately show "overlap ws other"
    unfolding overlap_def list_ex_iff set_upt by (intro bexI [of _ ?n]) simp_all
qed

section \<open>Ranges\<close>

lemma get_word_clear_words:
  assumes "distinct is" and "\<forall>i \<in> set is. i < length ws" and "0 \<le> j"
  shows "get_bitset_word (clear_words is ws) j = (if nat j \<in> set is then 0 else get_bitset_word ws j)"
  using get_word_fold [OF assms, of "\<lambda>_ _. 0"] by (simp add: clear_words_def)

lemma length_clear_words [simp]: "length (clear_words is ws) = length ws"
  using length_fold_update [of "\<lambda>_ _. 0" "is" ws] by (simp add: clear_words_def)

lemma length_clear_bits [simp]: "length (clear_bits w is ws) = length ws"
  unfolding clear_bits_def by (induction "is" arbitrary: ws) simp_all

lemma members_clear_bits:
  assumes "w < length ws" and "\<forall>k \<in> set is. k < 32"
  shows "members (clear_bits w is ws) = members ws - (\<lambda>k. 32 * int w + int k) ` set is"
  using assms
proof (induction "is" arbitrary: ws)
  case Nil
  then show ?case by (simp add: clear_bits_def)
next
  case (Cons k "is")
  let ?i = "32 * int w + int k"
  have "?i div 32 = int w" and "?i mod 32 = int k" using Cons.prems by auto
  then have "members (ws[w := ws ! w AND NOT (push_bit k 1)]) = members ws - {?i}"
    using members_clear_bit [of ?i ws] Cons.prems by simp
  with Cons.IH [of "ws[w := ws ! w AND NOT (push_bit k 1)]"] Cons.prems show ?case
    by (auto simp: clear_bits_def)
qed

lemma members_clear_words:
  assumes "distinct is" and "\<forall>i \<in> set is. i < length ws"
  shows "members (clear_words is ws) = {i \<in> members ws. nat (i div 32) \<notin> set is}"
  using get_word_clear_words [OF assms] by (auto simp: members_iff div_32_nonneg split: if_splits)

lemma image_offset: "(\<lambda>k. c + int k) ` set [x..<y] = {c + int x..<c + int y}"
proof -
  have "j \<in> (\<lambda>k. c + int k) ` set [x..<y]" if "c + int x \<le> j" "j < c + int y" for j
    using that by (intro image_eqI [of _ _ "nat (j - c)"]) auto
  then show ?thesis by auto
qed

lemma members_mask_words:
  assumes w: "bw < length ws" "ew < length ws" and "bp < 32" and "ep < 32"
  shows "members (clear_bits ew [1 + ep..<32] (clear_bits bw [0..<bp]
      (clear_words (rev [ew + 1..<length ws]) (clear_words [0..<bw] ws))))
    = {i \<in> members ws. 32 * int bw + int bp \<le> i \<and> i \<le> 32 * int ew + int ep}"
proof -
  let ?c = "clear_words (rev [ew + 1..<length ws]) (clear_words [0..<bw] ws)"
  have l: "length ?c = length ws" by simp
  have m: "members (clear_bits ew [1 + ep..<32] (clear_bits bw [0..<bp] ?c))
      = members ?c - {32 * int bw + int 0..<32 * int bw + int bp}
                   - {32 * int ew + int (1 + ep)..<32 * int ew + int 32}"
    using members_clear_bits [of bw ?c "[0..<bp]"]
      members_clear_bits [of ew "clear_bits bw [0..<bp] ?c" "[1 + ep..<32]"] assms l
    unfolding image_offset by auto
  have "j \<in> members ?c - {32 * int bw + int 0..<32 * int bw + int bp}
                       - {32 * int ew + int (1 + ep)..<32 * int ew + int 32}
      \<longleftrightarrow> j \<in> members ws \<and> 32 * int bw + int bp \<le> j \<and> j \<le> 32 * int ew + int ep" for j
  proof (cases "j \<in> members ws")
    case True
    then have "0 \<le> j" by (simp add: members_iff)
    then obtain n where n: "nat (j div 32) = n" "32 * int n \<le> j" "j < 32 * int n + 32"
      using pos_mod_bound [of 32 j] by (metis minus_mod_eq_mult_div diff_le_eq add.commute
          add_strict_left_mono int_nat_eq div_32_nonneg mult_div_mod_eq pos_mod_sign
          le_add_same_cancel1 zero_less_numeral)
    then have "n < length ws" using members_bound [OF True] by (simp add: bit_count_def)
    then have c: "j \<in> members ?c \<longleftrightarrow> bw \<le> n \<and> n \<le> ew"
      using w n(1) True by (auto simp: members_clear_words)
    have e: "(bw \<le> n \<and> n \<le> ew) \<and> \<not> (32 * int bw + int 0 \<le> j \<and> j < 32 * int bw + int bp)
        \<and> \<not> (32 * int ew + int (1 + ep) \<le> j \<and> j < 32 * int ew + int 32)
      \<longleftrightarrow> 32 * int bw + int bp \<le> j \<and> j \<le> 32 * int ew + int ep"
      using n(2,3) assms(3,4)
      by (cases n bw rule: linorder_cases; cases n ew rule: linorder_cases) auto
    show ?thesis
      unfolding Diff_iff c atLeastLessThan_iff using e True by blast
  next
    case False
    then show ?thesis using w by (auto simp: members_clear_words)
  qed
  then show ?thesis unfolding m by blast
qed

lemma do_mask_eq:
  assumes "0 \<le> b" and "b < e" and "e < bit_count ws"
  shows "fst (do_mask ws b e) = OB_SUCCESS"
    and "members (snd (do_mask ws b e)) = {i \<in> members ws. b \<le> i \<and> i \<le> e}"
proof -
  have c: "\<not> (b < 0 \<or> b \<ge> int (length ws) * 32 \<or> e < 0 \<or> e \<ge> int (length ws) * 32 \<or> b \<ge> e)"
    using assms by (simp add: bit_count_def)
  have w: "nat (b div 32) < length ws" "nat (e div 32) < length ws"
    using assms by (auto simp: bit_count_def nat_less_iff)
  have i: "32 * int (nat (b div 32)) + int (nat (b mod 32)) = b"
    "32 * int (nat (e div 32)) + int (nat (e mod 32)) = e"
    using assms by (simp_all add: div_32_nonneg)
  show "members (snd (do_mask ws b e)) = {i \<in> members ws. b \<le> i \<and> i \<le> e}"
    using members_mask_words [OF w pos_32 pos_32] c unfolding i by (simp add: do_mask_def Let_def)
  show "fst (do_mask ws b e) = OB_SUCCESS" by (simp add: do_mask_def Let_def c)
qed

section \<open>Counting\<close>

text \<open>A number as fields of \<open>s\<close> bits, least significant first.\<close>

fun fields :: "nat \<Rightarrow> nat list \<Rightarrow> nat" where
  "fields s [] = 0"
| "fields s (d # ds) = d + 2 ^ s * fields s ds"

fun pairs :: "nat list \<Rightarrow> nat list" where
  "pairs (a # b # ds) = (a + b) # pairs ds"
| "pairs ds = []"

lemma nat_join_and:
  assumes "(x :: nat) < 2 ^ k" and "u < 2 ^ k"
  shows "(x + 2 ^ k * y) AND (u + 2 ^ k * v) = (x AND u) + 2 ^ k * (y AND v)"
proof -
  have b: "n < k" if "a < 2 ^ k" "bit a n" for a n :: nat
  proof -
    have "take_bit k a = a" using that(1) by (simp add: take_bit_nat_eq_self)
    then have "bit (take_bit k a) n" using that(2) by simp
    then show ?thesis by (simp add: bit_take_bit_iff)
  qed
  have j: "a + 2 ^ k * c = a OR push_bit k c" if "a < 2 ^ k" for a c :: nat
  proof -
    have "\<not> bit a n \<or> \<not> bit (push_bit k c) n" for n
      using b [OF that, of n] by (auto simp: bit_push_bit_iff)
    then show ?thesis
      using disjunctive_add [of a "push_bit k c"] by (simp add: push_bit_eq_mult mult.commute)
  qed
  have "take_bit k (x AND u) = x AND u"
    using assms by (simp add: take_bit_and take_bit_nat_eq_self)
  then have "x AND u < 2 ^ k" by (metis take_bit_nat_less_exp)
  moreover have "(x OR push_bit k y) AND (u OR push_bit k v) = (x AND u) OR push_bit k (y AND v)"
  proof (rule bit_eqI)
    fix n
    show "bit ((x OR push_bit k y) AND (u OR push_bit k v)) n
        = bit ((x AND u) OR push_bit k (y AND v)) n"
      using b [OF assms(1), of n] b [OF assms(2), of n]
      by (cases "k \<le> n") (simp_all add: bit_or_iff bit_and_iff bit_push_bit_iff, blast?)
  qed
  ultimately show ?thesis
    by (simp only: j [OF assms(1)] j [OF assms(2)] j)
qed

lemma unat_u32: "unat (w :: u32) < 2 ^ 32"
  by (rule order_less_le_trans [OF unsigned_less]) simp

lemma pairs_induct [consumes 1, case_names Nil Cons]:
  assumes "even (length (ds :: nat list))" and "P []"
    and "\<And>a b ds. even (length ds) \<Longrightarrow> P ds \<Longrightarrow> P (a # b # ds)"
  shows "P ds"
  using assms(1)
proof (induction ds rule: pairs.induct)
  case (1 a b ds)
  then show ?case by (simp add: assms(3))
qed (simp_all add: assms(2))

abbreviation even_fields :: "nat \<Rightarrow> nat list \<Rightarrow> nat" where
  "even_fields s ds \<equiv> fields (2 * s) (replicate (length ds div 2) (2 ^ s - 1))"

lemma mask_and: "(a :: nat) < 2 ^ s \<Longrightarrow> (a + 2 ^ s * b) AND (2 ^ s - 1) = a"
  by (simp only: mask_eq_exp_minus_1 [symmetric] take_bit_eq_mask [symmetric] take_bit_eq_mod) simp

lemma fields_step:
  assumes "even (length ds)" and "\<forall>d \<in> set ds. d < 2 ^ s"
  shows "(fields s ds AND even_fields s ds) + (drop_bit s (fields s ds) AND even_fields s ds)
    = fields (2 * s) (pairs ds)"
  using assms
proof (induction ds rule: pairs_induct)
  case Nil
  then show ?case by simp
next
  case (Cons a b ds)
  let ?F = "fields s ds" and ?M = "even_fields s ds"
  have p: "(2 :: nat) ^ (2 * s) = 2 ^ s * 2 ^ s" by (simp add: mult_2 power_add)
  have ab: "a < 2 ^ s" "b < 2 ^ s" using Cons.prems by simp_all
  have lo: "x + 2 ^ s * y < 2 ^ (2 * s)" if "x < 2 ^ s" "y < 2 ^ s" for x y :: nat
  proof -
    have "x + 2 ^ s * y < 2 ^ s * (y + 1)" using that by simp
    also have "\<dots> \<le> 2 ^ s * 2 ^ s" using that by (intro mult_le_mono2) simp
    finally show ?thesis by (simp add: p)
  qed
  have m: "2 ^ s - 1 < (2 :: nat) ^ (2 * s)" using lo [of "2 ^ s - 1" 0] by simp
  have e: "even_fields s (a # b # ds) = (2 ^ s - 1) + 2 ^ (2 * s) * ?M" by simp
  have f: "fields s (a # b # ds) = (a + 2 ^ s * b) + 2 ^ (2 * s) * ?F"
    unfolding p by (simp add: algebra_simps)
  have d: "drop_bit s (fields s (a # b # ds)) = (b + 2 ^ s * (?F mod 2 ^ s)) + 2 ^ (2 * s) * drop_bit s ?F"
  proof -
    have "?F = ?F mod 2 ^ s + 2 ^ s * (?F div 2 ^ s)" by simp
    then have "b + 2 ^ s * ?F = (b + 2 ^ s * (?F mod 2 ^ s)) + 2 ^ (2 * s) * (?F div 2 ^ s)"
      unfolding p by (metis add.assoc distrib_left mult.assoc)
    then show ?thesis using ab(1) by (simp add: drop_bit_eq_div)
  qed
  have "(fields s (a # b # ds) AND even_fields s (a # b # ds)) = a + 2 ^ (2 * s) * (?F AND ?M)"
    unfolding e f using nat_join_and [OF lo [OF ab] m] mask_and [OF ab(1)] by simp
  moreover have "(drop_bit s (fields s (a # b # ds)) AND even_fields s (a # b # ds))
      = b + 2 ^ (2 * s) * (drop_bit s ?F AND ?M)"
    unfolding e d using nat_join_and [OF lo [OF ab(2)] m, of "?F mod 2 ^ s"] mask_and [OF ab(2)] by simp
  moreover have "(a + P * X) + (b + P * Y) = (a + b) + P * (X + Y)" for P X Y
    by (simp add: algebra_simps)
  moreover have "(?F AND ?M) + (drop_bit s ?F AND ?M) = fields (2 * s) (pairs ds)"
    using Cons.IH Cons.prems by simp
  ultimately show ?case by (simp only: pairs.simps fields.simps)
qed

lemma fields_bound:
  "\<forall>d \<in> set ds. d < 2 ^ s \<Longrightarrow> fields s ds < 2 ^ (s * length ds)"
proof (induction ds)
  case Nil
  then show ?case by simp
next
  case (Cons d ds)
  then have "d + 2 ^ s * fields s ds < 2 ^ s * (fields s ds + 1)" by simp
  also have "\<dots> \<le> 2 ^ s * 2 ^ (s * length ds)" using Cons by (intro mult_le_mono2) simp
  finally show ?case by (simp add: power_add)
qed

lemma pairs_props:
  "even (length ds) \<Longrightarrow> sum_list (pairs ds) = sum_list ds \<and> length (pairs ds) = length ds div 2"
  "even (length ds) \<Longrightarrow> \<forall>d \<in> set ds. d \<le> c \<Longrightarrow> \<forall>d \<in> set (pairs ds). d \<le> 2 * c"
  by (induction ds rule: pairs_induct) auto

text \<open>One line of \<open>word_members\<close>.\<close>

lemma word_step:
  fixes w M :: u32
  assumes "unat w = fields s ds" and "unat M = even_fields s ds" and "even (length ds)"
    and "\<forall>d \<in> set ds. d \<le> c" and "c < 2 ^ s" and "2 * c < 2 ^ (2 * s)" and "s * length ds = 32"
  shows "unat ((w AND M) + (drop_bit s w AND M)) = fields (2 * s) (pairs ds)"
proof -
  have b: "\<forall>d \<in> set ds. d < 2 ^ s" using assms(4,5) by auto
  have "unat (drop_bit s w) = drop_bit s (unat w)"
    using unat_u32 [of w] by (simp add: unsigned_drop_bit_eq take_bit_nat_eq_self)
  then have e: "unat (w AND M) + unat (drop_bit s w AND M) = fields (2 * s) (pairs ds)"
    using fields_step [OF assms(3) b] assms(1,2) by (simp add: unsigned_and_eq)
  have "\<forall>d \<in> set (pairs ds). d < 2 ^ (2 * s)"
    using pairs_props(2) [OF assms(3,4)] assms(6) by auto
  from fields_bound [OF this] have "fields (2 * s) (pairs ds) < 2 ^ 32"
  proof -
    have "2 * s * (length ds div 2) = 32" using assms(3,7) by (elim evenE) simp
    with \<open>fields (2 * s) (pairs ds) < _\<close> pairs_props(1) [OF assms(3)] show ?thesis by simp
  qed
  with e show ?thesis by (simp add: unat_word_ariths)
qed

text \<open>A word whose \<open>n\<close> fields of \<open>s\<close> bits are at most \<open>c\<close> and add up to \<open>t\<close>; a line halves the number
  of fields and keeps the sum.\<close>

definition packed :: "nat \<Rightarrow> nat \<Rightarrow> nat \<Rightarrow> u32 \<Rightarrow> nat \<Rightarrow> bool" where
  "packed s c n w t \<longleftrightarrow>
     (\<exists>ds. unat w = fields s ds \<and> length ds = n \<and> (\<forall>d \<in> set ds. d \<le> c) \<and> sum_list ds = t)"

lemma packed_step:
  assumes "packed s c (2 * n) w t" and "unat M = fields (2 * s) (replicate n (2 ^ s - 1))"
    and "c < 2 ^ s" and "2 * c < 2 ^ (2 * s)" and "s * (2 * n) = 32"
  shows "packed (2 * s) (2 * c) n ((w AND M) + (drop_bit s w AND M)) t"
proof -
  from assms(1) obtain ds where ds: "unat w = fields s ds" "length ds = 2 * n"
    "\<forall>d \<in> set ds. d \<le> c" "sum_list ds = t" by (auto simp: packed_def)
  then have e: "even (length ds)" by simp
  have "unat ((w AND M) + (drop_bit s w AND M)) = fields (2 * s) (pairs ds)"
    using assms(2-5) ds by (intro word_step [OF ds(1) _ e ds(3)]) simp_all
  moreover have "length (pairs ds) = n" "sum_list (pairs ds) = t" "\<forall>d \<in> set (pairs ds). d \<le> 2 * c"
    using pairs_props(1) [OF e] pairs_props(2) [OF e ds(3)] ds(2,4) by simp_all
  ultimately show ?thesis unfolding packed_def by blast
qed

lemma packed_bits: "packed 1 1 32 w (card {k. k < 32 \<and> bit w k})"
proof -
  let ?ds = "map (\<lambda>k. of_bool (bit w k)) [0..<32] :: nat list"
  have f: "fields 1 (map (\<lambda>k. of_bool (P k)) ks) = horner_sum of_bool 2 (map P ks)"
    for P :: "nat \<Rightarrow> bool" and ks
    by (induction ks) simp_all
  have "take_bit 32 (unat w) = unat w" using unat_u32 [of w] by (simp add: take_bit_nat_eq_self)
  then have "unat w = horner_sum of_bool 2 (map (bit (unat w)) [0..<32])"
    by (simp add: horner_sum_bit_eq_take_bit)
  also have "map (bit (unat w)) [0..<32] = map (bit w) [0..<32]"
    by (simp add: bit_unsigned_iff)
  finally have "unat w = fields 1 ?ds" unfolding f .
  moreover have "sum_list ?ds = card {k. k < 32 \<and> bit w k}"
  proof -
    have "sum_list ?ds = (\<Sum>k \<in> {..<32}. of_bool (bit w k))"
      by (subst sum_list_distinct_conv_sum_set) (simp_all add: atLeast0LessThan)
    also have "\<dots> = card ({..<32} \<inter> {k. bit w k})" by (simp add: of_bool_def sum.If_cases)
    finally show ?thesis by (simp add: Int_def)
  qed
  moreover have "\<forall>d \<in> set ?ds. d \<le> 1" by auto
  moreover have "length ?ds = 32" by simp
  ultimately show ?thesis unfolding packed_def by blast
qed

lemma replicate_numeral: "replicate (numeral k) x = x # replicate (pred_numeral k) x"
  by (simp add: numeral_eq_Suc)

lemma masks:
  "unat (0x55555555 :: u32) = fields (2 * 1) (replicate 16 (2 ^ 1 - 1))"
  "unat (0x33333333 :: u32) = fields (2 * 2) (replicate 8 (2 ^ 2 - 1))"
  "unat (0x0f0f0f0f :: u32) = fields (2 * 4) (replicate 4 (2 ^ 4 - 1))"
  "unat (0x00ff00ff :: u32) = fields (2 * 8) (replicate 2 (2 ^ 8 - 1))"
  "unat (0x0000ffff :: u32) = fields (2 * 16) (replicate 1 (2 ^ 16 - 1))"
  by (simp_all add: replicate_numeral)

text \<open>The five lines together count the bits of the word.\<close>

lemma word_members_eq: "unat (word_members w) = card {k. k < 32 \<and> bit w k}" (is "_ = ?t")
proof -
  define w1 where "w1 = (w AND 0x55555555) + (drop_bit 1 w AND 0x55555555)"
  define w2 where "w2 = (w1 AND 0x33333333) + (drop_bit 2 w1 AND 0x33333333)"
  define w3 where "w3 = (w2 AND 0x0f0f0f0f) + (drop_bit 4 w2 AND 0x0f0f0f0f)"
  define w4 where "w4 = (w3 AND 0x00ff00ff) + (drop_bit 8 w3 AND 0x00ff00ff)"
  have p1: "packed 2 2 16 w1 ?t"
    using packed_step [OF _ masks(1), of 1 w ?t] packed_bits [of w] unfolding w1_def by simp
  have p2: "packed 4 4 8 w2 ?t"
    using packed_step [OF _ masks(2), of 2 w1 ?t] p1 unfolding w2_def by simp
  have p3: "packed 8 8 4 w3 ?t"
    using packed_step [OF _ masks(3), of 4 w2 ?t] p2 unfolding w3_def by simp
  have p4: "packed 16 16 2 w4 ?t"
    using packed_step [OF _ masks(4), of 8 w3 ?t] p3 unfolding w4_def by simp
  have "packed 32 32 1 ((w4 AND 0x0000ffff) + (drop_bit 16 w4 AND 0x0000ffff)) ?t"
    using packed_step [OF _ masks(5), of 16 w4 ?t] p4 by simp
  then have "packed 32 32 1 (word_members w) ?t"
    unfolding word_members_def Let_def w4_def w3_def w2_def w1_def .
  then show ?thesis by (auto simp: packed_def length_Suc_conv)
qed

lemma card_word: "card {k. k < 32 \<and> bit (w :: u32) k} = card {i. 32 * int n \<le> i \<and> i < 32 * int n + 32
    \<and> bit w (nat (i - 32 * int n))}"
proof (rule bij_betw_same_card [of "\<lambda>k. 32 * int n + int k"])
  show "bij_betw (\<lambda>k. 32 * int n + int k) {k. k < 32 \<and> bit w k}
      {i. 32 * int n \<le> i \<and> i < 32 * int n + 32 \<and> bit w (nat (i - 32 * int n))}"
    by (rule bij_betw_byWitness [where f' = "\<lambda>i. nat (i - 32 * int n)"]) auto
qed

lemma members_snoc:
  "members (ws @ [w]) = members ws \<union> {i. 32 * int (length ws) \<le> i \<and> i < 32 * int (length ws) + 32
     \<and> bit w (nat (i - 32 * int (length ws)))}" (is "_ = _ \<union> ?new")
proof -
  have "i \<in> members (ws @ [w]) \<longleftrightarrow> i \<in> members ws \<union> ?new" for i
  proof (cases "0 \<le> i \<and> i div 32 = int (length ws)")
    case True
    then have "32 * int (length ws) \<le> i" "i < 32 * int (length ws) + 32"
      "i mod 32 = i - 32 * int (length ws)"
      using mult_div_mod_eq [of 32 i] pos_mod_bound [of 32 i] pos_mod_sign [of 32 i] by auto
    with True show ?thesis by (auto simp: members_iff get_bitset_word_def)
  next
    case False
    then have "\<not> (32 * int (length ws) \<le> i \<and> i < 32 * int (length ws) + 32)" by auto
    with False show ?thesis
      by (auto simp: members_iff get_bitset_word_def nth_append split: if_splits)
  qed
  then show ?thesis by blast
qed

lemma num_members_fold:
  "fold (\<lambda>i num. let word = get_bitset_word ws (int i) in
      if word = 0 then num else num + uint (word_members word)) [0..<n] 0
   = (\<Sum>i \<leftarrow> [0..<n]. int (card {k. k < 32 \<and> bit (get_bitset_word ws (int i)) k}))"
proof (induction n)
  case 0
  then show ?case by simp
next
  case (Suc n)
  have "uint (word_members w) = int (card {k. k < 32 \<and> bit w k})" for w
    using word_members_eq [of w] by (metis uint_nat)
  with Suc show ?case by (simp add: Let_def)
qed

lemma num_members_eq: "num_members ws = int (card (members ws))"
proof -
  have "(\<Sum>i \<leftarrow> [0..<length ws]. int (card {k. k < 32 \<and> bit (get_bitset_word ws (int i)) k}))
      = int (card (members ws))"
  proof (induction ws rule: rev_induct)
    case Nil
    have "members [] = {}" using members_subset_range [of "[]"] by (simp add: bit_count_def)
    then show ?case by simp
  next
    case (snoc w ws)
    let ?new = "{i. 32 * int (length ws) \<le> i \<and> i < 32 * int (length ws) + 32
     \<and> bit w (nat (i - 32 * int (length ws)))}"
    have "get_bitset_word (ws @ [w]) (int i) = get_bitset_word ws (int i)"
      if "i \<in> set [0..<length ws]" for i
      using that by (simp add: get_bitset_word_def nth_append)
    then have "(\<Sum>i \<leftarrow> [0..<length ws]. int (card {k. k < 32 \<and> bit (get_bitset_word (ws @ [w]) (int i)) k}))
        = (\<Sum>i \<leftarrow> [0..<length ws]. int (card {k. k < 32 \<and> bit (get_bitset_word ws (int i)) k}))"
      by (intro arg_cong [where f = sum_list] map_cong) simp_all
    moreover have "get_bitset_word (ws @ [w]) (int (length ws)) = w" by (simp add: get_bitset_word_def)
    moreover have "card (members ws \<union> ?new) = card (members ws) + card ?new"
    proof (rule card_Un_disjoint)
      show "finite ?new" by (rule finite_subset [of _ "{32 * int (length ws)..<32 * int (length ws) + 32}"]) auto
      show "members ws \<inter> ?new = {}"
        using members_subset_range [of ws] by (auto simp: bit_count_def dest: subsetD)
    qed simp
    ultimately show ?case
      using snoc by (simp add: members_snoc card_word [of w "length ws"])
  qed
  then show ?thesis by (simp add: num_members_def num_members_fold)
qed

section \<open>Enumeration\<close>

lemma to_array_loop_eq:
  assumes "length arr + length (filter (has_member ws) is) \<le> cap"
    and "int (length (filter (has_member ws) is)) + count = num"
  shows "to_array_loop cap ws num is count arr = (OB_SUCCESS, arr @ filter (has_member ws) is)"
  using assms
proof (induction "is" arbitrary: count arr)
  case Nil
  then show ?case by simp
next
  case (Cons i "is")
  show ?case
  proof (cases "count < num")
    case True
    with Cons.prems Cons.IH [of "arr @ [i]" "count + 1"] Cons.IH [of arr count]
    show ?thesis by (auto simp: push_back_def)
  next
    case False
    with Cons.prems have "filter (has_member ws) (i # is) = []" by (auto split: if_splits)
    with False show ?thesis by simp
  qed
qed

lemma filter_members: "set (filter (has_member ws) [0..int (length ws) * 32 - 1]) = members ws"
  using members_bound [of _ ws] by (auto simp: has_member_iff bit_count_def)

lemma to_array_eq:
  assumes "card (members ws) \<le> cap"
  shows "to_array cap ws = (OB_SUCCESS, sorted_list_of_set (members ws))"
proof -
  let ?xs = "filter (has_member ws) [0..int (length ws) * 32 - 1]"
  have "sorted ?xs" "distinct ?xs" by (simp_all add: sorted_wrt_filter)
  then have s: "?xs = sorted_list_of_set (members ws)"
    using sorted_list_of_set_unique [of "members ws" ?xs] filter_members [of ws]
    by (metis finite_members strict_sorted_iff sorted_list_of_set.idem_if_sorted_distinct)
  then have "length ?xs = card (members ws)" by simp
  then have "to_array_loop cap ws (num_members ws) [0..int (length ws) * 32 - 1] 0 [] = (OB_SUCCESS, [] @ ?xs)"
    using assms by (intro to_array_loop_eq) (simp_all add: num_members_eq)
  then show ?thesis unfolding to_array_def s by simp
qed


lemma find_upto_Some:
  "List.find P [a..b] = Some i \<longleftrightarrow> a \<le> i \<and> i \<le> b \<and> P i \<and> (\<forall>j. a \<le> j \<and> j < i \<longrightarrow> \<not> P j)"
proof (induction a b rule: upto.induct)
  case (1 a b)
  show ?case
  proof (cases "a \<le> b \<and> \<not> P a")
    case True
    have "(a + 1 \<le> i \<and> i \<le> b \<and> P i \<and> (\<forall>j. a + 1 \<le> j \<and> j < i \<longrightarrow> \<not> P j))
        \<longleftrightarrow> a \<le> i \<and> i \<le> b \<and> P i \<and> (\<forall>j. a \<le> j \<and> j < i \<longrightarrow> \<not> P j)"
      using True by (metis add1_zle_eq order_le_less)
    with True 1 show ?thesis by (simp add: upto.simps [of a b])
  next
    case False
    then show ?thesis by (simp add: upto.simps [of a b]) (meson leD order_le_less order_refl order_trans)
  qed
qed

lemma find_upto_None: "List.find P [a..b] = None \<longleftrightarrow> (\<forall>i. a \<le> i \<and> i \<le> b \<longrightarrow> \<not> P i)"
  by (auto simp: find_None_iff)

lemma get_first_peculiar_bit_eq:
  "get_first_peculiar_bit ws other =
     (if members ws \<subseteq> members other then -1 else Min (members ws - members other))"
proof -
  let ?m = "min (bit_count ws) (bit_count other)" and ?D = "members ws - members other"
  have fin: "finite ?D" by simp
  have D: "i \<in> ?D \<Longrightarrow> 0 \<le> i \<and> i < bit_count ws" for i using members_bound [of i ws] by simp
  have above: "i \<notin> members other" if "?m \<le> i" "i < bit_count ws" for i
    using members_bound [of i other] that by auto
  have minI: "Min ?D = i" if "i \<in> ?D" "\<And>j. 0 \<le> j \<Longrightarrow> j < i \<Longrightarrow> j \<notin> ?D" for i
    using that D by (intro Min_eqI [OF fin]) (auto simp: not_less [symmetric])
  show ?thesis
  proof (cases "List.find (\<lambda>i. has_member ws i \<and> \<not> has_member other i) [0..?m - 1]")
    case (Some i)
    then have i: "i \<in> ?D" "\<And>j. 0 \<le> j \<Longrightarrow> j < i \<Longrightarrow> j \<notin> ?D"
      by (auto simp: find_upto_Some has_member_iff)
    with Some minI [OF i] show ?thesis by (auto simp: get_first_peculiar_bit_def Let_def)
  next
    case first: None
    have low: "j \<notin> ?D" if "j < ?m" for j
    proof
      assume "j \<in> ?D"
      moreover from this D have "0 \<le> j" and "j \<le> ?m - 1" using that by auto
      ultimately show False
        using first unfolding find_upto_None by (auto simp: has_member_iff)
    qed
    show ?thesis
    proof (cases "List.find (has_member ws) [?m..bit_count ws - 1]")
      case (Some i)
      then have b: "?m \<le> i" "i < bit_count ws" "i \<in> members ws"
        "\<And>j. ?m \<le> j \<Longrightarrow> j < i \<Longrightarrow> j \<notin> members ws"
        by (auto simp: find_upto_Some has_member_iff)
      then have i: "i \<in> ?D" using above by simp
      moreover have "j \<notin> ?D" if "j < i" for j
        using low [of j] b(4) [of j] that by (cases "j < ?m") auto
      ultimately have "Min ?D = i" using minI by blast
      moreover have "bit_count other < bit_count ws" using b(1,2) by linarith
      moreover have "\<not> members ws \<subseteq> members other" using i by blast
      ultimately show ?thesis unfolding get_first_peculiar_bit_def Let_def first Some by simp
    next
      case None
      have "j \<notin> ?D" for j
      proof
        assume j: "j \<in> ?D"
        then have "?m \<le> j" using low [of j] by linarith
        moreover have "j \<le> bit_count ws - 1" using j D [of j] by simp
        ultimately have "?m \<le> j" and "j \<le> bit_count ws - 1" .
        with None j show False unfolding find_upto_None by (auto simp: has_member_iff)
      qed
      then have "members ws \<subseteq> members other" by blast
      then show ?thesis unfolding get_first_peculiar_bit_def Let_def first None by simp
    qed
  qed
qed

section \<open>Serialisation\<close>

lemma if_neg: "(if \<not> b then x else y) = (if b then y else x)"
  by simp

context codec
begin

lemma sea_serialize_array: "sea_serialize enc = encode_array enc"
  by (intro ext) (simp only: sea_serialize_def encode_array_def if_neg)

lemma sea_read_wire:
  assumes "list_all ok vs" and "holds m q (wire_elems wire vs)"
    and "q + int (length (wire_elems wire vs)) \<le> data_len" and "data_len \<le> int (length m)"
    and "length xs + length vs \<le> cap"
  shows "sea_read dec cap (length vs) (Some m) data_len q item xs
    = Some (OB_SUCCESS, q + int (length (wire_elems wire vs)), xs @ vs)"
  using assms
proof (induction vs arbitrary: q item xs)
  case Nil
  then show ?case by simp
next
  case (Cons v vs)
  from Cons.prems have "dec (Some m) data_len q item = Some (OB_SUCCESS, q + int (length (wire v)), v)"
    by (intro dec_wire) (simp_all add: holds_append)
  with Cons.prems Cons.IH [of "q + int (length (wire v))" "xs @ [v]" v] show ?case
    by (simp add: push_back_def holds_append add.assoc)
qed

lemma sea_deserialize_wire:
  assumes "list_all ok vs" and "holds m pos (wire_array wire vs)"
    and "pos + int (length (wire_array wire vs)) \<le> data_len" and "data_len \<le> int (length m)"
    and "length vs \<le> cap" and "length vs < 2 ^ 63"
  shows "sea_deserialize dec cap (Some m) data_len pos item
    = Some (OB_SUCCESS, pos + int (length (wire_array wire vs)), vs)"
proof -
  let ?n = "of_nat (length vs) :: u64"
  have s: "sint ?n = int (length vs)"
    using assms(6) by (simp add: signed_of_nat signed_take_bit_int_eq_self)
  have "decode_vi64 (Some m) data_len pos 0 = Some (OB_SUCCESS, pos + int (vlen (unat ?n)), ?n)"
    using assms by (intro decode_vi64_wire) (simp_all add: wire_array_def holds_append)
  moreover have "sea_read dec cap (length vs) (Some m) data_len (pos + int (vlen (unat ?n))) item []
      = Some (OB_SUCCESS, pos + int (vlen (unat ?n)) + int (length (wire_elems wire vs)), [] @ vs)"
    using assms by (intro sea_read_wire) (simp_all add: wire_array_def holds_append add.assoc)
  ultimately show ?thesis
    by (simp add: sea_deserialize_def s wire_array_def add.assoc)
qed

end

lemma all_true: "list_all (\<lambda>_. True) xs"
  by (simp add: list_all_iff)

interpretation bitset: codec bitset_serialize
    "\<lambda>buf data_len pos _. bitset_deserialize cap buf data_len pos"
    "wire_array wire_vi" "\<lambda>ws. length ws \<le> cap \<and> length ws < 2 ^ 63" for cap
proof (unfold_locales, goal_cases)
  case (1 v pos buf_len m)
  then show ?case
    unfolding bitset_serialize_def int32.sea_serialize_array
    by (intro int32.encode_array_fits all_true)
next
  case (2 v pos buf_len m)
  then show ?case
    unfolding bitset_serialize_def int32.sea_serialize_array
    by (intro int32.encode_array_short all_true)
next
  case (3 v m pos data_len v0)
  then show ?case
    unfolding bitset_deserialize_def by (intro int32.sea_deserialize_wire all_true) simp_all
qed

lemma bitset_size_eq: "bitset_get_serialize_size ws = int (length (wire_array wire_vi ws))"
  using encoded_length_array_eq [of encoded_length_vi32 wire_vi ws]
  by (simp add: bitset_get_serialize_size_def sea_get_serialize_size_def encoded_length_array_def
      encoded_length_vi32_vlen)

end
