(* ===== verification/IntrusiveList.thy ===== *)
theory IntrusiveList
  imports Prelude
begin

text \<open>
  \<open>src/src/lib/list/ob_intrusive_list.h\<close>: lists whose links are fields of the elements.  An element is
  an address, the null pointer is \<open>None\<close>, and the two link fields of all elements are the record
  \<open>links\<close>.  Every operation takes the links and returns them updated, so lists that share
  elements interfere exactly as they do in memory.  An operation in the option monad is \<open>None\<close>
  when it follows a null pointer or never ends.
\<close>

section \<open>Links\<close>


record links =
  next_link :: "addr \<Rightarrow> addr option"
  prev_link :: "addr \<Rightarrow> addr option"

definition set_next :: "links \<Rightarrow> addr \<Rightarrow> addr option \<Rightarrow> links" where
  "set_next s e p = s\<lparr>next_link := (next_link s)(e := p)\<rparr>"

definition set_prev :: "links \<Rightarrow> addr \<Rightarrow> addr option \<Rightarrow> links" where
  "set_prev s e p = s\<lparr>prev_link := (prev_link s)(e := p)\<rparr>"

section \<open>Singly linked lists\<close>

definition sll_push :: "links \<Rightarrow> addr option \<Rightarrow> addr \<Rightarrow> links \<times> addr option" where
  "sll_push s head e = (set_next s e head, Some e)"

definition sll_pop :: "links \<Rightarrow> addr option \<Rightarrow> links \<times> addr option \<times> addr option" where
  "sll_pop s head =
     (case head of
        None \<Rightarrow> (s, head, None)
      | Some ret \<Rightarrow> let head = next_link s ret; s = set_next s ret None in (s, head, Some ret))"

section \<open>Doubly linked lists\<close>

definition dll_push :: "links \<Rightarrow> addr option \<Rightarrow> addr \<Rightarrow> links \<times> addr option" where
  "dll_push s head e =
     (let s = (case head of Some h \<Rightarrow> set_prev s h (Some e) | None \<Rightarrow> s);
          s = set_next s e head
      in (s, Some e))"

definition dll_remove :: "links \<Rightarrow> addr option \<Rightarrow> addr \<Rightarrow> links \<times> addr option" where
  "dll_remove s head e =
     (if head = None then (s, head)
      else let head = (if Some e = head then next_link s e else head);
               s = (case prev_link s e of Some p \<Rightarrow> set_next s p (next_link s e) | None \<Rightarrow> s);
               s = (case next_link s e of Some n \<Rightarrow> set_prev s n (prev_link s e) | None \<Rightarrow> s);
               s = set_prev s e None;
               s = set_next s e None
           in (s, head))"

definition dll_pop :: "links \<Rightarrow> addr option \<Rightarrow> links \<times> addr option \<times> addr option" where
  "dll_pop s head =
     (case head of
        None \<Rightarrow> (s, head, None)
      | Some ret \<Rightarrow>
          let head = next_link s ret;
              s = (case head of Some h \<Rightarrow> set_prev s h None | None \<Rightarrow> s);
              s = set_next s ret None
          in (s, head, Some ret))"

definition dll_insert :: "links \<Rightarrow> addr option \<Rightarrow> addr \<Rightarrow> addr option \<Rightarrow> links \<times> addr option" where
  "dll_insert s head e after =
     (case after of
        None \<Rightarrow> dll_push s head e
      | Some a \<Rightarrow>
          let s = set_prev s e (Some a);
              s = set_next s e (next_link s a);
              s = set_next s a (Some e);
              s = (case next_link s e of Some n \<Rightarrow> set_prev s n (Some e) | None \<Rightarrow> s)
          in (s, head))"

definition dll_in :: "links \<Rightarrow> addr option \<Rightarrow> addr \<Rightarrow> bool" where
  "dll_in s head e = (head = Some e \<or> next_link s e \<noteq> None \<or> prev_link s e \<noteq> None)"

section \<open>Queues\<close>

record queue =
  qhead :: "addr option"
  qtail :: "addr option"

definition q_reset :: queue where
  "q_reset = \<lparr>qhead = None, qtail = None\<rparr>"

definition q_empty :: "queue \<Rightarrow> bool" where
  "q_empty q = (qhead q = None)"

definition q_push :: "links \<Rightarrow> queue \<Rightarrow> addr \<Rightarrow> links \<times> queue" where
  "q_push s q e =
     (let (s, head) = dll_push s (qhead q) e;
          q = q\<lparr>qhead := head\<rparr>;
          q = (if qtail q = None then q\<lparr>qtail := qhead q\<rparr> else q)
      in (s, q))"

definition q_pop :: "links \<Rightarrow> queue \<Rightarrow> links \<times> queue \<times> addr option" where
  "q_pop s q =
     (let (s, head, ret) = dll_pop s (qhead q);
          q = q\<lparr>qhead := head\<rparr>;
          q = (if qhead q = None then q\<lparr>qtail := None\<rparr> else q)
      in (s, q, ret))"

definition q_insert :: "links \<Rightarrow> queue \<Rightarrow> addr \<Rightarrow> addr option \<Rightarrow> links \<times> queue" where
  "q_insert s q e after =
     (let (s, head) = dll_insert s (qhead q) e after;
          q = q\<lparr>qhead := head\<rparr>;
          q = (if qtail q = None then q\<lparr>qtail := qhead q\<rparr>
               else if qtail q = after then q\<lparr>qtail := Some e\<rparr> else q)
      in (s, q))"

definition q_remove :: "links \<Rightarrow> queue \<Rightarrow> addr \<Rightarrow> links \<times> queue" where
  "q_remove s q e =
     (let q = (if qtail q = Some e then q\<lparr>qtail := prev_link s e\<rparr> else q);
          (s, head) = dll_remove s (qhead q) e
      in (s, q\<lparr>qhead := head\<rparr>))"

definition q_append :: "links \<Rightarrow> queue \<Rightarrow> queue \<Rightarrow> (links \<times> queue) option" where
  "q_append s this q =
     (if qhead this = None then Some (s, \<lparr>qhead = qhead q, qtail = qtail q\<rparr>)
      else case qhead q of
        None \<Rightarrow> Some (s, this)
      | Some h \<Rightarrow> do {
          t \<leftarrow> qtail this;
          let s = set_next s t (Some h);
          let s = set_prev s h (Some t);
          Some (s, this\<lparr>qtail := qtail q\<rparr>)
        })"

text \<open>Appending a list without a tail pointer first walks to its last element.  A list whose links
  form a cycle is walked forever, which is \<open>None\<close>.\<close>

partial_function (option) walk :: "links \<Rightarrow> addr \<Rightarrow> addr option" where
  "walk s e = (case next_link s e of None \<Rightarrow> Some e | Some n \<Rightarrow> walk s n)"

definition q_append_dll :: "links \<Rightarrow> queue \<Rightarrow> addr option \<Rightarrow> (links \<times> queue) option" where
  "q_append_dll s this qlist =
     (case qlist of
        None \<Rightarrow> Some (s, if qhead this = None then \<lparr>qhead = None, qtail = None\<rparr> else this)
      | Some h \<Rightarrow> do {
          l \<leftarrow> walk s h;
          if qhead this = None then Some (s, \<lparr>qhead = Some h, qtail = Some l\<rparr>)
          else do {
            t \<leftarrow> qtail this;
            let s = set_next s t (Some h);
            let s = set_prev s h (Some t);
            Some (s, this\<lparr>qtail := Some l\<rparr>)
          }
        })"

definition q_enqueue :: "links \<Rightarrow> queue \<Rightarrow> addr \<Rightarrow> links \<times> queue" where
  "q_enqueue s q e = (if qtail q \<noteq> None then q_insert s q e (qtail q) else q_push s q e)"

definition q_in_or_enqueue :: "links \<Rightarrow> queue \<Rightarrow> addr \<Rightarrow> links \<times> queue" where
  "q_in_or_enqueue s q e = (if dll_in s (qhead q) e then (s, q) else q_enqueue s q e)"

definition q_dequeue :: "links \<Rightarrow> queue \<Rightarrow> links \<times> queue \<times> addr option" where
  "q_dequeue s q = q_pop s q"

section \<open>Queues that count\<close>

record count_queue = queue +
  csize :: int

definition base :: "count_queue \<Rightarrow> queue" where
  "base q = \<lparr>qhead = qhead q, qtail = qtail q\<rparr>"

definition recount :: "queue \<Rightarrow> int \<Rightarrow> count_queue" where
  "recount q n = \<lparr>qhead = qhead q, qtail = qtail q, csize = n\<rparr>"

definition cq_push :: "links \<Rightarrow> count_queue \<Rightarrow> addr \<Rightarrow> links \<times> count_queue" where
  "cq_push s q e = (let (s, b) = q_push s (base q) e in (s, recount b (csize q + 1)))"

definition cq_pop :: "links \<Rightarrow> count_queue \<Rightarrow> links \<times> count_queue \<times> addr option" where
  "cq_pop s q =
     (let (s, b, ret) = q_pop s (base q)
      in (s, recount b (if ret \<noteq> None then csize q - 1 else csize q), ret))"

definition cq_remove :: "links \<Rightarrow> count_queue \<Rightarrow> addr \<Rightarrow> links \<times> count_queue" where
  "cq_remove s q e = (let (s, b) = q_remove s (base q) e in (s, recount b (csize q - 1)))"

definition cq_enqueue :: "links \<Rightarrow> count_queue \<Rightarrow> addr \<Rightarrow> links \<times> count_queue" where
  "cq_enqueue s q e = (let (s, b) = q_enqueue s (base q) e in (s, recount b (csize q + 1)))"

definition cq_dequeue :: "links \<Rightarrow> count_queue \<Rightarrow> links \<times> count_queue \<times> addr option" where
  "cq_dequeue s q = cq_pop s q"

definition cq_insert :: "links \<Rightarrow> count_queue \<Rightarrow> addr \<Rightarrow> addr option \<Rightarrow> links \<times> count_queue" where
  "cq_insert s q e after =
     (let (s, b) = q_insert s (base q) e after in (s, recount b (csize q + 1)))"

definition cq_append :: "links \<Rightarrow> count_queue \<Rightarrow> count_queue \<Rightarrow> (links \<times> count_queue) option" where
  "cq_append s this q = do {
     (s, b) \<leftarrow> q_append s (base this) (base q);
     Some (s, recount b (csize this + csize q))
   }"

definition cq_append_clear ::
    "links \<Rightarrow> count_queue \<Rightarrow> count_queue \<Rightarrow> (links \<times> count_queue \<times> count_queue) option" where
  "cq_append_clear s this q = do {
     (s, this) \<leftarrow> cq_append s this q;
     Some (s, this, recount q_reset 0)
   }"

section \<open>Sorting\<close>

text \<open>One round of the bubble sort: \<open>v\<close> and \<open>n\<close> are neighbours, \<open>lt\<close> is the element type's
  \<open>operator<\<close>.  The result says whether the round changed nothing.\<close>

partial_function (option) sort_round ::
    "(addr \<Rightarrow> addr \<Rightarrow> bool) \<Rightarrow> links \<Rightarrow> queue \<Rightarrow> addr \<Rightarrow> addr option \<Rightarrow> bool
       \<Rightarrow> (links \<times> queue \<times> bool) option"
where
  "sort_round lt s q v n' clean =
     (case n' of
        None \<Rightarrow> Some (s, q, clean)
      | Some n \<Rightarrow>
          let f = next_link s n in
          if lt n v then
            let q = (if qhead q = Some v then q\<lparr>qhead := Some n\<rparr> else q);
                q = (if qtail q = Some n then q\<lparr>qtail := Some v\<rparr> else q);
                s = (case prev_link s v of
                       Some p \<Rightarrow> set_prev (set_next s p (Some n)) n (Some p)
                     | None \<Rightarrow> set_prev s n None);
                s = (case f of
                       Some g \<Rightarrow> set_next (set_prev s g (Some v)) v (Some g)
                     | None \<Rightarrow> set_next s v None);
                s = set_prev s v (Some n);
                s = set_next s n (Some v)
            in sort_round lt s q v f False
          else sort_round lt s q n f clean)"

partial_function (option) q_sort ::
    "(addr \<Rightarrow> addr \<Rightarrow> bool) \<Rightarrow> links \<Rightarrow> queue \<Rightarrow> (links \<times> queue) option" where
  "q_sort lt s q =
     (case qhead q of
        None \<Rightarrow> Some (s, q)
      | Some v \<Rightarrow>
          do {
            (s, q, clean) \<leftarrow> sort_round lt s q v (next_link s v) True;
            if clean then Some (s, q) else q_sort lt s q
          })"

section \<open>What the links represent\<close>

definition first_of :: "addr list \<Rightarrow> addr option \<Rightarrow> addr option" where
  "first_of xs n = (case xs of [] \<Rightarrow> n | x # _ \<Rightarrow> Some x)"

definition last_of :: "addr option \<Rightarrow> addr list \<Rightarrow> addr option" where
  "last_of p xs = (if xs = [] then p else Some (last xs))"

text \<open>\<open>seg s p xs n\<close>: the elements \<open>xs\<close> are linked one after the other, the first one's predecessor
  field is \<open>p\<close>, the last one's successor field is \<open>n\<close>.\<close>

fun seg :: "links \<Rightarrow> addr option \<Rightarrow> addr list \<Rightarrow> addr option \<Rightarrow> bool" where
  "seg s p [] n = True"
| "seg s p (x # xs) n =
     (prev_link s x = p \<and> next_link s x = first_of xs n \<and> seg s (Some x) xs n)"

definition q_rep :: "links \<Rightarrow> queue \<Rightarrow> addr list \<Rightarrow> bool" where
  "q_rep s q xs =
     (distinct xs \<and> seg s None xs None \<and> qhead q = first_of xs None \<and> qtail q = last_of None xs)"

definition detached :: "links \<Rightarrow> addr \<Rightarrow> bool" where
  "detached s e = (next_link s e = None \<and> prev_link s e = None)"

definition same_links :: "links \<Rightarrow> links \<Rightarrow> addr \<Rightarrow> bool" where
  "same_links s s' e = (next_link s' e = next_link s e \<and> prev_link s' e = prev_link s e)"

named_theorems link_simps \<open>field updates and list ends\<close>

lemma link_updates [link_simps]:
  "next_link (set_next s e p) x = (if x = e then p else next_link s x)"
  "prev_link (set_next s e p) x = prev_link s x"
  "prev_link (set_prev s e p) x = (if x = e then p else prev_link s x)"
  "next_link (set_prev s e p) x = next_link s x"
  by (simp_all add: set_next_def set_prev_def)

lemma ends_simps [link_simps]:
  "first_of [] n = n" "first_of (x # xs) n = Some x" "first_of (xs @ ys) n = first_of xs (first_of ys n)"
  "last_of p [] = p" "last_of p (xs @ [x]) = Some x" "last_of p (xs @ ys) = last_of (last_of p xs) ys"
  "last_of p (x # xs) = last_of (Some x) xs"
  by (auto simp: first_of_def last_of_def split: list.splits)

lemma first_of_in: "first_of xs n = Some x \<Longrightarrow> x \<in> set xs \<or> n = Some x"
  by (auto simp: first_of_def split: list.splits)

lemma last_of_in: "last_of p xs = Some x \<Longrightarrow> x \<in> set xs \<or> p = Some x"
  by (auto simp: last_of_def split: if_splits)

lemma seg_append [link_simps]:
  "seg s p (xs @ ys) n \<longleftrightarrow> seg s p xs (first_of ys n) \<and> seg s (last_of p xs) ys n"
  by (induction xs arbitrary: p) (auto simp: link_simps)

lemma seg_frame:
  "seg s p xs n \<Longrightarrow> \<forall>x \<in> set xs. same_links s s' x \<Longrightarrow> seg s' p xs n"
  by (induction xs arbitrary: p) (auto simp: same_links_def)

text \<open>Writing a field that is not part of a segment.\<close>

lemma seg_set [link_simps]:
  "e \<notin> set xs \<Longrightarrow> seg (set_next s e p') p xs n = seg s p xs n"
  "e \<notin> set xs \<Longrightarrow> seg (set_prev s e p') p xs n = seg s p xs n"
  by (induction xs arbitrary: p) (simp_all add: link_simps)

text \<open>Redirecting the two ends of a segment.\<close>

lemma seg_first:
  "seg s p (x # xs) n \<Longrightarrow> x \<notin> set xs \<Longrightarrow> seg (set_prev s x p') p' (x # xs) n"
  by (simp add: link_simps)

lemma seg_last:
  "seg s p (xs @ [x]) n \<Longrightarrow> x \<notin> set xs \<Longrightarrow> seg (set_next s x n') p (xs @ [x]) n'"
  by (simp add: link_simps)

lemma same_links_refl [simp]: "same_links s s x"
  by (simp add: same_links_def)

lemma same_links_trans: "same_links s s' x \<Longrightarrow> same_links s' s'' x \<Longrightarrow> same_links s s'' x"
  by (simp add: same_links_def)

lemma detached_frame: "detached s x \<Longrightarrow> same_links s s' x \<Longrightarrow> detached s' x"
  by (simp add: detached_def same_links_def)

lemma q_rep_frame: "q_rep s q xs \<Longrightarrow> \<forall>x \<in> set xs. same_links s s' x \<Longrightarrow> q_rep s' q xs"
  by (auto simp: q_rep_def intro: seg_frame)

section \<open>Queue operations\<close>

lemma q_rep_Nil: "q_rep s q [] \<longleftrightarrow> q = q_reset"
  by (auto simp: q_rep_def q_reset_def link_simps)

lemma q_empty_iff: "q_rep s q xs \<Longrightarrow> q_empty q \<longleftrightarrow> xs = []"
  by (auto simp: q_rep_def q_empty_def first_of_def split: list.splits)

lemma q_push_rep:
  assumes "q_rep s q xs" and "e \<notin> set xs" and "detached s e" and "q_push s q e = (s', q')"
  shows "q_rep s' q' (e # xs)" and "x \<notin> set xs \<Longrightarrow> x \<noteq> e \<Longrightarrow> same_links s s' x"
proof -
  from assms(1) have q: "distinct xs" "seg s None xs None" "qhead q = first_of xs None"
    "qtail q = last_of None xs" by (simp_all add: q_rep_def)
  have s': "s' = set_next (case first_of xs None of Some h \<Rightarrow> set_prev s h (Some e) | None \<Rightarrow> s) e
      (first_of xs None)"
    and q': "q' = \<lparr>qhead = Some e, qtail = last_of (Some e) xs\<rparr>"
    using assms(4) by (auto simp: q_push_def dll_push_def Let_def q last_of_def)
  show "q_rep s' q' (e # xs)"
    using q(1,2) assms(2,3) unfolding s' q'
    by (cases xs) (simp_all add: q_rep_def detached_def link_simps)
  show "x \<notin> set xs \<Longrightarrow> x \<noteq> e \<Longrightarrow> same_links s s' x"
    unfolding s' by (cases xs) (simp_all add: same_links_def link_simps)
qed

text \<open>Insertion behind an element of the list.\<close>

lemma q_insert_rep:
  assumes "q_rep s q (us @ a # ws)" and "e \<notin> set (us @ a # ws)"
    and "q_insert s q e (Some a) = (s', q')"
  shows "q_rep s' q' (us @ a # e # ws)"
    and "x \<notin> set (us @ a # ws) \<Longrightarrow> x \<noteq> e \<Longrightarrow> same_links s s' x"
proof -
  have t: "qtail q = Some (last (us @ a # ws))" "last (us @ a # ws) = a \<longleftrightarrow> ws = []"
    using assms(1) by (auto simp: q_rep_def last_of_def)
  show "q_rep s' q' (us @ a # e # ws)"
    using assms t
    by (cases ws) (auto simp: q_insert_def dll_insert_def q_rep_def link_simps Let_def)
  show "x \<notin> set (us @ a # ws) \<Longrightarrow> x \<noteq> e \<Longrightarrow> same_links s s' x"
    using assms
    by (cases ws) (auto simp: q_insert_def dll_insert_def q_rep_def same_links_def link_simps Let_def)
qed

lemma q_enqueue_rep:
  assumes "q_rep s q xs" and "e \<notin> set xs" and "detached s e" and "q_enqueue s q e = (s', q')"
  shows "q_rep s' q' (xs @ [e])" and "x \<notin> set xs \<Longrightarrow> x \<noteq> e \<Longrightarrow> same_links s s' x"
proof -
  have "q_rep s' q' (xs @ [e]) \<and> (x \<notin> set xs \<longrightarrow> x \<noteq> e \<longrightarrow> same_links s s' x)"
  proof (cases xs rule: rev_cases)
    case Nil
    with assms q_push_rep [of s q xs e s' q'] show ?thesis
      by (auto simp: q_enqueue_def q_rep_Nil q_reset_def)
  next
    case (snoc us a)
    then have "qtail q = Some a" using assms(1) by (simp add: q_rep_def link_simps)
    with snoc assms q_insert_rep [of s q us a "[]" e s' q'] show ?thesis
      by (auto simp: q_enqueue_def)
  qed
  then show "q_rep s' q' (xs @ [e])" and "x \<notin> set xs \<Longrightarrow> x \<noteq> e \<Longrightarrow> same_links s s' x" by blast+
qed

lemma q_dequeue_empty: "q_rep s q [] \<Longrightarrow> q_dequeue s q = (s, q, None)"
  by (auto simp: q_dequeue_def q_pop_def dll_pop_def q_rep_Nil q_reset_def)

lemma q_dequeue_rep:
  assumes "q_rep s q (e # xs)" and "q_dequeue s q = (s', q', r)"
  shows "r = Some e" and "q_rep s' q' xs" and "detached s' e"
    and "x \<notin> set (e # xs) \<Longrightarrow> same_links s s' x"
  using assms
  by (cases xs; auto simp: q_dequeue_def q_pop_def dll_pop_def q_rep_def detached_def same_links_def
      link_simps Let_def)+

lemma q_remove_eq:
  assumes "q_rep s q (us @ e # ws)"
  shows "q_remove s q e =
    (let s1 = (case last_of None us of Some p \<Rightarrow> set_next s p (first_of ws None) | None \<Rightarrow> s);
         s2 = (case first_of ws None of Some n \<Rightarrow> set_prev s1 n (last_of None us) | None \<Rightarrow> s1)
     in (set_next (set_prev s2 e None) e None,
         \<lparr>qhead = first_of (us @ ws) None, qtail = last_of None (us @ ws)\<rparr>))"
proof -
  from assms have dist: "distinct (us @ e # ws)" and q: "qhead q = first_of us (Some e)"
    "qtail q = last_of (Some e) ws" and d: "prev_link s e = last_of None us"
    "next_link s e = first_of ws None" "seg s None us (Some e)" "seg s (Some e) ws None"
    by (simp_all add: q_rep_def link_simps)
  have t: "last_of (Some e) ws = Some e \<longleftrightarrow> ws = []"
    using dist by (auto simp: last_of_def)
  have h: "Some e = first_of us (Some e) \<longleftrightarrow> us = []" "first_of us (Some e) \<noteq> None"
    using dist by (auto simp: first_of_def split: list.splits)
  define s1 where "s1 = (case last_of None us of Some p \<Rightarrow> set_next s p (first_of ws None) | None \<Rightarrow> s)"
  have s1: "(case prev_link s e of Some p \<Rightarrow> set_next s p (next_link s e) | None \<Rightarrow> s) = s1"
    unfolding s1_def d(1,2) by (rule refl)
  have n: "next_link s1 e = first_of ws None" "prev_link s1 e = last_of None us"
    using dist last_of_in [of None us] d(1,2) unfolding s1_def
    by (auto simp: link_simps split: option.splits)
  have e: "(if Some e = first_of us (Some e) then first_of ws None else first_of us (Some e))
      = first_of (us @ ws) None"
    "(if last_of (Some e) ws = Some e then last_of None us else last_of (Some e) ws)
      = last_of None (us @ ws)"
    using h t by (auto simp: first_of_def last_of_def split: list.splits if_splits)
  have r: "dll_remove s (first_of us (Some e)) e =
    (let s2 = (case first_of ws None of Some n \<Rightarrow> set_prev s1 n (last_of None us) | None \<Rightarrow> s1)
     in (set_next (set_prev s2 e None) e None, first_of (us @ ws) None))"
    unfolding dll_remove_def Let_def s1
    unfolding n d(2) e by (simp add: h(2))
  have "q_remove s q e = (let (s, head) = dll_remove s (first_of us (Some e)) e
      in (s, \<lparr>qhead = head, qtail = last_of None (us @ ws)\<rparr>))"
    using e(2) by (auto simp: q_remove_def q d(1) Let_def split: if_splits prod.splits)
  then show ?thesis unfolding r s1_def [symmetric] by (simp add: Let_def)
qed

lemma q_remove_rep:
  assumes "q_rep s q (us @ e # ws)" and "q_remove s q e = (s', q')"
  shows "q_rep s' q' (us @ ws)" and "detached s' e"
    and "x \<notin> set (us @ e # ws) \<Longrightarrow> same_links s s' x"
proof -
  from assms(1) have r: "distinct (us @ e # ws)" "seg s None us (Some e)" "seg s (Some e) ws None"
    by (simp_all add: q_rep_def link_simps)
  note q = q_remove_eq [OF assms(1), unfolded assms(2) Let_def prod.inject]
  show "detached s' e" using q by (simp add: detached_def link_simps)
  show "x \<notin> set (us @ e # ws) \<Longrightarrow> same_links s s' x"
    using q last_of_in [of None us] first_of_in [of ws None]
    by (auto simp: same_links_def link_simps split: option.splits)
  have "seg s' None (us @ ws) None"
    using q r by (cases us rule: rev_cases; cases ws) (auto simp: link_simps)
  with q r show "q_rep s' q' (us @ ws)" by (simp add: q_rep_def)
qed

lemma seg_ends:
  assumes "seg s p xs n" and "distinct xs" and "xs \<noteq> []"
  shows "seg (set_prev s (hd xs) p') p' xs n" and "seg (set_next s (last xs) n') p xs n'"
proof -
  from assms show "seg (set_prev s (hd xs) p') p' xs n"
    by (cases xs) (simp_all add: link_simps)
  from assms show "seg (set_next s (last xs) n') p xs n'"
    by (cases xs rule: rev_cases) (simp_all add: link_simps)
qed

lemma q_append_rep:
  assumes "q_rep s this xs" and "q_rep s q ys" and "set xs \<inter> set ys = {}"
  shows "\<exists>s' this'. q_append s this q = Some (s', this') \<and> q_rep s' this' (xs @ ys)
    \<and> (\<forall>x. x \<notin> set xs \<union> set ys \<longrightarrow> same_links s s' x)"
proof (cases "xs = [] \<or> ys = []")
  case True
  then have "q_append s this q = Some (s, if xs = [] then q else this)"
    using assms(1,2) by (cases xs; cases ys) (simp_all add: q_append_def q_rep_def link_simps)
  moreover have "q_rep s (if xs = [] then q else this) (xs @ ys)" using True assms(1,2) by auto
  ultimately show ?thesis by simp
next
  case False
  then obtain us t h vs where xs: "xs = us @ [t]" and ys: "ys = h # vs"
    by (metis list.exhaust rev_exhaust)
  have "q_append s this q
      = Some (set_prev (set_next s t (Some h)) h (Some t), this\<lparr>qtail := qtail q\<rparr>)"
    using assms(1,2) xs ys
    by (cases us) (simp_all add: q_append_def q_rep_def link_simps)
  moreover have "q_rep (set_prev (set_next s t (Some h)) h (Some t)) (this\<lparr>qtail := qtail q\<rparr>) (xs @ ys)"
    using assms xs ys by (auto simp: q_rep_def link_simps)
  ultimately show ?thesis
    using xs ys by (auto simp: same_links_def link_simps)
qed

lemma walk_last:
  "seg s p (x # xs) None \<Longrightarrow> walk s x = Some (last (x # xs))"
proof (induction xs arbitrary: p x)
  case Nil
  then show ?case by (subst walk.simps) (simp add: link_simps)
next
  case (Cons y ys)
  then have "next_link s x = Some y" and "seg s (Some x) (y # ys) None" by (simp_all add: link_simps)
  with Cons.IH [of "Some x" y] show ?case by (subst walk.simps) simp
qed

text \<open>Appending by head only gives the same queue, and the walk ends.\<close>

lemma q_append_dll_eq:
  assumes "q_rep s this xs" and "q_rep s q ys"
  shows "q_append_dll s this (qhead q) = q_append s this q"
proof (cases ys)
  case Nil
  with assms show ?thesis by (auto simp: q_append_dll_def q_append_def q_rep_def link_simps)
next
  case (Cons y zs)
  then have "qhead q = Some y" "walk s y = qtail q" "qtail q \<noteq> None"
    using assms(2) walk_last [of s None y zs] by (auto simp: q_rep_def link_simps last_of_def)
  then show ?thesis by (auto simp: q_append_dll_def q_append_def)
qed

section \<open>The queue as an interface\<close>

text \<open>What a client of \<open>Que\<close> relies on: \<open>rep s q xs\<close> says that in the memory \<open>s\<close> the queue \<open>q\<close>
  holds the elements \<open>xs\<close>, oldest first.  Operations on one queue leave the links of other
  elements alone.\<close>

locale fifo =
  fixes rep :: "'s \<Rightarrow> 'q \<Rightarrow> 'e list \<Rightarrow> bool"
    and nil :: 'q
    and enq :: "'s \<Rightarrow> 'q \<Rightarrow> 'e \<Rightarrow> 's \<times> 'q"
    and deq :: "'s \<Rightarrow> 'q \<Rightarrow> 's \<times> 'q \<times> 'e option"
    and rem :: "'s \<Rightarrow> 'q \<Rightarrow> 'e \<Rightarrow> 's \<times> 'q"
    and loose :: "'s \<Rightarrow> 'e \<Rightarrow> bool"
    and same :: "'s \<Rightarrow> 's \<Rightarrow> 'e \<Rightarrow> bool"
  assumes rep_nil: "rep s nil []"
    and rep_distinct: "rep s q xs \<Longrightarrow> distinct xs"
    and rep_frame: "rep s q xs \<Longrightarrow> \<forall>x \<in> set xs. same s s' x \<Longrightarrow> rep s' q xs"
    and loose_frame: "loose s x \<Longrightarrow> same s s' x \<Longrightarrow> loose s' x"
    and enq_rep: "rep s q xs \<Longrightarrow> e \<notin> set xs \<Longrightarrow> loose s e \<Longrightarrow> enq s q e = (s', q') \<Longrightarrow>
      rep s' q' (xs @ [e])"
    and enq_same: "rep s q xs \<Longrightarrow> e \<notin> set xs \<Longrightarrow> loose s e \<Longrightarrow> enq s q e = (s', q') \<Longrightarrow>
      x \<notin> set xs \<Longrightarrow> x \<noteq> e \<Longrightarrow> same s s' x"
    and deq_nil: "rep s q [] \<Longrightarrow> deq s q = (s, q, None)"
    and deq_rep: "rep s q (e # xs) \<Longrightarrow> deq s q = (s', q', r) \<Longrightarrow>
      r = Some e \<and> rep s' q' xs \<and> loose s' e"
    and deq_same: "rep s q (e # xs) \<Longrightarrow> deq s q = (s', q', r) \<Longrightarrow> x \<notin> set (e # xs) \<Longrightarrow> same s s' x"
    and rem_rep: "rep s q (us @ e # ws) \<Longrightarrow> rem s q e = (s', q') \<Longrightarrow>
      rep s' q' (us @ ws) \<and> loose s' e"
    and rem_same: "rep s q (us @ e # ws) \<Longrightarrow> rem s q e = (s', q') \<Longrightarrow>
      x \<notin> set (us @ e # ws) \<Longrightarrow> same s s' x"
begin

text \<open>An array of queues that share no element.\<close>

definition reps :: "'s \<Rightarrow> 'q list \<Rightarrow> 'e list list \<Rightarrow> bool" where
  "reps s qs xss = (length qs = length xss \<and> (\<forall>i < length xss. rep s (qs ! i) (xss ! i))
     \<and> (\<forall>i < length xss. \<forall>j < length xss. i \<noteq> j \<longrightarrow> set (xss ! i) \<inter> set (xss ! j) = {}))"

lemma reps_length: "reps s qs xss \<Longrightarrow> length qs = length xss"
  by (simp add: reps_def)

lemma reps_nth: "reps s qs xss \<Longrightarrow> i < length xss \<Longrightarrow> rep s (qs ! i) (xss ! i)"
  by (simp add: reps_def)

lemma reps_unique:
  "reps s qs xss \<Longrightarrow> i < length xss \<Longrightarrow> j < length xss \<Longrightarrow> e \<in> set (xss ! i) \<Longrightarrow> e \<in> set (xss ! j) \<Longrightarrow> i = j"
  by (auto simp: reps_def)

lemma reps_disjoint:
  "reps s qs xss \<Longrightarrow> i < length xss \<Longrightarrow> j < length xss \<Longrightarrow> j \<noteq> i \<Longrightarrow> set (xss ! j) \<inter> set (xss ! i) = {}"
  by (simp add: reps_def)

lemma reps_update:
  assumes "reps s qs xss" and "i < length xss" and "rep s' q' ys"
    and "\<And>x. x \<notin> set (xss ! i) \<Longrightarrow> x \<notin> set ys \<Longrightarrow> same s s' x"
    and "\<And>j. j < length xss \<Longrightarrow> j \<noteq> i \<Longrightarrow> set (xss ! j) \<inter> set ys = {}"
  shows "reps s' (qs[i := q']) (xss[i := ys])"
proof -
  have other: "rep s' (qs ! j) (xss ! j)" if "j < length xss" "j \<noteq> i" for j
  proof (rule rep_frame)
    show "rep s (qs ! j) (xss ! j)" using assms(1) that(1) by (rule reps_nth)
    show "\<forall>x \<in> set (xss ! j). same s s' x"
      using reps_disjoint [OF assms(1,2) that] assms(4,5) that by blast
  qed
  have "rep s' (qs[i := q'] ! j) (xss[i := ys] ! j)" if "j < length xss" for j
    using that other [of j] assms(3) reps_length [OF assms(1)] by (cases "j = i") simp_all
  moreover have "set (xss[i := ys] ! j) \<inter> set (xss[i := ys] ! k) = {}"
    if "j < length xss" "k < length xss" "j \<noteq> k" for j k
    using that assms(5) [of j] assms(5) [of k] reps_disjoint [OF assms(1), of j k]
    by (cases "j = i"; cases "k = i") (auto simp: Int_commute)
  ultimately show ?thesis using reps_length [OF assms(1)] by (simp add: reps_def)
qed

lemma reps_enq:
  assumes "reps s qs xss" and "i < length xss" and "\<And>j. j < length xss \<Longrightarrow> e \<notin> set (xss ! j)"
    and "loose s e" and "enq s (qs ! i) e = (s', q')"
  shows "reps s' (qs[i := q']) (xss[i := xss ! i @ [e]])"
    and "(\<And>j. j < length xss \<Longrightarrow> x \<notin> set (xss ! j)) \<Longrightarrow> x \<noteq> e \<Longrightarrow> same s s' x"
proof -
  note r = reps_nth [OF assms(1,2)] and n = assms(3) [OF assms(2)]
  show "reps s' (qs[i := q']) (xss[i := xss ! i @ [e]])"
  proof (rule reps_update [OF assms(1,2) enq_rep [OF r n assms(4,5)]])
    show "x \<notin> set (xss ! i) \<Longrightarrow> x \<notin> set (xss ! i @ [e]) \<Longrightarrow> same s s' x" for x
      using enq_same [OF r n assms(4,5), of x] by simp
    show "j < length xss \<Longrightarrow> j \<noteq> i \<Longrightarrow> set (xss ! j) \<inter> set (xss ! i @ [e]) = {}" for j
      using reps_disjoint [OF assms(1,2), of j] assms(3) [of j] by auto
  qed
  show "(\<And>j. j < length xss \<Longrightarrow> x \<notin> set (xss ! j)) \<Longrightarrow> x \<noteq> e \<Longrightarrow> same s s' x"
    using enq_same [OF r n assms(4,5)] assms(2) by blast
qed

lemma reps_deq:
  assumes "reps s qs xss" and "i < length xss" and "xss ! i = e # ys"
    and "deq s (qs ! i) = (s', q', r)"
  shows "r = Some e" and "loose s' e" and "reps s' (qs[i := q']) (xss[i := ys])"
    and "(\<And>j. j < length xss \<Longrightarrow> x \<notin> set (xss ! j)) \<Longrightarrow> same s s' x"
proof -
  have r: "rep s (qs ! i) (e # ys)" using reps_nth [OF assms(1,2)] assms(3) by simp
  from deq_rep [OF r assms(4)] show "r = Some e" and "loose s' e" by simp_all
  show "reps s' (qs[i := q']) (xss[i := ys])"
  proof (rule reps_update [OF assms(1,2)])
    show "rep s' q' ys" using deq_rep [OF r assms(4)] by simp
    show "x \<notin> set (xss ! i) \<Longrightarrow> x \<notin> set ys \<Longrightarrow> same s s' x" for x
      using deq_same [OF r assms(4), of x] assms(3) by simp
    show "j < length xss \<Longrightarrow> j \<noteq> i \<Longrightarrow> set (xss ! j) \<inter> set ys = {}" for j
      using reps_disjoint [OF assms(1,2), of j] assms(3) by auto
  qed
  show "(\<And>j. j < length xss \<Longrightarrow> x \<notin> set (xss ! j)) \<Longrightarrow> same s s' x"
    using deq_same [OF r assms(4), of x] assms(2) unfolding assms(3) [symmetric] by blast
qed

lemma reps_rem:
  assumes "reps s qs xss" and "i < length xss" and "xss ! i = us @ e # ws"
    and "rem s (qs ! i) e = (s', q')"
  shows "loose s' e" and "reps s' (qs[i := q']) (xss[i := us @ ws])"
    and "(\<And>j. j < length xss \<Longrightarrow> x \<notin> set (xss ! j)) \<Longrightarrow> same s s' x"
proof -
  have r: "rep s (qs ! i) (us @ e # ws)" using reps_nth [OF assms(1,2)] assms(3) by simp
  from rem_rep [OF r assms(4)] show "loose s' e" by simp
  show "reps s' (qs[i := q']) (xss[i := us @ ws])"
  proof (rule reps_update [OF assms(1,2)])
    show "rep s' q' (us @ ws)" using rem_rep [OF r assms(4)] by simp
    show "same s s' x" if "x \<notin> set (xss ! i)" for x
      using rem_same [OF r assms(4), of x] assms(3) that by simp
    show "j < length xss \<Longrightarrow> j \<noteq> i \<Longrightarrow> set (xss ! j) \<inter> set (us @ ws) = {}" for j
      using reps_disjoint [OF assms(1,2), of j] assms(3) by auto
  qed
  show "(\<And>j. j < length xss \<Longrightarrow> x \<notin> set (xss ! j)) \<Longrightarrow> same s s' x"
    using rem_same [OF r assms(4), of x] assms(2) unfolding assms(3) [symmetric] by blast
qed

text \<open>Moving one queue of the array into a variable of its own, and forgetting an empty one.\<close>

lemma reps_take:
  assumes "reps s qs xss" and "i < length xss"
  shows "reps s (qs[i := nil] @ [qs ! i]) (xss[i := []] @ [xss ! i])"
proof -
  have "rep s ((qs[i := nil] @ [qs ! i]) ! j) ((xss[i := []] @ [xss ! i]) ! j)" if "j < Suc (length xss)" for j
    using assms that rep_nil by (auto simp: reps_def nth_append nth_list_update less_Suc_eq)
  moreover have "set ((xss[i := []] @ [xss ! i]) ! j) \<inter> set ((xss[i := []] @ [xss ! i]) ! k) = {}"
    if "j < Suc (length xss)" "k < Suc (length xss)" "j \<noteq> k" for j k
    using assms that unfolding reps_def
    by (cases "j = length xss"; cases "k = length xss") (auto simp: nth_append nth_list_update)
  ultimately show ?thesis using assms(1) by (simp add: reps_def)
qed

lemma reps_drop: "reps s (qs @ [q]) (xss @ [ys]) \<Longrightarrow> reps s qs xss"
  unfolding reps_def by (auto simp: nth_append all_conj_distrib less_Suc_eq split: if_splits)

end

interpretation que: fifo q_rep q_reset q_enqueue q_dequeue q_remove detached same_links
proof (unfold_locales, goal_cases)
  case (1 s)
  then show ?case by (simp add: q_rep_Nil)
next
  case (2 s q xs)
  then show ?case by (simp add: q_rep_def)
next
  case (3 s q xs s')
  then show ?case by (rule q_rep_frame)
next
  case (4 s x s')
  then show ?case by (rule detached_frame)
next
  case (5 s q xs e s' q')
  then show ?case by (rule q_enqueue_rep)
next
  case (6 s q xs e s' q' x)
  then show ?case by (rule q_enqueue_rep(2))
next
  case (7 s q)
  then show ?case by (rule q_dequeue_empty)
next
  case (8 s q e xs s' q' r)
  then show ?case by (blast intro: q_dequeue_rep)
next
  case (9 s q e xs s' q' r x)
  then show ?case by (blast intro: q_dequeue_rep(4))
next
  case (10 s q us e ws s' q')
  then show ?case by (blast intro: q_remove_rep)
next
  case (11 s q us e ws s' q' x)
  then show ?case by (blast intro: q_remove_rep(3))
qed

end
