(* ===== verification/Chains.thy ===== *)
theory Chains
  imports Main "HOL-Library.Multiset"
begin

text \<open>Lists of lists, as the queues of a timer and the chains of a hash table are: what an update of one
  list does to the content of them all.\<close>

lemma concat_elem: "e \<in> set (concat xss) \<Longrightarrow> \<exists>k < length xss. e \<in> set (xss ! k)"
  by (metis UN_E in_set_conv_nth set_concat)

lemma in_concat: "i < length xss \<Longrightarrow> e \<in> set (xss ! i) \<Longrightarrow> e \<in> set (concat xss)"
  by auto

lemma mset_concat_upd:
  "j < length xss \<Longrightarrow> mset (concat (xss[j := ys])) + mset (xss ! j) = mset (concat xss) + mset ys"
proof (induction xss arbitrary: j)
  case Nil
  then show ?case by simp
next
  case (Cons xs xss)
  then show ?case by (cases j) (auto simp: algebra_simps)
qed

lemma mset_concat_push:
  "j < length xss \<Longrightarrow> mset (concat (xss[j := xss ! j @ [e]])) = add_mset e (mset (concat xss))"
  using mset_concat_upd [of j xss "xss ! j @ [e]"] by simp

lemma set_concat_push: "j < length xss \<Longrightarrow> set (concat (xss[j := xss ! j @ [e]])) = insert e (set (concat xss))"
  using arg_cong [OF mset_concat_push [of j xss e], of set_mset] by (simp only: set_mset_mset set_mset_add_mset_insert)

lemma length_concat_push: "j < length xss \<Longrightarrow> length (concat (xss[j := xss ! j @ [e]])) = Suc (length (concat xss))"
  using arg_cong [OF mset_concat_push [of j xss e], of size] by (simp only: size_mset size_add_mset)

lemma push_cases:
  assumes "x \<in> set (xss[i := xss ! i @ [e]] ! j)" and "i < length xss" and "j < length xss"
  shows "x = e \<and> j = i \<or> x \<in> set (xss ! j)"
  using assms by (cases "j = i") auto

lemma set_concat_drop:
  assumes "j < length xss" and "xss ! j = us @ e # ws"
  shows "set (concat xss) = insert e (set (concat (xss[j := us @ ws])))"
    and "length (concat xss) = Suc (length (concat (xss[j := us @ ws])))"
proof -
  have m: "mset (concat xss) = add_mset e (mset (concat (xss[j := us @ ws])))"
    using mset_concat_upd [OF assms(1), of "us @ ws"] assms(2) by simp
  from arg_cong [OF m, of set_mset] show "set (concat xss) = insert e (set (concat (xss[j := us @ ws])))"
    by (simp only: set_mset_mset set_mset_add_mset_insert)
  from arg_cong [OF m, of size] show "length (concat xss) = Suc (length (concat (xss[j := us @ ws])))"
    by (simp only: size_mset size_add_mset)
qed

lemma distinct_concat_index:
  assumes "\<forall>i < length xss. distinct (xss ! i)"
    and "\<forall>i < length xss. \<forall>j < length xss. i \<noteq> j \<longrightarrow> set (xss ! i) \<inter> set (xss ! j) = {}"
  shows "distinct (concat xss)"
  using assms
proof (induction xss)
  case Nil
  then show ?case by simp
next
  case (Cons xs xss)
  have "distinct (concat xss)"
  proof (rule Cons.IH)
    show "\<forall>i < length xss. distinct (xss ! i)" using Cons.prems(1) by (metis Suc_less_eq length_Cons nth_Cons_Suc)
    show "\<forall>i < length xss. \<forall>j < length xss. i \<noteq> j \<longrightarrow> set (xss ! i) \<inter> set (xss ! j) = {}"
      using Cons.prems(2) by (metis Suc_less_eq length_Cons nth_Cons_Suc nat.inject)
  qed
  moreover have "distinct xs" using Cons.prems(1) by force
  moreover have "set xs \<inter> set (concat xss) = {}"
  proof (rule ccontr)
    assume "\<not> ?thesis"
    then obtain x where x: "x \<in> set xs" "x \<in> set (concat xss)" by blast
    then obtain k where k: "k < length xss" "x \<in> set (xss ! k)" by (metis concat_elem)
    have "set ((xs # xss) ! 0) \<inter> set ((xs # xss) ! Suc k) = {}" using Cons.prems(2) k(1) by (metis Suc_less_eq length_Cons zero_less_Suc nat.distinct(1))
    with x(1) k(2) show False by auto
  qed
  ultimately show ?case by (simp del: set_concat)
qed

end
