(* ===== verification/EventQueue.thy ===== *)
theory EventQueue
  imports IntrusiveList Chains "HOL-Library.Signed_Division"
begin

text \<open>
  The timer queue of an event thread,
  \<open>src/src/obproxy/iocore/eventsystem/ob_priority_event_queue.h\<close>: ten queues of events, queue \<open>i\<close>
  for events due within \<open>2\<^sup>i\<close> milliseconds, which \<open>check_ready\<close> redistributes as time passes.
  Times are nanoseconds as integers; the clock is not negative.  Events are records at addresses,
  their links are those of \<open>IntrusiveList\<close>, and a freed event has no record any more.  An operation
  is \<open>None\<close> when it follows a dangling pointer or indexes outside the array of queues.
\<close>

unbundle bit_operations_syntax

section \<open>State\<close>

record event =
  in_the_prot_queue :: bool
  in_the_priority_queue :: bool
  in_heap :: nat
  cancelled :: bool
  timeout_at :: int

record world =
  events :: "addr \<Rightarrow> event option"
  cells :: links

record pqueue =
  after_queue :: "queue list"
  last_check_time :: int
  last_check_buckets :: "64 word"
  after_queue_size :: int

definition HRTIME_MSECOND :: int where
  "HRTIME_MSECOND = 1000 * (1000 * (1000 * 1))"

definition HRTIME_FOREVER :: int where
  "HRTIME_FOREVER =
     (let second = 1000 * HRTIME_MSECOND; day = 24 * (60 * (60 * second))
      in 10 * (10 * (365 * day + day div 4)))"

definition PQ_BUCKET_TIME :: "nat \<Rightarrow> int" where
  "PQ_BUCKET_TIME i = push_bit i (1 * 1000000)"

definition PQ_LIST_COUNT :: nat where
  "PQ_LIST_COUNT = 10"

definition new_pqueue :: "int \<Rightarrow> pqueue" where
  "new_pqueue time =
     \<lparr>after_queue = replicate PQ_LIST_COUNT q_reset, last_check_time = time,
      last_check_buckets = word_of_int (time sdiv PQ_BUCKET_TIME 0), after_queue_size = 0\<rparr>"

section \<open>Operations\<close>

definition set_event :: "world \<Rightarrow> addr \<Rightarrow> event option \<Rightarrow> world" where
  "set_event w e ev = w\<lparr>events := (events w)(e := ev)\<rparr>"

text \<open>The decision tree of \<open>enqueue\<close>.\<close>

definition bucket_index :: "int \<Rightarrow> nat" where
  "bucket_index t =
     (if t \<le> PQ_BUCKET_TIME 3 then
        if t \<le> PQ_BUCKET_TIME 1 then
          if t \<le> PQ_BUCKET_TIME 0 then 0 else 1
        else if t \<le> PQ_BUCKET_TIME 2 then 2 else 3
      else if t \<le> PQ_BUCKET_TIME 7 then
        if t \<le> PQ_BUCKET_TIME 5 then
          if t \<le> PQ_BUCKET_TIME 4 then 4 else 5
        else if t \<le> PQ_BUCKET_TIME 6 then 6 else 7
      else if t \<le> PQ_BUCKET_TIME 8 then 8 else 9)"

definition queue_at :: "pqueue \<Rightarrow> nat \<Rightarrow> queue option" where
  "queue_at pq i = (if i < length (after_queue pq) then Some (after_queue pq ! i) else None)"

definition enqueue :: "world \<Rightarrow> pqueue \<Rightarrow> addr option \<Rightarrow> int \<Rightarrow> (world \<times> pqueue) option" where
  "enqueue w pq e' now =
     (case e' of
        None \<Rightarrow> Some (w, pq)
      | Some e \<Rightarrow> do {
          ev \<leftarrow> events w e;
          if in_the_priority_queue ev \<or> in_the_prot_queue ev then Some (w, pq)
          else do {
            let t = timeout_at ev - now;
            let i = bucket_index t;
            let w = set_event w e (Some (ev\<lparr>in_the_priority_queue := True, in_heap := i AND 0x0F\<rparr>));
            q \<leftarrow> queue_at pq i;
            let (c, q) = q_enqueue (cells w) q e;
            Some (w\<lparr>cells := c\<rparr>,
                  pq\<lparr>after_queue := (after_queue pq)[i := q],
                     after_queue_size := after_queue_size pq + 1\<rparr>)
          }
        })"

definition remove :: "world \<Rightarrow> pqueue \<Rightarrow> addr option \<Rightarrow> (world \<times> pqueue) option" where
  "remove w pq e' =
     (case e' of
        None \<Rightarrow> Some (w, pq)
      | Some e \<Rightarrow> do {
          ev \<leftarrow> events w e;
          if \<not> in_the_priority_queue ev then Some (w, pq)
          else if in_the_prot_queue ev then Some (w, pq)
          else do {
            let w = set_event w e (Some (ev\<lparr>in_the_priority_queue := False\<rparr>));
            q \<leftarrow> queue_at pq (in_heap ev);
            let (c, q) = q_remove (cells w) q e;
            Some (w\<lparr>cells := c\<rparr>,
                  pq\<lparr>after_queue := (after_queue pq)[in_heap ev := q],
                     after_queue_size := after_queue_size pq - 1\<rparr>)
          }
        })"

definition dequeue_ready :: "world \<Rightarrow> pqueue \<Rightarrow> (world \<times> pqueue \<times> addr option) option" where
  "dequeue_ready w pq = do {
     q \<leftarrow> queue_at pq 0;
     let (c, q, ret) = q_dequeue (cells w) q;
     let w = w\<lparr>cells := c\<rparr>;
     let pq = pq\<lparr>after_queue := (after_queue pq)[0 := q]\<rparr>;
     (case ret of
        None \<Rightarrow> Some (w, pq, None)
      | Some e \<Rightarrow> do {
          ev \<leftarrow> events w e;
          if \<not> in_the_priority_queue ev then Some (w, pq, Some e)
          else if in_the_prot_queue ev then Some (w, pq, Some e)
          else Some (set_event w e (Some (ev\<lparr>in_the_priority_queue := False\<rparr>)),
                     pq\<lparr>after_queue_size := after_queue_size pq - 1\<rparr>, Some e)
        })
   }"

text \<open>The loop that counts the significant bits of the buckets to do.\<close>

function count_bits :: "64 word \<Rightarrow> nat \<Rightarrow> nat" where
  "count_bits todo k = (if todo = 0 then k else count_bits (drop_bit 1 todo) (k + 1))"
  by auto
termination
proof (relation "measure (\<lambda>(todo, k). unat todo)")
  fix todo :: "64 word" and k :: nat
  assume "todo \<noteq> 0"
  then have "unat todo div 2 < unat todo" by (simp add: unat_gt_0)
  then show "((drop_bit 1 todo, k + 1), (todo, k)) \<in> measure (\<lambda>(todo, k). unat todo)"
    by (simp add: drop_bit_eq_div unat_div_distrib)
qed simp

declare count_bits.simps [simp del]

text \<open>The inner \<open>for\<close>: down from queue \<open>j\<close> while the next lower one is wide enough.\<close>

fun settle :: "int \<Rightarrow> nat \<Rightarrow> nat" where
  "settle offset 0 = 0"
| "settle offset (Suc j) = (if offset \<le> PQ_BUCKET_TIME j then settle offset j else Suc j)"

partial_function (option) drain ::
    "int \<Rightarrow> nat \<Rightarrow> queue \<Rightarrow> world \<Rightarrow> pqueue \<Rightarrow> (world \<times> pqueue) option"
where
  "drain now i q w pq =
     (case q_dequeue (cells w) q of (c, q, ret) \<Rightarrow>
      (case ret of
         None \<Rightarrow> Some (w\<lparr>cells := c\<rparr>, pq)
       | Some e \<Rightarrow>
           Option.bind (events w e) (\<lambda>ev.
             if cancelled ev
             then drain now i q (set_event (w\<lparr>cells := c\<rparr>) e None)
                    (pq\<lparr>after_queue_size := after_queue_size pq - 1\<rparr>)
             else let j = settle (timeout_at ev - now) i in
               Option.bind (queue_at pq j) (\<lambda>p.
                 case q_enqueue c p e of (c, p) \<Rightarrow>
                   drain now i q
                     (set_event (w\<lparr>cells := c\<rparr>) e (Some (ev\<lparr>in_heap := j AND 0x0F\<rparr>)))
                     (pq\<lparr>after_queue := (after_queue pq)[j := p]\<rparr>)))))"

fun sweep :: "int \<Rightarrow> nat list \<Rightarrow> world \<Rightarrow> pqueue \<Rightarrow> (world \<times> pqueue) option" where
  "sweep now [] w pq = Some (w, pq)"
| "sweep now (i # is) w pq = do {
     q \<leftarrow> queue_at pq i;
     (w, pq) \<leftarrow> drain now i q w (pq\<lparr>after_queue := (after_queue pq)[i := q_reset]\<rparr>);
     sweep now is w pq
   }"

definition todo_buckets :: "int \<Rightarrow> 64 word \<Rightarrow> 64 word" where
  "todo_buckets now prev =
     (word_of_int (now sdiv PQ_BUCKET_TIME 0) XOR prev) AND (push_bit (PQ_LIST_COUNT - 1) 1 - 1)"

definition check_ready :: "world \<Rightarrow> pqueue \<Rightarrow> int \<Rightarrow> (world \<times> pqueue) option" where
  "check_ready w pq now =
     (let check_buckets = word_of_int (now sdiv PQ_BUCKET_TIME 0);
          todo = todo_buckets now (last_check_buckets pq);
          pq = pq\<lparr>last_check_time := now, last_check_buckets := check_buckets\<rparr>;
          k = count_bits todo 0
      in sweep now [1..<k + 1] w pq)"

definition earliest_timeout :: "pqueue \<Rightarrow> int" where
  "earliest_timeout pq =
     (case List.find (\<lambda>i. qhead (after_queue pq ! i) \<noteq> None) [0..<PQ_LIST_COUNT] of
        None \<Rightarrow> last_check_time pq + HRTIME_FOREVER
      | Some i \<Rightarrow> last_check_time pq + PQ_BUCKET_TIME i div 2)"

section \<open>Bucket arithmetic\<close>

lemma PQ_BUCKET_TIME_eq: "PQ_BUCKET_TIME i = 2 ^ i * 1000000"
  by (simp add: PQ_BUCKET_TIME_def push_bit_eq_mult)

lemma bucket_index_le: "bucket_index t \<le> 9"
  by (simp add: bucket_index_def)

text \<open>The decision tree finds the first queue that is wide enough, and the last one for the rest.\<close>

lemma bucket_index_least:
  "bucket_index t = (LEAST i. i = 9 \<or> t \<le> PQ_BUCKET_TIME i)"
proof (rule sym, rule Least_equality)
  show "bucket_index t = 9 \<or> t \<le> PQ_BUCKET_TIME (bucket_index t)"
    by (simp add: bucket_index_def)
  fix i assume i: "i = 9 \<or> t \<le> PQ_BUCKET_TIME i"
  show "bucket_index t \<le> i"
  proof (cases "i \<le> 8")
    case True
    with i have "t \<le> PQ_BUCKET_TIME i" and "i \<in> {0, 1, 2, 3, 4, 5, 6, 7, 8}" by auto
    then show ?thesis by (auto simp: bucket_index_def PQ_BUCKET_TIME_eq)
  next
    case False
    then show ?thesis using bucket_index_le [of t] by simp
  qed
qed

lemma bucket_index_width:
  "0 < bucket_index t \<Longrightarrow> PQ_BUCKET_TIME (bucket_index t - 1) < t"
  by (simp add: bucket_index_def PQ_BUCKET_TIME_eq split: if_splits)

lemma settle_le: "settle off i \<le> i"
  by (induction i) auto

lemma settle_width: "0 < settle off i \<Longrightarrow> PQ_BUCKET_TIME (settle off i - 1) < off"
  by (induction i) (auto split: if_splits)

text \<open>Settling from the last queue is the decision tree again.\<close>

lemma settle_bucket_index: "settle off 9 = bucket_index off"
  by (simp add: numeral_eq_Suc bucket_index_def PQ_BUCKET_TIME_eq)

lemma count_bits_eq: "count_bits x k \<ge> k \<and> unat x < 2 ^ (count_bits x k - k)
    \<and> (k < count_bits x k \<longrightarrow> 2 ^ (count_bits x k - k - 1) \<le> unat x)"
proof (induction x k rule: count_bits.induct)
  case (1 x k)
  show ?case
  proof (cases "x = 0")
    case True
    then show ?thesis by (simp add: count_bits.simps)
  next
    case False
    let ?n = "count_bits (drop_bit 1 x) (k + 1)"
    have e: "count_bits x k = ?n" using False by (subst count_bits.simps) simp
    note ih = 1 [OF False]
    have d: "unat (drop_bit 1 x) = unat x div 2" by (simp add: drop_bit_eq_div unat_div_distrib)
    from ih obtain m where m: "?n = k + 1 + m" using le_Suc_ex by blast
    have b: "unat x div 2 < 2 ^ m" "0 < m \<longrightarrow> 2 ^ (m - 1) \<le> unat x div 2"
      using ih unfolding m d by auto
    have "0 < unat x" using False by (simp add: unat_gt_0)
    then show ?thesis using b unfolding e m by (cases m) auto
  qed
qed

section \<open>What the queue holds\<close>

text \<open>\<open>pq_rep w pq xss\<close>: queue \<open>i\<close> holds the events \<open>xss ! i\<close>, each marked as being in queue \<open>i\<close>, and
  the size field counts them all.\<close>

definition marked :: "world \<Rightarrow> addr list list \<Rightarrow> bool" where
  "marked w xss = (\<forall>i < length xss. \<forall>e \<in> set (xss ! i). \<exists>ev. events w e = Some ev
     \<and> in_the_priority_queue ev \<and> \<not> in_the_prot_queue ev \<and> in_heap ev = i)"

definition pq_rep :: "world \<Rightarrow> pqueue \<Rightarrow> addr list list \<Rightarrow> bool" where
  "pq_rep w pq xss = (length xss = PQ_LIST_COUNT \<and> que.reps (cells w) (after_queue pq) xss
     \<and> marked w xss \<and> after_queue_size pq = int (length (concat xss)))"

text \<open>What the redistribution looks at: is the event cancelled, and when is it due.\<close>

definition key :: "event option \<Rightarrow> (bool \<times> int) option" where
  "key ev = map_option (\<lambda>ev. (cancelled ev, timeout_at ev)) ev"

fun spread :: "(addr \<Rightarrow> event option) \<Rightarrow> int \<Rightarrow> nat \<Rightarrow> addr list \<Rightarrow> addr list list \<Rightarrow> addr list list" where
  "spread E now i [] xss = xss"
| "spread E now i (e # es) xss =
     (case key (E e) of
        None \<Rightarrow> xss
      | Some (c, t) \<Rightarrow>
          spread E now i es
            (if c then xss
             else let j = settle (t - now) i in xss[j := xss ! j @ [e]]))"

definition survives :: "(addr \<Rightarrow> event option) \<Rightarrow> addr \<Rightarrow> bool" where
  "survives E e = (case E e of Some ev \<Rightarrow> \<not> cancelled ev | None \<Rightarrow> False)"

lemma small_and_15: "j \<le> 9 \<Longrightarrow> (j :: nat) AND 15 = j"
proof -
  assume "j \<le> 9"
  have "j AND mask 4 = j mod 2 ^ 4" by (simp only: take_bit_eq_mask [symmetric] take_bit_eq_mod)
  with \<open>j \<le> 9\<close> show ?thesis by (simp add: mask_eq_exp_minus_1)
qed

lemma length_spread [simp]: "length (spread E now i es xss) = length xss"
  by (induction es arbitrary: xss) (auto simp: Let_def split: option.splits)

lemma spread_cong:
  "\<forall>e \<in> set es. key (E' e) = key (E e) \<Longrightarrow> spread E' now i es xss = spread E now i es xss"
  by (induction es arbitrary: xss) (auto split: option.splits)

lemma spread_update:
  "E' = E(e := v) \<Longrightarrow> e \<notin> set es \<Longrightarrow> spread E' now i es xss = spread E now i es xss"
  by (rule spread_cong) auto

text \<open>In the inner loop the queue that is being emptied is a local copy \<open>q\<close>, holding \<open>es\<close>.\<close>

definition draining :: "world \<Rightarrow> pqueue \<Rightarrow> queue \<Rightarrow> addr list list \<Rightarrow> addr list \<Rightarrow> bool" where
  "draining w pq q xss es =
     (que.reps (cells w) (after_queue pq @ [q]) (xss @ [es]) \<and> length xss = 10 \<and> marked w xss
      \<and> (\<forall>e \<in> set es. \<exists>ev. events w e = Some ev \<and> in_the_priority_queue ev \<and> \<not> in_the_prot_queue ev))"

lemma draining_length: "draining w pq q xss es \<Longrightarrow> length (after_queue pq) = 10"
  by (auto simp: draining_def dest: que.reps_length)

lemma draining_done:
  assumes "draining w pq q xss []"
  shows "drain now i q w pq = Some (w, pq)" and "que.reps (cells w) (after_queue pq) xss"
proof -
  from assms have r: "que.reps (cells w) (after_queue pq @ [q]) (xss @ [[]])" and l: "length xss = 10"
    by (simp_all add: draining_def)
  show "que.reps (cells w) (after_queue pq) xss" using r by (rule que.reps_drop)
  have "q_rep (cells w) q []"
    using que.reps_nth [OF r, of 10] draining_length [OF assms] l by (simp add: nth_append)
  then show "drain now i q w pq = Some (w, pq)" by (subst drain.simps) (simp add: q_dequeue_empty)
qed

lemma draining_head:
  assumes "draining w pq q xss (e # es)"
  obtains ev c q' where "events w e = Some ev" "in_the_priority_queue ev" "\<not> in_the_prot_queue ev"
    "q_dequeue (cells w) q = (c, q', Some e)" "detached c e"
    "que.reps c (after_queue pq @ [q']) (xss @ [es])" "e \<notin> set es" "\<And>j. j < 10 \<Longrightarrow> e \<notin> set (xss ! j)"
    "\<And>x. x \<notin> set (concat xss) \<Longrightarrow> x \<notin> set (e # es) \<Longrightarrow> same_links (cells w) c x"
proof -
  from assms have r: "que.reps (cells w) (after_queue pq @ [q]) (xss @ [e # es])" and l: "length xss = 10"
    by (simp_all add: draining_def)
  note n = draining_length [OF assms]
  obtain ev where ev: "events w e = Some ev" "in_the_priority_queue ev" "\<not> in_the_prot_queue ev"
    using assms by (auto simp: draining_def)
  obtain c q' ret where d: "q_dequeue (cells w) q = (c, q', ret)" by (cases "q_dequeue (cells w) q") auto
  have at: "(after_queue pq @ [q]) ! 10 = q" "(xss @ [e # es]) ! 10 = e # es"
    using n l by (simp_all add: nth_append)
  note dq = que.reps_deq [OF r _ at(2), of c q' ret, unfolded at(1), OF _ d]
  have "distinct (e # es)" using que.rep_distinct [OF que.reps_nth [OF r, of 10]] at l by simp
  moreover have "e \<notin> set (xss ! j)" if "j < 10" for j
    using que.reps_disjoint [OF r, of 10 j] that at(2) l by (auto simp: nth_append)
  moreover have "same_links (cells w) c x" if "x \<notin> set (concat xss)" "x \<notin> set (e # es)" for x
  proof (rule dq(4))
    show "10 < length (xss @ [e # es])" using l by simp
    show "x \<notin> set ((xss @ [e # es]) ! j)" if "j < length (xss @ [e # es])" for j
      using in_concat [of j xss x] that \<open>x \<notin> set (concat xss)\<close> \<open>x \<notin> set (e # es)\<close>
      by (cases "j < length xss") (auto simp: nth_append less_Suc_eq simp del: set_concat)
  qed
  ultimately show ?thesis
    using that ev d dq(1-3) n l by (simp add: list_update_append)
qed

lemma in_flight_update:
  assumes "e \<notin> set es" and "E' = E(e := v)"
  shows "(\<forall>x \<in> set es. P (E' x)) \<longleftrightarrow> (\<forall>x \<in> set es. P (E x))"
    and "filter (\<lambda>x. P (E' x)) es = filter (\<lambda>x. P (E x)) es"
  using assms by (auto intro: filter_cong)

lemma drain_cancelled:
  assumes "draining w pq q xss (e # es)" and "events w e = Some ev" and "cancelled ev"
  shows "\<exists>w' q'. drain now i q w pq = drain now i q' w' (pq\<lparr>after_queue_size := after_queue_size pq - 1\<rparr>)
    \<and> draining w' (pq\<lparr>after_queue_size := after_queue_size pq - 1\<rparr>) q' xss es
    \<and> events w' = (events w)(e := None)
    \<and> (\<forall>x. x \<notin> set (concat xss) \<longrightarrow> x \<notin> set (e # es) \<longrightarrow> same_links (cells w) (cells w') x)"
proof -
  obtain ev' c q' where "events w e = Some ev'" "in_the_priority_queue ev'" "\<not> in_the_prot_queue ev'"
    and h: "q_dequeue (cells w) q = (c, q', Some e)" and "detached c e"
    and h': "que.reps c (after_queue pq @ [q']) (xss @ [es])" "e \<notin> set es" "\<And>j. j < 10 \<Longrightarrow> e \<notin> set (xss ! j)"
    and same: "\<And>x. x \<notin> set (concat xss) \<Longrightarrow> x \<notin> set (e # es) \<Longrightarrow> same_links (cells w) c x"
    by (rule draining_head [OF assms(1)], rule that)
  let ?w = "set_event (w\<lparr>cells := c\<rparr>) e None"
  have run: "drain now i q w pq = drain now i q' ?w (pq\<lparr>after_queue_size := after_queue_size pq - 1\<rparr>)"
    by (subst drain.simps) (simp add: h assms(2,3))
  have rest: "draining ?w (pq\<lparr>after_queue_size := after_queue_size pq - 1\<rparr>) q' xss es"
    using assms(1) h' by (fastforce simp: draining_def marked_def set_event_def)
  have fields: "events ?w = (events w)(e := None)" "cells ?w = c" by (simp_all add: set_event_def)
  show ?thesis
    by (rule exI [of _ ?w], rule exI [of _ q']) (use run rest fields same in \<open>simp del: set_concat\<close>)
qed

lemma drain_moved:
  fixes now :: int
  assumes "draining w pq q xss (e # es)" and "events w e = Some ev" and "\<not> cancelled ev" and "i \<le> 9"
  defines "j \<equiv> settle (timeout_at ev - now) i"
  shows "\<exists>w' q' p. drain now i q w pq = drain now i q' w' (pq\<lparr>after_queue := (after_queue pq)[j := p]\<rparr>)
    \<and> draining w' (pq\<lparr>after_queue := (after_queue pq)[j := p]\<rparr>) q' (xss[j := xss ! j @ [e]]) es
    \<and> events w' = (events w)(e := Some (ev\<lparr>in_heap := j\<rparr>))
    \<and> (\<forall>x. x \<notin> set (concat xss) \<longrightarrow> x \<notin> set (e # es) \<longrightarrow> same_links (cells w) (cells w') x)"
proof -
  from assms(1) have len: "length xss = 10" "length (after_queue pq) = 10"
    using draining_length [OF assms(1)] by (simp_all add: draining_def)
  obtain ev' c q' where ev': "events w e = Some ev'" and h: "in_the_priority_queue ev'" "\<not> in_the_prot_queue ev'"
    "q_dequeue (cells w) q = (c, q', Some e)" "detached c e"
    "que.reps c (after_queue pq @ [q']) (xss @ [es])" "e \<notin> set es" "\<And>j. j < 10 \<Longrightarrow> e \<notin> set (xss ! j)"
    "\<And>x. x \<notin> set (concat xss) \<Longrightarrow> x \<notin> set (e # es) \<Longrightarrow> same_links (cells w) c x"
    by (rule draining_head [OF assms(1)], rule that)
  have ev: "ev' = ev" using ev' assms(2) by simp
  note h = h [unfolded ev]
  have j: "j \<le> 9" using settle_le [of "timeout_at ev - now" i] assms(4) by (simp add: j_def)
  obtain c2 p where p: "q_enqueue c (after_queue pq ! j) e = (c2, p)"
    by (cases "q_enqueue c (after_queue pq ! j) e") auto
  let ?w = "set_event (w\<lparr>cells := c2\<rparr>) e (Some (ev\<lparr>in_heap := j AND 0x0F\<rparr>))"
  have run: "drain now i q w pq = drain now i q' ?w (pq\<lparr>after_queue := (after_queue pq)[j := p]\<rparr>)"
    using j len by (subst drain.simps) (simp add: h assms(2,3) queue_at_def p Let_def flip: j_def)
  have out: "e \<notin> set ((xss @ [es]) ! k)" if "k < length (xss @ [es])" for k
    using that h(6,7) len by (auto simp: nth_append less_Suc_eq)
  note enq = que.reps_enq [OF h(5) _ out h(4), of j c2 p]
  have same: "same_links (cells w) c2 x" if "x \<notin> set (concat xss)" "x \<notin> set (e # es)" for x
  proof (rule same_links_trans [OF h(8) [OF that]])
    have "x \<notin> set ((xss @ [es]) ! k)" if "k < length (xss @ [es])" for k
      using in_concat [of k xss x] that \<open>x \<notin> set (concat xss)\<close> \<open>x \<notin> set (e # es)\<close>
      by (cases "k < length xss") (auto simp: nth_append less_Suc_eq simp del: set_concat)
    then show "same_links c c2 x" using enq(2) [of x] p j len that by (simp add: nth_append)
  qed
  have rest: "draining ?w (pq\<lparr>after_queue := (after_queue pq)[j := p]\<rparr>) q' (xss[j := xss ! j @ [e]]) es"
  proof -
    have "que.reps c2 ((after_queue pq)[j := p] @ [q']) (xss[j := xss ! j @ [e]] @ [es])"
      using enq(1) p j len by (simp add: nth_append list_update_append)
    moreover have "marked ?w (xss[j := xss ! j @ [e]])"
      using assms(1,2) h(1,2,7) j len small_and_15 [OF j]
      by (auto simp: draining_def marked_def set_event_def nth_list_update)
    ultimately show ?thesis
      using assms(1) h(6) len by (fastforce simp: draining_def set_event_def)
  qed
  have fields: "events ?w = (events w)(e := Some (ev\<lparr>in_heap := j\<rparr>))" "cells ?w = c2"
    using small_and_15 [OF j] by (simp_all add: set_event_def)
  show ?thesis
    by (rule exI [of _ ?w], rule exI [of _ q'], rule exI [of _ p])
      (use run rest fields same in \<open>simp del: set_concat\<close>)
qed

text \<open>One run of the inner loop ends, and leaves the events spread over the array.\<close>

lemma drain_rep:
  assumes "draining w pq q xss es" and "i \<le> 9"
  shows "\<exists>w' pq'. drain now i q w pq = Some (w', pq')
    \<and> que.reps (cells w') (after_queue pq') (spread (events w) now i es xss)
    \<and> marked w' (spread (events w) now i es xss)
    \<and> after_queue_size pq' = after_queue_size pq - int (length (filter (\<lambda>e. \<not> survives (events w) e) es))
    \<and> last_check_time pq' = last_check_time pq \<and> last_check_buckets pq' = last_check_buckets pq
    \<and> (\<forall>e. e \<notin> set es \<longrightarrow> events w' e = events w e)
    \<and> (\<forall>e \<in> set es. survives (events w) e \<longrightarrow> key (events w' e) = key (events w e))"
  using assms(1)
proof (induction es arbitrary: w pq q xss)
  case Nil
  with draining_done [OF Nil] show ?case by (auto simp: draining_def)
next
  case (Cons e es)
  obtain ev where ev: "events w e = Some ev" and out: "e \<notin> set es"
    using draining_head [OF Cons.prems] by metis
  have upd: "filter (\<lambda>x. \<not> survives E x) es = filter (\<lambda>x. \<not> survives (events w) x) es"
    "\<forall>x \<in> set es. survives E x = survives (events w) x \<and> E x = events w x"
    if "E = (events w)(e := v)" for E v
    using out that by (auto simp: survives_def intro!: filter_cong)
  have other: "\<forall>x. x \<noteq> e \<longrightarrow> E x = events w x" if "E = (events w)(e := v)" for E v
    using that by simp
  show ?case
  proof (cases "cancelled ev")
    case True
    from drain_cancelled [OF Cons.prems ev True] obtain w1 q1 where
      step: "drain now i q w pq = drain now i q1 w1 (pq\<lparr>after_queue_size := after_queue_size pq - 1\<rparr>)"
      and d: "draining w1 (pq\<lparr>after_queue_size := after_queue_size pq - 1\<rparr>) q1 xss es"
      and E: "events w1 = (events w)(e := None)" by blast
    have s: "spread (events w) now i (e # es) xss = spread (events w1) now i es xss"
      using spread_update [OF E out] by (simp add: key_def ev True)
    have ne: "\<not> survives (events w) e" by (simp add: survives_def ev True)
    from Cons.IH [OF d] show ?thesis
      unfolding step s upd(1) [OF E] using upd(2) [OF E] other [OF E] ne out by (fastforce simp: algebra_simps)
  next
    case False
    let ?j = "settle (timeout_at ev - now) i"
    from drain_moved [OF Cons.prems ev False assms(2)] obtain w1 q1 p where
      step: "drain now i q w pq = drain now i q1 w1 (pq\<lparr>after_queue := (after_queue pq)[?j := p]\<rparr>)"
      and d: "draining w1 (pq\<lparr>after_queue := (after_queue pq)[?j := p]\<rparr>) q1 (xss[?j := xss ! ?j @ [e]]) es"
      and E: "events w1 = (events w)(e := Some (ev\<lparr>in_heap := ?j\<rparr>))" by blast
    have s: "spread (events w) now i (e # es) xss = spread (events w1) now i es (xss[?j := xss ! ?j @ [e]])"
      using spread_update [OF E out] by (simp add: key_def ev False Let_def)
    have ne: "survives (events w) e" "key (events w1 e) = key (events w e)"
      by (simp_all add: survives_def ev False key_def E)
    from Cons.IH [OF d] show ?thesis
      unfolding step s upd(1) [OF E] using upd(2) [OF E] other [OF E] ne out by (fastforce simp: algebra_simps)
  qed
qed

text \<open>Elements outside the queues keep their links.\<close>

lemma out_of_push:
  assumes "x \<notin> set (concat xss)" and "x \<noteq> e"
  shows "x \<notin> set (concat (xss[j := xss ! j @ [e]]))"
proof
  assume "x \<in> set (concat (xss[j := xss ! j @ [e]]))"
  then obtain k where "k < length xss" "x \<in> set (xss[j := xss ! j @ [e]] ! k)"
    by (metis concat_elem length_list_update)
  with assms in_concat [of k xss x] show False by (cases "k = j") (auto simp del: set_concat)
qed

lemma drain_same:
  assumes "draining w pq q xss es" and "i \<le> 9" and "drain now i q w pq = Some (w', pq')"
    and "x \<notin> set (concat xss)" and "x \<notin> set es"
  shows "same_links (cells w) (cells w') x"
  using assms(1,3-)
proof (induction es arbitrary: w pq q xss)
  case Nil
  with draining_done(1) [OF Nil.prems(1), of now i] show ?case by simp
next
  case (Cons e es)
  obtain ev where ev: "events w e = Some ev" using draining_head [OF Cons.prems(1)] by metis
  show ?case
  proof (cases "cancelled ev")
    case True
    from drain_cancelled [OF Cons.prems(1) ev True] obtain w1 q1 pq1 where
      "drain now i q w pq = drain now i q1 w1 pq1" "draining w1 pq1 q1 xss es" "same_links (cells w) (cells w1) x"
      using Cons.prems(3,4) by blast
    with Cons.IH [of w1 pq1 q1 xss] Cons.prems(2-4) show ?thesis
      by (auto intro: same_links_trans)
  next
    case False
    let ?xss = "xss[settle (timeout_at ev - now) i := xss ! settle (timeout_at ev - now) i @ [e]]"
    from drain_moved [OF Cons.prems(1) ev False assms(2)] obtain w1 q1 pq1 where
      "drain now i q w pq = drain now i q1 w1 pq1" "draining w1 pq1 q1 ?xss es" "same_links (cells w) (cells w1) x"
      using Cons.prems(3,4) by blast
    moreover have "x \<notin> set (concat ?xss)" using Cons.prems(3,4) by (intro out_of_push) simp_all
    ultimately show ?thesis
      using Cons.IH [of w1 pq1 q1 ?xss] Cons.prems(2,4) by (auto intro: same_links_trans simp del: set_concat)
  qed
qed

text \<open>Cancelled elements are freed.\<close>

lemma drain_frees:
  assumes "draining w pq q xss es" and "i \<le> 9" and "drain now i q w pq = Some (w', pq')"
    and "x \<in> set es" and "\<not> survives (events w) x"
  shows "events w' x = None"
  using assms(1,3-)
proof (induction es arbitrary: w pq q xss)
  case Nil
  then show ?case by simp
next
  case (Cons e es)
  obtain ev where ev: "events w e = Some ev" and out: "e \<notin> set es"
    using draining_head [OF Cons.prems(1)] by metis
  have other: "survives E x = survives (events w) x" if "E = (events w)(e := v)" "x \<noteq> e" for E v
    using that by (simp add: survives_def)
  show ?case
  proof (cases "cancelled ev")
    case True
    from drain_cancelled [OF Cons.prems(1) ev True] obtain w1 q1 pq1 where
      step: "drain now i q w pq = drain now i q1 w1 pq1" "draining w1 pq1 q1 xss es"
      and E: "events w1 = (events w)(e := None)" by blast
    show ?thesis
    proof (cases "x = e")
      case True
      from drain_rep [OF step(2) assms(2), of now] Cons.prems(2) step(1) out E True show ?thesis by auto
    next
      case False
      with Cons.IH [OF step(2)] Cons.prems(2-4) step(1) other [OF E] show ?thesis by simp
    qed
  next
    case False
    let ?xss = "xss[settle (timeout_at ev - now) i := xss ! settle (timeout_at ev - now) i @ [e]]"
    from drain_moved [OF Cons.prems(1) ev False assms(2)] obtain w1 q1 pq1 where
      step: "drain now i q w pq = drain now i q1 w1 pq1" "draining w1 pq1 q1 ?xss es"
      and E: "events w1 = (events w)(e := Some (ev\<lparr>in_heap := settle (timeout_at ev - now) i\<rparr>))" by blast
    have "x \<noteq> e" using Cons.prems(4) ev False by (auto simp: survives_def)
    with Cons.IH [OF step(2)] Cons.prems(2-4) step(1) other [OF E] show ?thesis by simp
  qed
qed

lemma survives_key: "key (E' e) = key (E e) \<Longrightarrow> survives E' e = survives E e"
  by (auto simp: key_def survives_def split: option.splits)

lemma spread_mset:
  assumes "\<forall>e \<in> set es. E e \<noteq> None" and "i < length xss"
  shows "mset (concat (spread E now i es xss)) = mset (concat xss) + mset (filter (survives E) es)"
  using assms
proof (induction es arbitrary: xss)
  case Nil
  then show ?case by simp
next
  case (Cons e es)
  then obtain ev where ev: "E e = Some ev" by auto
  have "settle (timeout_at ev - now) i < length xss"
    using settle_le [of "timeout_at ev - now" i] Cons.prems(2) by simp
  with Cons ev mset_concat_push [OF this, of e] show ?case
    by (auto simp: key_def survives_def Let_def)
qed

text \<open>An event that \<open>spread\<close> moves is not cancelled, and ends where \<open>settle\<close> puts it.\<close>

definition settled :: "(addr \<Rightarrow> event option) \<Rightarrow> int \<Rightarrow> nat \<Rightarrow> nat \<Rightarrow> addr \<Rightarrow> bool" where
  "settled E now i j e = (\<exists>ev. E e = Some ev \<and> \<not> cancelled ev \<and> j = settle (timeout_at ev - now) i)"

lemma spread_in:
  assumes "e \<in> set (spread E now i es xss ! j)" and "j < length xss" and "i < length xss"
  shows "e \<in> set (xss ! j) \<or> (e \<in> set es \<and> settled E now i j e)"
  using assms
proof (induction es arbitrary: xss)
  case Nil
  then show ?case by simp
next
  case (Cons x es)
  show ?case
  proof (cases "E x")
    case None
    with Cons.prems show ?thesis by (simp add: key_def)
  next
    case (Some ev)
    let ?k = "settle (timeout_at ev - now) i"
    let ?xss = "if cancelled ev then xss else xss[?k := xss ! ?k @ [x]]"
    have k: "?k < length xss" using settle_le [of "timeout_at ev - now" i] Cons.prems(3) by simp
    have "e \<in> set (spread E now i es ?xss ! j)"
      using Cons.prems(1) Some by (simp add: key_def Let_def split: if_splits)
    with Cons.IH [of ?xss] Cons.prems(2,3)
    have "e \<in> set (?xss ! j) \<or> (e \<in> set es \<and> settled E now i j e)" by simp
    moreover have "e \<in> set (?xss ! j) \<Longrightarrow> e \<in> set (xss ! j) \<or> (e = x \<and> settled E now i j e)"
      using k Some by (auto simp: settled_def nth_list_update split: if_splits)
    ultimately show ?thesis by auto
  qed
qed

lemma filter_lengths: "length xs = length (filter P xs) + length (filter (\<lambda>x. \<not> P x) xs)"
  by (induction xs) auto

text \<open>The queues \<open>is\<close> emptied and spread one after the other.\<close>

fun resweep :: "(addr \<Rightarrow> event option) \<Rightarrow> int \<Rightarrow> nat list \<Rightarrow> addr list list \<Rightarrow> addr list list" where
  "resweep E now [] xss = xss"
| "resweep E now (i # is) xss = resweep E now is (spread E now i (xss ! i) (xss[i := []]))"

lemma length_resweep [simp]: "length (resweep E now is xss) = length xss"
  by (induction "is" arbitrary: xss) simp_all

lemma spread_one_mset:
  assumes "\<forall>e \<in> set (concat xss). E e \<noteq> None" and "i < length xss"
  shows "mset (concat (spread E now i (xss ! i) (xss[i := []]))) + mset (filter (\<lambda>e. \<not> survives E e) (xss ! i))
    = mset (concat xss)"
proof -
  have "\<forall>e \<in> set (xss ! i). E e \<noteq> None" using assms(1) in_concat [OF assms(2)] by (intro ballI) metis
  then have "mset (concat (spread E now i (xss ! i) (xss[i := []])))
      = mset (concat (xss[i := []])) + mset (filter (survives E) (xss ! i))"
    using assms(2) by (intro spread_mset) simp_all
  moreover have "mset (filter (survives E) (xss ! i)) + mset (filter (\<lambda>e. \<not> survives E e) (xss ! i)) = mset (xss ! i)"
    by (simp add: multiset_partition [symmetric])
  ultimately show ?thesis
    using mset_concat_upd [OF assms(2), of "[]"] by (simp add: add.assoc)
qed

lemma spread_one_subset:
  assumes "\<forall>e \<in> set (concat xss). E e \<noteq> None" and "i < length xss"
  shows "set (concat (spread E now i (xss ! i) (xss[i := []]))) \<subseteq> set (concat xss)"
  using spread_one_mset [OF assms, of now] by (metis set_mset_mset set_mset_union Un_upper1)

lemma resweep_cong:
  assumes "\<forall>e \<in> set (concat xss). key (E' e) = key (E e) \<and> E e \<noteq> None" and "\<forall>i \<in> set is. i < length xss"
  shows "resweep E' now is xss = resweep E now is xss"
  using assms
proof (induction "is" arbitrary: xss)
  case Nil
  then show ?case by simp
next
  case (Cons i "is")
  have i: "i < length xss" using Cons.prems(2) by simp
  have "spread E' now i (xss ! i) (xss[i := []]) = spread E now i (xss ! i) (xss[i := []])"
    using Cons.prems(1) in_concat [OF i] by (intro spread_cong) blast
  moreover have "set (concat (spread E now i (xss ! i) (xss[i := []]))) \<subseteq> set (concat xss)"
    using Cons.prems(1) i by (intro spread_one_subset) auto
  then have "resweep E' now is (spread E now i (xss ! i) (xss[i := []]))
      = resweep E now is (spread E now i (xss ! i) (xss[i := []]))"
    using Cons.prems by (intro Cons.IH) auto
  ultimately show ?case by simp
qed

lemma pq_rep_events:
  "pq_rep w pq xss \<Longrightarrow> e \<in> set (concat xss) \<Longrightarrow> events w e \<noteq> None"
  by (fastforce simp: pq_rep_def marked_def in_set_conv_nth)

text \<open>One queue is emptied and spread.\<close>

lemma sweep_step:
  fixes now :: int
  assumes "pq_rep w pq xss" and "i \<le> 9"
  defines "xss' \<equiv> spread (events w) now i (xss ! i) (xss[i := []])"
  shows "\<exists>q w' pq'. queue_at pq i = Some q
    \<and> drain now i q w (pq\<lparr>after_queue := (after_queue pq)[i := q_reset]\<rparr>) = Some (w', pq')
    \<and> pq_rep w' pq' xss'
    \<and> last_check_time pq' = last_check_time pq \<and> last_check_buckets pq' = last_check_buckets pq
    \<and> (\<forall>e \<in> set (concat xss'). key (events w' e) = key (events w e))
    \<and> (\<forall>e. e \<notin> set (concat xss) \<longrightarrow> events w' e = events w e \<and> same_links (cells w) (cells w') e)
    \<and> (\<forall>e \<in> set (concat xss). e \<notin> set (concat xss') \<longrightarrow> events w' e = None)"
proof -
  from assms(1) have len: "length xss = 10" and reps: "que.reps (cells w) (after_queue pq) xss"
    and mk: "marked w xss" and size: "after_queue_size pq = int (length (concat xss))"
    by (simp_all add: pq_rep_def PQ_LIST_COUNT_def)
  have i: "i < length xss" "i < length (after_queue pq)"
    using assms(2) len que.reps_length [OF reps] by simp_all
  let ?q = "after_queue pq ! i" and ?pq = "pq\<lparr>after_queue := (after_queue pq)[i := q_reset]\<rparr>"
  have dr: "draining w ?pq ?q (xss[i := []]) (xss ! i)"
    using que.reps_take [OF reps i(1)] len i mk
    by (auto simp: draining_def marked_def nth_list_update)
  from drain_rep [OF dr assms(2), of now] obtain w' pq' where d:
    "drain now i ?q w ?pq = Some (w', pq')" "que.reps (cells w') (after_queue pq') xss'" "marked w' xss'"
    "after_queue_size pq' = after_queue_size pq - int (length (filter (\<lambda>e. \<not> survives (events w) e) (xss ! i)))"
    "last_check_time pq' = last_check_time pq" "last_check_buckets pq' = last_check_buckets pq"
    "\<forall>e. e \<notin> set (xss ! i) \<longrightarrow> events w' e = events w e"
    "\<forall>e \<in> set (xss ! i). survives (events w) e \<longrightarrow> key (events w' e) = key (events w e)"
    unfolding xss'_def by auto
  have some: "\<forall>e \<in> set (concat xss). events w e \<noteq> None" using pq_rep_events [OF assms(1)] by blast
  note m = spread_one_mset [OF some i(1), of now, folded xss'_def]
  have "length (concat xss') + length (filter (\<lambda>e. \<not> survives (events w) e) (xss ! i)) = length (concat xss)"
    using arg_cong [OF m, of size] by (simp only: size_union size_mset)
  then have "pq_rep w' pq' xss'"
    using d(2-4) size len by (simp add: pq_rep_def PQ_LIST_COUNT_def xss'_def)
  have some_i: "\<forall>e \<in> set (xss ! i). events w e \<noteq> None" using some in_concat [OF i(1)] by blast
  have "mset (concat xss') = mset (concat (xss[i := []])) + mset (filter (survives (events w)) (xss ! i))"
    unfolding xss'_def using i(1) by (intro spread_mset [OF some_i]) simp
  from arg_cong [OF this, of set_mset]
  have in_xss': "e \<in> set (concat xss') \<longleftrightarrow>
      e \<in> set (concat (xss[i := []])) \<or> e \<in> set (filter (survives (events w)) (xss ! i))" for e
    by (simp only: set_mset_mset set_mset_union Un_iff)
  note \<open>pq_rep w' pq' xss'\<close>
  moreover have "key (events w' e) = key (events w e)" if "e \<in> set (concat xss')" for e
  proof (cases "e \<in> set (xss ! i)")
    case True
    from that have "e \<in> set (concat (xss[i := []])) \<or> e \<in> set (filter (survives (events w)) (xss ! i))"
      unfolding in_xss' .
    then have "e \<in> set (concat (xss[i := []])) \<or> survives (events w) e" by (simp only: set_filter) blast
    moreover have "e \<notin> set (concat (xss[i := []]))"
    proof
      assume "e \<in> set (concat (xss[i := []]))"
      then obtain k where "k < length xss" "e \<in> set (xss[i := []] ! k)" by (metis concat_elem length_list_update)
      then have "k < length xss" "k \<noteq> i" "e \<in> set (xss ! k)" using i(1) by (auto simp: nth_list_update split: if_splits)
      with True que.reps_disjoint [OF reps i(1), of k] show False by blast
    qed
    ultimately have "survives (events w) e" by blast
    with True d(8) show ?thesis by blast
  next
    case False
    with d(7) show ?thesis by simp
  qed
  moreover have "events w' e = events w e \<and> same_links (cells w) (cells w') e" if "e \<notin> set (concat xss)" for e
  proof -
    have "e \<notin> set (xss ! i)" using in_concat [OF i(1)] that by blast
    moreover have "e \<notin> set (concat (xss[i := []]))"
      using that i(1) in_concat [of _ xss e] concat_elem [of e "xss[i := []]"]
      by (metis length_list_update list.set(1) empty_iff nth_list_update)
    ultimately show ?thesis using d(7) drain_same [OF dr assms(2) d(1)] by blast
  qed
  moreover have "events w' e = None" if e: "e \<in> set (concat xss)" and gone: "e \<notin> set (concat xss')" for e
  proof -
    from gone have "e \<notin> set (concat (xss[i := []]))" "e \<in> set (xss ! i) \<longrightarrow> \<not> survives (events w) e"
      unfolding in_xss' by auto
    moreover obtain k where k: "k < length xss" "e \<in> set (xss ! k)" using concat_elem [OF e] by blast
    ultimately have "e \<in> set (xss ! i)" using in_concat [of k "xss[i := []]" e] by (cases "k = i") auto
    with drain_frees [OF dr assms(2) d(1)] \<open>e \<in> set (xss ! i) \<longrightarrow> \<not> survives (events w) e\<close> show ?thesis by blast
  qed
  ultimately show ?thesis using d(1,5,6) i(2) by (auto simp: queue_at_def simp del: set_concat)
qed

lemma resweep_subset:
  assumes "\<forall>e \<in> set (concat xss). E e \<noteq> None" and "\<forall>i \<in> set is. i < length xss"
  shows "set (concat (resweep E now is xss)) \<subseteq> set (concat xss)"
  using assms
proof (induction "is" arbitrary: xss)
  case Nil
  then show ?case by simp
next
  case (Cons i "is")
  let ?xss = "spread E now i (xss ! i) (xss[i := []])"
  have sub: "set (concat ?xss) \<subseteq> set (concat xss)" using Cons.prems by (intro spread_one_subset) simp_all
  have "set (concat (resweep E now is ?xss)) \<subseteq> set (concat ?xss)"
    using sub Cons.prems by (intro Cons.IH) (blast, simp)
  with sub show ?case by simp
qed

text \<open>All of the redistribution: it ends, and leaves the events where \<open>resweep\<close> says.\<close>

lemma sweep_rep:
  assumes "pq_rep w pq xss" and "\<forall>i \<in> set is. i \<le> 9"
  shows "\<exists>w' pq'. sweep now is w pq = Some (w', pq') \<and> pq_rep w' pq' (resweep (events w) now is xss)
    \<and> last_check_time pq' = last_check_time pq \<and> last_check_buckets pq' = last_check_buckets pq
    \<and> (\<forall>e \<in> set (concat (resweep (events w) now is xss)). key (events w' e) = key (events w e))
    \<and> (\<forall>e. e \<notin> set (concat xss) \<longrightarrow> events w' e = events w e \<and> same_links (cells w) (cells w') e)
    \<and> (\<forall>e \<in> set (concat xss). e \<notin> set (concat (resweep (events w) now is xss)) \<longrightarrow> events w' e = None)"
  using assms
proof (induction "is" arbitrary: w pq xss)
  case Nil
  then show ?case by simp
next
  case (Cons i "is")
  let ?x1 = "spread (events w) now i (xss ! i) (xss[i := []])"
  have i: "i \<le> 9" "i < length xss" using Cons.prems by (auto simp: pq_rep_def PQ_LIST_COUNT_def)
  have some: "\<forall>e \<in> set (concat xss). events w e \<noteq> None" using pq_rep_events [OF Cons.prems(1)] by blast
  have len: "\<forall>k \<in> set is. k < length ?x1" using Cons.prems by (auto simp: pq_rep_def PQ_LIST_COUNT_def)
  note sub = spread_one_subset [OF some i(2), of now]
  from sweep_step [OF Cons.prems(1) i(1), of now] obtain q w1 pq1 where s1:
    "queue_at pq i = Some q" "drain now i q w (pq\<lparr>after_queue := (after_queue pq)[i := q_reset]\<rparr>) = Some (w1, pq1)"
    "pq_rep w1 pq1 ?x1" "last_check_time pq1 = last_check_time pq" "last_check_buckets pq1 = last_check_buckets pq"
    "\<forall>e \<in> set (concat ?x1). key (events w1 e) = key (events w e)"
    "\<forall>e. e \<notin> set (concat xss) \<longrightarrow> events w1 e = events w e \<and> same_links (cells w) (cells w1) e"
    "\<forall>e \<in> set (concat xss). e \<notin> set (concat ?x1) \<longrightarrow> events w1 e = None"
    by blast
  have r: "resweep (events w1) now is ?x1 = resweep (events w) now is ?x1"
    using s1(6) some sub len by (intro resweep_cong) blast+
  have sub2: "set (concat (resweep (events w) now is ?x1)) \<subseteq> set (concat ?x1)"
    using some sub len by (intro resweep_subset) blast+
  from Cons.IH [OF s1(3)] Cons.prems(2) obtain w2 pq2 where s2:
    "sweep now is w1 pq1 = Some (w2, pq2)" "pq_rep w2 pq2 (resweep (events w) now is ?x1)"
    "last_check_time pq2 = last_check_time pq1" "last_check_buckets pq2 = last_check_buckets pq1"
    "\<forall>e \<in> set (concat (resweep (events w) now is ?x1)). key (events w2 e) = key (events w1 e)"
    "\<forall>e. e \<notin> set (concat ?x1) \<longrightarrow> events w2 e = events w1 e \<and> same_links (cells w1) (cells w2) e"
    "\<forall>e \<in> set (concat ?x1). e \<notin> set (concat (resweep (events w) now is ?x1)) \<longrightarrow> events w2 e = None"
    unfolding r by (auto simp del: set_concat)
  have "\<forall>e \<in> set (concat (resweep (events w) now is ?x1)). key (events w2 e) = key (events w e)"
  proof
    fix e assume e: "e \<in> set (concat (resweep (events w) now is ?x1))"
    then have "e \<in> set (concat ?x1)" using sub2 by blast
    then have "key (events w1 e) = key (events w e)" using s1(6) by blast
    moreover have "key (events w2 e) = key (events w1 e)" using e s2(5) by blast
    ultimately show "key (events w2 e) = key (events w e)" by simp
  qed
  moreover have "\<forall>e. e \<notin> set (concat xss) \<longrightarrow> events w2 e = events w e \<and> same_links (cells w) (cells w2) e"
  proof (intro allI impI)
    fix e assume out: "e \<notin> set (concat xss)"
    then have "e \<notin> set (concat ?x1)" using sub by blast
    with out s1(7) s2(6) have "events w2 e = events w e" "same_links (cells w) (cells w1) e"
      "same_links (cells w1) (cells w2) e" by (simp_all del: set_concat)
    then show "events w2 e = events w e \<and> same_links (cells w) (cells w2) e"
      using same_links_trans by blast
  qed
  moreover have "\<forall>e \<in> set (concat xss). e \<notin> set (concat (resweep (events w) now is ?x1)) \<longrightarrow> events w2 e = None"
    using s1(8) s2(6,7) by metis
  ultimately show ?case using s1(1,2,4,5) s2(1-4) by (simp del: set_concat)
qed

text \<open>Live events are neither lost nor doubled.\<close>

lemma filter_survivors:
  "filter (survives E) (filter (\<lambda>e. \<not> survives E e) es) = []"
  by (simp add: filter_empty_conv)

lemma resweep_survivors:
  assumes "\<forall>e \<in> set (concat xss). E e \<noteq> None" and "\<forall>i \<in> set is. i < length xss"
  shows "filter_mset (survives E) (mset (concat (resweep E now is xss)))
    = filter_mset (survives E) (mset (concat xss))"
  using assms
proof (induction "is" arbitrary: xss)
  case Nil
  then show ?case by simp
next
  case (Cons i "is")
  let ?xss = "spread E now i (xss ! i) (xss[i := []])"
  have i: "i < length xss" using Cons.prems(2) by simp
  have "filter_mset (survives E) (mset (concat ?xss))
      = filter_mset (survives E) (mset (concat ?xss) + mset (filter (\<lambda>e. \<not> survives E e) (xss ! i)))"
    by (simp add: filter_survivors flip: mset_filter)
  also have "\<dots> = filter_mset (survives E) (mset (concat xss))"
    unfolding spread_one_mset [OF Cons.prems(1) i] ..
  finally have "filter_mset (survives E) (mset (concat ?xss)) = filter_mset (survives E) (mset (concat xss))" .
  moreover have "filter_mset (survives E) (mset (concat (resweep E now is ?xss)))
      = filter_mset (survives E) (mset (concat ?xss))"
    using spread_one_subset [OF Cons.prems(1) i, of now] Cons.prems by (intro Cons.IH) (blast, simp)
  ultimately show ?case by simp
qed

text \<open>Where an event is afterwards: untouched in a queue that was not redistributed, or settled.\<close>

lemma resweep_pos:
  assumes "e \<in> set (resweep E now is xss ! j)" and "j < length xss" and "\<forall>i \<in> set is. i < length xss"
  shows "(j \<notin> set is \<and> e \<in> set (xss ! j)) \<or> (\<exists>i \<in> set is. settled E now i j e)"
  using assms
proof (induction "is" arbitrary: xss)
  case Nil
  then show ?case by simp
next
  case (Cons i "is")
  let ?xss = "spread E now i (xss ! i) (xss[i := []])"
  have i: "i < length xss" using Cons.prems(3) by simp
  from Cons.IH [of ?xss] Cons.prems
  consider "j \<notin> set is" "e \<in> set (?xss ! j)" | "\<exists>i \<in> set is. settled E now i j e" by auto
  then show ?case
  proof cases
    case 1
    with spread_in [OF 1(2)] i Cons.prems(2) show ?thesis by (cases "j = i") auto
  next
    case 2
    then show ?thesis by auto
  qed
qed

section \<open>Check for ready events\<close>

lemma mask_9: "push_bit 9 1 - 1 = (mask 9 :: 64 word)"
  by (simp add: mask_eq_exp_minus_1 push_bit_eq_mult)

lemma todo_bound: "unat (todo_buckets now prev) < 2 ^ 9"
proof -
  have "todo_buckets now prev = take_bit 9 (word_of_int (now sdiv PQ_BUCKET_TIME 0) XOR prev)"
    unfolding todo_buckets_def PQ_LIST_COUNT_def by (simp add: take_bit_eq_mask mask_eq_exp_minus_1)
  then show ?thesis
    using take_bit_nat_less_exp [of 9] by (simp add: unsigned_take_bit_eq del: take_bit_xor)
qed

lemma count_todo: "count_bits (todo_buckets now prev) 0 \<le> 9"
proof (rule ccontr)
  let ?k = "count_bits (todo_buckets now prev) 0"
  assume "\<not> ?k \<le> 9"
  then have "9 \<le> ?k - 1" "0 < ?k" by simp_all
  then have "(2 :: nat) ^ 9 \<le> 2 ^ (?k - 1)" by (intro power_increasing) simp_all
  with \<open>0 < ?k\<close> count_bits_eq [where x = "todo_buckets now prev" and k = 0] todo_bound [of now prev] show False by simp
qed

text \<open>\<open>check_ready\<close> always returns.\<close>

lemma check_ready_rep:
  fixes now :: int
  assumes "pq_rep w pq xss"
  defines "k \<equiv> count_bits (todo_buckets now (last_check_buckets pq)) 0"
  defines "xss' \<equiv> resweep (events w) now [1..<k + 1] xss"
  shows "\<exists>w' pq'. check_ready w pq now = Some (w', pq') \<and> pq_rep w' pq' xss'
    \<and> last_check_time pq' = now \<and> last_check_buckets pq' = word_of_int (now sdiv PQ_BUCKET_TIME 0)
    \<and> (\<forall>e \<in> set (concat xss'). key (events w' e) = key (events w e))
    \<and> (\<forall>e. e \<notin> set (concat xss) \<longrightarrow> events w' e = events w e \<and> same_links (cells w) (cells w') e)
    \<and> (\<forall>e \<in> set (concat xss). e \<notin> set (concat xss') \<longrightarrow> events w' e = None)"
proof -
  let ?pq = "pq\<lparr>last_check_time := now, last_check_buckets := word_of_int (now sdiv PQ_BUCKET_TIME 0)\<rparr>"
  have "pq_rep w ?pq xss" using assms(1) by (simp add: pq_rep_def)
  moreover have "\<forall>i \<in> set [1..<k + 1]. i \<le> 9"
    using count_todo [of now "last_check_buckets pq"] by (auto simp: k_def)
  ultimately show ?thesis
    using sweep_rep [of w ?pq xss "[1..<k + 1]" now] unfolding check_ready_def xss'_def k_def Let_def by simp
qed

section \<open>Nothing due is overlooked\<close>

text \<open>The two times agree above bit \<open>k\<close> when no bit from \<open>k\<close> on is to do.\<close>

lemma nat_bit_bound: "bit (m :: nat) n \<Longrightarrow> 2 ^ n \<le> m"
  by (rule ccontr) (simp add: bit_iff_odd)

lemma todo_agree:
  assumes "unat (todo_buckets now (word_of_int a)) < 2 ^ k" and "0 \<le> now"
  shows "take_bit 9 a div 2 ^ k = take_bit 9 (now div PQ_BUCKET_TIME 0) div 2 ^ k"
proof -
  let ?t = "todo_buckets now (word_of_int a)" and ?b = "now div PQ_BUCKET_TIME 0"
  have b: "now sdiv PQ_BUCKET_TIME 0 = ?b"
    using assms(2) by (simp add: signed_divide_int_def PQ_BUCKET_TIME_eq sgn_if)
  have t: "bit ?t n \<longleftrightarrow> n < 9 \<and> bit a n \<noteq> bit ?b n" for n
    unfolding todo_buckets_def PQ_LIST_COUNT_def b
    by (auto simp: bit_simps mask_9 bit_mask_iff simp del: push_bit_of_1)
  have "\<not> bit ?t n" if "k \<le> n" for n
  proof
    assume "bit ?t n"
    then have "2 ^ n \<le> unat ?t" by (intro nat_bit_bound) (simp add: bit_unsigned_iff)
    moreover have "(2 :: nat) ^ k \<le> 2 ^ n" using that by (rule power_increasing) simp
    ultimately show False using assms(1) by simp
  qed
  then have "drop_bit k (take_bit 9 a) = drop_bit k (take_bit 9 ?b)"
    by (intro bit_eqI) (auto simp: bit_simps t)
  then show ?thesis by (simp add: drop_bit_eq_div)
qed

lemma high_agree:
  fixes a b :: int
  assumes "take_bit 9 a div 2 ^ k = take_bit 9 b div 2 ^ k" and "k \<le> 8" and "a \<le> b" and "b - a \<le> 256"
  shows "a div 2 ^ k = b div 2 ^ k"
proof -
  have "(2 :: int) ^ k \<le> 2 ^ 8" using assms(2) by (intro power_increasing) simp_all
  then have p: "(2 :: int) ^ k \<le> 256" by simp
  have "b mod 512 - a mod 512 < 2 ^ k" "a mod 512 - b mod 512 < 2 ^ k"
  proof -
    have "x - y < 2 ^ k" if "x div 2 ^ k = y div 2 ^ k" for x y :: int
    proof -
      have "x = 2 ^ k * (x div 2 ^ k) + x mod 2 ^ k" by simp
      moreover have "y = 2 ^ k * (x div 2 ^ k) + y mod 2 ^ k" unfolding that by simp
      moreover have "x mod 2 ^ k < 2 ^ k" "0 \<le> y mod 2 ^ k" by simp_all
      ultimately show ?thesis by linarith
    qed
    from this [of "b mod 512" "a mod 512"] this [of "a mod 512" "b mod 512"] assms(1)
    show "b mod 512 - a mod 512 < 2 ^ k" "a mod 512 - b mod 512 < 2 ^ k" by (simp_all add: take_bit_eq_mod)
  qed
  moreover have "a = 512 * (a div 512) + a mod 512" "b = 512 * (b div 512) + b mod 512" by simp_all
  ultimately have q: "a div 512 = b div 512" using assms(3,4) p by linarith
  have parts: "c div 2 ^ k = 2 ^ (9 - k) * (c div 512) + (c mod 512) div 2 ^ k" for c :: int
  proof -
    have p: "(2 :: int) ^ (9 - k) * 2 ^ k = 512" using assms(2) by (simp flip: power_add)
    have e: "(2 ^ (9 - k) * (c div 512)) * 2 ^ k = 512 * (c div 512)"
      unfolding p [symmetric] by (simp only: ac_simps)
    have c: "c mod 512 + (2 ^ (9 - k) * (c div 512)) * 2 ^ k = c" unfolding e by simp
    have "(c mod 512 + (2 ^ (9 - k) * (c div 512)) * 2 ^ k) div 2 ^ k
        = 2 ^ (9 - k) * (c div 512) + c mod 512 div 2 ^ k" by (rule div_mult_self1) simp
    then show ?thesis unfolding c .
  qed
  have r: "a mod 512 div 2 ^ k = b mod 512 div 2 ^ k" using assms(1) by (simp add: take_bit_eq_mod)
  show ?thesis unfolding parts [of a] parts [of b] q r ..
qed

text \<open>Every event outside the first queue is due in a later period of its queue than the last check.\<close>

definition placed :: "world \<Rightarrow> int \<Rightarrow> addr list list \<Rightarrow> bool" where
  "placed w t xss = (\<forall>j e ev. 0 < j \<longrightarrow> j < 10 \<longrightarrow> e \<in> set (xss ! j) \<longrightarrow> events w e = Some ev \<longrightarrow>
     t div PQ_BUCKET_TIME (j - 1) < timeout_at ev div PQ_BUCKET_TIME (j - 1))"

lemma period_pos: "0 < PQ_BUCKET_TIME i"
  by (simp add: PQ_BUCKET_TIME_eq)

lemma later_period: "PQ_BUCKET_TIME i < d - t \<Longrightarrow> t' \<le> t \<Longrightarrow> t' div PQ_BUCKET_TIME i < d div PQ_BUCKET_TIME i"
proof -
  assume a: "PQ_BUCKET_TIME i < d - t" "t' \<le> t"
  have "t' div PQ_BUCKET_TIME i < (t' + PQ_BUCKET_TIME i) div PQ_BUCKET_TIME i"
    using period_pos [of i] div_add_self2 [of "PQ_BUCKET_TIME i" t'] by simp
  also have "\<dots> \<le> d div PQ_BUCKET_TIME i" using a period_pos [of i] by (intro zdiv_mono1) simp_all
  finally show ?thesis .
qed

lemma placed_not_due:
  "placed w t xss \<Longrightarrow> 0 < j \<Longrightarrow> j < 10 \<Longrightarrow> e \<in> set (xss ! j) \<Longrightarrow> events w e = Some ev \<Longrightarrow> t < timeout_at ev"
  unfolding placed_def by (metis zdiv_mono1 not_less period_pos)

lemma key_timeout:
  "key (E' e) = key (E e) \<Longrightarrow> E' e = Some ev' \<Longrightarrow>
     \<exists>ev. E e = Some ev \<and> timeout_at ev = timeout_at ev' \<and> cancelled ev = cancelled ev'"
  by (cases "E e") (auto simp: key_def)

lemma period_split: "t div PQ_BUCKET_TIME i = t div PQ_BUCKET_TIME 0 div 2 ^ i"
  by (simp add: PQ_BUCKET_TIME_eq zdiv_zmult2_eq [symmetric] mult.commute)

text \<open>A queue that is not redistributed is still in the same period.\<close>

lemma same_period:
  assumes "0 \<le> a" and "a \<le> now" and "now div PQ_BUCKET_TIME 0 - a div PQ_BUCKET_TIME 0 \<le> 256"
    and "count_bits (todo_buckets now (word_of_int (a sdiv PQ_BUCKET_TIME 0))) 0 = k"
    and "k < j" and "j < 10"
  shows "a div PQ_BUCKET_TIME (j - 1) = now div PQ_BUCKET_TIME (j - 1)"
proof -
  let ?a = "a div PQ_BUCKET_TIME 0" and ?b = "now div PQ_BUCKET_TIME 0"
  have s: "a sdiv PQ_BUCKET_TIME 0 = ?a"
    using assms(1) by (simp add: signed_divide_int_def PQ_BUCKET_TIME_eq sgn_if)
  have "unat (todo_buckets now (word_of_int ?a)) < 2 ^ k"
    using assms(4) count_bits_eq [where x = "todo_buckets now (word_of_int ?a)" and k = 0] unfolding s by simp
  from todo_agree [OF this] assms(1,2)
  have "take_bit 9 ?a div 2 ^ k = take_bit 9 ?b div 2 ^ k" by simp
  moreover have "?a \<le> ?b" using assms(2) period_pos [of 0] by (intro zdiv_mono1)
  moreover have "k \<le> 8" using assms(5,6) by simp
  ultimately have "?a div 2 ^ k = ?b div 2 ^ k" using high_agree assms(3) by blast
  moreover have "t div PQ_BUCKET_TIME (j - 1) = t div PQ_BUCKET_TIME 0 div 2 ^ k div 2 ^ (j - 1 - k)" for t
  proof -
    have "(2 :: int) ^ (j - 1) = 2 ^ k * 2 ^ (j - 1 - k)" using assms(5) by (simp flip: power_add)
    then show ?thesis by (subst period_split) (simp add: zdiv_zmult2_eq)
  qed
  ultimately show ?thesis by simp
qed

lemma check_ready_placed:
  fixes now :: int
  assumes "pq_rep w pq xss" and "placed w a xss" and "0 \<le> a" and "a \<le> now"
    and "last_check_buckets pq = word_of_int (a sdiv PQ_BUCKET_TIME 0)"
    and "now div PQ_BUCKET_TIME 0 - a div PQ_BUCKET_TIME 0 \<le> 256"
  defines "k \<equiv> count_bits (todo_buckets now (last_check_buckets pq)) 0"
  defines "xss' \<equiv> resweep (events w) now [1..<k + 1] xss"
  assumes keys: "\<forall>e \<in> set (concat xss'). key (events w' e) = key (events w e)"
  shows "placed w' now xss'"
  unfolding placed_def
proof (intro allI impI)
  fix j e ev' assume j: "0 < j" "j < 10" and e: "e \<in> set (xss' ! j)" and ev': "events w' e = Some ev'"
  have len: "length xss = 10" using assms(1) by (simp add: pq_rep_def PQ_LIST_COUNT_def)
  have k: "k \<le> 9" using count_todo by (simp add: k_def)
  have "key (events w' e) = key (events w e)"
    using keys in_concat [of j xss' e] e j len by (simp add: xss'_def del: set_concat)
  from key_timeout [of "events w'" e "events w", OF this ev'] obtain ev where ev: "events w e = Some ev" "timeout_at ev = timeout_at ev'" by blast
  have "\<forall>i \<in> set [1..<k + 1]. i < length xss" using k len by auto
  from resweep_pos [OF e [unfolded xss'_def] _ this] j len
  consider "j \<notin> set [1..<k + 1]" "e \<in> set (xss ! j)" | i where "settled (events w) now i j e" by auto
  then show "now div PQ_BUCKET_TIME (j - 1) < timeout_at ev' div PQ_BUCKET_TIME (j - 1)"
  proof cases
    case 1
    have "a div PQ_BUCKET_TIME (j - 1) < timeout_at ev div PQ_BUCKET_TIME (j - 1)"
      using assms(2) j 1(2) ev(1) unfolding placed_def by blast
    moreover have "k < j" by (rule ccontr) (use 1(1) j in simp)
    from same_period [OF assms(3,4,6) _ this j(2)] assms(5)
    have "a div PQ_BUCKET_TIME (j - 1) = now div PQ_BUCKET_TIME (j - 1)" by (simp add: k_def)
    ultimately show ?thesis using ev(2) by simp
  next
    case 2
    then have "j = settle (timeout_at ev - now) i" using ev(1) by (auto simp: settled_def)
    then have "PQ_BUCKET_TIME (j - 1) < timeout_at ev' - now"
      using settle_width [of "timeout_at ev - now" i] j(1) ev(2) by simp
    then show ?thesis by (rule later_period) simp
  qed
qed

text \<open>When the clock has moved by a multiple of 512 periods, nothing is redistributed at all.\<close>

lemma check_ready_skips:
  assumes "last_check_buckets pq = word_of_int (a sdiv PQ_BUCKET_TIME 0)" and "0 \<le> a" and "0 \<le> now"
    and "(now div PQ_BUCKET_TIME 0) mod 512 = (a div PQ_BUCKET_TIME 0) mod 512"
  shows "check_ready w pq now = Some (w, pq\<lparr>last_check_time := now,
    last_check_buckets := word_of_int (now sdiv PQ_BUCKET_TIME 0)\<rparr>)"
proof -
  have s: "a sdiv PQ_BUCKET_TIME 0 = a div PQ_BUCKET_TIME 0" "now sdiv PQ_BUCKET_TIME 0 = now div PQ_BUCKET_TIME 0"
    using assms(2,3) by (simp_all add: signed_divide_int_def PQ_BUCKET_TIME_eq sgn_if)
  have "take_bit 9 (a div PQ_BUCKET_TIME 0) = take_bit 9 (now div PQ_BUCKET_TIME 0)"
    using assms(4) by (simp add: take_bit_eq_mod)
  then have "bit (a div PQ_BUCKET_TIME 0) n \<longleftrightarrow> bit (now div PQ_BUCKET_TIME 0) n" if "n < 9" for n
    using that by (metis bit_take_bit_iff)
  then have "todo_buckets now (last_check_buckets pq) = 0"
    unfolding todo_buckets_def assms(1) s PQ_LIST_COUNT_def
    by (intro bit_word_eqI) (auto simp: bit_simps mask_9 bit_mask_iff simp del: push_bit_of_1)
  then show ?thesis by (simp add: check_ready_def count_bits.simps)
qed

end
