(* ===== verification/TimerThread.thy ===== *)
theory TimerThread
  imports EventQueue
begin

text \<open>
  The timer queue of \<open>EventQueue\<close> in its thread, \<open>ObEThread\<close> in
  \<open>src/src/obproxy/iocore/eventsystem\<close>: an invariant \<open>timer_inv\<close> of events, queue and clock, what
  each operation does to a state that satisfies it, and a state machine whose steps are the operations
  and what other code may do to the events meanwhile.  Every reachable state satisfies the invariant.
\<close>

section \<open>The queue in its thread\<close>

text \<open>The state between two operations: the events, the queue, and the time of the latest operation.
  \<open>timer_inv\<close> says that the queue holds \<open>xss\<close> and that an event outside the queue is marked so and, unless
  it waits in the protected queue, linked to nothing; and, for \<open>b\<close>, that no event outside the first queue was
  due at the last check.\<close>

type_synonym timer = "world \<times> pqueue \<times> int"

definition apart :: "world \<Rightarrow> addr set \<Rightarrow> bool" where
  "apart w es = (\<forall>e ev. events w e = Some ev \<longrightarrow> e \<notin> es \<longrightarrow>
     \<not> in_the_priority_queue ev \<and> (\<not> in_the_prot_queue ev \<longrightarrow> detached (cells w) e))"

definition timer_inv :: "bool \<Rightarrow> world \<Rightarrow> pqueue \<Rightarrow> int \<Rightarrow> addr list list \<Rightarrow> bool" where
  "timer_inv b w pq t xss = (pq_rep w pq xss \<and> (b \<longrightarrow> placed w (last_check_time pq) xss)
     \<and> last_check_buckets pq = word_of_int (last_check_time pq sdiv PQ_BUCKET_TIME 0)
     \<and> 0 \<le> last_check_time pq \<and> last_check_time pq \<le> t \<and> apart w (set (concat xss)))"

lemma apart_frame:
  assumes "apart w es" and "events w x = Some ev" and "x \<notin> es" and "same_links (cells w) c x"
  shows "\<not> in_the_priority_queue ev \<and> (\<not> in_the_prot_queue ev \<longrightarrow> detached c x)"
  using assms detached_frame unfolding apart_def by blast

lemma timer_len: "timer_inv b w pq t xss \<Longrightarrow> length xss = 10 \<and> length (after_queue pq) = 10"
  unfolding timer_inv_def pq_rep_def PQ_LIST_COUNT_def using que.reps_length by fastforce

lemma timer_event:
  assumes "timer_inv b w pq t xss" and "j < 10" and "e \<in> set (xss ! j)"
  obtains ev where "events w e = Some ev" "in_the_priority_queue ev" "\<not> in_the_prot_queue ev" "in_heap ev = j"
  using assms timer_len [OF assms(1)] unfolding timer_inv_def pq_rep_def marked_def by metis

lemma timer_queued:
  assumes "timer_inv b w pq t xss" and "events w e = Some ev"
  shows "in_the_priority_queue ev \<longleftrightarrow> e \<in> set (concat xss)"
proof
  assume "in_the_priority_queue ev"
  with assms show "e \<in> set (concat xss)" unfolding timer_inv_def apart_def by blast
next
  assume "e \<in> set (concat xss)"
  with timer_len [OF assms(1)] obtain j where "j < 10" "e \<in> set (xss ! j)" by (metis concat_elem)
  from timer_event [OF assms(1) this] assms(2) show "in_the_priority_queue ev" by (metis option.inject)
qed

lemma timer_heap:
  assumes "timer_inv b w pq t xss" and "events w e = Some ev" and "in_the_priority_queue ev"
  shows "in_heap ev < 10" and "e \<in> set (xss ! in_heap ev)" and "\<not> in_the_prot_queue ev"
proof -
  from timer_queued [OF assms(1,2)] assms(3) timer_len [OF assms(1)] obtain j where
    j: "j < 10" "e \<in> set (xss ! j)" by (metis concat_elem)
  from timer_event [OF assms(1) this] assms(2) have "in_heap ev = j" "\<not> in_the_prot_queue ev"
    by (metis option.inject)+
  with j show "in_heap ev < 10" "e \<in> set (xss ! in_heap ev)" "\<not> in_the_prot_queue ev" by simp_all
qed

lemma enqueue_rep:
  assumes "timer_inv b w pq t xss" and "t \<le> now" and "events w e = Some ev"
    and "\<not> in_the_priority_queue ev" and "\<not> in_the_prot_queue ev" and "i = bucket_index (timeout_at ev - now)"
  shows "\<exists>w' pq'. enqueue w pq (Some e) now = Some (w', pq') \<and> timer_inv b w' pq' now (xss[i := xss ! i @ [e]])
    \<and> events w' = (events w)(e \<mapsto> ev\<lparr>in_the_priority_queue := True, in_heap := i\<rparr>)"
proof -
  let ?ev = "ev\<lparr>in_the_priority_queue := True, in_heap := i\<rparr>" and ?xss = "xss[i := xss ! i @ [e]]"
  have i: "i \<le> 9" using assms(6) bucket_index_le by simp
  note len = timer_len [OF assms(1)]
  have r: "que.reps (cells w) (after_queue pq) xss" and mk: "marked w xss"
    and size: "after_queue_size pq = int (length (concat xss))"
    using assms(1) by (simp_all add: timer_inv_def pq_rep_def)
  have out: "e \<notin> set (concat xss)" and loose: "detached (cells w) e"
    using timer_queued [OF assms(1,3)] assms(1,3-5) by (auto simp: timer_inv_def apart_def)
  have out_j: "e \<notin> set (xss ! j)" if "j < length xss" for j using out in_concat that by metis
  obtain c q where q: "q_enqueue (cells w) (after_queue pq ! i) e = (c, q)" by (cases "q_enqueue (cells w) (after_queue pq ! i) e")
  have il: "i < length xss" using i len by simp
  note enq = que.reps_enq [OF r il out_j loose q]
  let ?w = "\<lparr>events = (events w)(e \<mapsto> ?ev), cells = c\<rparr>"
  let ?pq = "pq\<lparr>after_queue := (after_queue pq)[i := q], after_queue_size := after_queue_size pq + 1\<rparr>"
  have "enqueue w pq (Some e) now = Some (?w, ?pq)"
    using assms(3-6) i len small_and_15 [OF i] q
    by (simp add: enqueue_def Let_def queue_at_def set_event_def flip: assms(6))
  moreover have "marked ?w ?xss"
    unfolding marked_def
  proof (intro allI impI ballI)
    fix j x assume "j < length ?xss" and x: "x \<in> set (?xss ! j)"
    then have j: "j < length xss" by simp
    from push_cases [OF x il j] out_j [OF j] mk assms(5) j
    show "\<exists>ev'. events ?w x = Some ev' \<and> in_the_priority_queue ev' \<and> \<not> in_the_prot_queue ev' \<and> in_heap ev' = j"
      unfolding marked_def by (cases "x = e") auto
  qed
  then have "pq_rep ?w ?pq ?xss"
    using enq(1) len size length_concat_push [OF il, of e] by (simp add: pq_rep_def PQ_LIST_COUNT_def)
  moreover have "b \<longrightarrow> placed ?w (last_check_time pq) ?xss"
    unfolding placed_def
  proof (intro allI impI)
    fix j x ev' assume b and j: "0 < j" "j < 10" and x: "x \<in> set (?xss ! j)" and ev': "events ?w x = Some ev'"
    have jl: "j < length xss" using j len by simp
    from push_cases [OF x il jl] consider "x = e" "j = i" | "x \<noteq> e" "x \<in> set (xss ! j)" using out_j [OF jl] by blast
    then show "last_check_time pq div PQ_BUCKET_TIME (j - 1) < timeout_at ev' div PQ_BUCKET_TIME (j - 1)"
    proof cases
      case 1
      then have "PQ_BUCKET_TIME (j - 1) < timeout_at ev' - now"
        using bucket_index_width [of "timeout_at ev - now"] j(1) ev' by (auto simp: assms(6))
      then show ?thesis using assms(1,2) by (intro later_period [where t = now]) (simp_all add: timer_inv_def)
    next
      case 2
      with assms(1) \<open>b\<close> j ev' show ?thesis by (auto simp: timer_inv_def placed_def)
    qed
  qed
  moreover have "apart ?w (set (concat ?xss))"
    unfolding apart_def set_concat_push [OF il]
  proof (intro allI impI)
    fix x ev' assume x: "events ?w x = Some ev'" "x \<notin> insert e (set (concat xss))"
    then have "events w x = Some ev'" by simp
    moreover have "same_links (cells w) c x"
      using enq(2) [of x] x(2) in_concat [of _ xss x] by blast
    moreover have "apart w (set (concat xss))" using assms(1) by (simp add: timer_inv_def)
    ultimately show "\<not> in_the_priority_queue ev' \<and> (\<not> in_the_prot_queue ev' \<longrightarrow> detached (cells ?w) x)"
      using x(2) apart_frame [of w "set (concat xss)" x ev' c] by simp
  qed
  ultimately show ?thesis using assms(1,2) by (auto simp: timer_inv_def)
qed

text \<open>Taking an event out: what \<open>remove\<close> and \<open>dequeue_ready\<close> have in common.\<close>

lemma take_out:
  assumes "timer_inv b w pq t xss" and "j < 10" and "xss ! j = us @ e # ws" and "events w e = Some ev"
    and "que.reps c ((after_queue pq)[j := q]) (xss[j := us @ ws])" and "detached c e"
    and "\<And>x. x \<notin> set (concat xss) \<Longrightarrow> same_links (cells w) c x"
  shows "timer_inv b \<lparr>events = (events w)(e \<mapsto> ev\<lparr>in_the_priority_queue := False\<rparr>), cells = c\<rparr>
      (pq\<lparr>after_queue := (after_queue pq)[j := q], after_queue_size := after_queue_size pq - 1\<rparr>) t (xss[j := us @ ws])"
proof -
  let ?w = "\<lparr>events = (events w)(e \<mapsto> ev\<lparr>in_the_priority_queue := False\<rparr>), cells = c\<rparr>"
  let ?pq = "pq\<lparr>after_queue := (after_queue pq)[j := q], after_queue_size := after_queue_size pq - 1\<rparr>"
  let ?xss = "xss[j := us @ ws]"
  note len = timer_len [OF assms(1)]
  have jl: "j < length xss" using assms(2) len by simp
  have r: "que.reps (cells w) (after_queue pq) xss" and mk: "marked w xss" and pl: "b \<longrightarrow> placed w (last_check_time pq) xss"
    and size: "after_queue_size pq = int (length (concat xss))" and ap: "apart w (set (concat xss))"
    using assms(1) by (simp_all add: timer_inv_def pq_rep_def)
  have "distinct (us @ e # ws)" using que.rep_distinct [OF que.reps_nth [OF r jl]] assms(3) by simp
  then have sub: "x \<in> set (xss ! k) \<and> x \<noteq> e" if "x \<in> set (?xss ! k)" "k < length xss" for x k
    using that assms(3) que.reps_disjoint [OF r jl that(2)] jl by (cases "k = j") auto
  have "marked ?w ?xss" using mk sub unfolding marked_def by fastforce
  then have "pq_rep ?w ?pq ?xss"
    using assms(5) len size set_concat_drop(2) [OF jl assms(3)] by (simp add: pq_rep_def PQ_LIST_COUNT_def)
  moreover have "b \<longrightarrow> placed ?w (last_check_time pq) ?xss"
    unfolding placed_def
  proof (intro allI impI)
    fix k x ev' assume b and k: "0 < k" "k < 10" "x \<in> set (?xss ! k)" "events ?w x = Some ev'"
    with sub [of x k] len have "x \<in> set (xss ! k)" "events w x = Some ev'" by auto
    with pl \<open>b\<close> k(1,2) show "last_check_time pq div PQ_BUCKET_TIME (k - 1) < timeout_at ev' div PQ_BUCKET_TIME (k - 1)"
      unfolding placed_def by blast
  qed
  moreover have "apart ?w (set (concat ?xss))"
    unfolding apart_def
  proof (intro allI impI)
    fix x ev' assume x: "events ?w x = Some ev'" "x \<notin> set (concat ?xss)"
    show "\<not> in_the_priority_queue ev' \<and> (\<not> in_the_prot_queue ev' \<longrightarrow> detached (cells ?w) x)"
    proof (cases "x = e")
      case True
      with x(1) assms(6) show ?thesis by auto
    next
      case False
      then have "events w x = Some ev'" "x \<notin> set (concat xss)"
        using x set_concat_drop(1) [OF jl assms(3)] by auto
      with apart_frame [OF ap this] assms(7) [of x] show ?thesis by simp
    qed
  qed
  ultimately show ?thesis using assms(1) by (auto simp: timer_inv_def)
qed

lemma remove_rep:
  assumes "timer_inv b w pq t xss" and "events w e = Some ev" and "in_the_priority_queue ev"
  shows "\<exists>w' pq' us ws. remove w pq (Some e) = Some (w', pq') \<and> xss ! in_heap ev = us @ e # ws
    \<and> timer_inv b w' pq' t (xss[in_heap ev := us @ ws])
    \<and> events w' = (events w)(e \<mapsto> ev\<lparr>in_the_priority_queue := False\<rparr>) \<and> detached (cells w') e"
proof -
  note h = timer_heap [OF assms] and len = timer_len [OF assms(1)]
  let ?j = "in_heap ev"
  obtain us ws where split: "xss ! ?j = us @ e # ws" using h(2) by (meson split_list)
  have r: "que.reps (cells w) (after_queue pq) xss" using assms(1) by (simp add: timer_inv_def pq_rep_def)
  obtain c q where q: "q_remove (cells w) (after_queue pq ! ?j) e = (c, q)"
    by (cases "q_remove (cells w) (after_queue pq ! ?j) e")
  have jl: "?j < length xss" using h(1) len by simp
  note rem = que.reps_rem [OF r jl split q]
  have "remove w pq (Some e) = Some (\<lparr>events = (events w)(e \<mapsto> ev\<lparr>in_the_priority_queue := False\<rparr>), cells = c\<rparr>,
      pq\<lparr>after_queue := (after_queue pq)[?j := q], after_queue_size := after_queue_size pq - 1\<rparr>)"
    using assms(2,3) h(1,3) len q by (simp add: remove_def queue_at_def set_event_def)
  moreover have "same_links (cells w) c x" if "x \<notin> set (concat xss)" for x
    using rem(3) [of x] in_concat [of _ xss x] that by blast
  from take_out [OF assms(1) h(1) split assms(2) rem(2,1) this]
  have "timer_inv b \<lparr>events = (events w)(e \<mapsto> ev\<lparr>in_the_priority_queue := False\<rparr>), cells = c\<rparr>
      (pq\<lparr>after_queue := (after_queue pq)[?j := q], after_queue_size := after_queue_size pq - 1\<rparr>) t (xss[?j := us @ ws])" .
  ultimately show ?thesis using split rem(1) by fastforce
qed

lemma dequeue_rep:
  assumes "timer_inv b w pq t xss"
  shows "case xss ! 0 of
      [] \<Rightarrow> dequeue_ready w pq = Some (w, pq, None)
    | e # es \<Rightarrow> \<exists>w' pq' ev. dequeue_ready w pq = Some (w', pq', Some e) \<and> events w e = Some ev
        \<and> timer_inv b w' pq' t (xss[0 := es]) \<and> events w' = (events w)(e \<mapsto> ev\<lparr>in_the_priority_queue := False\<rparr>)"
proof (cases "xss ! 0")
  case Nil
  note len = timer_len [OF assms]
  have "q_rep (cells w) (after_queue pq ! 0) []"
    using assms Nil len que.reps_nth [of "cells w" "after_queue pq" xss 0] by (simp add: timer_inv_def pq_rep_def)
  from q_dequeue_empty [OF this] len have "dequeue_ready w pq = Some (w, pq, None)"
    by (simp add: dequeue_ready_def queue_at_def)
  with Nil show ?thesis by simp
next
  case (Cons e es)
  note len = timer_len [OF assms]
  have r: "que.reps (cells w) (after_queue pq) xss" using assms by (simp add: timer_inv_def pq_rep_def)
  obtain ev where ev: "events w e = Some ev" "in_the_priority_queue ev" "\<not> in_the_prot_queue ev"
    using timer_event [OF assms, of 0 e] Cons by auto
  obtain c q ret where q: "q_dequeue (cells w) (after_queue pq ! 0) = (c, q, ret)"
    by (cases "q_dequeue (cells w) (after_queue pq ! 0)") auto
  have jl: "0 < length xss" using len by simp
  note deq = que.reps_deq [OF r jl Cons q]
  let ?w = "\<lparr>events = (events w)(e \<mapsto> ev\<lparr>in_the_priority_queue := False\<rparr>), cells = c\<rparr>"
  let ?pq = "pq\<lparr>after_queue := (after_queue pq)[0 := q], after_queue_size := after_queue_size pq - 1\<rparr>"
  have "dequeue_ready w pq = Some (?w, ?pq, Some e)"
    using ev q deq(1) len by (simp add: dequeue_ready_def queue_at_def set_event_def)
  moreover have "same_links (cells w) c x" if "x \<notin> set (concat xss)" for x
    using deq(4) [of x] in_concat [of _ xss x] that by blast
  from take_out [OF assms, of 0 "[]" e es ev c q] Cons ev(1) deq(2,3) this
  have "timer_inv b ?w ?pq t (xss[0 := es])" by simp
  ultimately show ?thesis using Cons ev(1) by fastforce
qed

text \<open>What \<open>check_ready\<close> does in its thread, however late it comes, and what it promises when at most 256
  periods have passed since the last time.\<close>

lemma check_rep:
  assumes "timer_inv b w pq t xss" and "t \<le> now"
    and "b \<longrightarrow> now div PQ_BUCKET_TIME 0 - last_check_time pq div PQ_BUCKET_TIME 0 \<le> 256"
  shows "\<exists>w' pq' xss'. check_ready w pq now = Some (w', pq') \<and> timer_inv b w' pq' now xss'
    \<and> last_check_time pq' = now
    \<and> (\<forall>e \<in> set (concat xss'). key (events w' e) = key (events w e))
    \<and> filter_mset (survives (events w)) (mset (concat xss')) = filter_mset (survives (events w)) (mset (concat xss))
    \<and> (\<forall>e. e \<notin> set (concat xss) \<longrightarrow> events w' e = events w e)
    \<and> (\<forall>e \<in> set (concat xss). e \<notin> set (concat xss') \<longrightarrow> events w' e = None)"
proof -
  let ?k = "count_bits (todo_buckets now (last_check_buckets pq)) 0"
  let ?xss = "resweep (events w) now [1..<?k + 1] xss"
  have pq: "pq_rep w pq xss" and pl: "b \<longrightarrow> placed w (last_check_time pq) xss" and ap: "apart w (set (concat xss))"
    and last: "0 \<le> last_check_time pq" "last_check_time pq \<le> now"
    "last_check_buckets pq = word_of_int (last_check_time pq sdiv PQ_BUCKET_TIME 0)"
    using assms(1,2) by (simp_all add: timer_inv_def)
  have some: "\<forall>e \<in> set (concat xss). events w e \<noteq> None" using pq_rep_events [OF pq] by blast
  have inside: "\<forall>i \<in> set [1..<?k + 1]. i < length xss"
    using count_todo [of now "last_check_buckets pq"] timer_len [OF assms(1)] by auto
  from check_ready_rep [OF pq, of now] obtain w' pq' where c: "check_ready w pq now = Some (w', pq')"
    "pq_rep w' pq' ?xss" "last_check_time pq' = now"
    "last_check_buckets pq' = word_of_int (now sdiv PQ_BUCKET_TIME 0)"
    "\<forall>e \<in> set (concat ?xss). key (events w' e) = key (events w e)"
    "\<forall>e. e \<notin> set (concat xss) \<longrightarrow> events w' e = events w e \<and> same_links (cells w) (cells w') e"
    "\<forall>e \<in> set (concat xss). e \<notin> set (concat ?xss) \<longrightarrow> events w' e = None" by blast
  note sub = resweep_subset [OF some inside, of now]
  have mset: "filter_mset (survives (events w)) (mset (concat ?xss)) = filter_mset (survives (events w)) (mset (concat xss))"
    by (rule resweep_survivors [OF some inside])
  have "b \<longrightarrow> placed w' now ?xss" using check_ready_placed [OF pq _ last _ c(5)] pl assms(3) by blast
  moreover have "apart w' (set (concat ?xss))"
    unfolding apart_def
  proof (intro allI impI)
    fix e ev assume e: "events w' e = Some ev" "e \<notin> set (concat ?xss)"
    then have "e \<notin> set (concat xss)" using c(7) by (metis option.distinct(1))
    with apart_frame [OF ap _ this, of ev "cells w'"] c(6) e(1)
    show "\<not> in_the_priority_queue ev \<and> (\<not> in_the_prot_queue ev \<longrightarrow> detached (cells w') e)" by metis
  qed
  ultimately have "timer_inv b w' pq' now ?xss" using c(2-4) last by (simp add: timer_inv_def)
  with c mset show ?thesis by blast
qed

text \<open>What the rest of the thread may do to the events meanwhile: cancel a queued one, and anything with
  the others, as long as an event that is in no queue is marked so and linked to nothing.\<close>

definition elsewhere :: "world \<Rightarrow> world \<Rightarrow> bool" where
  "elsewhere w w' =
     ((\<forall>e ev. events w e = Some ev \<longrightarrow> in_the_priority_queue ev \<longrightarrow>
         (\<exists>c. events w' e = Some (ev\<lparr>cancelled := c\<rparr>)) \<and> same_links (cells w) (cells w') e)
      \<and> (\<forall>e ev. events w' e = Some ev \<longrightarrow> \<not> (\<exists>ev0. events w e = Some ev0 \<and> in_the_priority_queue ev0) \<longrightarrow>
         \<not> in_the_priority_queue ev \<and> (\<not> in_the_prot_queue ev \<longrightarrow> detached (cells w') e)))"

text \<open>The operations in any order, with a clock that does not go back.\<close>

inductive step :: "timer \<Rightarrow> timer \<Rightarrow> bool" where
  enqueues: "t \<le> now \<Longrightarrow> enqueue w pq e now = Some (w', pq') \<Longrightarrow> step (w, pq, t) (w', pq', now)"
| removes: "remove w pq e = Some (w', pq') \<Longrightarrow> step (w, pq, t) (w', pq', t)"
| dequeues: "dequeue_ready w pq = Some (w', pq', r) \<Longrightarrow> step (w, pq, t) (w', pq', t)"
| checks: "t \<le> now \<Longrightarrow> check_ready w pq now = Some (w', pq') \<Longrightarrow> step (w, pq, t) (w', pq', now)"
| others: "elsewhere w w' \<Longrightarrow> step (w, pq, t) (w', pq, t)"

inductive reachable :: "timer \<Rightarrow> bool" where
  start: "0 \<le> t \<Longrightarrow> apart w {} \<Longrightarrow> reachable (w, new_pqueue t, t)"
| steps: "reachable s \<Longrightarrow> step s s' \<Longrightarrow> reachable s'"

text \<open>The runs in which no step, and so no check, moves the time of the last check by more than 256 periods.\<close>

inductive timely :: "timer \<Rightarrow> bool" where
  start_timely: "0 \<le> t \<Longrightarrow> apart w {} \<Longrightarrow> timely (w, new_pqueue t, t)"
| step_timely: "timely (w, pq, t) \<Longrightarrow> step (w, pq, t) (w', pq', t') \<Longrightarrow>
    last_check_time pq' div PQ_BUCKET_TIME 0 - last_check_time pq div PQ_BUCKET_TIME 0 \<le> 256 \<Longrightarrow> timely (w', pq', t')"

lemma timely_reachable: "timely s \<Longrightarrow> reachable s"
  by (induction rule: timely.induct) (auto intro: start steps)

inductive_cases stepE: "step (w, pq, t) s'"

lemma timer_start:
  assumes "0 \<le> t" and "apart w {}"
  shows "timer_inv b w (new_pqueue t) t (replicate 10 [])"
proof -
  have "que.reps (cells w) (replicate 10 q_reset) (replicate 10 [])"
    unfolding que.reps_def by (simp add: q_rep_Nil)
  then show ?thesis
    using assms by (simp add: timer_inv_def pq_rep_def new_pqueue_def PQ_LIST_COUNT_def marked_def placed_def)
qed

lemma timer_mono: "timer_inv b w pq t xss \<Longrightarrow> t \<le> t' \<Longrightarrow> timer_inv b w pq t' xss"
  by (simp add: timer_inv_def)

lemma elsewhere_inv:
  assumes "timer_inv b w pq t xss" and "elsewhere w w'"
  shows "timer_inv b w' pq t xss"
proof -
  have pq: "que.reps (cells w) (after_queue pq) xss" "marked w xss" "after_queue_size pq = int (length (concat xss))"
    and pl: "b \<longrightarrow> placed w (last_check_time pq) xss" and ap: "apart w (set (concat xss))"
    using assms(1) by (simp_all add: timer_inv_def pq_rep_def)
  note len = timer_len [OF assms(1)]
  have queued: "\<exists>ev c. events w e = Some ev \<and> events w' e = Some (ev\<lparr>cancelled := c\<rparr>)
      \<and> in_the_priority_queue ev \<and> \<not> in_the_prot_queue ev \<and> in_heap ev = j \<and> same_links (cells w) (cells w') e"
    if "j < 10" "e \<in> set (xss ! j)" for j e
    using timer_event [OF assms(1) that] assms(2) unfolding elsewhere_def by metis
  have "que.reps (cells w') (after_queue pq) xss"
    using pq(1) len queued q_rep_frame unfolding que.reps_def by metis
  moreover have "marked w' xss" unfolding marked_def using queued len by fastforce
  moreover have "b \<longrightarrow> placed w' (last_check_time pq) xss"
    unfolding placed_def
  proof (intro allI impI)
    fix j e ev' assume b and j: "0 < j" "j < 10" "e \<in> set (xss ! j)" and "events w' e = Some ev'"
    then obtain ev where "events w e = Some ev" "timeout_at ev' = timeout_at ev" using queued [of j e] by auto
    with pl \<open>b\<close> j show "last_check_time pq div PQ_BUCKET_TIME (j - 1) < timeout_at ev' div PQ_BUCKET_TIME (j - 1)"
      unfolding placed_def by simp
  qed
  moreover have "apart w' (set (concat xss))"
    using assms(2) timer_queued [OF assms(1)] unfolding apart_def elsewhere_def by blast
  ultimately show ?thesis using assms(1) pq(3) len by (simp add: timer_inv_def pq_rep_def)
qed

lemma step_inv:
  assumes "timer_inv b w pq t xss" and "step (w, pq, t) (w', pq', t')"
    and "b \<longrightarrow> last_check_time pq' div PQ_BUCKET_TIME 0 - last_check_time pq div PQ_BUCKET_TIME 0 \<le> 256"
  shows "t \<le> t' \<and> (\<exists>xss'. timer_inv b w' pq' t' xss')"
  using assms(2)
proof (cases rule: step.cases)
  case (enqueues e)
  show ?thesis
  proof (cases "\<exists>x ev. e = Some x \<and> events w x = Some ev \<and> \<not> in_the_priority_queue ev \<and> \<not> in_the_prot_queue ev")
    case True
    then show ?thesis using enqueue_rep [OF assms(1) enqueues(1)] enqueues by force
  next
    case False
    then have "w' = w" "pq' = pq" using enqueues(2) by (auto simp: enqueue_def split: option.splits if_splits bind_splits)
    then show ?thesis using timer_mono [OF assms(1) enqueues(1)] enqueues(1) by blast
  qed
next
  case (removes e)
  show ?thesis
  proof (cases "\<exists>x ev. e = Some x \<and> events w x = Some ev \<and> in_the_priority_queue ev")
    case True
    then show ?thesis using remove_rep [OF assms(1)] removes by force
  next
    case False
    then have "w' = w" "pq' = pq" using removes(2) by (auto simp: remove_def split: option.splits if_splits bind_splits)
    then show ?thesis using assms(1) removes by blast
  qed
next
  case (dequeues r)
  then show ?thesis using dequeue_rep [OF assms(1)] assms(1) by (fastforce split: list.splits)
next
  case checks
  have "timer_inv False w pq t xss" using assms(1) by (simp add: timer_inv_def)
  from check_rep [OF this checks(1)] checks(2) have "last_check_time pq' = t'" by auto
  with check_rep [OF assms(1) checks(1)] assms(3) checks show ?thesis by fastforce
next
  case others
  then show ?thesis using elsewhere_inv [OF assms(1)] by blast
qed

text \<open>Every reachable state satisfies the invariant, and with the places of the events if the run was timely.\<close>

lemma reachable_inv: "reachable (w, pq, t) \<Longrightarrow> \<exists>xss. timer_inv False w pq t xss"
proof (induction "(w, pq, t)" arbitrary: w pq t rule: reachable.induct)
  case start
  then show ?case using timer_start by blast
next
  case (steps s)
  then show ?case using step_inv [where b = False] by (metis prod_cases3)
qed

lemma timely_inv: "timely (w, pq, t) \<Longrightarrow> \<exists>xss. timer_inv True w pq t xss"
proof (induction "(w, pq, t)" arbitrary: w pq t rule: timely.induct)
  case start_timely
  then show ?case using timer_start by blast
next
  case step_timely
  then show ?case using step_inv [where b = True] by blast
qed

lemma distinct_concat_reps: "que.reps s qs xss \<Longrightarrow> distinct (concat xss)"
  using que.rep_distinct unfolding que.reps_def by (intro distinct_concat_index) blast+

text \<open>The size field counts the events that are marked as queued.\<close>

lemma timer_size:
  assumes "timer_inv b w pq t xss"
  shows "after_queue_size pq = int (card {e. \<exists>ev. events w e = Some ev \<and> in_the_priority_queue ev})"
proof -
  have "{e. \<exists>ev. events w e = Some ev \<and> in_the_priority_queue ev} = set (concat xss)"
  proof (intro set_eqI iffI)
    fix e assume "e \<in> {e. \<exists>ev. events w e = Some ev \<and> in_the_priority_queue ev}"
    then show "e \<in> set (concat xss)" using timer_queued [OF assms] by blast
  next
    fix e assume e: "e \<in> set (concat xss)"
    then obtain j where "j < 10" "e \<in> set (xss ! j)" using timer_len [OF assms] by (metis concat_elem)
    from timer_event [OF assms this] show "e \<in> {e. \<exists>ev. events w e = Some ev \<and> in_the_priority_queue ev}"
      by blast
  qed
  moreover have "distinct (concat xss)" "after_queue_size pq = int (length (concat xss))"
    using assms distinct_concat_reps by (auto simp: timer_inv_def pq_rep_def)
  ultimately show ?thesis by (simp add: distinct_card del: set_concat)
qed

text \<open>The last check bounds how late the queue wakes up: the first queue that is not empty decides.\<close>

lemma earliest_timeout_eq:
  assumes "timer_inv b w pq t xss"
  shows "earliest_timeout pq = last_check_time pq +
    (if concat xss = [] then HRTIME_FOREVER
     else PQ_BUCKET_TIME (LEAST i. i < 10 \<and> xss ! i \<noteq> []) div 2)"
proof -
  note len = timer_len [OF assms]
  have e: "qhead (after_queue pq ! i) \<noteq> None \<longleftrightarrow> xss ! i \<noteq> []" if "i < 10" for i
    using assms len that que.reps_nth [of "cells w" "after_queue pq" xss i] q_empty_iff
    by (auto simp: timer_inv_def pq_rep_def q_empty_def)
  show ?thesis
  proof (cases "List.find (\<lambda>i. qhead (after_queue pq ! i) \<noteq> None) [0..<PQ_LIST_COUNT]")
    case None
    then have "\<forall>i < length xss. xss ! i = []" using e len by (auto simp: find_None_iff PQ_LIST_COUNT_def)
    then have "concat xss = []" by (simp add: in_set_conv_nth) (metis nth_mem in_set_conv_nth)
    with None show ?thesis by (simp add: earliest_timeout_def)
  next
    case (Some i)
    then obtain "i < 10" "qhead (after_queue pq ! i) \<noteq> None" "\<forall>j < i. qhead (after_queue pq ! j) = None"
      by (auto simp: find_Some_iff PQ_LIST_COUNT_def)
    then have k: "i < 10" "xss ! i \<noteq> []" "\<And>j. j < i \<Longrightarrow> xss ! j = []"
      using e [of i] e order.strict_trans by blast+
    have "(LEAST i. i < 10 \<and> xss ! i \<noteq> []) = i"
      using k by (intro Least_equality) (auto simp flip: not_less)
    moreover have "concat xss \<noteq> []" using k(1,2) len nth_mem [of i xss] by auto
    ultimately show ?thesis using Some unfolding earliest_timeout_def by (simp only: option.case if_False)
  qed
qed

section \<open>Effects in terms of the events\<close>

lemma kept_by_check:
  assumes "timer_inv b w pq t xss" and "timer_inv b w' pq' now xss'"
    and "\<forall>e \<in> set (concat xss'). key (events w' e) = key (events w e)"
    and "filter_mset (survives (events w)) (mset (concat xss')) = filter_mset (survives (events w)) (mset (concat xss))"
    and "\<forall>e. e \<notin> set (concat xss) \<longrightarrow> events w' e = events w e"
  shows "(\<forall>e ev. events w e = Some ev \<longrightarrow> in_the_priority_queue ev \<longrightarrow> \<not> cancelled ev \<longrightarrow>
         (\<exists>ev'. events w' e = Some ev' \<and> in_the_priority_queue ev' \<and> \<not> cancelled ev' \<and> timeout_at ev' = timeout_at ev))
    \<and> (\<forall>e ev. events w e = Some ev \<longrightarrow> events w' e = None \<longrightarrow> in_the_priority_queue ev \<and> cancelled ev)"
proof -
  have kept: "\<exists>ev'. events w' e = Some ev' \<and> in_the_priority_queue ev' \<and> \<not> cancelled ev' \<and> timeout_at ev' = timeout_at ev"
    if ev: "events w e = Some ev" "in_the_priority_queue ev" "\<not> cancelled ev" for e ev
  proof -
    have "e \<in># filter_mset (survives (events w)) (mset (concat xss))"
      using timer_queued [OF assms(1) ev(1)] ev by (simp add: survives_def del: set_concat)
    then have e: "e \<in> set (concat xss')" using assms(4) by (metis filter_mset_eq_conv mset_subset_eqD set_mset_mset multiset_filter_subset)
    then obtain j where j: "j < 10" "e \<in> set (xss' ! j)" using timer_len [OF assms(2)] by (metis concat_elem)
    obtain ev' where ev': "events w' e = Some ev'" "in_the_priority_queue ev'" by (rule timer_event [OF assms(2) j])
    moreover have "key (events w' e) = key (events w e)" using assms(3) e by blast
    ultimately show ?thesis using ev by (simp add: key_def)
  qed
  have "in_the_priority_queue ev \<and> cancelled ev" if "events w e = Some ev" "events w' e = None" for e ev
  proof -
    have "e \<in> set (concat xss)" using that assms(5) by (metis option.distinct(1))
    then have "in_the_priority_queue ev" using timer_queued [OF assms(1) that(1)] by simp
    then show ?thesis using kept [OF that(1)] that(2) by auto
  qed
  with kept show ?thesis by blast
qed

lemma timer_counts: "timer_inv b w pq t xss \<Longrightarrow> after_queue_size pq = int (length (concat xss))"
  by (simp add: timer_inv_def pq_rep_def)

lemma dequeue_cases:
  assumes "timer_inv b w pq t xss"
  shows "if \<exists>e ev. events w e = Some ev \<and> in_the_priority_queue ev \<and> in_heap ev = 0
    then \<exists>w' pq' e ev. dequeue_ready w pq = Some (w', pq', Some e) \<and> events w e = Some ev
      \<and> in_the_priority_queue ev \<and> in_heap ev = 0
      \<and> events w' = (events w)(e \<mapsto> ev\<lparr>in_the_priority_queue := False\<rparr>)
      \<and> after_queue_size pq' = after_queue_size pq - 1
    else dequeue_ready w pq = Some (w, pq, None)"
proof (cases "xss ! 0")
  case Nil
  then have "\<not> (\<exists>e ev. events w e = Some ev \<and> in_the_priority_queue ev \<and> in_heap ev = 0)"
    using timer_heap(2) [OF assms] by fastforce
  with dequeue_rep [OF assms] Nil show ?thesis by simp
next
  case (Cons e es)
  obtain ev where ev: "events w e = Some ev" "in_the_priority_queue ev" "in_heap ev = 0"
    using timer_event [OF assms, of 0 e] Cons by auto
  from dequeue_rep [OF assms] Cons ev(1) obtain w' pq' where d: "dequeue_ready w pq = Some (w', pq', Some e)"
    "timer_inv b w' pq' t (xss[0 := es])" "events w' = (events w)(e \<mapsto> ev\<lparr>in_the_priority_queue := False\<rparr>)" by auto
  have "length (concat xss) = Suc (length (concat (xss[0 := es])))"
    using set_concat_drop(2) [of 0 xss "[]" e es] Cons timer_len [OF assms] by simp
  then have "after_queue_size pq' = after_queue_size pq - 1"
    using timer_counts [OF assms] timer_counts [OF d(2)] by (simp del: length_concat)
  with d ev show ?thesis by auto
qed

lemma enqueue_remove:
  assumes "timer_inv b w pq t xss" and "t \<le> now" and "events w e = Some ev"
    and "\<not> in_the_priority_queue ev" and "\<not> in_the_prot_queue ev"
  shows "\<exists>w' pq' w'' pq'' i. enqueue w pq (Some e) now = Some (w', pq')
    \<and> i = bucket_index (timeout_at ev - now)
    \<and> events w' = (events w)(e \<mapsto> ev\<lparr>in_the_priority_queue := True, in_heap := i\<rparr>)
    \<and> after_queue_size pq' = after_queue_size pq + 1
    \<and> remove w' pq' (Some e) = Some (w'', pq'')
    \<and> events w'' = (events w)(e \<mapsto> ev\<lparr>in_heap := i\<rparr>) \<and> detached (cells w'') e
    \<and> after_queue_size pq'' = after_queue_size pq"
proof -
  let ?i = "bucket_index (timeout_at ev - now)"
  let ?ev = "ev\<lparr>in_the_priority_queue := True, in_heap := ?i\<rparr>"
  have il: "?i < length xss" using bucket_index_le [of "timeout_at ev - now"] timer_len [OF assms(1)] by simp
  from enqueue_rep [OF assms refl] obtain w' pq' where q: "enqueue w pq (Some e) now = Some (w', pq')"
    "timer_inv b w' pq' now (xss[?i := xss ! ?i @ [e]])" "events w' = (events w)(e \<mapsto> ?ev)" by blast
  have ev': "events w' e = Some ?ev" by (simp add: q(3))
  from remove_rep [OF q(2) ev'] obtain w'' pq'' us ws where r: "remove w' pq' (Some e) = Some (w'', pq'')"
    "xss[?i := xss ! ?i @ [e]] ! ?i = us @ e # ws" "timer_inv b w'' pq'' now (xss[?i := us @ ws])"
    "events w'' = (events w')(e \<mapsto> ?ev\<lparr>in_the_priority_queue := False\<rparr>)" "detached (cells w'') e" by auto
  note n = timer_counts [OF assms(1)] timer_counts [OF q(2)] timer_counts [OF r(3)]
  have "length (concat (xss[?i := xss ! ?i @ [e]])) = Suc (length (concat xss))" by (rule length_concat_push [OF il])
  moreover from this have "length (concat (xss[?i := us @ ws])) = length (concat xss)"
    using set_concat_drop(2) [OF _ r(2)] il by simp
  moreover have "?ev\<lparr>in_the_priority_queue := False\<rparr> = ev\<lparr>in_heap := ?i\<rparr>" using assms(4) by (cases ev) simp
  ultimately show ?thesis using q(1,3) r(1,4,5) n by (simp del: length_concat)
qed

text \<open>A thread with one event at address 5, due after 100 milliseconds: before and after it is queued.\<close>

definition one_world :: world where
  "one_world = \<lparr>events = [5 \<mapsto> \<lparr>in_the_prot_queue = False, in_the_priority_queue = False, in_heap = 0,
     cancelled = False, timeout_at = 100000000\<rparr>], cells = \<lparr>next_link = \<lambda>_. None, prev_link = \<lambda>_. None\<rparr>\<rparr>"

definition one_timer :: "world \<times> pqueue" where
  "one_timer = the (enqueue one_world (new_pqueue 0) (Some 5) 0)"

lemma one_world_timely: "timely (one_world, new_pqueue 0, 0)"
  by (rule timely.start_timely) (auto simp: one_world_def apart_def detached_def)

lemma one_timer_eq:
  "enqueue one_world (new_pqueue 0) (Some 5) 0 = Some one_timer"
  "events (fst one_timer) = [5 \<mapsto> \<lparr>in_the_prot_queue = False, in_the_priority_queue = True, in_heap = 7,
     cancelled = False, timeout_at = 100000000\<rparr>]"
  "last_check_time (snd one_timer) = 0"
  by (simp_all add: one_timer_def enqueue_def one_world_def new_pqueue_def PQ_LIST_COUNT_def queue_at_def
      set_event_def bucket_index_def PQ_BUCKET_TIME_eq small_and_15 split: prod.splits)

lemma one_timer_timely: "timely (fst one_timer, snd one_timer, 0)"
proof -
  have "enqueue one_world (new_pqueue 0) (Some 5) 0 = Some (fst one_timer, snd one_timer)"
    by (simp add: one_timer_eq(1))
  from step.enqueues [OF order.refl this] show ?thesis
    by (rule timely.step_timely [OF one_world_timely]) (simp add: one_timer_eq(3) new_pqueue_def)
qed

lemmas one_timer_reachable = timely_reachable [OF one_timer_timely]

end
