(* ===== verification/FailHistory.thy ===== *)
theory FailHistory
  imports Prelude
begin

text \<open>
  The failure history of a server, \<open>ObFailHistory\<close> in
  \<open>src/src/obproxy/obutils/ob_congestion_entry.h\<close> and \<open>.cpp\<close>: a ring of 17 bins that counts the
  failures of a sliding window.  Times are seconds, and times and counts are integers; the bins are
  16-bit words.  An operation is \<open>None\<close> when it divides by zero (the history is not initialised), indexes
  outside the bins, or does not end.
\<close>

section \<open>State and operations\<close>

definition CONG_HIST_ENTRIES :: int where
  "CONG_HIST_ENTRIES = 17"

record fail_history =
  hstart :: int
  last_event :: int
  bin_len :: int
  hlength :: int
  bins :: "u16 list"
  cur_index :: int
  hevents :: int

definition new_history :: fail_history where
  "new_history = \<lparr>hstart = 0, last_event = 0, bin_len = 0, hlength = 0, bins = replicate 17 0,
     cur_index = 0, hevents = 0\<rparr>"

definition hist_init :: "int \<Rightarrow> fail_history \<Rightarrow> fail_history" where
  "hist_init window h =
     (let bl = (window + CONG_HIST_ENTRIES) sdiv CONG_HIST_ENTRIES;
          bl = (if bl \<le> 0 then 1 else bl)
      in h\<lparr>bin_len := bl, hlength := bl * CONG_HIST_ENTRIES, bins := replicate 17 0,
           hstart := 0, last_event := 0, cur_index := 0, hevents := 0\<rparr>)"

definition init_event :: "int \<Rightarrow> int \<Rightarrow> fail_history \<Rightarrow> fail_history option" where
  "init_event t n h =
     (if bin_len h = 0 then None
      else Some (h\<lparr>last_event := t, cur_index := 0, hevents := n,
             bins := (replicate 17 0)[0 := word_of_int n],
             hstart := (t + bin_len h) - t smod bin_len h - hlength h\<rparr>))"

definition bin_at :: "fail_history \<Rightarrow> int \<Rightarrow> u16 option" where
  "bin_at h i = (if 0 \<le> i \<and> i < int (length (bins h)) then Some (bins h ! nat i) else None)"

definition get_bin_events :: "fail_history \<Rightarrow> int \<Rightarrow> u16 option" where
  "get_bin_events h index = bin_at h ((index + 1 + cur_index h) smod CONG_HIST_ENTRIES)"

text \<open>The \<open>do\<close>-\<open>while\<close> loop of \<open>regist_event\<close>: the window moves on by one bin at a time.\<close>

partial_function (option) slide :: "int \<Rightarrow> fail_history \<Rightarrow> fail_history option" where
  "slide t h =
     (let start = hstart h + bin_len h;
          cur = (if CONG_HIST_ENTRIES = cur_index h + 1 then 0 else cur_index h + 1)
      in Option.bind (bin_at h cur) (\<lambda>b.
           let h = h\<lparr>hstart := start, cur_index := cur, hevents := hevents h - uint b,
                     bins := (bins h)[nat cur := 0]\<rparr>
           in if hstart h + hlength h < t then slide t h else Some h))"

definition regist_event :: "int \<Rightarrow> int \<Rightarrow> fail_history \<Rightarrow> (fail_history \<times> int) option" where
  "regist_event t n h =
     (if t < hstart h then Some (h, hevents h)
      else if t > last_event h + hlength h then do {
        h \<leftarrow> init_event t n h;
        Some (h, hevents h)
      } else do {
        h \<leftarrow> (if t < hstart h + hlength h then
                if bin_len h = 0 then None
                else do {
                  let index = ((t - hstart h) sdiv bin_len h + 1 + cur_index h) smod CONG_HIST_ENTRIES;
                  b \<leftarrow> bin_at h index;
                  Some (h\<lparr>bins := (bins h)[nat index := word_of_int (uint b + n)]\<rparr>)
                }
              else do {
                h \<leftarrow> slide t h;
                b \<leftarrow> bin_at h (cur_index h);
                Some (h\<lparr>bins := (bins h)[nat (cur_index h) := word_of_int n]\<rparr>)
              });
        let h = h\<lparr>hevents := hevents h + n\<rparr>;
        let h = (if last_event h < t then h\<lparr>last_event := t\<rparr> else h);
        Some (h, hevents h)
      })"

text \<open>A sequence of single failures.\<close>

fun regist_all :: "int list \<Rightarrow> fail_history \<Rightarrow> fail_history option" where
  "regist_all [] h = Some h"
| "regist_all (t # ts) h = do { (h, _) \<leftarrow> regist_event t 1 h; regist_all ts h }"

section \<open>The ring as a window\<close>

text \<open>The bins in the order of time, oldest first.\<close>

definition view :: "fail_history \<Rightarrow> u16 list" where
  "view h = rotate (nat (cur_index h) + 1) (bins h)"

definition ring_ok :: "fail_history \<Rightarrow> bool" where
  "ring_ok h = (0 < bin_len h \<and> hlength h = 17 * bin_len h \<and> length (bins h) = 17
     \<and> 0 \<le> cur_index h \<and> cur_index h < 17 \<and> 0 \<le> hstart h \<and> hstart h mod bin_len h = 0)"

definition hist_ok :: "fail_history \<Rightarrow> bool" where
  "hist_ok h = (ring_ok h \<and> hstart h \<le> last_event h \<and> last_event h \<le> hstart h + hlength h
     \<and> (hstart h = 0 \<or> hstart h + hlength h \<le> last_event h + bin_len h))"

definition base :: "fail_history \<Rightarrow> int" where
  "base h = hstart h div bin_len h"

lemma base_start: "ring_ok h \<Longrightarrow> base h * bin_len h = hstart h"
  unfolding base_def ring_ok_def by (metis div_mult_mod_eq add.right_neutral)

lemma length_view [simp]: "length (view h) = length (bins h)"
  by (simp add: view_def)

lemma mod_17_cancel:
  assumes "(m + j) mod 17 = (m + k) mod 17" and "j < 17" and "k < 17"
  shows "j = (k :: nat)"
proof -
  obtain p q where "m + j + 17 * p = m + k + 17 * q" using assms(1) nat_mod_eq_iff by blast
  with assms(2,3) show ?thesis by presburger
qed

lemma rotate_update:
  assumes "length xs = 17" and "k < 17"
  shows "rotate m (xs[(m + k) mod 17 := b]) = (rotate m xs)[k := b]"
proof (rule nth_equalityI)
  fix j assume "j < length (rotate m (xs[(m + k) mod 17 := b]))"
  then have j: "j < 17" using assms by simp
  show "rotate m (xs[(m + k) mod 17 := b]) ! j = (rotate m xs)[k := b] ! j"
    using assms j mod_17_cancel [of m k j] by (auto simp: nth_rotate nth_list_update)
qed (simp add: assms)

text \<open>One turn of the loop drops the oldest bin and adds an empty one.\<close>

definition turn :: "fail_history \<Rightarrow> fail_history" where
  "turn h =
     (let cur = (if cur_index h = 16 then 0 else cur_index h + 1)
      in h\<lparr>hstart := hstart h + bin_len h, cur_index := cur, hevents := hevents h - uint (view h ! 0),
           bins := (bins h)[nat cur := 0]\<rparr>)"

lemma view_nth: "ring_ok h \<Longrightarrow> k < 17 \<Longrightarrow> view h ! k = bins h ! ((nat (cur_index h) + 1 + k) mod 17)"
  using nth_rotate [of k "bins h" "nat (cur_index h) + 1"] by (simp add: view_def ring_ok_def)

lemma next_index:
  "ring_ok h \<Longrightarrow> nat (if cur_index h = 16 then 0 else cur_index h + 1) = (nat (cur_index h) + 1) mod 17"
  by (auto simp: ring_ok_def nat_add_distrib)

lemma slide_unfold:
  assumes "ring_ok h"
  shows "slide t h = (if hstart (turn h) + hlength h < t then slide t (turn h) else Some (turn h))"
proof -
  let ?d = "if cur_index h = 16 then 0 else cur_index h + 1"
  have "view h ! 0 = bins h ! nat ?d" using view_nth [OF assms, of 0] next_index [OF assms] by simp
  then have b: "bin_at h ?d = Some (view h ! 0)" using assms by (auto simp: bin_at_def ring_ok_def)
  have d: "(if CONG_HIST_ENTRIES = cur_index h + 1 then 0 else cur_index h + 1) = ?d"
    by (auto simp: CONG_HIST_ENTRIES_def)
  show ?thesis by (subst slide.simps) (simp only: d Let_def b Option.bind.bind_lunit turn_def, simp)
qed

lemma view_turn:
  assumes "ring_ok h"
  shows "view (turn h) = tl (view h) @ [0]"
proof -
  let ?c = "nat (cur_index h)" and ?d = "nat (if cur_index h = 16 then 0 else cur_index h + 1)"
  have l: "length (bins h) = 17" using assms by (auto simp: ring_ok_def)
  note d = next_index [OF assms]
  have i: "?d = (?d + 1 + 16) mod 17" using d by simp
  have "view (turn h) = rotate (?d + 1) ((bins h)[?d := 0])" by (simp add: view_def turn_def Let_def)
  also have "\<dots> = (rotate (?d + 1) (bins h))[16 := 0]"
    by (subst (2) i, rule rotate_update) (simp_all add: l)
  also have "rotate (?d + 1) (bins h) = rotate (Suc (?c + 1)) (bins h)"
    unfolding d using l rotate_conv_mod [of "(?c + 1) mod 17 + 1" "bins h"] rotate_conv_mod [of "Suc (?c + 1)" "bins h"]
    by (simp add: mod_Suc_eq del: rotate_Suc)
  also have "rotate (Suc (?c + 1)) (bins h) = rotate1 (view h)" by (simp add: view_def)
  also have "\<dots> = tl (view h) @ [hd (view h)]" by (rule rotate1_hd_tl) (use l in \<open>simp flip: length_0_conv\<close>)
  finally show ?thesis using l by (simp add: list_update_append)
qed

lemma turn_ok: "ring_ok h \<Longrightarrow> ring_ok (turn h)"
  by (auto simp: ring_ok_def turn_def Let_def)

section \<open>What the history counts\<close>

text \<open>\<open>counted es h\<close>: the failures \<open>es\<close>, each a time and the number of the bin it was counted in, are
  what the bins of \<open>h\<close> hold.  A failure may be counted in the bin before its own when it happens at the
  first second of a bin.\<close>

definition in_bin :: "(int \<times> int) list \<Rightarrow> int \<Rightarrow> nat" where
  "in_bin es s = length (filter (\<lambda>p. snd p = s) es)"

definition counted :: "(int \<times> int) list \<Rightarrow> fail_history \<Rightarrow> bool" where
  "counted es h = (ring_ok h
     \<and> (\<forall>k < 17. view h ! k = of_nat (in_bin es (base h + int k)))
     \<and> hevents h = int (length (filter (\<lambda>p. base h \<le> snd p) es))
     \<and> (\<forall>p \<in> set es. snd p \<le> base h + 16 \<and> snd p * bin_len h \<le> fst p \<and> fst p \<le> (snd p + 1) * bin_len h))"

lemma base_turn: "ring_ok h \<Longrightarrow> base (turn h) = base h + 1"
  using div_add_self2 [of "bin_len h" "hstart h"] by (simp add: base_def turn_def Let_def ring_ok_def)

lemma turn_fields [simp]:
  "bin_len (turn h) = bin_len h" "hlength (turn h) = hlength h" "last_event (turn h) = last_event h"
  "hstart (turn h) = hstart h + bin_len h" "hevents (turn h) = hevents h - uint (view h ! 0)"
  by (simp_all add: turn_def Let_def)

lemma in_bin_le: "in_bin es s \<le> length es"
  by (simp add: in_bin_def)

lemma from_base:
  "length (filter (\<lambda>p. b \<le> snd p) es) = in_bin es b + length (filter (\<lambda>p. b + 1 \<le> snd p) es)"
  by (induction es) (auto simp: in_bin_def)

lemma turn_counted:
  assumes "counted es h" and "length es < 65536"
  shows "counted es (turn h)" and "\<forall>p \<in> set es. snd p \<le> base (turn h) + 15"
proof -
  have r: "ring_ok h" and v: "\<forall>k < 17. view h ! k = of_nat (in_bin es (base h + int k))"
    and ev: "hevents h = int (length (filter (\<lambda>p. base h \<le> snd p) es))"
    and es: "\<forall>p \<in> set es. snd p \<le> base h + 16 \<and> snd p * bin_len h \<le> fst p \<and> fst p \<le> (snd p + 1) * bin_len h"
    using assms(1) by (simp_all add: counted_def)
  have l: "length (view h) = 17" using r by (simp add: ring_ok_def)
  note b = base_turn [OF r]
  have "unat (of_nat (in_bin es (base h)) :: u16) = in_bin es (base h)"
    using in_bin_le [of es "base h"] assms(2) by (simp add: unat_of_nat)
  then have "uint (view h ! 0) = int (in_bin es (base h))" using v by (simp add: uint_nat)
  then have "hevents (turn h) = int (length (filter (\<lambda>p. base (turn h) \<le> snd p) es))"
    using ev from_base [of "base h" es] b by simp
  moreover have "view (turn h) ! k = of_nat (in_bin es (base (turn h) + int k))" if "k < 17" for k
  proof (cases "k = 16")
    case True
    have "in_bin es (base h + 17) = 0" using es by (fastforce simp: in_bin_def filter_empty_conv)
    with True show ?thesis using view_turn [OF r] b l by (simp add: nth_append add.commute [of 17])
  next
    case False
    then have "view (turn h) ! k = view h ! Suc k"
      using view_turn [OF r] l that by (simp add: nth_append nth_tl)
    with v False that b show ?thesis by (simp add: algebra_simps)
  qed
  ultimately show "counted es (turn h)" using turn_ok [OF r] es b by (auto simp: counted_def)
  show "\<forall>p \<in> set es. snd p \<le> base (turn h) + 15" using es b by auto
qed

lemma slide_counted:
  assumes "counted es h" and "length es < 65536" and "hstart h + hlength h \<le> t"
  shows "\<exists>h'. slide t h = Some h' \<and> counted es h' \<and> (\<forall>p \<in> set es. snd p \<le> base h' + 15)
    \<and> t \<le> hstart h' + hlength h' \<and> hstart h' + hlength h' \<le> t + bin_len h'
    \<and> bin_len h' = bin_len h \<and> hlength h' = hlength h \<and> last_event h' = last_event h"
  using assms
proof (induction "nat (t - (hstart h + hlength h))" arbitrary: h rule: less_induct)
  case less
  then have r: "ring_ok h" by (simp add: counted_def)
  then have pos: "0 < bin_len h" by (simp add: ring_ok_def)
  note t = turn_counted [OF less.prems(1,2)]
  show ?case
  proof (cases "hstart (turn h) + hlength h < t")
    case True
    have "nat (t - (hstart (turn h) + hlength (turn h))) < nat (t - (hstart h + hlength h))"
      using True pos by simp
    from less.hyps [OF this t(1) less.prems(2)] True
    obtain h' where "slide t (turn h) = Some h'" "counted es h'" "\<forall>p \<in> set es. snd p \<le> base h' + 15"
      "t \<le> hstart h' + hlength h'" "hstart h' + hlength h' \<le> t + bin_len h'"
      "bin_len h' = bin_len h" "hlength h' = hlength h" "last_event h' = last_event h" by auto
    then show ?thesis using slide_unfold [OF r, of t] True by simp
  next
    case False
    then show ?thesis using slide_unfold [OF r, of t] t less.prems(3) by simp
  qed
qed

text \<open>Counting one more failure in bin \<open>s\<close> of the window.\<close>

lemma counted_add:
  assumes "counted es h" and "base h \<le> s" and "s \<le> base h + 16"
    and "s * bin_len h \<le> t" and "t \<le> (s + 1) * bin_len h"
    and "i = (nat (cur_index h) + 1 + nat (s - base h)) mod 17" and "b = bins h ! i + 1"
  shows "counted (es @ [(t, s)]) (h\<lparr>bins := (bins h)[i := b], hevents := hevents h + 1, last_event := l\<rparr>)"
proof -
  let ?h = "h\<lparr>bins := (bins h)[i := b], hevents := hevents h + 1, last_event := l\<rparr>" and ?k = "nat (s - base h)"
  have r: "ring_ok h" and v: "\<forall>k < 17. view h ! k = of_nat (in_bin es (base h + int k))"
    using assms(1) by (simp_all add: counted_def)
  have k: "?k < 17" "base h + int ?k = s" using assms(2,3) by simp_all
  have l: "length (bins h) = 17" using r by (simp add: ring_ok_def)
  have "view ?h = (rotate (nat (cur_index h) + 1) (bins h))[?k := b]"
    unfolding view_def assms(6) using rotate_update [OF l k(1), of "nat (cur_index h) + 1" b] by simp
  then have "view ?h = (view h)[?k := b]" by (simp add: view_def)
  moreover have "b = view h ! ?k + 1" using view_nth [OF r k(1)] assms(6,7) by simp
  ultimately have "view ?h ! j = of_nat (in_bin (es @ [(t, s)]) (base h + int j))" if "j < 17" for j
    using v that k l by (cases "j = ?k") (auto simp: in_bin_def nth_list_update)
  moreover have "base ?h = base h" by (simp add: base_def)
  moreover have "ring_ok ?h" using r by (simp add: ring_ok_def)
  ultimately show ?thesis using assms(1-5) by (auto simp: counted_def)
qed

lemma bin_of:
  assumes "0 < (b :: int)"
  shows "t div b * b \<le> t" and "t < (t div b + 1) * b" and "t < s * b \<Longrightarrow> t div b < s"
proof -
  have m: "t div b * b + t mod b = t" "0 \<le> t mod b" "t mod b < b" using assms by simp_all
  then show l: "t div b * b \<le> t" by linarith
  show "t < (t div b + 1) * b" using m by (simp only: distrib_right)
  assume "t < s * b"
  with l have "t div b * b < s * b" by linarith
  with assms show "t div b < s" by simp
qed

lemma newest:
  "(if last_event h < t then h\<lparr>last_event := t\<rparr> else h) = h\<lparr>last_event := max (last_event h) t\<rparr>"
  by (cases h) (auto simp: max_def)

text \<open>A failure before the window leaves the history as it is.\<close>

lemma counted_late:
  assumes "counted es h" and "t < hstart h"
  shows "counted (es @ [(t, t div bin_len h)]) h"
proof -
  have r: "ring_ok h" using assms(1) by (simp add: counted_def)
  then have pos: "0 < bin_len h" by (simp add: ring_ok_def)
  have "t div bin_len h < base h" using bin_of(3) [OF pos, of t "base h"] assms(2) base_start [OF r] by simp
  with bin_of(1,2) [OF pos, of t] assms(1) show ?thesis by (auto simp: counted_def in_bin_def)
qed

lemma regist_late: "t < hstart h \<Longrightarrow> regist_event t n h = Some (h, hevents h)"
  by (simp add: regist_event_def)

text \<open>A failure in the window.\<close>

lemma regist_inside:
  assumes "counted es h" and "hstart h \<le> t" and "t < hstart h + hlength h" and "t \<le> last_event h + hlength h"
  shows "\<exists>h'. regist_event t 1 h = Some (h', hevents h') \<and> counted (es @ [(t, t div bin_len h)]) h'
    \<and> last_event h' = max (last_event h) t \<and> hstart h' = hstart h \<and> bin_len h' = bin_len h"
proof -
  let ?b = "bin_len h" and ?s = "t div bin_len h"
  have r: "ring_ok h" using assms(1) by (simp add: counted_def)
  then have pos: "0 < ?b" and len: "hlength h = 17 * ?b" and l: "length (bins h) = 17"
    and c: "0 \<le> cur_index h" "cur_index h < 17" by (simp_all add: ring_ok_def)
  note bs = base_start [OF r]
  have d: "(t - hstart h) sdiv ?b = ?s - base h"
    using pos_sdiv [of "t - hstart h" ?b] div_mult_self1 [of ?b t "- base h"] assms(2) pos bs by simp
  have s: "base h \<le> ?s" "?s < base h + 17"
  proof -
    show "base h \<le> ?s" using assms(2) pos bs by (metis nonzero_mult_div_cancel_right less_irrefl zdiv_mono1)
    show "?s < base h + 17" using bin_of(3) [OF pos, of t "base h + 17"] assms(3) len bs by (simp add: distrib_right)
  qed
  let ?i = "(nat (cur_index h) + 1 + nat (?s - base h)) mod 17"
  have i: "(?s - base h + 1 + cur_index h) smod 17 = int ?i"
    using s(1) c(1) by (simp add: pos_smod zmod_int algebra_simps)
  have "bin_at h (int ?i) = Some (bins h ! ?i)" by (simp add: bin_at_def l)
  then have e: "regist_event t 1 h = Some (h\<lparr>bins := (bins h)[?i := word_of_int (uint (bins h ! ?i) + 1)],
      hevents := hevents h + 1, last_event := max (last_event h) t\<rparr>, hevents h + 1)"
    using assms(2-4) pos by (simp add: regist_event_def d i CONG_HIST_ENTRIES_def newest)
  have "word_of_int (uint (bins h ! ?i) + 1) = bins h ! ?i + 1" by (simp add: wi_hom_syms)
  from counted_add [OF assms(1) s(1) _ bin_of(1) [OF pos] less_imp_le [OF bin_of(2) [OF pos]] refl this] s(2) e
  show ?thesis by simp
qed

text \<open>A failure behind the window moves it, and may be counted one bin too early.\<close>

lemma regist_slide:
  assumes "counted es h" and "length es < 65536" and "hstart h + hlength h \<le> t" and "t \<le> last_event h + hlength h"
    and "0 < hlength h"
  shows "\<exists>h' s. regist_event t 1 h = Some (h', hevents h') \<and> counted (es @ [(t, s)]) h'
    \<and> last_event h' = max (last_event h) t \<and> t \<le> hstart h' + hlength h' \<and> hstart h' + hlength h' \<le> t + bin_len h'
    \<and> bin_len h' = bin_len h"
proof -
  from slide_counted [OF assms(1-3)] obtain g where g: "slide t h = Some g" "counted es g"
    "\<forall>p \<in> set es. snd p \<le> base g + 15" "t \<le> hstart g + hlength g" "hstart g + hlength g \<le> t + bin_len g"
    "bin_len g = bin_len h" "hlength g = hlength h" "last_event g = last_event h" by blast
  have r: "ring_ok g" and v: "\<forall>k < 17. view g ! k = of_nat (in_bin es (base g + int k))"
    using g(2) by (simp_all add: counted_def)
  then have pos: "0 < bin_len g" and len: "hlength g = 17 * bin_len g" and l: "length (bins g) = 17"
    and c: "0 \<le> cur_index g" "cur_index g < 17" by (simp_all add: ring_ok_def)
  let ?c = "nat (cur_index g)" and ?s = "base g + 16"
  have i: "?c = (?c + 1 + nat (?s - base g)) mod 17" using c by simp
  have "in_bin es ?s = 0" using g(3) by (fastforce simp: in_bin_def filter_empty_conv)
  then have z: "bins g ! ?c = 0" using v view_nth [OF r, of 16] i by simp
  let ?h = "g\<lparr>bins := (bins g)[?c := 1], hevents := hevents g + 1, last_event := max (last_event h) t\<rparr>"
  have e: "regist_event t 1 h = Some (?h, hevents ?h)"
    using assms(3-5) g(1,8) c l by (simp add: regist_event_def bin_at_def newest)
  have "?s * bin_len g \<le> t" "t \<le> (?s + 1) * bin_len g"
    using g(4,5) base_start [OF r] len by (simp_all add: distrib_right)
  from counted_add [OF g(2) _ _ this i, of 1 "max (last_event h) t"] z e g(4-7)
  show ?thesis by (intro exI [of _ ?h] exI [of _ ?s]) simp
qed

text \<open>A failure after a quiet time starts the window anew.\<close>

lemma regist_anew:
  assumes "counted es h" and "\<forall>p \<in> set es. fst p \<le> last_event h" and "last_event h + hlength h < t"
    and "hstart h \<le> last_event h"
  shows "\<exists>h'. regist_event t 1 h = Some (h', hevents h') \<and> counted (es @ [(t, t div bin_len h)]) h'
    \<and> last_event h' = t \<and> t \<le> hstart h' + hlength h' \<and> hstart h' + hlength h' \<le> t + bin_len h'
    \<and> bin_len h' = bin_len h"
proof -
  let ?b = "bin_len h" and ?s = "t div bin_len h"
  have r: "ring_ok h" and es: "\<forall>p \<in> set es. snd p * ?b \<le> fst p \<and> fst p \<le> (snd p + 1) * ?b"
    using assms(1) by (simp_all add: counted_def)
  then have pos: "0 < ?b" and len: "hlength h = 17 * ?b" and st: "0 \<le> hstart h" by (simp_all add: ring_ok_def)
  have t: "0 \<le> t" using assms(3,4) st len pos by linarith
  let ?h = "h\<lparr>last_event := t, cur_index := 0, hevents := 1, bins := (replicate 17 0)[0 := 1],
    hstart := t + ?b - t mod ?b - hlength h\<rparr>"
  have start: "t + ?b - t mod ?b - hlength h = (?s - 16) * ?b"
    using len minus_mod_eq_div_mult [of t ?b] by (simp add: algebra_simps)
  have e: "regist_event t 1 h = Some (?h, hevents ?h)"
    using assms(3,4) pos len t by (simp add: regist_event_def init_event_def pos_smod)
  have base: "base ?h = ?s - 16" using start pos by (simp add: base_def)
  have old: "snd p < ?s - 16" if "p \<in> set es" for p
  proof -
    have "snd p * ?b \<le> last_event h" using es assms(2) that by force
    then have "(snd p + 17) * ?b < t" using assms(3) len by (simp add: distrib_right)
    then have "(snd p + 17) * ?b < (?s + 1) * ?b" using bin_of(2) [OF pos, of t] by linarith
    then show ?thesis using pos by simp
  qed
  have "0 \<le> (?s - 16) * ?b"
    using assms(3,4) st len start pos_mod_bound [OF pos, of t] by linarith
  then have ring: "ring_ok ?h" using r start by (simp add: ring_ok_def)
  moreover have "view ?h ! k = of_nat (in_bin (es @ [(t, ?s)]) (base ?h + int k))" if "k < 17" for k
  proof -
    have "filter (\<lambda>p. snd p = base ?h + int k) es = []" using old base by (fastforce simp: filter_empty_conv)
    moreover have "view ?h ! k = (if k = 16 then 1 else 0)"
      using view_nth [OF ring that] that by (auto simp: nth_list_update mod_eq_0_iff_dvd dvd_def) presburger+
    ultimately show ?thesis using base by (auto simp: in_bin_def)
  qed
  moreover have "hevents ?h = int (length (filter (\<lambda>p. base ?h \<le> snd p) (es @ [(t, ?s)])))"
    using old base by (fastforce simp: filter_empty_conv)
  moreover have "\<forall>p \<in> set (es @ [(t, ?s)]). snd p \<le> base ?h + 16" using old base by fastforce
  ultimately have "counted (es @ [(t, ?s)]) ?h"
    using es bin_of(1,2) [OF pos, of t] by (auto simp: counted_def)
  moreover have "t \<le> hstart ?h + hlength ?h" "hstart ?h + hlength ?h \<le> t + bin_len ?h"
    using pos_mod_bound [OF pos, of t] pos_mod_sign [OF pos, of t] by simp_all
  ultimately show ?thesis using e by (intro exI [of _ ?h]) simp
qed

section \<open>Sequences of failures\<close>

definition history_inv :: "(int \<times> int) list \<Rightarrow> fail_history \<Rightarrow> bool" where
  "history_inv es h = (counted es h \<and> hist_ok h \<and> (\<forall>p \<in> set es. fst p \<le> last_event h)
     \<and> (last_event h = 0 \<or> last_event h \<in> fst ` set es))"

lemma regist_step:
  assumes "history_inv es h" and "length es < 65536"
  shows "\<exists>h' s. regist_event t 1 h = Some (h', hevents h') \<and> history_inv (es @ [(t, s)]) h'
    \<and> bin_len h' = bin_len h \<and> last_event h' = (if t < hstart h then last_event h else max (last_event h) t)"
proof -
  have c: "counted es h" and r: "ring_ok h" and o: "hstart h \<le> last_event h" "last_event h \<le> hstart h + hlength h"
    and le: "\<forall>p \<in> set es. fst p \<le> last_event h" "last_event h = 0 \<or> last_event h \<in> fst ` set es"
    and st: "hstart h = 0 \<or> hstart h + hlength h \<le> last_event h + bin_len h"
    using assms(1) by (simp_all add: history_inv_def hist_ok_def)
  have len: "0 < bin_len h" "hlength h = 17 * bin_len h" using r by (simp_all add: ring_ok_def)
  have ok: "ring_ok h' \<and> 0 < bin_len h' \<and> hlength h' = 17 * bin_len h'" if "counted es' h'" for es' h'
    using that by (simp add: counted_def ring_ok_def)
  consider "t < hstart h" | "hstart h \<le> t" "t < hstart h + hlength h" "t \<le> last_event h + hlength h"
    | "hstart h + hlength h \<le> t" "t \<le> last_event h + hlength h" | "last_event h + hlength h < t"
    by linarith
  then show ?thesis
  proof cases
    case 1
    then have "history_inv (es @ [(t, t div bin_len h)]) h"
      using counted_late [OF c] r o le st by (auto simp: history_inv_def hist_ok_def)
    with regist_late [OF 1] 1 show ?thesis by auto
  next
    case 2
    from regist_inside [OF c this] obtain h' where h': "regist_event t 1 h = Some (h', hevents h')"
      "counted (es @ [(t, t div bin_len h)]) h'" "last_event h' = max (last_event h) t" "hstart h' = hstart h"
      "bin_len h' = bin_len h" by blast
    then have "history_inv (es @ [(t, t div bin_len h)]) h'"
      using ok [OF h'(2)] 2 o le len st by (auto simp: history_inv_def hist_ok_def max_def)
    with h' 2 show ?thesis by auto
  next
    case 3
    have "0 < hlength h" using len by simp
    from regist_slide [OF c assms(2) 3 this] obtain h' s where h': "regist_event t 1 h = Some (h', hevents h')"
      "counted (es @ [(t, s)]) h'" "last_event h' = max (last_event h) t" "t \<le> hstart h' + hlength h'"
      "hstart h' + hlength h' \<le> t + bin_len h'" "bin_len h' = bin_len h" by blast
    then have "history_inv (es @ [(t, s)]) h'"
      using ok [OF h'(2)] 3 o le by (auto simp: history_inv_def hist_ok_def max_def)
    moreover have "\<not> t < hstart h" using 3(1) len by simp
    ultimately show ?thesis using h' by auto
  next
    case 4
    from regist_anew [OF c le(1) 4 o(1)] obtain h' where h': "regist_event t 1 h = Some (h', hevents h')"
      "counted (es @ [(t, t div bin_len h)]) h'" "last_event h' = t" "t \<le> hstart h' + hlength h'"
      "hstart h' + hlength h' \<le> t + bin_len h'" "bin_len h' = bin_len h" by blast
    then have "history_inv (es @ [(t, t div bin_len h)]) h'"
      using ok [OF h'(2)] 4 o le len by (auto simp: history_inv_def hist_ok_def)
    moreover have "\<not> t < hstart h" "max (last_event h) t = t" using 4 len o by simp_all
    ultimately show ?thesis using h' by auto
  qed
qed

lemma regist_all_inv:
  "history_inv es h \<Longrightarrow> length es + length ts \<le> 65536 \<Longrightarrow>
     \<exists>h' es'. regist_all ts h = Some h' \<and> history_inv es' h' \<and> map fst es' = map fst es @ ts \<and> bin_len h' = bin_len h"
proof (induction ts arbitrary: es h)
  case Nil
  then show ?case by auto
next
  case (Cons t ts)
  from regist_step [OF Cons.prems(1), of t] Cons.prems(2) obtain h' s where
    h': "regist_event t 1 h = Some (h', hevents h')" "history_inv (es @ [(t, s)]) h'" "bin_len h' = bin_len h" by auto
  from Cons.IH [OF h'(2)] Cons.prems(2) h' show ?case by auto
qed

definition bin_width :: "int \<Rightarrow> int" where
  "bin_width window = max 1 ((window + 17) sdiv 17)"

lemma hist_init_inv: "history_inv [] (hist_init window h)" and hist_init_bin: "bin_len (hist_init window h) = bin_width window"
proof -
  have "cur_index (hist_init window h) = 0" "bins (hist_init window h) = replicate 17 0"
    by (simp_all add: hist_init_def Let_def)
  then have "view (hist_init window h) ! k = 0" if "k < 17" for k
    using that nth_rotate [of k "replicate 17 0" 1] by (simp add: view_def del: rotate_Suc)
  then show "history_inv [] (hist_init window h)"
    by (auto simp: history_inv_def hist_ok_def ring_ok_def counted_def hist_init_def base_def in_bin_def
        CONG_HIST_ENTRIES_def Let_def)
  show "bin_len (hist_init window h) = bin_width window"
    by (simp add: hist_init_def bin_width_def CONG_HIST_ENTRIES_def Let_def)
qed

text \<open>The number of failures that \<open>hevents\<close> gives.\<close>

lemma history_bounds:
  assumes "history_inv es h" and "map fst es = ts"
  shows "int (length (filter (\<lambda>t. hstart h < t) ts)) \<le> hevents h"
    and "hevents h \<le> int (length (filter (\<lambda>t. hstart h \<le> t) ts))"
    and "\<forall>t \<in> set ts. t \<le> hstart h + hlength h"
proof -
  have r: "ring_ok h" and ev: "hevents h = int (length (filter (\<lambda>p. base h \<le> snd p) es))"
    and es: "\<forall>p \<in> set es. snd p * bin_len h \<le> fst p \<and> fst p \<le> (snd p + 1) * bin_len h"
    and le: "\<forall>p \<in> set es. fst p \<le> last_event h" "last_event h \<le> hstart h + hlength h"
    using assms(1) by (simp_all add: history_inv_def hist_ok_def counted_def)
  have pos: "0 < bin_len h" using r by (simp add: ring_ok_def)
  note bs = base_start [OF r]
  have up: "hstart h \<le> fst p" if "p \<in> set es" "base h \<le> snd p" for p
    using es that bs mult_right_mono [of "base h" "snd p" "bin_len h"] pos by force
  have low: "base h \<le> snd p" if "p \<in> set es" "hstart h < fst p" for p
  proof -
    have "base h * bin_len h < (snd p + 1) * bin_len h" using es that bs by force
    with pos show ?thesis by simp
  qed
  have count: "length (filter P es) \<le> length (filter Q es)" if "\<forall>p \<in> set es. P p \<longrightarrow> Q p"
    for P Q :: "int \<times> int \<Rightarrow> bool"
    using that by (induction es) auto
  show "int (length (filter (\<lambda>t. hstart h < t) ts)) \<le> hevents h"
    unfolding ev assms(2) [symmetric] using low by (auto simp: filter_map o_def intro: count)
  show "hevents h \<le> int (length (filter (\<lambda>t. hstart h \<le> t) ts))"
    unfolding ev assms(2) [symmetric] using up by (auto simp: filter_map o_def intro: count)
  show "\<forall>t \<in> set ts. t \<le> hstart h + hlength h" using le assms(2) by force
qed

text \<open>Failures that all happen within sixteen bins are all counted.\<close>

lemma history_exact:
  assumes "history_inv es h" and "map fst es = ts"
    and "\<forall>t \<in> set ts. 0 < t" and "\<forall>t \<in> set ts. \<forall>u \<in> set ts. u < t + 16 * bin_len h"
  shows "hevents h = int (length ts)"
proof -
  have len: "hlength h = 17 * bin_len h" and st: "hstart h = 0 \<or> hstart h + hlength h \<le> last_event h + bin_len h"
    and la: "last_event h = 0 \<or> last_event h \<in> fst ` set es" and nn: "0 \<le> hstart h"
    using assms(1) unfolding history_inv_def hist_ok_def ring_ok_def by blast+
  have pos: "0 < bin_len h" using assms(1) by (simp add: history_inv_def hist_ok_def ring_ok_def)
  have "hstart h < t" if "t \<in> set ts" for t
  proof (cases "hstart h = 0")
    case True
    then show ?thesis using assms(3) that by simp
  next
    case False
    with st len have l: "hstart h + 16 * bin_len h \<le> last_event h" by simp
    then have "last_event h \<noteq> 0" using nn pos by linarith
    then have "last_event h \<in> set ts" using la assms(2) by (metis image_set)
    then have "last_event h < t + 16 * bin_len h" using assms(4) that by blast
    with l show ?thesis by simp
  qed
  then have "filter (\<lambda>t. hstart h < t) ts = ts" by (simp add: filter_id_conv)
  then have "length (filter (\<lambda>t. hstart h < t) ts) = length ts" by simp
  moreover have "length (filter (\<lambda>t. hstart h \<le> t) ts) \<le> length ts" by simp
  ultimately show ?thesis using history_bounds(1,2) [OF assms(1,2)] by linarith
qed

lemma history_counts:
  assumes "length ts \<le> 65536"
  shows "\<exists>h. regist_all ts (hist_init window h0) = Some h
    \<and> int (length (filter (\<lambda>t. hstart h < t) ts)) \<le> hevents h
    \<and> hevents h \<le> int (length (filter (\<lambda>t. hstart h \<le> t) ts))
    \<and> (\<forall>t \<in> set ts. t \<le> hstart h + 17 * bin_width window)"
proof -
  from regist_all_inv [OF hist_init_inv, of ts window h0] assms obtain h es where
    h: "regist_all ts (hist_init window h0) = Some h" "history_inv es h" "map fst es = ts"
    "bin_len h = bin_width window" by (auto simp: hist_init_bin)
  then have "hlength h = 17 * bin_width window" by (simp add: history_inv_def hist_ok_def ring_ok_def)
  with h history_bounds [OF h(2,3)] show ?thesis by auto
qed

section \<open>Bins that overflow\<close>

text \<open>How much \<open>hevents\<close> exceeds what the bins hold.\<close>

definition surplus :: "fail_history \<Rightarrow> int" where
  "surplus h = hevents h - int (sum_list (map unat (bins h)))"

lemma sum_bins_update:
  "i < length bs \<Longrightarrow> sum_list (map unat (bs[i := b])) + unat (bs ! i) = sum_list (map unat bs) + unat b"
proof (induction bs arbitrary: i)
  case Nil
  then show ?case by simp
next
  case (Cons c bs)
  show ?case
  proof (cases i)
    case 0
    then show ?thesis by simp
  next
    case (Suc j)
    then show ?thesis using Cons.IH [of j] Cons.prems by simp
  qed
qed

lemma surplus_turn:
  assumes "ring_ok h"
  shows "surplus (turn h) = surplus h"
proof -
  let ?d = "nat (if cur_index h = 16 then 0 else cur_index h + 1)"
  have d: "?d < length (bins h)" using assms by (auto simp: ring_ok_def)
  have v: "view h ! 0 = bins h ! ?d" using view_nth [OF assms, of 0] next_index [OF assms] by simp
  have u: "uint (view h ! 0) = int (unat (bins h ! ?d))" unfolding v by (rule uint_nat)
  have b: "bins (turn h) = (bins h)[?d := 0]" by (simp add: turn_def Let_def)
  have "sum_list (map unat ((bins h)[?d := 0])) + unat (bins h ! ?d) = sum_list (map unat (bins h))"
    using sum_bins_update [OF d, of 0] by simp
  then show ?thesis unfolding surplus_def b turn_fields u by linarith
qed

lemma slide_surplus:
  assumes "ring_ok h"
  shows "\<exists>h'. slide t h = Some h' \<and> ring_ok h' \<and> surplus h' = surplus h \<and> view h' ! 16 = 0
    \<and> last_event h' = last_event h \<and> hlength h' = hlength h"
  using assms
proof (induction "nat (t - (hstart h + hlength h))" arbitrary: h rule: less_induct)
  case less
  have "view (turn h) ! 16 = 0" using view_turn [OF less.prems] less.prems by (simp add: nth_append ring_ok_def)
  note t = turn_ok [OF less.prems] surplus_turn [OF less.prems] this
  show ?case
  proof (cases "hstart (turn h) + hlength h < t")
    case True
    then have "nat (t - (hstart (turn h) + hlength (turn h))) < nat (t - (hstart h + hlength h))"
      using less.prems by (simp add: ring_ok_def)
    from less.hyps [OF this t(1)] t(2) True show ?thesis using slide_unfold [OF less.prems, of t] by simp
  next
    case False
    with t show ?thesis using slide_unfold [OF less.prems, of t] by simp
  qed
qed

text \<open>A bin that overflows is counted for as long as the failures do not pause.\<close>

lemma surplus_add:
  assumes "i < length (bins h)"
  shows "surplus (h\<lparr>bins := (bins h)[i := bins h ! i + 1], hevents := hevents h + 1, last_event := l\<rparr>)
    = surplus h + (if bins h ! i = 65535 then 65536 else 0)"
proof -
  let ?b = "bins h ! i"
  have n: "int (sum_list (map unat ((bins h)[i := ?b + 1]))) + int (unat ?b)
      = int (sum_list (map unat (bins h))) + int (unat (?b + 1))"
    using sum_bins_update [OF assms, of "?b + 1"] by (metis of_nat_add)
  show ?thesis
  proof (cases "?b = 65535")
    case True
    with n show ?thesis by (simp add: surplus_def)
  next
    case False
    have "1 + ?b \<noteq> 0"
    proof
      assume "1 + ?b = 0"
      then have "?b = - 1" by (simp add: eq_neg_iff_add_eq_0 add.commute)
      with False show False by simp
    qed
    then have "int (unat (?b + 1)) = int (unat ?b) + 1" using unatSuc [of ?b] by (simp add: add.commute)
    with n False show ?thesis by (simp add: surplus_def)
  qed
qed

lemma regist_surplus:
  assumes "ring_ok h" and "hstart h \<le> t" and "t \<le> last_event h + hlength h"
  shows "\<exists>h'. regist_event t 1 h = Some (h', hevents h') \<and> ring_ok h'
    \<and> surplus h' = surplus h
      + (if t < hstart h + hlength h \<and> get_bin_events h ((t - hstart h) sdiv bin_len h) = Some 65535 then 65536 else 0)"
proof (cases "t < hstart h + hlength h")
  case True
  let ?i = "((t - hstart h) sdiv bin_len h + 1 + cur_index h) smod 17"
  have r: "0 < bin_len h" "length (bins h) = 17" "0 \<le> cur_index h" using assms(1) by (simp_all add: ring_ok_def)
  have "0 \<le> (t - hstart h) sdiv bin_len h" using assms(2) r by (simp add: pos_sdiv pos_imp_zdiv_nonneg_iff)
  then have i: "0 \<le> ?i" "?i < 17" using r by (simp_all add: pos_smod)
  then have b: "bin_at h ?i = Some (bins h ! nat ?i)" by (simp add: bin_at_def r)
  then have e: "regist_event t 1 h = Some (h\<lparr>bins := (bins h)[nat ?i := bins h ! nat ?i + 1],
      hevents := hevents h + 1, last_event := max (last_event h) t\<rparr>, hevents h + 1)"
    using assms(2,3) True r by (simp add: regist_event_def CONG_HIST_ENTRIES_def newest wi_hom_syms Let_def)
  moreover have "ring_ok (h\<lparr>bins := (bins h)[nat ?i := bins h ! nat ?i + 1],
      hevents := hevents h + 1, last_event := max (last_event h) t\<rparr>)"
    using assms(1) by (simp add: ring_ok_def)
  ultimately show ?thesis
    using True surplus_add [of "nat ?i" h] i r b
    by (simp add: get_bin_events_def CONG_HIST_ENTRIES_def nat_less_iff)
next
  case False
  from slide_surplus [OF assms(1), of t] obtain g where g: "slide t h = Some g" "ring_ok g" "surplus g = surplus h"
    "view g ! 16 = 0" "last_event g = last_event h" "hlength g = hlength h" by blast
  let ?c = "nat (cur_index g)"
  have c: "0 \<le> cur_index g" "cur_index g < 17" "length (bins g) = 17" using g(2) by (simp_all add: ring_ok_def)
  then have z: "bins g ! ?c = 0" using view_nth [OF g(2), of 16] g(4) by simp
  let ?h = "g\<lparr>bins := (bins g)[?c := bins g ! ?c + 1], hevents := hevents g + 1, last_event := max (last_event g) t\<rparr>"
  have "regist_event t 1 h = Some (?h, hevents ?h)"
    using assms(2,3) False g(1) c z by (simp add: regist_event_def bin_at_def newest)
  moreover have "ring_ok ?h" using g(2) by (simp add: ring_ok_def)
  ultimately show ?thesis using False surplus_add [of ?c g] c z g(3) by (simp add: nat_less_iff)
qed

end
