(* ===== verification/CongestionEntry.thy ===== *)
theory CongestionEntry
  imports FailHistory
begin

text \<open>
  What the proxy knows about the health of a server, \<open>ObCongestionEntry\<close> in
  \<open>src/src/obproxy/obutils/ob_congestion_entry.h\<close> and \<open>.cpp\<close>, and what the transaction layer makes of it
  (\<open>ob_mysql_transact.h\<close> and \<open>.cpp\<close>).  The configuration and the state of the zone are objects with a
  reference count that entries share: they are in heaps, and an operation is \<open>None\<close> when it touches an
  object that is freed.  The clock is an argument: \<open>now\<close> in nanoseconds, \<open>us\<close> in microseconds, \<open>locked\<close>
  says whether the lock of the failure histories was taken.
\<close>

section \<open>Reference counts\<close>

record refcnt =
  ref_count :: int

definition inc_ref :: "(addr \<Rightarrow> 'a refcnt_scheme option) \<Rightarrow> addr \<Rightarrow> (addr \<Rightarrow> 'a refcnt_scheme option) option" where
  "inc_ref H a =
     (case H a of
        None \<Rightarrow> None
      | Some c \<Rightarrow> Some (H(a \<mapsto> c\<lparr>ref_count := ref_count c + 1\<rparr>)))"

definition dec_ref :: "(addr \<Rightarrow> 'a refcnt_scheme option) \<Rightarrow> addr \<Rightarrow> (addr \<Rightarrow> 'a refcnt_scheme option) option" where
  "dec_ref H a =
     (case H a of
        None \<Rightarrow> None
      | Some c \<Rightarrow> Some (if ref_count c = 1 then H(a := None) else H(a \<mapsto> c\<lparr>ref_count := ref_count c - 1\<rparr>)))"

section \<open>State\<close>

record control_config = refcnt +
  conn_failure_threshold :: int
  alive_failure_threshold :: int
  fail_window_sec :: int
  retry_interval_sec :: int
  min_keep_congestion_interval_sec :: int

definition config_eq :: "control_config \<Rightarrow> control_config \<Rightarrow> bool" where
  "config_eq c d =
     (conn_failure_threshold c = conn_failure_threshold d
      \<and> alive_failure_threshold c = alive_failure_threshold d
      \<and> fail_window_sec c = fail_window_sec d
      \<and> retry_interval_sec c = retry_interval_sec d
      \<and> min_keep_congestion_interval_sec c = min_keep_congestion_interval_sec d)"

text \<open>What the constructor sets.\<close>

definition default_config :: control_config where
  "default_config = \<lparr>ref_count = 0, conn_failure_threshold = 5, alive_failure_threshold = 5,
     fail_window_sec = 120, retry_interval_sec = 10, min_keep_congestion_interval_sec = 20\<rparr>"

datatype zone_status = Z_INACTIVE | Z_ACTIVE | Z_MERGE | Z_UPGRADE | Z_DELETED

record zone = refcnt +
  zone_name :: "u8 list"
  region_name :: "u8 list"
  zstatus :: zone_status
  zone_revalidate_us :: int

datatype server_status =
    ACTIVE | INACTIVE | ACTIVE_CONGESTED | DELETING | DELETED | UPGRADE | REPLAY | DETECT_ALIVE | DETECT_DEAD

datatype entry_status = ENTRY_AVAIL | ENTRY_DELETED

record 'ip centry = refcnt +
  server_state :: server_status
  entry_state :: entry_status
  server_ip :: 'ip
  control_config :: "addr option"
  zone_state :: "addr option"
  conn_hist :: fail_history
  alive_hist :: fail_history
  fail_hist_lock :: bool
  last_dead_congested :: int
  dead_congested :: int
  last_alive_congested :: int
  alive_congested :: int
  last_detect_congested :: int
  detect_congested :: int
  feedback_hist :: fail_history
  last_feedback_congested :: int
  stat_feedback_failures :: int
  feedback_congested :: int
  stat_conn_failures :: int
  stat_alive_failures :: int
  last_revalidate_us :: int
  cr_version :: int

type_synonym configs = "addr \<Rightarrow> control_config option"
type_synonym zones = "addr \<Rightarrow> zone option"

definition new_entry :: "'ip \<Rightarrow> 'ip centry" where
  "new_entry ip =
     \<lparr>ref_count = 0, server_state = ACTIVE, entry_state = ENTRY_AVAIL, server_ip = ip,
      control_config = None, zone_state = None, conn_hist = new_history, alive_hist = new_history,
      fail_hist_lock = False, last_dead_congested = 0, dead_congested = 0, last_alive_congested = 0,
      alive_congested = 0, last_detect_congested = 0, detect_congested = 0, feedback_hist = new_history,
      last_feedback_congested = 0, stat_feedback_failures = 0, feedback_congested = 0,
      stat_conn_failures = 0, stat_alive_failures = 0, last_revalidate_us = 0, cr_version = - 1\<rparr>"

fun get_zone_state_name :: "zone_status \<Rightarrow> string" where
  "get_zone_state_name Z_INACTIVE = ''INACTIVE''"
| "get_zone_state_name Z_ACTIVE = ''ACTIVE''"
| "get_zone_state_name Z_MERGE = ''MERGE''"
| "get_zone_state_name Z_UPGRADE = ''UPGRADE''"
| "get_zone_state_name Z_DELETED = ''DELETED''"

fun get_server_state_name :: "server_status \<Rightarrow> string" where
  "get_server_state_name INACTIVE = ''INACTIVE''"
| "get_server_state_name ACTIVE = ''ACTIVE''"
| "get_server_state_name ACTIVE_CONGESTED = ''ACTIVE_CONGESTED''"
| "get_server_state_name DELETING = ''DELETING''"
| "get_server_state_name DELETED = ''DELETED''"
| "get_server_state_name UPGRADE = ''UPGRADE''"
| "get_server_state_name REPLAY = ''REPLAY''"
| "get_server_state_name DETECT_ALIVE = ''DETECT_ALIVE''"
| "get_server_state_name DETECT_DEAD = ''DETECT_DEAD''"

fun get_entry_state_name :: "entry_status \<Rightarrow> string" where
  "get_entry_state_name ENTRY_AVAIL = ''ENTRY_AVAIL''"
| "get_entry_state_name ENTRY_DELETED = ''ENTRY_DELETED''"

section \<open>Times\<close>

definition HRTIME_SECOND :: int where
  "HRTIME_SECOND = 1000 * (1000 * (1000 * 1))"

definition hrtime_to_sec :: "int \<Rightarrow> int" where
  "hrtime_to_sec t = t sdiv HRTIME_SECOND"

definition extract_second :: "int \<Rightarrow> int" where
  "extract_second us = (if us \<ge> 0 then us sdiv 1000000 else us sdiv 1000000 - 1)"

section \<open>Flags\<close>

definition is_alive_congested :: "'ip centry \<Rightarrow> bool" where
  "is_alive_congested e = (alive_congested e = 1)"

definition is_dead_congested :: "'ip centry \<Rightarrow> bool" where
  "is_dead_congested e = (dead_congested e = 1)"

definition is_detect_congested :: "'ip centry \<Rightarrow> bool" where
  "is_detect_congested e = (detect_congested e = 1)"

definition is_server_upgrading :: "'ip centry \<Rightarrow> bool" where
  "is_server_upgrading e = (server_state e = UPGRADE)"

definition is_server_replaying :: "'ip centry \<Rightarrow> bool" where
  "is_server_replaying e = (server_state e = REPLAY)"

definition zone_is :: "zone_status \<Rightarrow> zones \<Rightarrow> 'ip centry \<Rightarrow> bool option" where
  "zone_is s Z e =
     (case zone_state e of
        None \<Rightarrow> Some False
      | Some z \<Rightarrow> map_option (\<lambda>z. zstatus z = s) (Z z))"

definition is_zone_merging :: "zones \<Rightarrow> 'ip centry \<Rightarrow> bool option" where
  "is_zone_merging = zone_is Z_MERGE"

definition is_zone_upgrading :: "zones \<Rightarrow> 'ip centry \<Rightarrow> bool option" where
  "is_zone_upgrading = zone_is Z_UPGRADE"

definition is_force_alive_congested :: "zones \<Rightarrow> 'ip centry \<Rightarrow> bool option" where
  "is_force_alive_congested Z e = map_option (\<lambda>u. u \<or> is_server_upgrading e) (is_zone_upgrading Z e)"

definition is_congested :: "zones \<Rightarrow> 'ip centry \<Rightarrow> bool option" where
  "is_congested Z e =
     (if is_dead_congested e then Some True
      else map_option (\<lambda>f. f \<or> is_alive_congested e \<or> is_detect_congested e) (is_force_alive_congested Z e))"

text \<open>\<open>ATOMIC_TAS\<close> stores the new value and returns the old one.\<close>

definition set_alive_congested :: "int \<Rightarrow> 'ip centry \<Rightarrow> 'ip centry" where
  "set_alive_congested us e =
     (let old = alive_congested e; e = e\<lparr>alive_congested := 1\<rparr>
      in if old \<noteq> 0 then e else e\<lparr>last_alive_congested := extract_second us\<rparr>)"

definition set_alive_congested_free :: "'ip centry \<Rightarrow> 'ip centry" where
  "set_alive_congested_free e = e\<lparr>alive_congested := 0\<rparr>"

definition set_dead_congested :: "int \<Rightarrow> 'ip centry \<Rightarrow> 'ip centry" where
  "set_dead_congested us e =
     (let old = dead_congested e; e = e\<lparr>dead_congested := 1\<rparr>
      in if old \<noteq> 0 then e else e\<lparr>last_dead_congested := extract_second us\<rparr>)"

definition set_dead_congested_free :: "'ip centry \<Rightarrow> 'ip centry" where
  "set_dead_congested_free e = e\<lparr>dead_congested := 0\<rparr>"

definition set_detect_congested :: "int \<Rightarrow> 'ip centry \<Rightarrow> 'ip centry" where
  "set_detect_congested us e =
     (let old = detect_congested e; e = e\<lparr>detect_congested := 1\<rparr>
      in if old \<noteq> 0 then e else e\<lparr>last_detect_congested := extract_second us\<rparr>)"

definition set_detect_congested_free :: "'ip centry \<Rightarrow> 'ip centry" where
  "set_detect_congested_free e = e\<lparr>detect_congested := 0\<rparr>"

definition set_all_congested_free :: "'ip centry \<Rightarrow> 'ip centry" where
  "set_all_congested_free e = set_alive_congested_free (set_dead_congested_free e)"

definition set_dead_free_alive_congested :: "int \<Rightarrow> 'ip centry \<Rightarrow> 'ip centry" where
  "set_dead_free_alive_congested us e = set_alive_congested us (set_dead_congested_free e)"

section \<open>Failures\<close>

definition check_dead_congested :: "control_config \<Rightarrow> 'ip centry \<Rightarrow> bool" where
  "check_dead_congested c e =
     (if dead_congested e \<noteq> 0 then True
      else if conn_failure_threshold c < 0 then False
      else conn_failure_threshold c \<le> hevents (conn_hist e))"

definition check_alive_congested :: "control_config \<Rightarrow> 'ip centry \<Rightarrow> bool" where
  "check_alive_congested c e =
     (if is_alive_congested e then True
      else if alive_failure_threshold c < 0 then False
      else alive_failure_threshold c \<le> hevents (alive_hist e))"

definition check_client_feedback_congested :: "control_config \<Rightarrow> 'ip centry \<Rightarrow> bool" where
  "check_client_feedback_congested c e =
     (if feedback_congested e = 1 then True
      else if alive_failure_threshold c < 0 then False
      else alive_failure_threshold c \<le> hevents (feedback_hist e))"

definition set_dead_failed_at :: "control_config \<Rightarrow> bool \<Rightarrow> int \<Rightarrow> 'ip centry \<Rightarrow> 'ip centry option" where
  "set_dead_failed_at c locked t e =
     (let e = e\<lparr>stat_conn_failures := stat_conn_failures e + 1\<rparr>
      in if conn_failure_threshold c \<ge> 0 \<and> locked then do {
           (h, _) \<leftarrow> regist_event (hrtime_to_sec t) 1 (conn_hist e);
           let e = e\<lparr>conn_hist := h\<rparr>;
           Some (if dead_congested e = 0 \<and> check_dead_congested c e
                 then e\<lparr>dead_congested := 1, last_dead_congested := last_event (conn_hist e)\<rparr>
                 else e)
         } else Some e)"

definition set_alive_failed_at :: "control_config \<Rightarrow> bool \<Rightarrow> int \<Rightarrow> 'ip centry \<Rightarrow> 'ip centry option" where
  "set_alive_failed_at c locked t e =
     (let e = e\<lparr>stat_alive_failures := stat_alive_failures e + 1\<rparr>
      in if alive_failure_threshold c \<ge> 0 \<and> locked then do {
           (h, _) \<leftarrow> regist_event (hrtime_to_sec t) 1 (alive_hist e);
           let e = e\<lparr>alive_hist := h\<rparr>;
           Some (if alive_congested e = 0 \<and> check_alive_congested c e
                 then e\<lparr>alive_congested := 1, last_alive_congested := last_event (alive_hist e)\<rparr>
                 else e)
         } else Some e)"

definition set_client_feedback_failed_at :: "control_config \<Rightarrow> bool \<Rightarrow> int \<Rightarrow> 'ip centry \<Rightarrow> 'ip centry option" where
  "set_client_feedback_failed_at c locked t e =
     (let e = e\<lparr>stat_feedback_failures := stat_feedback_failures e + 1\<rparr>
      in if alive_failure_threshold c \<ge> 0 \<and> locked then do {
           (h, _) \<leftarrow> regist_event (hrtime_to_sec t) 1 (feedback_hist e);
           let e = e\<lparr>feedback_hist := h\<rparr>;
           Some (if feedback_congested e = 0 \<and> check_client_feedback_congested c e
                 then e\<lparr>feedback_congested := 1, last_feedback_congested := last_event (feedback_hist e)\<rparr>
                 else e)
         } else Some e)"

definition alive_need_retry :: "control_config \<Rightarrow> int \<Rightarrow> 'ip centry \<Rightarrow> bool" where
  "alive_need_retry c t e = (hrtime_to_sec t - last_event (alive_hist e) \<ge> retry_interval_sec c)"

definition alive_need_update :: "control_config \<Rightarrow> int \<Rightarrow> 'ip centry \<Rightarrow> bool" where
  "alive_need_update c t e = (hrtime_to_sec t - last_alive_congested e \<ge> min_keep_congestion_interval_sec c)"

definition dead_need_update :: "control_config \<Rightarrow> int \<Rightarrow> 'ip centry \<Rightarrow> bool" where
  "dead_need_update c t e = (hrtime_to_sec t - last_dead_congested e \<ge> min_keep_congestion_interval_sec c)"

definition check_and_set_alive ::
    "configs \<Rightarrow> bool \<Rightarrow> int \<Rightarrow> int \<Rightarrow> 'ip centry \<Rightarrow> 'ip centry option" where
  "check_and_set_alive C locked now us e =
     (case control_config e of
        None \<Rightarrow> Some e
      | Some a \<Rightarrow> do {
          c \<leftarrow> C a;
          if is_dead_congested e then
            if dead_need_update c now e then Some (set_all_congested_free e)
            else do {
              e \<leftarrow> set_alive_failed_at c locked now e;
              Some (set_dead_free_alive_congested us e)
            }
          else if is_alive_congested e \<and> alive_need_update c now e then Some (set_all_congested_free e)
          else Some e
        })"

definition reset_fail_history :: "control_config \<Rightarrow> 'ip centry \<Rightarrow> 'ip centry" where
  "reset_fail_history c e =
     (let e = e\<lparr>conn_hist := hist_init (fail_window_sec c) (conn_hist e), dead_congested := 0\<rparr>;
          e = e\<lparr>alive_hist := hist_init (fail_window_sec c) (alive_hist e), alive_congested := 0\<rparr>
      in e\<lparr>feedback_hist := hist_init (fail_window_sec c) (feedback_hist e)\<rparr>)"

section \<open>Configuration and zone\<close>

text \<open>\<open>init\<close>: \<open>alloc\<close> says whether the lock could be allocated.\<close>

definition entry_init ::
    "configs \<Rightarrow> zones \<Rightarrow> bool \<Rightarrow> addr option \<Rightarrow> addr option \<Rightarrow> 'ip centry \<Rightarrow> (ob_err \<times> configs \<times> zones \<times> 'ip centry) option"
where
  "entry_init C Z alloc config zstate e =
     (case (config, zstate) of
        (Some a, Some z) \<Rightarrow> do {
          C \<leftarrow> (case control_config e of None \<Rightarrow> Some C | Some old \<Rightarrow> dec_ref C old);
          C \<leftarrow> inc_ref C a;
          let e = e\<lparr>control_config := Some a\<rparr>;
          Z \<leftarrow> (case zone_state e of None \<Rightarrow> Some Z | Some old \<Rightarrow> dec_ref Z old);
          Z \<leftarrow> inc_ref Z z;
          let e = e\<lparr>zone_state := Some z\<rparr>;
          c \<leftarrow> C a;
          let e = (reset_fail_history c e)\<lparr>fail_hist_lock := alloc\<rparr>;
          Some (if alloc then OB_SUCCESS else OB_ALLOCATE_MEMORY_FAILED, C, Z, e)
        }
      | _ \<Rightarrow> Some (OB_INVALID_ARGUMENT, C, Z, e))"

definition entry_destroy :: "configs \<Rightarrow> zones \<Rightarrow> 'ip centry \<Rightarrow> (configs \<times> zones \<times> 'ip centry) option" where
  "entry_destroy C Z e = do {
     C \<leftarrow> (case control_config e of None \<Rightarrow> Some C | Some a \<Rightarrow> dec_ref C a);
     Z \<leftarrow> (case zone_state e of None \<Rightarrow> Some Z | Some z \<Rightarrow> dec_ref Z z);
     Some (C, Z, e\<lparr>fail_hist_lock := False, control_config := None, zone_state := None\<rparr>)
   }"

text \<open>The part of \<open>apply_new_config\<close> behind the exchange of the configuration, for each of the two flags.\<close>

definition adjust_dead :: "int \<Rightarrow> control_config \<Rightarrow> int \<Rightarrow> 'ip centry \<Rightarrow> 'ip centry" where
  "adjust_dead us c cft e =
     (if conn_failure_threshold c < 0 then set_dead_congested_free e
      else if cft < conn_failure_threshold c then set_dead_congested_free e
      else if cft > conn_failure_threshold c \<and> hevents (conn_hist e) \<ge> conn_failure_threshold c
      then set_dead_congested us e
      else e)"

definition adjust_alive :: "int \<Rightarrow> control_config \<Rightarrow> int \<Rightarrow> 'ip centry \<Rightarrow> 'ip centry" where
  "adjust_alive us c aft e =
     (if alive_failure_threshold c < 0 then set_alive_congested_free e
      else if aft < alive_failure_threshold c then set_alive_congested_free e
      else if aft > alive_failure_threshold c \<and> hevents (alive_hist e) \<ge> alive_failure_threshold c
      then set_alive_congested us e
      else e)"

definition apply_new_config ::
    "configs \<Rightarrow> int \<Rightarrow> addr option \<Rightarrow> 'ip centry \<Rightarrow> (ob_err \<times> configs \<times> 'ip centry) option" where
  "apply_new_config C us config e =
     (case config of
        None \<Rightarrow> Some (OB_INVALID_ARGUMENT, C, e)
      | Some a \<Rightarrow> do {
          old \<leftarrow> control_config e;
          c0 \<leftarrow> C old;
          c1 \<leftarrow> C a;
          if fail_window_sec c0 \<noteq> fail_window_sec c1 then do {
            C \<leftarrow> dec_ref C old;
            C \<leftarrow> inc_ref C a;
            c \<leftarrow> C a;
            Some (OB_SUCCESS, C, reset_fail_history c (e\<lparr>control_config := Some a\<rparr>))
          } else do {
            let cft = conn_failure_threshold c0;
            let aft = alive_failure_threshold c0;
            C \<leftarrow> dec_ref C old;
            C \<leftarrow> inc_ref C a;
            c \<leftarrow> C a;
            let e = e\<lparr>control_config := Some a\<rparr>;
            Some (OB_SUCCESS, C, adjust_alive us c aft (adjust_dead us c cft e))
          }
        })"

definition validate_config ::
    "configs \<Rightarrow> int \<Rightarrow> addr option \<Rightarrow> 'ip centry \<Rightarrow> (ob_err \<times> configs \<times> 'ip centry) option" where
  "validate_config C us config e =
     (if config = None then Some (OB_INVALID_ARGUMENT, C, e) else apply_new_config C us config e)"

definition apply_new_zone_state ::
    "zones \<Rightarrow> addr option \<Rightarrow> 'ip centry \<Rightarrow> (ob_err \<times> zones \<times> 'ip centry) option" where
  "apply_new_zone_state Z zstate e =
     (case zstate of
        None \<Rightarrow> Some (OB_INVALID_ARGUMENT, Z, e)
      | Some z \<Rightarrow>
          (case zone_state e of
             None \<Rightarrow> Some (OB_SUCCESS, Z, e)
           | Some old \<Rightarrow>
               if old = z then Some (OB_SUCCESS, Z, e)
               else do {
                 z0 \<leftarrow> Z old;
                 z1 \<leftarrow> Z z;
                 if zone_name z0 = zone_name z1 \<and> zstatus z1 \<noteq> Z_DELETED then do {
                   Z \<leftarrow> dec_ref Z old;
                   Z \<leftarrow> inc_ref Z z;
                   Some (OB_SUCCESS, Z, e\<lparr>zone_state := Some z\<rparr>)
                 } else Some (OB_SUCCESS, Z, e)
               }))"

definition validate_zone ::
    "zones \<Rightarrow> addr option \<Rightarrow> 'ip centry \<Rightarrow> (ob_err \<times> zones \<times> 'ip centry) option" where
  "validate_zone Z zstate e =
     (if zstate = None then Some (OB_INVALID_ARGUMENT, Z, e) else apply_new_zone_state Z zstate e)"

section \<open>Reference counting\<close>

lemma inc_ref_some: "inc_ref H a = Some H' \<longleftrightarrow> (\<exists>c. H a = Some c \<and> H' = H(a \<mapsto> c\<lparr>ref_count := ref_count c + 1\<rparr>))"
  by (auto simp: inc_ref_def split: option.splits)

lemma dec_ref_other: "dec_ref H a = Some H' \<Longrightarrow> b \<noteq> a \<Longrightarrow> H' b = H b"
  by (auto simp: dec_ref_def split: option.splits if_splits)

text \<open>Exchanging one reference for another: the old object loses a reference, or is freed with its last
  one, and the new one gains a reference.  When both are the same object and this is its only reference,
  it is freed before it is referenced again.\<close>

definition dropped :: "'a refcnt_scheme \<Rightarrow> 'a refcnt_scheme option" where
  "dropped c = (if ref_count c = 1 then None else Some (c\<lparr>ref_count := ref_count c - 1\<rparr>))"

lemma dec_ref_dropped: "H a = Some c \<Longrightarrow> dec_ref H a = Some (H(a := dropped c))"
  by (simp add: dec_ref_def dropped_def)

lemma exchange_ref:
  assumes "H old = Some c" and "H a = Some d" and "a \<noteq> old"
  shows "Option.bind (dec_ref H old) (\<lambda>H. inc_ref H a)
    = Some (H(old := dropped c, a \<mapsto> d\<lparr>ref_count := ref_count d + 1\<rparr>))"
  using assms by (simp add: dec_ref_dropped inc_ref_def)

lemma exchange_self:
  assumes "H a = Some c"
  shows "Option.bind (dec_ref H a) (\<lambda>H. inc_ref H a) = (if ref_count c = 1 then None else Some H)"
  using assms by (auto simp: dec_ref_dropped inc_ref_def dropped_def)

section \<open>Detecting a server that fails\<close>

lemmas flag_defs = set_alive_congested_def set_alive_congested_free_def set_dead_congested_def
  set_dead_congested_free_def set_detect_congested_def set_detect_congested_free_def
  set_all_congested_free_def set_dead_free_alive_congested_def
  is_alive_congested_def is_dead_congested_def is_detect_congested_def

lemma flags [simp]:
  "alive_congested (set_alive_congested us e) = 1" "alive_congested (set_alive_congested_free e) = 0"
  "alive_congested (set_dead_congested us e) = alive_congested e"
  "alive_congested (set_dead_congested_free e) = alive_congested e"
  "dead_congested (set_dead_congested us e) = 1" "dead_congested (set_dead_congested_free e) = 0"
  "dead_congested (set_alive_congested us e) = dead_congested e"
  "dead_congested (set_alive_congested_free e) = dead_congested e"
  "alive_congested (set_all_congested_free e) = 0" "dead_congested (set_all_congested_free e) = 0"
  "alive_congested (set_dead_free_alive_congested us e) = 1"
  "dead_congested (set_dead_free_alive_congested us e) = 0"
  by (simp_all add: flag_defs Let_def)

text \<open>A sequence of failures, each with whether the lock of the histories is obtained, and its time.\<close>

fun fail_all :: "control_config \<Rightarrow> (bool \<times> int) list \<Rightarrow> 'ip centry \<Rightarrow> 'ip centry option" where
  "fail_all c [] e = Some e"
| "fail_all c ((locked, t) # fs) e = do { e \<leftarrow> set_alive_failed_at c locked t e; fail_all c fs e }"

text \<open>Only these failures get into the history.\<close>

definition registered :: "(bool \<times> int) list \<Rightarrow> int list" where
  "registered fs = map snd (filter fst fs)"

lemma registered_simps [simp]: "registered [] = []" "registered ((l, t) # fs) = (if l then t # registered fs else registered fs)"
  by (simp_all add: registered_def)

lemma fail_one:
  assumes "history_inv es (alive_hist e)" and "length es < 65536" and "0 \<le> alive_failure_threshold c"
  shows "\<exists>e' s. set_alive_failed_at c True t e = Some e' \<and> history_inv (es @ [(hrtime_to_sec t, s)]) (alive_hist e')
    \<and> bin_len (alive_hist e') = bin_len (alive_hist e) \<and> dead_congested e' = dead_congested e
    \<and> (last_event (alive_hist e) \<le> hrtime_to_sec t \<longrightarrow> last_event (alive_hist e') = hrtime_to_sec t)
    \<and> alive_congested e' = (if alive_congested e = 0 \<and> alive_failure_threshold c \<le> hevents (alive_hist e')
        then 1 else alive_congested e)"
proof -
  from regist_step [OF assms(1,2), of "hrtime_to_sec t"] obtain h s where
    "regist_event (hrtime_to_sec t) 1 (alive_hist e) = Some (h, hevents h)"
    "history_inv (es @ [(hrtime_to_sec t, s)]) h" "bin_len h = bin_len (alive_hist e)"
    "last_event h = (if hrtime_to_sec t < hstart (alive_hist e) then last_event (alive_hist e)
       else max (last_event (alive_hist e)) (hrtime_to_sec t))" by blast
  moreover have "hstart (alive_hist e) \<le> last_event (alive_hist e)"
    using assms(1) by (simp add: history_inv_def hist_ok_def)
  ultimately show ?thesis using assms(3)
    by (auto simp: set_alive_failed_at_def check_alive_congested_def is_alive_congested_def Let_def)
qed

lemma inv_hevents_le: "history_inv es h \<Longrightarrow> hevents h \<le> int (length es)"
  by (simp add: history_inv_def counted_def)

lemma fail_all_spec:
  "history_inv es (alive_hist e) \<Longrightarrow> length es + length (registered fs) \<le> 65536 \<Longrightarrow> 0 \<le> alive_failure_threshold c \<Longrightarrow>
   alive_congested e = 0 \<or> alive_congested e = 1 \<Longrightarrow>
   \<exists>e' es'. fail_all c fs e = Some e' \<and> history_inv es' (alive_hist e')
     \<and> map fst es' = map fst es @ map hrtime_to_sec (registered fs) \<and> bin_len (alive_hist e') = bin_len (alive_hist e)
     \<and> (alive_congested e = 1 \<longrightarrow> alive_congested e' = 1)
     \<and> (registered fs \<noteq> [] \<longrightarrow> alive_failure_threshold c \<le> hevents (alive_hist e') \<longrightarrow> alive_congested e' = 1)
     \<and> (registered fs = [] \<longrightarrow> hevents (alive_hist e') = hevents (alive_hist e) \<and> alive_congested e' = alive_congested e)
     \<and> (alive_congested e = 0 \<longrightarrow> int (length es + length (registered fs)) < alive_failure_threshold c \<longrightarrow> alive_congested e' = 0)"
proof (induction fs arbitrary: es e)
  case Nil
  then show ?case by auto
next
  case (Cons f fs)
  obtain l t where f: "f = (l, t)" by (cases f)
  show ?case
  proof (cases l)
    case False
    let ?e = "e\<lparr>stat_alive_failures := stat_alive_failures e + 1\<rparr>"
    have "fail_all c (f # fs) e = fail_all c fs ?e" using False by (simp add: f set_alive_failed_at_def Let_def)
    with Cons.IH [of es ?e] Cons.prems False show ?thesis by (simp add: f)
  next
    case True
    have "length es < 65536" using Cons.prems(2) True f by simp
    from fail_one [OF Cons.prems(1) this Cons.prems(3), of t] obtain e' s where
      one: "set_alive_failed_at c True t e = Some e'" "history_inv (es @ [(hrtime_to_sec t, s)]) (alive_hist e')"
      "bin_len (alive_hist e') = bin_len (alive_hist e)"
      "alive_congested e' = (if alive_congested e = 0 \<and> alive_failure_threshold c \<le> hevents (alive_hist e')
          then 1 else alive_congested e)" by blast
    have le: "hevents (alive_hist e') \<le> int (length es) + 1" using inv_hevents_le [OF one(2)] by simp
    have "alive_congested e' = 0 \<or> alive_congested e' = 1" using one(4) Cons.prems(4) by auto
    from Cons.IH [OF one(2) _ Cons.prems(3) this] Cons.prems(2) True f obtain e2 es2 where
      r: "fail_all c fs e' = Some e2" "history_inv es2 (alive_hist e2)"
      "map fst es2 = map fst (es @ [(hrtime_to_sec t, s)]) @ map hrtime_to_sec (registered fs)"
      "bin_len (alive_hist e2) = bin_len (alive_hist e')"
      "alive_congested e' = 1 \<longrightarrow> alive_congested e2 = 1"
      "registered fs \<noteq> [] \<longrightarrow> alive_failure_threshold c \<le> hevents (alive_hist e2) \<longrightarrow> alive_congested e2 = 1"
      "registered fs = [] \<longrightarrow> hevents (alive_hist e2) = hevents (alive_hist e') \<and> alive_congested e2 = alive_congested e'"
      "alive_congested e' = 0 \<longrightarrow> int (length (es @ [(hrtime_to_sec t, s)]) + length (registered fs)) < alive_failure_threshold c
        \<longrightarrow> alive_congested e2 = 0" by auto
    have "alive_failure_threshold c \<le> hevents (alive_hist e2) \<longrightarrow> alive_congested e2 = 1"
      using r(6,7) one(4) Cons.prems(4) by (cases "registered fs = []") auto
    moreover have "alive_congested e = 0 \<longrightarrow> int (length es + length (t # registered fs)) < alive_failure_threshold c
        \<longrightarrow> alive_congested e2 = 0"
      using r(8) one(4) le by auto
    moreover have "alive_congested e = 1 \<longrightarrow> alive_congested e2 = 1" using r(5) one(4) by auto
    ultimately show ?thesis using one(1,3) r(1-4) True f by (intro exI [of _ e2] exI [of _ es2]) simp
  qed
qed

text \<open>Too few failures never congest a server, enough of them within the window always do; only those count
  for which the lock of the history was taken.\<close>

lemma alive_threshold:
  assumes "alive_hist e = hist_init window h" and "alive_congested e = 0"
    and "0 < alive_failure_threshold c" and "length (registered fs) \<le> 65536"
  shows "\<exists>e'. fail_all c fs e = Some e'
    \<and> (int (length (registered fs)) < alive_failure_threshold c \<longrightarrow> alive_congested e' = 0)
    \<and> (alive_failure_threshold c \<le> int (length (registered fs)) \<longrightarrow> (\<forall>t \<in> set (registered fs). 0 < hrtime_to_sec t) \<longrightarrow>
         (\<forall>t \<in> set (registered fs). \<forall>u \<in> set (registered fs). hrtime_to_sec u < hrtime_to_sec t + 16 * bin_width window) \<longrightarrow>
         alive_congested e' = 1)"
proof -
  let ?ts = "registered fs"
  have "history_inv [] (alive_hist e)" using assms(1) hist_init_inv by simp
  from fail_all_spec [OF this, of fs c] assms obtain e' es where f: "fail_all c fs e = Some e'"
    "history_inv es (alive_hist e')" "map fst es = map hrtime_to_sec ?ts" "bin_len (alive_hist e') = bin_width window"
    "?ts \<noteq> [] \<longrightarrow> alive_failure_threshold c \<le> hevents (alive_hist e') \<longrightarrow> alive_congested e' = 1"
    "int (length ?ts) < alive_failure_threshold c \<longrightarrow> alive_congested e' = 0"
    by (auto simp: hist_init_bin)
  have "alive_congested e' = 1" if "alive_failure_threshold c \<le> int (length ?ts)" "\<forall>t \<in> set ?ts. 0 < hrtime_to_sec t"
    "\<forall>t \<in> set ?ts. \<forall>u \<in> set ?ts. hrtime_to_sec u < hrtime_to_sec t + 16 * bin_width window"
  proof -
    have "hevents (alive_hist e') = int (length (map hrtime_to_sec ?ts))"
      by (rule history_exact [OF f(2,3)]) (use that f(4) in simp_all)
    then show ?thesis using f(5) that(1) assms(3) by force
  qed
  with f show ?thesis by blast
qed

text \<open>A failed retry postpones the next one by the whole interval.\<close>

lemma retry_postponed:
  assumes "history_inv es (alive_hist e)" and "length es < 65536" and "0 \<le> alive_failure_threshold c"
    and "last_event (alive_hist e) \<le> hrtime_to_sec now"
  shows "\<exists>e'. set_alive_failed_at c True now e = Some e'
    \<and> (\<forall>t. alive_need_retry c t e' \<longleftrightarrow> hrtime_to_sec now + retry_interval_sec c \<le> hrtime_to_sec t)"
  using fail_one [OF assms(1-3), of now] assms(4) by (auto simp: alive_need_retry_def)

section \<open>What the server list says\<close>

lemma fail_flags:
  assumes "history_inv es (alive_hist e)" and "length es < 65536"
  shows "\<exists>e'. set_alive_failed_at c locked t e = Some e' \<and> dead_congested e' = dead_congested e"
proof (cases "0 \<le> alive_failure_threshold c \<and> locked")
  case True
  then show ?thesis using fail_one [OF assms, of c t] by auto
next
  case False
  then show ?thesis by (auto simp: set_alive_failed_at_def Let_def)
qed

text \<open>A server that is reported alive is dead to the proxy no more.  Unless it has been so for long enough,
  it stays on probation.\<close>

lemma check_and_set_alive_flags:
  assumes "control_config e = Some a" and "C a = Some c"
    and "history_inv es (alive_hist e)" and "length es < 65536" and "dead_congested e = 0 \<or> dead_congested e = 1"
  shows "\<exists>e'. check_and_set_alive C locked now us e = Some e' \<and> dead_congested e' = 0
    \<and> alive_congested e' =
        (if is_dead_congested e then (if dead_need_update c now e then 0 else 1)
         else if is_alive_congested e \<and> alive_need_update c now e then 0 else alive_congested e)"
proof -
  obtain e' where "set_alive_failed_at c locked now e = Some e'" using fail_flags [OF assms(3,4)] by blast
  with assms(1,2,5) show ?thesis by (auto simp: check_and_set_alive_def is_dead_congested_def)
qed

section \<open>A new configuration\<close>

lemma adjust_flags:
  "alive_congested (adjust_dead us c cft e) = alive_congested e"
  "alive_hist (adjust_dead us c cft e) = alive_hist e"
  "dead_congested (adjust_alive us c aft e) = dead_congested e"
  "control_config (adjust_dead us c cft e) = control_config e"
  "control_config (adjust_alive us c aft e) = control_config e"
  by (simp_all add: adjust_dead_def adjust_alive_def flag_defs Let_def)

lemma apply_new_config_other:
  assumes "control_config e = Some old" and "C old = Some c0" and "C a = Some c1" and "a \<noteq> old"
  defines "c \<equiv> c1\<lparr>ref_count := ref_count c1 + 1\<rparr>"
  shows "apply_new_config C us (Some a) e = Some (OB_SUCCESS, C(old := dropped c0, a \<mapsto> c),
    if fail_window_sec c0 \<noteq> fail_window_sec c1 then reset_fail_history c (e\<lparr>control_config := Some a\<rparr>)
    else adjust_alive us c (alive_failure_threshold c0)
      (adjust_dead us c (conn_failure_threshold c0) (e\<lparr>control_config := Some a\<rparr>)))"
  using assms by (simp add: apply_new_config_def dec_ref_dropped inc_ref_def)

lemma apply_new_config_self:
  assumes "control_config e = Some a" and "C a = Some c"
  shows "apply_new_config C us (Some a) e =
    (if ref_count c = 1 then None
     else Some (OB_SUCCESS, C,
       if conn_failure_threshold c < 0 \<or> alive_failure_threshold c < 0
       then (if alive_failure_threshold c < 0 then set_alive_congested_free else id)
            ((if conn_failure_threshold c < 0 then set_dead_congested_free else id) e)
       else e))"
proof -
  have e: "e\<lparr>control_config := Some a\<rparr> = e" using assms(1) by (cases e) simp
  have C: "C(a \<mapsto> c) = C" using assms(2) by auto
  show ?thesis
    using assms
    by (simp add: apply_new_config_def adjust_alive_def adjust_dead_def dec_ref_dropped inc_ref_def dropped_def)
      (simp only: e C simp_thms)
qed

section \<open>Sequences of operations\<close>

text \<open>The operations of an entry, in any order.\<close>

inductive entry_step :: "'ip centry \<Rightarrow> 'ip centry \<Rightarrow> bool" where
  alive_failed: "set_alive_failed_at c locked t e = Some e' \<Longrightarrow> entry_step e e'"
| dead_failed: "set_dead_failed_at c locked t e = Some e' \<Longrightarrow> entry_step e e'"
| feedback_failed: "set_client_feedback_failed_at c locked t e = Some e' \<Longrightarrow> entry_step e e'"
| revived: "check_and_set_alive C locked now us e = Some e' \<Longrightarrow> entry_step e e'"
| alive_set: "entry_step e (set_alive_congested us e)"
| alive_free: "entry_step e (set_alive_congested_free e)"
| dead_set: "entry_step e (set_dead_congested us e)"
| dead_free: "entry_step e (set_dead_congested_free e)"
| detect_set: "entry_step e (set_detect_congested us e)"
| detect_free: "entry_step e (set_detect_congested_free e)"
| inits: "entry_init C Z alloc config zs e = Some (ret, C', Z', e') \<Longrightarrow> entry_step e e'"
| configured: "validate_config C us config e = Some (ret, C', e') \<Longrightarrow> entry_step e e'"
| zoned: "validate_zone Z zs e = Some (ret, Z', e') \<Longrightarrow> entry_step e e'"
| destroyed: "entry_destroy C Z e = Some (C', Z', e') \<Longrightarrow> entry_step e e'"

text \<open>The flags are 0 or 1 throughout.\<close>

definition flags_ok :: "'ip centry \<Rightarrow> bool" where
  "flags_ok e = (alive_congested e \<in> {0, 1} \<and> dead_congested e \<in> {0, 1} \<and> detect_congested e \<in> {0, 1}
     \<and> feedback_congested e \<in> {0, 1})"

lemma alive_failed_flags:
  "set_alive_failed_at c locked t e = Some e' \<Longrightarrow> feedback_congested e' = feedback_congested e
    \<and> (flags_ok e \<longrightarrow> flags_ok e')"
  by (auto simp: set_alive_failed_at_def flags_ok_def Let_def split: if_splits bind_splits)

lemma dead_failed_flags:
  "set_dead_failed_at c locked t e = Some e' \<Longrightarrow> feedback_congested e' = feedback_congested e
    \<and> (flags_ok e \<longrightarrow> flags_ok e')"
  by (auto simp: set_dead_failed_at_def flags_ok_def Let_def split: if_splits bind_splits)

lemma feedback_failed_flags:
  "set_client_feedback_failed_at c locked t e = Some e' \<Longrightarrow> (feedback_congested e = 1 \<longrightarrow> feedback_congested e' = 1)
    \<and> (flags_ok e \<longrightarrow> flags_ok e')"
  by (auto simp: set_client_feedback_failed_at_def flags_ok_def Let_def split: if_splits bind_splits)

lemma simple_flags:
  "feedback_congested (set_alive_congested us e) = feedback_congested e" "flags_ok e \<Longrightarrow> flags_ok (set_alive_congested us e)"
  "feedback_congested (set_alive_congested_free e) = feedback_congested e" "flags_ok e \<Longrightarrow> flags_ok (set_alive_congested_free e)"
  "feedback_congested (set_dead_congested us e) = feedback_congested e" "flags_ok e \<Longrightarrow> flags_ok (set_dead_congested us e)"
  "feedback_congested (set_dead_congested_free e) = feedback_congested e" "flags_ok e \<Longrightarrow> flags_ok (set_dead_congested_free e)"
  "feedback_congested (set_detect_congested us e) = feedback_congested e" "flags_ok e \<Longrightarrow> flags_ok (set_detect_congested us e)"
  "feedback_congested (set_detect_congested_free e) = feedback_congested e" "flags_ok e \<Longrightarrow> flags_ok (set_detect_congested_free e)"
  "feedback_congested (reset_fail_history c e) = feedback_congested e" "flags_ok e \<Longrightarrow> flags_ok (reset_fail_history c e)"
  "feedback_congested (e\<lparr>control_config := x\<rparr>) = feedback_congested e" "flags_ok (e\<lparr>control_config := x\<rparr>) = flags_ok e"
  "flags_ok (e\<lparr>zone_state := z\<rparr>) = flags_ok e" "flags_ok (e\<lparr>fail_hist_lock := l\<rparr>) = flags_ok e"
  by (simp_all add: flag_defs flags_ok_def reset_fail_history_def Let_def)

lemma derived_flags:
  "feedback_congested (set_all_congested_free e) = feedback_congested e" "flags_ok e \<Longrightarrow> flags_ok (set_all_congested_free e)"
  "feedback_congested (set_dead_free_alive_congested us e) = feedback_congested e"
  "flags_ok e \<Longrightarrow> flags_ok (set_dead_free_alive_congested us e)"
  "feedback_congested (adjust_dead us c cft e) = feedback_congested e" "flags_ok e \<Longrightarrow> flags_ok (adjust_dead us c cft e)"
  "feedback_congested (adjust_alive us c aft e) = feedback_congested e" "flags_ok e \<Longrightarrow> flags_ok (adjust_alive us c aft e)"
  by (simp_all add: set_all_congested_free_def set_dead_free_alive_congested_def adjust_dead_def adjust_alive_def simple_flags)

lemma revived_flags:
  "check_and_set_alive C locked now us e = Some e' \<Longrightarrow> feedback_congested e' = feedback_congested e
    \<and> (flags_ok e \<longrightarrow> flags_ok e')"
  by (auto simp: check_and_set_alive_def derived_flags dest: alive_failed_flags split: if_splits bind_splits option.splits)

lemma entry_step_flags:
  assumes "entry_step e e'"
  shows "(feedback_congested e = 1 \<longrightarrow> feedback_congested e' = 1) \<and> (flags_ok e \<longrightarrow> flags_ok e')"
  using assms
proof cases
  case inits
  then show ?thesis
    by (auto simp: entry_init_def simple_flags Let_def split: option.splits bind_splits if_splits)
next
  case configured
  then show ?thesis
    by (auto simp: validate_config_def apply_new_config_def simple_flags derived_flags Let_def
        split: option.splits bind_splits if_splits)
next
  case zoned
  then show ?thesis
    by (auto simp: validate_zone_def apply_new_zone_state_def simple_flags split: option.splits bind_splits if_splits)
next
  case destroyed
  then show ?thesis by (auto simp: entry_destroy_def simple_flags split: bind_splits)
qed (auto dest: alive_failed_flags dead_failed_flags feedback_failed_flags revived_flags simp: simple_flags)

lemma entry_steps_flags:
  "entry_step\<^sup>*\<^sup>* e e' \<Longrightarrow> (feedback_congested e = 1 \<longrightarrow> feedback_congested e' = 1) \<and> (flags_ok e \<longrightarrow> flags_ok e')"
  by (induction rule: rtranclp_induct) (auto dest: entry_step_flags)

lemma new_entry_flags: "flags_ok (new_entry ip)"
  by (simp add: flags_ok_def new_entry_def)

end
