(* ===== verification/MTHashTable.thy ===== *)
theory MTHashTable
  imports Prelude Chains
begin

text \<open>
  The partitioned hash table, \<open>src/src/obproxy/obutils/ob_mt_hashtable.h\<close>, in which the proxy keeps the
  state of servers, tables and partitions: 64 tables, each an array of chains.  Values are pointers, so a
  value is an option and \<open>None\<close> the null pointer.  Locks are taken by the callers.  Whether an allocation
  succeeds is an argument, and so is the garbage test a table may have been given.  An operation is
  \<open>None\<close> when it uses an array that was never allocated, or reads outside it.
\<close>

unbundle bit_operations_syntax

section \<open>One table\<close>

record ('k, 'v) hentry =
  ehash :: u64
  ekey :: 'k
  edata :: "'v option"

record ('k, 'v) imt =
  buckets :: "('k, 'v) hentry list list option"
  cur_size :: int
  bucket_num :: int

definition MT_HASHTABLE_PARTITION_BITS :: nat where
  "MT_HASHTABLE_PARTITION_BITS = 6"

definition MT_HASHTABLE_PARTITIONS :: nat where
  "MT_HASHTABLE_PARTITIONS = push_bit MT_HASHTABLE_PARTITION_BITS 1"

definition MT_HASHTABLE_PARTITION_MASK :: u64 where
  "MT_HASHTABLE_PARTITION_MASK = of_nat MT_HASHTABLE_PARTITIONS - 1"

definition MT_HASHTABLE_MAX_CHAIN_AVG_LEN :: int where
  "MT_HASHTABLE_MAX_CHAIN_AVG_LEN = 4"

definition new_imt :: "('k, 'v) imt" where
  "new_imt = \<lparr>buckets = None, cur_size = 0, bucket_num = 0\<rparr>"

definition imt_init :: "bool \<Rightarrow> int \<Rightarrow> ('k, 'v) imt \<Rightarrow> ob_err \<times> ('k, 'v) imt" where
  "imt_init alloc sz t =
     (if sz \<le> 0 then (OB_INVALID_ARGUMENT, t)
      else if buckets t = None then
        let t = t\<lparr>bucket_num := sz\<rparr>
        in if \<not> alloc then (OB_ALLOCATE_MEMORY_FAILED, t)
           else (OB_SUCCESS, t\<lparr>buckets := Some (replicate (nat (bucket_num t)) [])\<rparr>)
      else (OB_SUCCESS, t))"

definition bucket_id :: "u64 \<Rightarrow> int \<Rightarrow> int option" where
  "bucket_id hash n =
     (let m = word_of_int n :: u64
      in if m = 0 then None
         else Some (uint ((drop_bit MT_HASHTABLE_PARTITION_BITS hash XOR hash) mod m)))"

definition bucket_at :: "('k, 'v) imt \<Rightarrow> int \<Rightarrow> ('k, 'v) hentry list option" where
  "bucket_at t i =
     (case buckets t of
        None \<Rightarrow> None
      | Some bs \<Rightarrow> if 0 \<le> i \<and> i < int (length bs) then Some (bs ! nat i) else None)"

definition set_bucket :: "('k, 'v) imt \<Rightarrow> int \<Rightarrow> ('k, 'v) hentry list \<Rightarrow> ('k, 'v) imt" where
  "set_bucket t i c = t\<lparr>buckets := map_option (\<lambda>bs. bs[nat i := c]) (buckets t)\<rparr>"

definition imt_destroy :: "('k, 'v) imt \<Rightarrow> ('k, 'v) imt" where
  "imt_destroy t = t\<lparr>buckets := None\<rparr>"

text \<open>The walks along a chain: find an entry, overwrite it, unlink it.\<close>

fun chain_find :: "u64 \<Rightarrow> 'k \<Rightarrow> ('k, 'v) hentry list \<Rightarrow> ('k, 'v) hentry option" where
  "chain_find hash key [] = None"
| "chain_find hash key (c # cs) =
     (if hash \<noteq> ehash c \<or> ekey c \<noteq> key then chain_find hash key cs else Some c)"

fun chain_set :: "u64 \<Rightarrow> 'k \<Rightarrow> 'v option \<Rightarrow> ('k, 'v) hentry list \<Rightarrow> ('k, 'v) hentry list" where
  "chain_set hash key data [] = []"
| "chain_set hash key data (c # cs) =
     (if hash \<noteq> ehash c \<or> ekey c \<noteq> key then c # chain_set hash key data cs
      else c\<lparr>edata := data, ekey := key\<rparr> # cs)"

fun chain_remove :: "u64 \<Rightarrow> 'k \<Rightarrow> ('k, 'v) hentry list \<Rightarrow> ('k, 'v) hentry list" where
  "chain_remove hash key [] = []"
| "chain_remove hash key (c # cs) =
     (if hash \<noteq> ehash c \<or> ekey c \<noteq> key then c # chain_remove hash key cs else cs)"

definition imt_lookup :: "u64 \<Rightarrow> 'k \<Rightarrow> ('k, 'v) imt \<Rightarrow> 'v option option" where
  "imt_lookup hash key t = do {
     id \<leftarrow> bucket_id hash (bucket_num t);
     chain \<leftarrow> bucket_at t id;
     Some (case chain_find hash key chain of None \<Rightarrow> None | Some cur \<Rightarrow> edata cur)
   }"

definition imt_remove :: "u64 \<Rightarrow> 'k \<Rightarrow> ('k, 'v) imt \<Rightarrow> ('v option \<times> ('k, 'v) imt) option" where
  "imt_remove hash key t = do {
     id \<leftarrow> bucket_id hash (bucket_num t);
     chain \<leftarrow> bucket_at t id;
     (case chain_find hash key chain of
        None \<Rightarrow> Some (None, t)
      | Some cur \<Rightarrow>
          Some (edata cur, (set_bucket t id (chain_remove hash key chain))\<lparr>cur_size := cur_size t - 1\<rparr>))
   }"

text \<open>The garbage collection walks along every chain.\<close>

fun gc_chain :: "('v option \<Rightarrow> bool) \<Rightarrow> ('k, 'v) hentry list \<Rightarrow> int \<Rightarrow> ('k, 'v) hentry list \<times> int" where
  "gc_chain f [] n = ([], n)"
| "gc_chain f (c # cs) n =
     (if f (edata c) then gc_chain f cs (n - 1)
      else let (cs, n) = gc_chain f cs n in (c # cs, n))"

fun gc_all :: "('v option \<Rightarrow> bool) \<Rightarrow> ('k, 'v) hentry list list \<Rightarrow> int \<Rightarrow> ('k, 'v) hentry list list \<times> int" where
  "gc_all f [] n = ([], n)"
| "gc_all f (b # bs) n = (let (b, n) = gc_chain f b n; (bs, n) = gc_all f bs n in (b # bs, n))"

definition imt_gc :: "('v option \<Rightarrow> bool) option \<Rightarrow> ('k, 'v) imt \<Rightarrow> ('k, 'v) imt option" where
  "imt_gc gc t =
     (case gc of
        None \<Rightarrow> Some t
      | Some f \<Rightarrow>
          (case buckets t of
             None \<Rightarrow> if bucket_num t \<le> 0 then Some t else None
           | Some bs \<Rightarrow>
               if bucket_num t = int (length bs)
               then let (bs, n) = gc_all f bs (cur_size t) in Some (t\<lparr>buckets := Some bs, cur_size := n\<rparr>)
               else None))"

text \<open>Growing: every entry is pushed onto the chain its hash has in the new array.\<close>

fun rehash :: "int \<Rightarrow> ('k, 'v) hentry list \<Rightarrow> ('k, 'v) hentry list list \<Rightarrow> ('k, 'v) hentry list list option" where
  "rehash n [] bs = Some bs"
| "rehash n (c # cs) bs = do {
     id \<leftarrow> bucket_id (ehash c) n;
     (if 0 \<le> id \<and> id < int (length bs) then rehash n cs (bs[nat id := c # bs ! nat id]) else None)
   }"

fun rehash_all :: "int \<Rightarrow> ('k, 'v) hentry list list \<Rightarrow> ('k, 'v) hentry list list \<Rightarrow> ('k, 'v) hentry list list option" where
  "rehash_all n [] bs = Some bs"
| "rehash_all n (b # rest) bs = do { bs \<leftarrow> rehash n b bs; rehash_all n rest bs }"

definition imt_resize :: "bool \<Rightarrow> int \<Rightarrow> ('k, 'v) imt \<Rightarrow> (ob_err \<times> ('k, 'v) imt) option" where
  "imt_resize alloc sz t =
     (if \<not> alloc then Some (OB_ALLOCATE_MEMORY_FAILED, t)
      else do {
        old \<leftarrow> buckets t;
        bs \<leftarrow> rehash_all sz old (replicate (nat sz) []);
        Some (OB_SUCCESS, t\<lparr>buckets := Some bs, bucket_num := sz\<rparr>)
      })"

definition crowded :: "('k, 'v) imt \<Rightarrow> bool" where
  "crowded t = (cur_size t sdiv bucket_num t > MT_HASHTABLE_MAX_CHAIN_AVG_LEN)"

text \<open>\<open>alloc\<close>: could the entry be allocated; \<open>ralloc\<close>: could the larger array.\<close>

definition imt_insert ::
    "bool \<Rightarrow> bool \<Rightarrow> ('v option \<Rightarrow> bool) option \<Rightarrow> u64 \<Rightarrow> 'k \<Rightarrow> 'v option \<Rightarrow> ('k, 'v) imt
      \<Rightarrow> ('v option \<times> ('k, 'v) imt) option" where
  "imt_insert alloc ralloc gc hash key data t = do {
     id \<leftarrow> bucket_id hash (bucket_num t);
     chain \<leftarrow> bucket_at t id;
     (case chain_find hash key chain of
        Some cur \<Rightarrow>
          if data = edata cur then Some (None, t)
          else Some (edata cur, set_bucket t id (chain_set hash key data chain))
      | None \<Rightarrow>
          if \<not> alloc then Some (None, t)
          else do {
            let t = (set_bucket t id (\<lparr>ehash = hash, ekey = key, edata = data\<rparr> # chain))\<lparr>cur_size := cur_size t + 1\<rparr>;
            t \<leftarrow> (if crowded t then do {
                     t \<leftarrow> imt_gc gc t;
                     (if crowded t then map_option snd (imt_resize ralloc (bucket_num t * 2) t) else Some t)
                   } else Some t);
            Some (None, t)
          })
   }"

section \<open>Iterators\<close>

text \<open>\<open>ppcur\<close> points to a link: the one to the entry at a position of a chain.\<close>

record iter =
  cur_buck :: int
  ppcur :: "(nat \<times> nat) option"

definition new_iter :: iter where
  "new_iter = \<lparr>cur_buck = - 1, ppcur = None\<rparr>"

text \<open>What \<open>ppcur\<close> points to.\<close>

definition deref :: "('k, 'v) imt \<Rightarrow> iter \<Rightarrow> ('k, 'v) hentry option option" where
  "deref t s = do {
     (b, i) \<leftarrow> ppcur s;
     chain \<leftarrow> bucket_at t (int b);
     (if i < length chain then Some (Some (chain ! i)) else if i = length chain then Some None else None)
   }"

definition data_of :: "('k, 'v) hentry option \<Rightarrow> 'v option" where
  "data_of c = (case c of None \<Rightarrow> None | Some c \<Rightarrow> edata c)"

definition imt_first :: "('k, 'v) imt \<Rightarrow> int \<Rightarrow> iter \<Rightarrow> ('v option \<times> iter) option" where
  "imt_first t b s =
     (if b < bucket_num t then do {
        _ \<leftarrow> bucket_at t b;
        let s = s\<lparr>cur_buck := b, ppcur := Some (nat b, 0)\<rparr>;
        c \<leftarrow> deref t s;
        Some (data_of c, s)
      } else Some (None, s))"

definition imt_next :: "('k, 'v) imt \<Rightarrow> iter \<Rightarrow> ('v option \<times> iter) option" where
  "imt_next t s = do {
     c \<leftarrow> deref t s;
     (case c of
        None \<Rightarrow> Some (None, s)
      | Some _ \<Rightarrow> do {
          let s = s\<lparr>ppcur := map_option (\<lambda>(b, i). (b, i + 1)) (ppcur s)\<rparr>;
          c \<leftarrow> deref t s;
          Some (data_of c, s)
        })
   }"

definition imt_cur :: "('k, 'v) imt \<Rightarrow> iter \<Rightarrow> 'v option option" where
  "imt_cur t s = map_option data_of (deref t s)"

definition imt_remove_at :: "('k, 'v) imt \<Rightarrow> iter \<Rightarrow> ('v option \<times> ('k, 'v) imt) option" where
  "imt_remove_at t s = do {
     c \<leftarrow> deref t s;
     (case c of
        None \<Rightarrow> Some (None, t)
      | Some entry \<Rightarrow> do {
          (b, i) \<leftarrow> ppcur s;
          chain \<leftarrow> bucket_at t (int b);
          Some (edata entry, (set_bucket t (int b) (take i chain @ drop (i + 1) chain))\<lparr>cur_size := cur_size t - 1\<rparr>)
        })
   }"

section \<open>The partitions\<close>

type_synonym ('k, 'v) mt = "('k, 'v) imt list"

text \<open>\<open>init\<close>: for each partition, whether its lock, its table and its buckets could be allocated.\<close>

fun init_parts :: "(bool \<times> bool \<times> bool) list \<Rightarrow> int \<Rightarrow> ob_err \<times> ('k, 'v) mt" where
  "init_parts [] sz = (OB_SUCCESS, [])"
| "init_parts ((lock, table, array) # rest) sz =
     (if \<not> lock then (OB_ALLOCATE_MEMORY_FAILED, [])
      else if \<not> table then (OB_ALLOCATE_MEMORY_FAILED, [])
      else let (ret, t) = imt_init array sz new_imt
        in if ret \<noteq> OB_SUCCESS then (ret, [t])
           else let (ret, T) = init_parts rest sz in (ret, t # T))"

definition mt_init :: "bool \<Rightarrow> (bool \<times> bool \<times> bool) list \<Rightarrow> int \<Rightarrow> ('k, 'v) mt \<Rightarrow> ob_err \<times> bool \<times> ('k, 'v) mt" where
  "mt_init is_inited outcomes sz T =
     (if is_inited then (OB_INIT_TWICE, is_inited, T)
      else let (ret, T) = init_parts (take MT_HASHTABLE_PARTITIONS outcomes) sz in (ret, ret = OB_SUCCESS, T))"

definition part_num :: "u64 \<Rightarrow> nat" where
  "part_num hash = unat (hash AND MT_HASHTABLE_PARTITION_MASK)"

definition part_at :: "('k, 'v) mt \<Rightarrow> nat \<Rightarrow> ('k, 'v) imt option" where
  "part_at T p = (if p < length T then Some (T ! p) else None)"

definition mt_lookup :: "u64 \<Rightarrow> 'k \<Rightarrow> ('k, 'v) mt \<Rightarrow> 'v option option" where
  "mt_lookup hash key T = do { t \<leftarrow> part_at T (part_num hash); imt_lookup hash key t }"

definition mt_insert ::
    "bool \<Rightarrow> bool \<Rightarrow> ('v option \<Rightarrow> bool) option \<Rightarrow> u64 \<Rightarrow> 'k \<Rightarrow> 'v option \<Rightarrow> ('k, 'v) mt
      \<Rightarrow> ('v option \<times> ('k, 'v) mt) option" where
  "mt_insert alloc ralloc gc hash key data T = do {
     t \<leftarrow> part_at T (part_num hash);
     (ret, t) \<leftarrow> imt_insert alloc ralloc gc hash key data t;
     Some (ret, T[part_num hash := t])
   }"

definition mt_remove :: "u64 \<Rightarrow> 'k \<Rightarrow> ('k, 'v) mt \<Rightarrow> ('v option \<times> ('k, 'v) mt) option" where
  "mt_remove hash key T = do {
     t \<leftarrow> part_at T (part_num hash);
     (ret, t) \<leftarrow> imt_remove hash key t;
     Some (ret, T[part_num hash := t])
   }"

definition mt_gc :: "('v option \<Rightarrow> bool) option \<Rightarrow> u64 \<Rightarrow> ('k, 'v) mt \<Rightarrow> ('k, 'v) mt option" where
  "mt_gc gc hash T = do {
     t \<leftarrow> part_at T (part_num hash);
     t \<leftarrow> imt_gc gc t;
     Some (T[part_num hash := t])
   }"

text \<open>The destructor: the tables are destroyed and freed when the object was initialised, and leak otherwise.\<close>

definition mt_destroy :: "bool \<Rightarrow> ('k, 'v) mt \<Rightarrow> ('k, 'v) mt" where
  "mt_destroy is_inited T = (if is_inited then [] else T)"

text \<open>The scan over the buckets of a partition from bucket \<open>i\<close> on: \<open>n\<close> of them.\<close>

fun scan :: "('k, 'v) imt \<Rightarrow> nat \<Rightarrow> int \<Rightarrow> iter \<Rightarrow> ('v option \<times> iter) option" where
  "scan t 0 i s = Some (None, s)"
| "scan t (Suc n) i s = do {
     (ret, s) \<leftarrow> imt_first t i s;
     (if ret \<noteq> None then Some (ret, s) else scan t n (i + 1) s)
   }"

definition mt_first :: "('k, 'v) mt \<Rightarrow> nat \<Rightarrow> iter \<Rightarrow> ('v option \<times> iter) option" where
  "mt_first T p s = do { t \<leftarrow> part_at T p; scan t (nat (bucket_num t)) 0 s }"

definition mt_next :: "('k, 'v) mt \<Rightarrow> nat \<Rightarrow> iter \<Rightarrow> ('v option \<times> iter) option" where
  "mt_next T p s = do {
     t \<leftarrow> part_at T p;
     (ret, s) \<leftarrow> imt_next t s;
     (if ret = None then scan t (nat (bucket_num t - (cur_buck s + 1))) (cur_buck s + 1) s else Some (ret, s))
   }"

definition mt_cur :: "('k, 'v) mt \<Rightarrow> nat \<Rightarrow> iter \<Rightarrow> ('v option \<times> iter) option" where
  "mt_cur T p s = do {
     t \<leftarrow> part_at T p;
     ret \<leftarrow> imt_cur t s;
     (if ret = None then mt_next T p s else Some (ret, s))
   }"

definition mt_remove_at :: "('k, 'v) mt \<Rightarrow> nat \<Rightarrow> iter \<Rightarrow> ('v option \<times> ('k, 'v) mt) option" where
  "mt_remove_at T p s = do {
     t \<leftarrow> part_at T p;
     (ret, t) \<leftarrow> imt_remove_at t s;
     Some (ret, T[p := t])
   }"

section \<open>The table as a map\<close>

text \<open>The key of an entry is its hash together with its key.\<close>

definition ident :: "('k, 'v) hentry \<Rightarrow> u64 \<times> 'k" where
  "ident c = (ehash c, ekey c)"

definition elems :: "('k, 'v) imt \<Rightarrow> ('k, 'v) hentry list" where
  "elems t = (case buckets t of None \<Rightarrow> [] | Some bs \<Rightarrow> concat bs)"

definition tab :: "('k, 'v) imt \<Rightarrow> u64 \<times> 'k \<Rightarrow> 'v option option" where
  "tab t = map_of (map (\<lambda>c. (ident c, edata c)) (elems t))"

definition in_place :: "int \<Rightarrow> ('k, 'v) hentry list list \<Rightarrow> bool" where
  "in_place n bs = (\<forall>i < length bs. \<forall>c \<in> set (bs ! i). bucket_id (ehash c) n = Some (int i))"

definition imt_ok :: "('k, 'v) imt \<Rightarrow> bool" where
  "imt_ok t = (\<exists>bs. buckets t = Some bs \<and> bucket_num t = int (length bs) \<and> 0 < length bs \<and> int (length bs) < 2 ^ 63
     \<and> in_place (bucket_num t) bs \<and> distinct (map ident (concat bs)) \<and> cur_size t = int (length (concat bs)))"

lemma bucket_id_range:
  assumes "0 < n" and "n < 2 ^ 63"
  shows "\<exists>i. bucket_id h n = Some i \<and> 0 \<le> i \<and> i < n"
proof -
  let ?m = "word_of_int n :: u64" and ?x = "drop_bit MT_HASHTABLE_PARTITION_BITS h XOR h"
  have m: "uint ?m = n" using assms by (simp add: uint_word_of_int)
  then have "?m \<noteq> 0" using assms(1) by force
  moreover have "uint (?x mod ?m) = uint ?x mod n" by (simp only: uint_mod m)
  ultimately show ?thesis using assms(1) by (simp add: bucket_id_def)
qed

lemma find_none: "chain_find h k cs = None \<longleftrightarrow> (h, k) \<notin> ident ` set cs"
  by (induction cs) (auto simp: ident_def)

lemma find_some:
  "chain_find h k cs = Some c \<Longrightarrow> \<exists>us ws. cs = us @ c # ws \<and> ident c = (h, k) \<and> (h, k) \<notin> ident ` set us
    \<and> chain_set h k d cs = us @ c\<lparr>edata := d, ekey := k\<rparr> # ws \<and> chain_remove h k cs = us @ ws"
proof (induction cs)
  case Nil
  then show ?case by simp
next
  case (Cons x cs)
  show ?case
  proof (cases "ident x = (h, k)")
    case True
    with Cons.prems show ?thesis by (intro exI [of _ "[]"] exI [of _ cs]) (auto simp: ident_def)
  next
    case False
    with Cons.prems have "chain_find h k cs = Some c" by (auto simp: ident_def split: if_splits)
    from Cons.IH [OF this] obtain us ws where "cs = us @ c # ws" "ident c = (h, k)" "(h, k) \<notin> ident ` set us"
      "chain_set h k d cs = us @ c\<lparr>edata := d, ekey := k\<rparr> # ws" "chain_remove h k cs = us @ ws" by blast
    with False show ?thesis by (intro exI [of _ "x # us"] exI [of _ ws]) (auto simp: ident_def)
  qed
qed

lemma tab_iff:
  assumes "imt_ok t"
  shows "tab t x = Some d \<longleftrightarrow> (\<exists>c \<in> set (elems t). ident c = x \<and> edata c = d)"
proof -
  have "distinct (map fst (map (\<lambda>c. (ident c, edata c)) (elems t)))"
    using assms by (auto simp: imt_ok_def elems_def o_def)
  then show ?thesis unfolding tab_def by (subst map_of_eq_Some_iff) auto
qed

lemma tab_none: "tab t x = None \<longleftrightarrow> x \<notin> ident ` set (elems t)"
  by (auto simp: tab_def map_of_eq_None_iff image_image)

text \<open>Two tables with the same entries are the same map.\<close>

lemma tab_cong:
  assumes "imt_ok t" and "imt_ok t'" and "set (elems t') = set (elems t)"
  shows "tab t' = tab t"
proof
  fix x show "tab t' x = tab t x"
    using tab_iff [OF assms(1), of x] tab_iff [OF assms(2), of x] assms(3) by (metis not_Some_eq)
qed

text \<open>The chain of a hash is where its entries are.\<close>

lemma ok_chain:
  assumes "imt_ok t"
  obtains i chain bs where "buckets t = Some bs" "i < length bs" "bucket_num t = int (length bs)" "int (length bs) < 2 ^ 63"
    "chain = bs ! i" "bucket_id h (bucket_num t) = Some (int i)"
    "bucket_at t (int i) = Some chain" "\<forall>c \<in> set (elems t). ehash c = h \<longrightarrow> c \<in> set chain" "set chain \<subseteq> set (elems t)"
    "in_place (bucket_num t) bs" "distinct (map ident (concat bs))" "cur_size t = int (length (concat bs))"
    "\<forall>c \<in> set chain. bucket_id (ehash c) (bucket_num t) = Some (int i)"
proof -
  from assms obtain bs where bs: "buckets t = Some bs" "bucket_num t = int (length bs)" "0 < length bs"
    "int (length bs) < 2 ^ 63" "in_place (bucket_num t) bs" "distinct (map ident (concat bs))"
    "cur_size t = int (length (concat bs))" by (auto simp: imt_ok_def)
  obtain i where i: "bucket_id h (bucket_num t) = Some (int i)" "i < length bs"
  proof -
    obtain j where "bucket_id h (bucket_num t) = Some j" "0 \<le> j" "j < int (length bs)"
      using bucket_id_range [of "bucket_num t" h] bs(2-4) by auto
    then show ?thesis using that [of "nat j"] by simp
  qed
  have e: "elems t = concat bs" by (simp add: elems_def bs(1))
  have "c \<in> set (bs ! i)" if "c \<in> set (elems t)" "ehash c = h" for c
  proof -
    from that(1) e obtain k where k: "k < length bs" "c \<in> set (bs ! k)" by (metis concat_elem)
    then have "bucket_id h (bucket_num t) = Some (int k)" using bs(5) that(2) unfolding in_place_def by blast
    with i(1) have "k = i" by (metis of_nat_eq_iff option.inject)
    with k show ?thesis by simp
  qed
  moreover have "set (bs ! i) \<subseteq> set (elems t)"
    using in_concat [OF i(2)] unfolding e by blast
  moreover have "bucket_at t (int i) = Some (bs ! i)" using i(2) by (simp add: bucket_at_def bs(1))
  moreover have "\<forall>c \<in> set (bs ! i). bucket_id (ehash c) (bucket_num t) = Some (int i)"
    using bs(5) i(2) unfolding in_place_def by blast
  ultimately show ?thesis using that [OF bs(1) i(2) bs(2,4) refl i(1)] bs(5-7) by blast
qed

lemma lookup_tab:
  assumes "imt_ok t"
  shows "imt_lookup h k t = Some (case tab t (h, k) of None \<Rightarrow> None | Some d \<Rightarrow> d)"
proof -
  obtain i chain bs where c: "bucket_id h (bucket_num t) = Some (int i)" "bucket_at t (int i) = Some chain"
    "\<forall>c \<in> set (elems t). ehash c = h \<longrightarrow> c \<in> set chain" "set chain \<subseteq> set (elems t)"
    by (rule ok_chain [OF assms, of h])
  show ?thesis
  proof (cases "chain_find h k chain")
    case None
    then have "(h, k) \<notin> ident ` set (elems t)" using c(3) by (auto simp: find_none ident_def)
    then have "tab t (h, k) = None" by (simp add: tab_none)
    with None c(1,2) show ?thesis by (simp add: imt_lookup_def)
  next
    case (Some x)
    from find_some [OF this, of None] have "x \<in> set chain" "ident x = (h, k)" by auto
    with c(4) have "tab t (h, k) = Some (edata x)" using tab_iff [OF assms] by blast
    with Some c(1,2) show ?thesis by (simp add: imt_lookup_def)
  qed
qed

lemma set_bucket_ok:
  assumes "buckets t = Some bs" and "bucket_num t = int (length bs)" and "int (length bs) < 2 ^ 63" and "i < length bs"
    and "in_place (bucket_num t) bs" and "\<forall>c \<in> set cs. bucket_id (ehash c) (bucket_num t) = Some (int i)"
    and "distinct (map ident (concat (bs[i := cs])))" and "n = int (length (concat (bs[i := cs])))"
  shows "imt_ok ((set_bucket t (int i) cs)\<lparr>cur_size := n\<rparr>)"
    and "elems ((set_bucket t (int i) cs)\<lparr>cur_size := n\<rparr>) = concat (bs[i := cs])"
proof -
  have "in_place (bucket_num t) (bs[i := cs])"
    using assms(4-6) by (auto simp: in_place_def nth_list_update)
  then show "imt_ok ((set_bucket t (int i) cs)\<lparr>cur_size := n\<rparr>)"
    using assms by (auto simp: imt_ok_def set_bucket_def)
  show "elems ((set_bucket t (int i) cs)\<lparr>cur_size := n\<rparr>) = concat (bs[i := cs])"
    by (simp add: elems_def set_bucket_def assms(1))
qed

lemma distinct_ident_mset: "mset xs = mset ys \<Longrightarrow> distinct (map ident xs) \<longleftrightarrow> distinct (map ident ys)"
  by (intro mset_eq_imp_distinct_iff) simp

lemma filter_out: "x \<notin> ident ` set cs \<Longrightarrow> filter_mset (\<lambda>c. ident c \<noteq> x) (mset cs) = mset cs"
  by (induction cs) auto

lemma set_chain_keep:
  assumes "chain_find h k chain = Some c"
  shows "mset (chain_set h k d chain) + {#c#} = mset chain + {#c\<lparr>edata := d, ekey := k\<rparr>#}"
    and "mset (chain_remove h k chain) + {#c#} = mset chain"
  using find_some [OF assms, of d] by auto

text \<open>Removing an entry.\<close>

lemma remove_tab:
  assumes "imt_ok t"
  shows "\<exists>t'. imt_remove h k t = Some (case tab t (h, k) of None \<Rightarrow> None | Some d \<Rightarrow> d, t') \<and> imt_ok t'
    \<and> tab t' = (tab t)((h, k) := None) \<and> bucket_num t' = bucket_num t
    \<and> mset (elems t') = filter_mset (\<lambda>c. ident c \<noteq> (h, k)) (mset (elems t))"
proof -
  obtain i chain bs where c: "buckets t = Some bs" "i < length bs" "bucket_num t = int (length bs)" "int (length bs) < 2 ^ 63"
    "chain = bs ! i" "bucket_id h (bucket_num t) = Some (int i)" "bucket_at t (int i) = Some chain"
    "\<forall>c \<in> set (elems t). ehash c = h \<longrightarrow> c \<in> set chain" "set chain \<subseteq> set (elems t)"
    "in_place (bucket_num t) bs" "distinct (map ident (concat bs))" "cur_size t = int (length (concat bs))"
    "\<forall>c \<in> set chain. bucket_id (ehash c) (bucket_num t) = Some (int i)"
    by (rule ok_chain [OF assms, of h])
  show ?thesis
  proof (cases "chain_find h k chain")
    case None
    then have n: "(h, k) \<notin> ident ` set (elems t)" using c(8) by (auto simp: find_none ident_def)
    then have "tab t (h, k) = None" by (simp add: tab_none)
    moreover from this have "(tab t)((h, k) := None) = tab t" by auto
    moreover have "filter_mset (\<lambda>c. ident c \<noteq> (h, k)) (mset (elems t)) = mset (elems t)"
      by (rule filter_out [OF n])
    ultimately show ?thesis using None c(6,7) assms by (simp add: imt_remove_def)
  next
    case (Some x)
    obtain us ws where s: "chain = us @ x # ws" "ident x = (h, k)" "chain_remove h k chain = us @ ws"
      using find_some [OF Some, of None] by blast
    let ?t = "(set_bucket t (int i) (us @ ws))\<lparr>cur_size := cur_size t - 1\<rparr>"
    have m: "add_mset x (mset (concat (bs[i := us @ ws]))) = mset (concat bs)"
      using mset_concat_upd [OF c(2), of "us @ ws"] s(1) c(5) by simp
    then have d: "distinct (map ident (x # concat (bs[i := us @ ws])))"
      using c(11) distinct_ident_mset [of "x # concat (bs[i := us @ ws])" "concat bs"] by simp
    have n: "cur_size t - 1 = int (length (concat (bs[i := us @ ws])))"
      using arg_cong [OF m, of size] c(12) by simp
    have "\<forall>c \<in> set (us @ ws). bucket_id (ehash c) (bucket_num t) = Some (int i)"
      using c(13) s(1) by auto
    note ok = set_bucket_ok [OF c(1,3,4,2,10) this _ n]
    have ok': "imt_ok ?t" and e: "elems ?t = concat (bs[i := us @ ws])" using ok d by simp_all
    have e0: "mset (elems t) = add_mset x (mset (elems ?t))" using m c(1) unfolding e by (simp add: elems_def)
    have out: "(h, k) \<notin> ident ` set (elems ?t)" using d s(2) e by auto
    have "tab ?t = (tab t)((h, k) := None)"
    proof
      fix y show "tab ?t y = ((tab t)((h, k) := None)) y"
      proof (cases "y = (h, k)")
        case True
        with out show ?thesis by (simp add: tab_none)
      next
        case False
        have "set (elems t) = insert x (set (elems ?t))" using e0 by (metis set_mset_mset set_mset_add_mset_insert)
        then have "(\<exists>c \<in> set (elems t). ident c = y \<and> edata c = v) \<longleftrightarrow> (\<exists>c \<in> set (elems ?t). ident c = y \<and> edata c = v)" for v
          using False s(2) by auto
        then have "tab t y = Some v \<longleftrightarrow> tab ?t y = Some v" for v
          using tab_iff [OF assms, of y v] tab_iff [OF ok', of y v] by simp
        then have "tab t y = tab ?t y" by (metis not_Some_eq)
        with False show ?thesis by simp
      qed
    qed
    moreover have "tab t (h, k) = Some (edata x)"
      using tab_iff [OF assms] s(1,2) c(9) by auto
    moreover have "filter_mset (\<lambda>c. ident c \<noteq> (h, k)) (mset (elems t)) = mset (elems ?t)"
      unfolding e0 using filter_out [OF out] s(2) by simp
    moreover have "imt_remove h k t = Some (edata x, ?t)"
      using Some c(6,7) s(3) by (simp add: imt_remove_def)
    ultimately show ?thesis using ok' by (intro exI [of _ ?t]) (simp add: set_bucket_def)
  qed
qed

text \<open>What replaces or adds an entry, in terms of the entries.\<close>

lemma tab_add:
  assumes "imt_ok t" and "imt_ok t'" and "x \<notin> ident ` set cs"
    and "set (elems t) = A \<union> set cs" and "A \<subseteq> {c. ident c = x}"
    and "set (elems t') = insert d (set cs)" and "ident d = x"
  shows "tab t' = (tab t)(x \<mapsto> edata d)"
proof
  fix y show "tab t' y = ((tab t)(x \<mapsto> edata d)) y"
  proof (cases "y = x")
    case True
    with assms(6,7) tab_iff [OF assms(2)] show ?thesis by auto
  next
    case False
    have "(\<exists>c \<in> set (elems t'). ident c = y \<and> edata c = v) \<longleftrightarrow> (\<exists>c \<in> set (elems t). ident c = y \<and> edata c = v)" for v
      using False assms(4-7) by auto
    then have "tab t' y = Some v \<longleftrightarrow> tab t y = Some v" for v
      using tab_iff [OF assms(1), of y v] tab_iff [OF assms(2), of y v] by simp
    then have "tab t' y = tab t y" by (metis not_Some_eq)
    with False show ?thesis by simp
  qed
qed

text \<open>The entry is there: its value is replaced.\<close>

lemma insert_present:
  assumes "imt_ok t" and "tab t (h, k) = Some d"
  shows "\<exists>t'. imt_insert alloc ralloc gc h k v t = Some (if v = d then None else d, t') \<and> imt_ok t'
    \<and> tab t' = (tab t)((h, k) \<mapsto> v) \<and> bucket_num t' = bucket_num t \<and> cur_size t' = cur_size t"
proof -
  obtain i chain bs where c: "buckets t = Some bs" "i < length bs" "bucket_num t = int (length bs)" "int (length bs) < 2 ^ 63"
    "chain = bs ! i" "bucket_id h (bucket_num t) = Some (int i)" "bucket_at t (int i) = Some chain"
    "\<forall>c \<in> set (elems t). ehash c = h \<longrightarrow> c \<in> set chain" "set chain \<subseteq> set (elems t)"
    "in_place (bucket_num t) bs" "distinct (map ident (concat bs))" "cur_size t = int (length (concat bs))"
    "\<forall>c \<in> set chain. bucket_id (ehash c) (bucket_num t) = Some (int i)"
    by (rule ok_chain [OF assms(1), of h])
  have "(h, k) \<in> ident ` set chain"
    using assms(2) c(8) tab_iff [OF assms(1), of "(h, k)" d] by (auto simp: ident_def)
  then obtain x where Some: "chain_find h k chain = Some x" using find_none [of h k chain] by (metis not_Some_eq)
  obtain us ws where s: "chain = us @ x # ws" "ident x = (h, k)" "chain_set h k v chain = us @ x\<lparr>edata := v, ekey := k\<rparr> # ws"
    using find_some [OF Some, of v] by blast
  have d: "edata x = d"
  proof -
    have "tab t (h, k) = Some (edata x)" using tab_iff [OF assms(1)] s(1,2) c(9) by auto
    with assms(2) show ?thesis by simp
  qed
  let ?x = "x\<lparr>edata := v, ekey := k\<rparr>" and ?cs = "concat (bs[i := us @ ws])"
  let ?bs = "bs[i := us @ ?x # ws]"
  have m: "add_mset x (mset ?cs) = mset (concat bs)"
    using mset_concat_upd [OF c(2), of "us @ ws"] s(1) c(5) by simp
  have m': "mset (concat ?bs) = add_mset ?x (mset ?cs)"
  proof -
    have "mset (concat ?bs) + mset (bs ! i) = add_mset ?x (mset ?cs) + mset (bs ! i)"
      using mset_concat_upd [OF c(2), of "us @ ws"] mset_concat_upd [OF c(2), of "us @ ?x # ws"] by simp
    then show ?thesis by (simp only: add_right_cancel)
  qed
  have id: "ident ?x = (h, k)" using s(2) by (simp add: ident_def)
  have "distinct (map ident (x # ?cs))" using m c(11) distinct_ident_mset [of "x # ?cs" "concat bs"] by simp
  then have dist: "distinct (map ident (?x # ?cs))" and out: "(h, k) \<notin> ident ` set ?cs" using id s(2) by auto
  have dist': "distinct (map ident (concat ?bs))" using m' dist distinct_ident_mset [of "?x # ?cs" "concat ?bs"] by simp
  have n: "cur_size t = int (length (concat ?bs))"
    using arg_cong [OF m', of size] arg_cong [OF m, of size] c(12) by simp
  let ?t = "set_bucket t (int i) (us @ ?x # ws)"
  have "\<forall>c \<in> set (us @ ?x # ws). bucket_id (ehash c) (bucket_num t) = Some (int i)" using c(13) s(1) by auto
  note ok = set_bucket_ok [OF c(1,3,4,2,10) this dist' n]
  have t: "?t\<lparr>cur_size := cur_size t\<rparr> = ?t" by (simp add: set_bucket_def)
  have e: "set (elems t) = {x} \<union> set ?cs" using arg_cong [OF m, of set_mset] c(1) by (auto simp: elems_def)
  have e': "set (elems ?t) = insert ?x (set ?cs)"
    using arg_cong [OF m', of set_mset] ok(2) unfolding t by (simp only: set_mset_mset set_mset_add_mset_insert)
  have ins: "imt_insert alloc ralloc gc h k v t = Some (if v = d then (None, t) else (d, ?t))"
    using Some c(6,7) s(3) d by (simp add: imt_insert_def)
  have tab: "tab ?t = (tab t)((h, k) \<mapsto> v)"
    using tab_add [OF assms(1) _ out e _ e' id] ok(1) s(2) unfolding t by auto
  show ?thesis
  proof (cases "v = d")
    case True
    moreover have "(tab t)((h, k) \<mapsto> v) = tab t" using True assms(2) by auto
    ultimately show ?thesis using ins assms(1) by (intro exI [of _ t]) simp
  next
    case False
    then show ?thesis using ins ok(1) tab unfolding t by (intro exI [of _ ?t]) (simp add: set_bucket_def)
  qed
qed

section \<open>Collection and growth\<close>

definition swept :: "('v option \<Rightarrow> bool) option \<Rightarrow> ('a \<Rightarrow> 'v option option) \<Rightarrow> 'a \<Rightarrow> 'v option option" where
  "swept gc m x = (case m x of None \<Rightarrow> None | Some d \<Rightarrow>
     (case gc of None \<Rightarrow> Some d | Some f \<Rightarrow> if f d then None else Some d))"

lemma gc_chain_eq:
  "gc_chain f cs n = (filter (\<lambda>c. \<not> f (edata c)) cs, n - int (length (filter (\<lambda>c. f (edata c)) cs)))"
  by (induction cs arbitrary: n) auto

lemma gc_all_eq:
  "gc_all f bs n = (map (filter (\<lambda>c. \<not> f (edata c))) bs, n - int (length (filter (\<lambda>c. f (edata c)) (concat bs))))"
  by (induction bs arbitrary: n) (auto simp: gc_chain_eq)

lemma gc_tab:
  assumes "imt_ok t"
  shows "\<exists>t'. imt_gc gc t = Some t' \<and> imt_ok t' \<and> tab t' = swept gc (tab t) \<and> bucket_num t' = bucket_num t
    \<and> cur_size t' \<le> cur_size t"
proof (cases gc)
  case None
  moreover have "swept None (tab t) = tab t" by (auto simp: swept_def split: option.splits)
  ultimately show ?thesis using assms by (simp add: imt_gc_def)
next
  case (Some f)
  from assms obtain bs where bs: "buckets t = Some bs" "bucket_num t = int (length bs)" "0 < length bs"
    "int (length bs) < 2 ^ 63" "in_place (bucket_num t) bs" "distinct (map ident (concat bs))"
    "cur_size t = int (length (concat bs))" by (auto simp: imt_ok_def)
  let ?P = "\<lambda>c. \<not> f (edata c)"
  let ?bs = "map (filter ?P) bs" and ?n = "int (length (filter ?P (concat bs)))"
  let ?t = "t\<lparr>buckets := Some ?bs, cur_size := ?n\<rparr>"
  have c: "concat ?bs = filter ?P (concat bs)" by (simp add: filter_concat)
  have "cur_size t - int (length (filter (\<lambda>c. f (edata c)) (concat bs))) = ?n"
    using sum_length_filter_compl [of "\<lambda>c. f (edata c)" "concat bs"] bs(7) by linarith
  then have gc: "imt_gc gc t = Some ?t" using Some bs(1,2) by (simp add: imt_gc_def gc_all_eq)
  have "in_place (bucket_num t) ?bs" using bs(5) by (simp add: in_place_def)
  moreover have "distinct (map ident (concat ?bs))" unfolding c using bs(6) by (simp add: distinct_map_filter del: filter_concat)
  moreover have "?n = int (length (concat ?bs))" unfolding c by (rule refl)
  ultimately have ok: "imt_ok ?t" using bs(2-4) unfolding imt_ok_def by (intro exI [of _ ?bs]) simp
  have e: "set (elems ?t) = {c \<in> set (elems t). ?P c}" using bs(1) c by (auto simp: elems_def)
  have "tab ?t = swept gc (tab t)"
  proof
    fix x
    have "tab ?t x = Some d \<longleftrightarrow> tab t x = Some d \<and> \<not> f d" for d
      unfolding tab_iff [OF assms] tab_iff [OF ok] e by blast
    moreover have "swept gc (tab t) x = Some d \<longleftrightarrow> tab t x = Some d \<and> \<not> f d" for d
      by (auto simp: swept_def Some split: option.splits)
    ultimately show "tab ?t x = swept gc (tab t) x" by (metis not_Some_eq)
  qed
  moreover have "cur_size ?t \<le> cur_size t" using bs(7) by (simp del: length_concat)
  ultimately show ?thesis using gc ok by auto
qed

lemma push_in_place:
  assumes "in_place n bs" and "i < length bs" and "bucket_id (ehash c) n = Some (int i)"
  shows "in_place n (bs[i := c # bs ! i])" and "mset (concat (bs[i := c # bs ! i])) = add_mset c (mset (concat bs))"
  using assms mset_concat_upd [OF assms(2), of "c # bs ! i"] by (auto simp: in_place_def nth_list_update)

lemma rehash_ok:
  assumes "0 < n" and "n < 2 ^ 63"
  shows "in_place n bs \<Longrightarrow> n = int (length bs) \<Longrightarrow> \<exists>bs'. rehash n cs bs = Some bs' \<and> in_place n bs' \<and> length bs' = length bs
    \<and> mset (concat bs') = mset cs + mset (concat bs)"
proof (induction cs arbitrary: bs)
  case Nil
  then show ?case by simp
next
  case (Cons c cs)
  obtain j where j: "bucket_id (ehash c) n = Some j" "0 \<le> j" "j < n" using bucket_id_range [OF assms] by blast
  then have i: "nat j < length bs" "bucket_id (ehash c) n = Some (int (nat j))" using Cons.prems(2) by auto
  note p = push_in_place [OF Cons.prems(1) i]
  have "n = int (length (bs[nat j := c # bs ! nat j]))" using Cons.prems(2) by simp
  from Cons.IH [OF p(1) this] p(2) j Cons.prems(2) show ?case by auto
qed

lemma rehash_all_ok:
  assumes "0 < n" and "n < 2 ^ 63"
  shows "in_place n bs \<Longrightarrow> n = int (length bs) \<Longrightarrow> \<exists>bs'. rehash_all n old bs = Some bs' \<and> in_place n bs' \<and> length bs' = length bs
    \<and> mset (concat bs') = mset (concat old) + mset (concat bs)"
proof (induction old arbitrary: bs)
  case Nil
  then show ?case by simp
next
  case (Cons b old)
  from rehash_ok [OF assms Cons.prems, of b] obtain bs1 where
    b1: "rehash n b bs = Some bs1" "in_place n bs1" "length bs1 = length bs" "mset (concat bs1) = mset b + mset (concat bs)" by blast
  from Cons.IH [OF b1(2)] b1(3) Cons.prems(2) obtain bs2 where
    "rehash_all n old bs1 = Some bs2" "in_place n bs2" "length bs2 = length bs1"
    "mset (concat bs2) = mset (concat old) + mset (concat bs1)" by auto
  with b1 show ?case by (simp add: ac_simps)
qed

lemma resize_tab:
  assumes "imt_ok t" and "0 < n" and "n < 2 ^ 63"
  shows "\<exists>ret t'. imt_resize alloc n t = Some (ret, t') \<and> imt_ok t' \<and> tab t' = tab t \<and> cur_size t' = cur_size t
    \<and> bucket_num t' = (if alloc then n else bucket_num t)"
proof (cases alloc)
  case False
  then show ?thesis using assms(1) by (simp add: imt_resize_def)
next
  case True
  from assms(1) obtain bs where bs: "buckets t = Some bs" "distinct (map ident (concat bs))"
    "cur_size t = int (length (concat bs))" by (auto simp: imt_ok_def)
  have "in_place n (replicate (nat n) [])" by (simp add: in_place_def)
  from rehash_all_ok [OF assms(2,3) this, of bs] assms(2) obtain bs' where
    r: "rehash_all n bs (replicate (nat n) []) = Some bs'" "in_place n bs'" "length bs' = nat n"
    "mset (concat bs') = mset (concat bs)" by (auto simp: concat_replicate_trivial)
  let ?t = "t\<lparr>buckets := Some bs', bucket_num := n\<rparr>"
  have "distinct (map ident (concat bs'))" using bs(2) distinct_ident_mset [OF r(4)] by simp
  moreover have "length (concat bs') = length (concat bs)" using r(4) by (rule mset_eq_length)
  ultimately have ok: "imt_ok ?t"
    using r(2,3) bs(3) assms(2,3) unfolding imt_ok_def by (intro exI [of _ bs']) (simp del: length_concat)
  have "set (elems ?t) = set (elems t)" using mset_eq_setD [OF r(4)] bs(1) by (simp add: elems_def)
  from tab_cong [OF assms(1) ok this] ok show ?thesis using r(1) bs(1) True by (simp add: imt_resize_def)
qed

text \<open>The entry is not there: it is added if it can be allocated.  When the chains are too long on average then,
  the table is swept, and when they still are, it grows if there is memory for that.\<close>

definition overfull :: "int \<Rightarrow> int \<Rightarrow> bool" where
  "overfull n b = (MT_HASHTABLE_MAX_CHAIN_AVG_LEN < n sdiv b)"

lemma crowded_overfull: "crowded t \<longleftrightarrow> overfull (cur_size t) (bucket_num t)"
  by (simp add: crowded_def overfull_def)

lemma insert_absent:
  assumes "imt_ok t" and "tab t (h, k) = None" and "bucket_num t < 2 ^ 62"
  shows "\<exists>t'. imt_insert alloc ralloc gc h k v t = Some (None, t') \<and> imt_ok t'
    \<and> (if alloc then
          tab t' = (if overfull (cur_size t + 1) (bucket_num t) then swept gc ((tab t)((h, k) \<mapsto> v)) else (tab t)((h, k) \<mapsto> v))
          \<and> bucket_num t' = (if ralloc \<and> overfull (cur_size t') (bucket_num t) then 2 * bucket_num t else bucket_num t)
        else t' = t)
    \<and> (bucket_num t' = bucket_num t \<or> bucket_num t' = 2 * bucket_num t \<and> 2 * bucket_num t \<le> cur_size t + 1)
    \<and> cur_size t' \<le> cur_size t + 1"
proof (cases alloc)
  case False
  obtain i chain bs where c: "buckets t = Some bs" "i < length bs" "bucket_num t = int (length bs)" "int (length bs) < 2 ^ 63"
    "chain = bs ! i" "bucket_id h (bucket_num t) = Some (int i)" "bucket_at t (int i) = Some chain"
    "\<forall>c \<in> set (elems t). ehash c = h \<longrightarrow> c \<in> set chain" "set chain \<subseteq> set (elems t)"
    by (rule ok_chain [OF assms(1), of h])
  have "chain_find h k chain = None" using assms(2) c(9) by (auto simp: find_none tab_none)
  with c(6,7) False assms(1) show ?thesis by (simp add: imt_insert_def)
next
  case True
  obtain i chain bs where c: "buckets t = Some bs" "i < length bs" "bucket_num t = int (length bs)" "int (length bs) < 2 ^ 63"
    "chain = bs ! i" "bucket_id h (bucket_num t) = Some (int i)" "bucket_at t (int i) = Some chain"
    "\<forall>c \<in> set (elems t). ehash c = h \<longrightarrow> c \<in> set chain" "set chain \<subseteq> set (elems t)"
    "in_place (bucket_num t) bs" "distinct (map ident (concat bs))" "cur_size t = int (length (concat bs))"
    "\<forall>c \<in> set chain. bucket_id (ehash c) (bucket_num t) = Some (int i)"
    by (rule ok_chain [OF assms(1), of h])
  have f: "chain_find h k chain = None" using assms(2) c(9) by (auto simp: find_none tab_none)
  let ?c = "\<lparr>ehash = h, ekey = k, edata = v\<rparr>"
  let ?t = "(set_bucket t (int i) (?c # chain))\<lparr>cur_size := cur_size t + 1\<rparr>"
  have m: "mset (concat (bs[i := ?c # chain])) = add_mset ?c (mset (concat bs))"
    using push_in_place(2) [OF c(10,2), of ?c] c(5,6) by simp
  have out: "(h, k) \<notin> ident ` set (concat bs)" using assms(2) c(1) by (simp add: tab_none elems_def)
  have d: "distinct (map ident (concat (bs[i := ?c # chain])))"
    using distinct_ident_mset [of "concat (bs[i := ?c # chain])" "?c # concat bs"] m c(11) out
    by (simp add: ident_def del: set_concat)
  have n: "cur_size t + 1 = int (length (concat (bs[i := ?c # chain])))"
    using arg_cong [OF m, of size] c(12) by simp
  have "\<forall>c \<in> set (?c # chain). bucket_id (ehash c) (bucket_num t) = Some (int i)" using c(6,13) by simp
  note ok = set_bucket_ok [OF c(1,3,4,2,10) this d n]
  have "set (elems ?t) = insert ?c (set (concat bs))"
    unfolding ok(2) using arg_cong [OF m, of set_mset] by (simp only: set_mset_mset set_mset_add_mset_insert)
  then have tab: "tab ?t = (tab t)((h, k) \<mapsto> v)"
    using tab_add [OF assms(1) ok(1) out _ _ _, of "{}" ?c] c(1) by (simp add: elems_def ident_def)
  have b: "bucket_num ?t = bucket_num t" by (simp add: set_bucket_def)
  have size: "cur_size ?t = cur_size t + 1" by (simp add: set_bucket_def)
  have full: "crowded ?t \<longleftrightarrow> overfull (cur_size t + 1) (bucket_num t)" unfolding crowded_overfull size b ..
  have ins: "imt_insert alloc ralloc gc h k v t = Option.bind
      (if crowded ?t then Option.bind (imt_gc gc ?t) (\<lambda>t. if crowded t then map_option snd (imt_resize ralloc (bucket_num t * 2) t) else Some t)
       else Some ?t) (\<lambda>t. Some (None, t))"
    using c(6,7) f True by (simp add: imt_insert_def)
  show ?thesis
  proof (cases "crowded ?t")
    case False
    moreover from this have "\<not> overfull (cur_size t + 1) (bucket_num t)" using full by simp
    ultimately show ?thesis using ins ok(1) tab b True size by (intro exI [of _ ?t]) simp
  next
    case crowd: True
    from gc_tab [OF ok(1), of gc] obtain t1 where t1: "imt_gc gc ?t = Some t1" "imt_ok t1" "tab t1 = swept gc (tab ?t)"
      "bucket_num t1 = bucket_num t" "cur_size t1 \<le> cur_size ?t" using b by auto
    have over: "overfull (cur_size t + 1) (bucket_num t)" using full crowd by simp
    show ?thesis
    proof (cases "crowded t1")
      case False
      moreover from this have "\<not> overfull (cur_size t1) (bucket_num t)" using t1(4) by (simp add: crowded_overfull)
      ultimately show ?thesis using ins crowd t1 tab True over size by (intro exI [of _ t1]) simp
    next
      case again: True
      have pos: "0 < bucket_num t1" using t1(4) c(2,3) by auto
      have "4 * bucket_num t1 \<le> cur_size t1"
      proof -
        have "0 \<le> cur_size t1" using t1(2) by (auto simp: imt_ok_def)
        then have "4 < cur_size t1 div bucket_num t1"
          using again pos by (simp add: crowded_def MT_HASHTABLE_MAX_CHAIN_AVG_LEN_def pos_sdiv)
        then have "4 * bucket_num t1 \<le> cur_size t1 div bucket_num t1 * bucket_num t1" using pos by simp
        also have "\<dots> \<le> cur_size t1" using pos by (simp add: minus_mod_eq_div_mult [symmetric])
        finally show ?thesis .
      qed
      then have room: "2 * bucket_num t \<le> cur_size t + 1" using t1(4,5) pos by (simp add: set_bucket_def)
      have "0 < bucket_num t1 * 2" "bucket_num t1 * 2 < 2 ^ 63" using t1(4) c(3) c(2) assms(3) by auto
      from resize_tab [OF t1(2) this, of ralloc] obtain ret t2 where t2: "imt_resize ralloc (bucket_num t1 * 2) t1 = Some (ret, t2)"
        "imt_ok t2" "tab t2 = tab t1" "cur_size t2 = cur_size t1"
        "bucket_num t2 = (if ralloc then bucket_num t1 * 2 else bucket_num t1)" by blast
      moreover have "overfull (cur_size t2) (bucket_num t)" using again t1(4) t2(4) by (simp add: crowded_overfull)
      ultimately show ?thesis using ins crowd again t1 tab True room over size by (intro exI [of _ t2]) simp
    qed
  qed
qed

section \<open>The interface of a table\<close>

text \<open>What a client expects of a table of pointers: it behaves like a map as long as it does not become
  too large; \<open>ok n s\<close> leaves room for \<open>n\<close> more insertions.\<close>

locale hash_map =
  fixes find_entry :: "'key \<Rightarrow> 's \<Rightarrow> 'v option option"
    and put_entry :: "'key \<Rightarrow> 'v option \<Rightarrow> 's \<Rightarrow> ('v option \<times> 's) option"
    and take_entry :: "'key \<Rightarrow> 's \<Rightarrow> ('v option \<times> 's) option"
    and content :: "'s \<Rightarrow> 'key \<Rightarrow> 'v option option"
    and ok :: "nat \<Rightarrow> 's \<Rightarrow> bool"
  assumes find_spec: "ok n s \<Longrightarrow> find_entry x s = Some (Option.bind (content s x) id)"
    and put_spec: "ok (Suc n) s \<Longrightarrow> \<exists>s'. put_entry x v s = Some (case content s x of None \<Rightarrow> None | Some d \<Rightarrow> if v = d then None else d, s')
      \<and> ok n s' \<and> content s' = (content s)(x \<mapsto> v)"
    and take_spec: "ok n s \<Longrightarrow> \<exists>s'. take_entry x s = Some (Option.bind (content s x) id, s')
      \<and> ok n s' \<and> content s' = (content s)(x := None)"

datatype ('key, 'v) table_op = Find 'key | Put 'key "'v option" | Take 'key

text \<open>A sequence of operations with the pointers it returns: on a table, and on a map.\<close>

fun run_ops ::
    "('key \<Rightarrow> 's \<Rightarrow> 'v option option) \<Rightarrow> ('key \<Rightarrow> 'v option \<Rightarrow> 's \<Rightarrow> ('v option \<times> 's) option)
      \<Rightarrow> ('key \<Rightarrow> 's \<Rightarrow> ('v option \<times> 's) option) \<Rightarrow> ('key, 'v) table_op list \<Rightarrow> 's \<Rightarrow> ('v option list \<times> 's) option"
where
  "run_ops f p t [] s = Some ([], s)"
| "run_ops f p t (Find x # ops) s = do { r \<leftarrow> f x s; (rs, s) \<leftarrow> run_ops f p t ops s; Some (r # rs, s) }"
| "run_ops f p t (Put x v # ops) s = do { (r, s) \<leftarrow> p x v s; (rs, s) \<leftarrow> run_ops f p t ops s; Some (r # rs, s) }"
| "run_ops f p t (Take x # ops) s = do { (r, s) \<leftarrow> t x s; (rs, s) \<leftarrow> run_ops f p t ops s; Some (r # rs, s) }"

fun map_ops :: "('key, 'v) table_op list \<Rightarrow> ('key \<Rightarrow> 'v option option) \<Rightarrow> 'v option list \<times> ('key \<Rightarrow> 'v option option)" where
  "map_ops [] m = ([], m)"
| "map_ops (Find x # ops) m = (let (rs, m') = map_ops ops m in (Option.bind (m x) id # rs, m'))"
| "map_ops (Put x v # ops) m =
     (let (rs, m') = map_ops ops (m(x \<mapsto> v))
      in ((case m x of None \<Rightarrow> None | Some d \<Rightarrow> if v = d then None else d) # rs, m'))"
| "map_ops (Take x # ops) m = (let (rs, m') = map_ops ops (m(x := None)) in (Option.bind (m x) id # rs, m'))"

fun puts :: "('key, 'v) table_op list \<Rightarrow> nat" where
  "puts [] = 0"
| "puts (Put x v # ops) = Suc (puts ops)"
| "puts (_ # ops) = puts ops"

context hash_map begin

lemma run_refines:
  "ok (puts ops + n) s \<Longrightarrow> \<exists>s'. run_ops find_entry put_entry take_entry ops s = Some (fst (map_ops ops (content s)), s')
    \<and> ok n s' \<and> content s' = snd (map_ops ops (content s))"
proof (induction ops arbitrary: s)
  case Nil
  then show ?case by simp
next
  case (Cons op ops)
  show ?case
  proof (cases op)
    case (Find x)
    with Cons.prems have "ok (puts ops + n) s" by simp
    from Cons.IH [OF this] find_spec [OF this, of x] Find show ?thesis by (auto simp: case_prod_beta)
  next
    case (Put x v)
    with Cons.prems have "ok (Suc (puts ops + n)) s" by simp
    from put_spec [OF this, of x v] obtain s1 where s1: "put_entry x v s =
      Some (case content s x of None \<Rightarrow> None | Some d \<Rightarrow> if v = d then None else d, s1)"
      "ok (puts ops + n) s1" "content s1 = (content s)(x \<mapsto> v)" by blast
    from Cons.IH [OF s1(2)] obtain s2 where "run_ops find_entry put_entry take_entry ops s1 = Some (fst (map_ops ops (content s1)), s2)"
      "ok n s2" "content s2 = snd (map_ops ops (content s1))" by blast
    then show ?thesis unfolding Put s1(3) by (simp add: s1(1) case_prod_beta)
  next
    case (Take x)
    with Cons.prems have "ok (puts ops + n) s" by simp
    from take_spec [OF this, of x] obtain s1 where s1: "take_entry x s = Some (Option.bind (content s x) id, s1)"
      "ok (puts ops + n) s1" "content s1 = (content s)(x := None)" by blast
    from Cons.IH [OF s1(2)] obtain s2 where "run_ops find_entry put_entry take_entry ops s1 = Some (fst (map_ops ops (content s1)), s2)"
      "ok n s2" "content s2 = snd (map_ops ops (content s1))" by blast
    then show ?thesis unfolding Take s1(3) by (simp add: s1(1) case_prod_beta)
  qed
qed

end

definition mt_content :: "('k, 'v) mt \<Rightarrow> u64 \<times> 'k \<Rightarrow> 'v option option" where
  "mt_content T x = tab (T ! part_num (fst x)) x"

definition mt_fits :: "nat \<Rightarrow> ('k, 'v) mt \<Rightarrow> bool" where
  "mt_fits n T = (length T = MT_HASHTABLE_PARTITIONS
     \<and> (\<forall>t \<in> set T. imt_ok t \<and> bucket_num t < 2 ^ 62 \<and> cur_size t + int n < 2 ^ 62))"

lemma part_num_less: "part_num h < MT_HASHTABLE_PARTITIONS"
proof -
  have "MT_HASHTABLE_PARTITION_MASK = mask 6"
    by (simp add: MT_HASHTABLE_PARTITION_MASK_def MT_HASHTABLE_PARTITIONS_def MT_HASHTABLE_PARTITION_BITS_def mask_eq_exp_minus_1)
  then have "part_num h = unat (take_bit 6 h)" by (simp add: part_num_def take_bit_eq_mask)
  also have "\<dots> < 2 ^ 6" using take_bit_nat_less_exp [of 6 "unat h"] by (simp add: unsigned_take_bit_eq)
  finally show ?thesis by (simp add: MT_HASHTABLE_PARTITIONS_def MT_HASHTABLE_PARTITION_BITS_def)
qed

lemma mt_part:
  assumes "mt_fits n T"
  shows "part_at T (part_num h) = Some (T ! part_num h)" "imt_ok (T ! part_num h)" "bucket_num (T ! part_num h) < 2 ^ 62"
    "cur_size (T ! part_num h) + int n < 2 ^ 62" "part_num h < length T"
proof -
  have l: "part_num h < length T" using assms part_num_less [of h] by (simp add: mt_fits_def)
  then have "T ! part_num h \<in> set T" by simp
  with assms l show "part_at T (part_num h) = Some (T ! part_num h)" "imt_ok (T ! part_num h)"
    "bucket_num (T ! part_num h) < 2 ^ 62" "cur_size (T ! part_num h) + int n < 2 ^ 62" "part_num h < length T"
    by (simp_all add: mt_fits_def part_at_def)
qed

lemma mt_update:
  assumes "mt_fits n T" and "m \<le> n" and "imt_ok t" and "bucket_num t < 2 ^ 62" and "cur_size t + int m < 2 ^ 62"
    and "tab t = (tab (T ! part_num (fst x)))(x := d)"
  shows "mt_fits m (T[part_num (fst x) := t])" and "mt_content (T[part_num (fst x) := t]) = (mt_content T)(x := d)"
proof -
  show "mt_fits m (T[part_num (fst x) := t])"
    using assms by (fastforce simp: mt_fits_def dest!: set_update_subset_insert [THEN subsetD])
  have l: "part_num (fst x) < length T" by (rule mt_part(5) [OF assms(1)])
  show "mt_content (T[part_num (fst x) := t]) = (mt_content T)(x := d)"
  proof
    fix y show "mt_content (T[part_num (fst x) := t]) y = ((mt_content T)(x := d)) y"
      using assms(6) l by (cases "part_num (fst y) = part_num (fst x)") (auto simp: mt_content_def)
  qed
qed

lemma remove_size:
  assumes "imt_ok t" and "imt_ok t'" and "mset (elems t') = filter_mset P (mset (elems t))"
  shows "cur_size t' \<le> cur_size t"
proof -
  have "cur_size t' = int (size (mset (elems t')))" "cur_size t = int (size (mset (elems t)))"
    using assms(1,2) by (auto simp: imt_ok_def elems_def)
  moreover have "size (filter_mset P (mset (elems t))) \<le> size (mset (elems t))"
    by (rule size_mset_mono) simp
  ultimately show ?thesis using assms(3) by simp
qed

interpretation mt: hash_map "\<lambda>(h, k). mt_lookup h k" "\<lambda>(h, k). mt_insert True True None h k" "\<lambda>(h, k). mt_remove h k"
  mt_content mt_fits
proof (unfold_locales, goal_cases)
  case (1 n T x)
  obtain h k where x: "x = (h, k)" by (cases x)
  from lookup_tab [OF mt_part(2) [OF 1, of h], of h k] mt_part(1) [OF 1, of h] show ?case
    by (auto simp: x mt_lookup_def mt_content_def split: option.splits)
next
  case (2 n T x v)
  obtain h k where x: "x = (h, k)" by (cases x)
  let ?t = "T ! part_num h"
  note p = mt_part [OF 2, of h]
  have "\<exists>t'. imt_insert True True None h k v ?t = Some (case tab ?t (h, k) of None \<Rightarrow> None | Some d \<Rightarrow> if v = d then None else d, t')
    \<and> imt_ok t' \<and> tab t' = (tab ?t)((h, k) \<mapsto> v) \<and> bucket_num t' < 2 ^ 62 \<and> cur_size t' + int n < 2 ^ 62"
  proof (cases "tab ?t (h, k)")
    case None
    have "swept None m = m" for m :: "u64 \<times> 'a \<Rightarrow> 'b option option"
      by (auto simp: swept_def split: option.splits)
    with insert_absent [OF p(2) None p(3), of True True None v] None p(3,4) show ?thesis by auto
  next
    case (Some d)
    from insert_present [OF p(2) Some, of True True None v] Some p(3,4) show ?thesis by auto
  qed
  then obtain t' where t': "imt_insert True True None h k v ?t = Some (case tab ?t (h, k) of None \<Rightarrow> None | Some d \<Rightarrow> if v = d then None else d, t')"
    "imt_ok t'" "tab t' = (tab ?t)((h, k) \<mapsto> v)" "bucket_num t' < 2 ^ 62" "cur_size t' + int n < 2 ^ 62" by blast
  from mt_update [OF 2, of n t' x "Some v"] t' p(1) show ?case
    by (auto simp: x mt_insert_def mt_content_def)
next
  case (3 n T x)
  obtain h k where x: "x = (h, k)" by (cases x)
  let ?t = "T ! part_num h"
  note p = mt_part [OF 3, of h]
  from remove_tab [OF p(2), of h k] obtain t' where t': "imt_remove h k ?t = Some (case tab ?t (h, k) of None \<Rightarrow> None | Some d \<Rightarrow> d, t')"
    "imt_ok t'" "tab t' = (tab ?t)((h, k) := None)" "bucket_num t' = bucket_num ?t"
    "mset (elems t') = filter_mset (\<lambda>c. ident c \<noteq> (h, k)) (mset (elems ?t))" by blast
  have "cur_size t' \<le> cur_size ?t" by (rule remove_size [OF p(2) t'(2,5)])
  with mt_update [OF 3, of n t' x None] t' p show ?case
    by (auto simp: x mt_remove_def mt_content_def split: option.splits)
qed

section \<open>A new table\<close>

lemma imt_init_new: "0 < sz \<Longrightarrow> imt_init True sz new_imt = (OB_SUCCESS, \<lparr>buckets = Some (replicate (nat sz) []), cur_size = 0, bucket_num = sz\<rparr>)"
  by (simp add: imt_init_def new_imt_def)

lemma new_parts: "0 < sz \<Longrightarrow> init_parts (replicate n (True, True, True)) sz =
    (OB_SUCCESS, replicate n \<lparr>buckets = Some (replicate (nat sz) []), cur_size = 0, bucket_num = sz\<rparr>)"
  by (induction n) (simp_all add: imt_init_new)

lemma new_table:
  assumes "0 < sz" and "sz < 2 ^ 62" and "int n < 2 ^ 62"
  obtains T :: "('k, 'v) mt" where "mt_init False (replicate MT_HASHTABLE_PARTITIONS (True, True, True)) sz [] = (OB_SUCCESS, True, T)"
    "mt_fits n T" "mt_content T = Map.empty"
proof -
  let ?t = "\<lparr>buckets = Some (replicate (nat sz) []), cur_size = 0, bucket_num = sz\<rparr> :: ('k, 'v) imt"
  let ?T = "replicate MT_HASHTABLE_PARTITIONS ?t"
  have "imt_ok ?t" using assms(1,2) by (auto simp: imt_ok_def in_place_def)
  then have "mt_fits n ?T" using assms(2,3) unfolding mt_fits_def by simp
  moreover have "mt_content ?T = Map.empty"
    by (rule ext) (simp add: mt_content_def part_num_less tab_def elems_def)
  moreover have "mt_init False (replicate MT_HASHTABLE_PARTITIONS (True, True, True)) sz [] = (OB_SUCCESS, True, ?T)"
    using assms(1) by (simp add: mt_init_def new_parts)
  ultimately show ?thesis by (rule that [rotated 1])
qed

end
