(* ===== verification/CongestionManager.thy ===== *)
theory CongestionManager
  imports CongestionEntry MTHashTable
begin

text \<open>
  The manager of the congestion entries, \<open>src/src/obproxy/obutils/ob_congestion_manager.h\<close> and \<open>.cpp\<close>: a
  partitioned hash table of entries by server address, the zones, and for each partition a to-do list of
  the requests that found the partition locked.  Entries, zones and configurations are reference counted
  objects in heaps; an operation is \<open>None\<close> when it touches an object that is freed, a null pointer or
  memory outside an object, and when it waits for \<open>rw_lock_\<close> while it holds it itself (\<open>rw_held\<close>).

  What an operation finds of its surroundings is its argument (\<open>env\<close>): the hash of an address, which
  partitions it can lock, whether the lock of an entry's failure history is free, the clocks.  Allocations
  take their addresses from a list that is part of the state, where \<open>None\<close> is a failure; an address that
  is still in use counts as one too.
\<close>

section \<open>State\<close>

definition MAX_ZONE_NUM :: nat where
  "MAX_ZONE_NUM = 64"

definition MAX_ZONE_LENGTH :: nat where
  "MAX_ZONE_LENGTH = 128"

definition MAX_REGION_LENGTH :: nat where
  "MAX_REGION_LENGTH = 128"

datatype request_op =
    ADD_RECORD | REMOVE_RECORD | REMOVE_ALL_RECORDS | REVALIDATE_BUCKET_CONFIG | REVALIDATE_BUCKET_ZONE
  | REVALIDATE_SERVER | DELETE_SERVER

record 'ip request =
  rq_hash :: u64
  rq_key :: 'ip
  rq_cr_version :: int
  rq_op :: request_op
  rq_server_state :: server_status
  rq_entry :: "addr option"
  rq_zone :: "addr option"
  rq_config :: "addr option"

record 'ip env =
  hash_of :: "'ip \<Rightarrow> u64"
  blank_ip :: 'ip
  part_free :: "nat \<Rightarrow> bool"
  hist_free :: "addr \<Rightarrow> bool"
  now_ns :: int
  now_us :: int

record 'ip cmgr =
  cm_inited :: bool
  base_servers_added :: bool
  congestion_enabled :: bool
  rw_held :: bool
  zones :: "addr list"
  todo :: "'ip request list list"
  cm_config :: "addr option"
  table :: "('ip, addr) mt"
  cfgs :: configs
  zns :: zones
  ents :: "addr \<Rightarrow> 'ip centry option"
  fresh :: "addr option list"

definition new_request :: "'ip env \<Rightarrow> 'ip request" where
  "new_request E = \<lparr>rq_hash = 0, rq_key = blank_ip E, rq_cr_version = - 1, rq_op = REVALIDATE_BUCKET_CONFIG,
     rq_server_state = ACTIVE, rq_entry = None, rq_zone = None, rq_config = None\<rparr>"

text \<open>The names of a zone and its region are copied into arrays of fixed size, without a check.\<close>

definition new_zone :: "u8 list \<Rightarrow> u8 list \<Rightarrow> zone_status \<Rightarrow> zone option" where
  "new_zone zname rname st =
     (if length zname \<le> MAX_ZONE_LENGTH \<and> length rname \<le> MAX_REGION_LENGTH
      then Some \<lparr>ref_count = 0, zone_name = zname, region_name = rname, zstatus = st, zone_revalidate_us = 0\<rparr>
      else None)"

section \<open>Allocation and references\<close>

definition op_alloc :: "(addr \<Rightarrow> 'a option) \<Rightarrow> 'ip cmgr \<Rightarrow> addr option \<times> 'ip cmgr" where
  "op_alloc H s =
     (case fresh s of
        [] \<Rightarrow> (None, s)
      | p # ps \<Rightarrow>
          ((case p of None \<Rightarrow> None | Some a \<Rightarrow> if H a = None then Some a else None), s\<lparr>fresh := ps\<rparr>))"

text \<open>For memory whose address does not matter.\<close>

definition mem_alloc :: "'ip cmgr \<Rightarrow> bool \<times> 'ip cmgr" where
  "mem_alloc s = (let (p, s) = op_alloc (Map.empty :: addr \<Rightarrow> unit option) s in (p \<noteq> None, s))"

definition cfg_inc :: "addr \<Rightarrow> 'ip cmgr \<Rightarrow> 'ip cmgr option" where
  "cfg_inc a s = map_option (\<lambda>C. s\<lparr>cfgs := C\<rparr>) (inc_ref (cfgs s) a)"

definition cfg_dec :: "addr \<Rightarrow> 'ip cmgr \<Rightarrow> 'ip cmgr option" where
  "cfg_dec a s = map_option (\<lambda>C. s\<lparr>cfgs := C\<rparr>) (dec_ref (cfgs s) a)"

definition zn_inc :: "addr \<Rightarrow> 'ip cmgr \<Rightarrow> 'ip cmgr option" where
  "zn_inc a s = map_option (\<lambda>Z. s\<lparr>zns := Z\<rparr>) (inc_ref (zns s) a)"

definition zn_dec :: "addr \<Rightarrow> 'ip cmgr \<Rightarrow> 'ip cmgr option" where
  "zn_dec a s = map_option (\<lambda>Z. s\<lparr>zns := Z\<rparr>) (dec_ref (zns s) a)"

definition ent_inc :: "addr \<Rightarrow> 'ip cmgr \<Rightarrow> 'ip cmgr option" where
  "ent_inc a s = map_option (\<lambda>H. s\<lparr>ents := H\<rparr>) (inc_ref (ents s) a)"

text \<open>The last reference to an entry frees it, which drops its references to its configuration and zone.\<close>

definition ent_dec :: "addr \<Rightarrow> 'ip cmgr \<Rightarrow> 'ip cmgr option" where
  "ent_dec a s = do {
     e \<leftarrow> ents s a;
     (if ref_count e = 1 then do {
        (C, Z, _) \<leftarrow> entry_destroy (cfgs s) (zns s) e;
        Some (s\<lparr>cfgs := C, zns := Z, ents := (ents s)(a := None)\<rparr>)
      } else Some (s\<lparr>ents := (ents s)(a \<mapsto> e\<lparr>ref_count := ref_count e - 1\<rparr>)\<rparr>))
   }"

definition upd_ent :: "addr \<Rightarrow> ('ip centry \<Rightarrow> 'ip centry) \<Rightarrow> 'ip cmgr \<Rightarrow> 'ip cmgr option" where
  "upd_ent a f s = map_option (\<lambda>e. s\<lparr>ents := (ents s)(a \<mapsto> f e)\<rparr>) (ents s a)"

text \<open>What every place that takes an entry out of the table does with it.\<close>

definition discard :: "addr \<Rightarrow> 'ip cmgr \<Rightarrow> 'ip cmgr option" where
  "discard a s = do {
     s \<leftarrow> upd_ent a (\<lambda>e. e\<lparr>entry_state := ENTRY_DELETED\<rparr>) s;
     ent_dec a s
   }"

section \<open>The table\<close>

definition tbl_insert :: "u64 \<Rightarrow> 'ip \<Rightarrow> addr \<Rightarrow> 'ip cmgr \<Rightarrow> (addr option \<times> 'ip cmgr) option" where
  "tbl_insert hash ip a s =
     (let (p, s) = mem_alloc s; (q, s) = mem_alloc s
      in do {
        (old, T) \<leftarrow> mt_insert p q None hash ip (Some a) (table s);
        Some (old, s\<lparr>table := T\<rparr>)
      })"

definition tbl_remove :: "u64 \<Rightarrow> 'ip \<Rightarrow> 'ip cmgr \<Rightarrow> (addr option \<times> 'ip cmgr) option" where
  "tbl_remove hash ip s = do {
     (old, T) \<leftarrow> mt_remove hash ip (table s);
     Some (old, s\<lparr>table := T\<rparr>)
   }"

definition discard_opt :: "addr option \<Rightarrow> 'ip cmgr \<Rightarrow> 'ip cmgr option" where
  "discard_opt p s = (case p of None \<Rightarrow> Some s | Some a \<Rightarrow> discard a s)"

definition push_todo :: "nat \<Rightarrow> 'ip request \<Rightarrow> 'ip cmgr \<Rightarrow> 'ip cmgr" where
  "push_todo p x s = s\<lparr>todo := (todo s)[p := x # todo s ! p]\<rparr>"

text \<open>The loop that empties a partition; its fuel is the number of entries.\<close>

fun clear_loop :: "nat \<Rightarrow> nat \<Rightarrow> addr option \<Rightarrow> iter \<Rightarrow> 'ip cmgr \<Rightarrow> 'ip cmgr option" where
  "clear_loop n p None it s = Some s"
| "clear_loop 0 p (Some a) it s = None"
| "clear_loop (Suc n) p (Some a) it s = do {
     (_, T) \<leftarrow> mt_remove_at (table s) p it;
     s \<leftarrow> discard a (s\<lparr>table := T\<rparr>);
     (cur, it) \<leftarrow> mt_cur (table s) p it;
     clear_loop n p cur it s
   }"

definition part_size :: "nat \<Rightarrow> 'ip cmgr \<Rightarrow> nat" where
  "part_size p s = (case part_at (table s) p of None \<Rightarrow> 0 | Some t \<Rightarrow> length (elems t))"

definition clear_part :: "nat \<Rightarrow> 'ip cmgr \<Rightarrow> 'ip cmgr option" where
  "clear_part p s = do {
     (cur, it) \<leftarrow> mt_first (table s) p new_iter;
     clear_loop (part_size p s) p cur it s
   }"

section \<open>Configuration and zones\<close>

text \<open>The loops of \<open>revalidate_bucket_config\<close> and \<open>revalidate_bucket_zone\<close>; \<open>f\<close> is the validation of an entry.\<close>

fun recheck_loop ::
    "(addr \<Rightarrow> 'ip cmgr \<Rightarrow> (ob_err \<times> 'ip cmgr) option) \<Rightarrow> nat \<Rightarrow> nat \<Rightarrow> addr option \<Rightarrow> iter \<Rightarrow> ob_err \<Rightarrow> 'ip cmgr
      \<Rightarrow> (ob_err \<times> 'ip cmgr) option"
where
  "recheck_loop f n p None it ret s = Some (ret, s)"
| "recheck_loop f 0 p (Some a) it ret s = (if ret \<noteq> OB_SUCCESS then Some (ret, s) else None)"
| "recheck_loop f (Suc n) p (Some a) it ret s =
     (if ret \<noteq> OB_SUCCESS then Some (ret, s)
      else do {
        (ret, s) \<leftarrow> f a s;
        (if ret \<noteq> OB_SUCCESS then do {
           (r, T) \<leftarrow> mt_remove_at (table s) p it;
           let s = s\<lparr>table := T\<rparr>;
           (if r \<noteq> Some a then recheck_loop f n p (Some a) it OB_ERR_UNEXPECTED s
            else do {
              s \<leftarrow> discard a s;
              (cur, it) \<leftarrow> mt_cur (table s) p it;
              recheck_loop f n p cur it ret s
            })
         } else do {
           (cur, it) \<leftarrow> mt_next (table s) p it;
           recheck_loop f n p cur it ret s
         })
      })"

definition validate_config_at :: "'ip env \<Rightarrow> addr \<Rightarrow> addr \<Rightarrow> 'ip cmgr \<Rightarrow> (ob_err \<times> 'ip cmgr) option" where
  "validate_config_at E config a s = do {
     e \<leftarrow> ents s a;
     (ret, C, e) \<leftarrow> validate_config (cfgs s) (now_us E) (Some config) e;
     Some (ret, s\<lparr>cfgs := C, ents := (ents s)(a \<mapsto> e)\<rparr>)
   }"

definition validate_zone_at :: "addr \<Rightarrow> addr \<Rightarrow> 'ip cmgr \<Rightarrow> (ob_err \<times> 'ip cmgr) option" where
  "validate_zone_at zstate a s = do {
     e \<leftarrow> ents s a;
     (ret, Z, e) \<leftarrow> validate_zone (zns s) (Some zstate) e;
     Some (ret, s\<lparr>zns := Z, ents := (ents s)(a \<mapsto> e)\<rparr>)
   }"

definition revalidate_bucket_config :: "'ip env \<Rightarrow> nat \<Rightarrow> addr option \<Rightarrow> 'ip cmgr \<Rightarrow> (ob_err \<times> 'ip cmgr) option" where
  "revalidate_bucket_config E p config s =
     (case config of
        None \<Rightarrow> Some (OB_INVALID_ARGUMENT, s)
      | Some c \<Rightarrow> do {
          (cur, it) \<leftarrow> mt_first (table s) p new_iter;
          (ret, s) \<leftarrow> recheck_loop (validate_config_at E c) (part_size p s) p cur it OB_SUCCESS s;
          s \<leftarrow> cfg_dec c s;
          Some (ret, s)
        })"

definition revalidate_bucket_zone :: "nat \<Rightarrow> addr option \<Rightarrow> 'ip cmgr \<Rightarrow> (ob_err \<times> 'ip cmgr) option" where
  "revalidate_bucket_zone p zstate s =
     (case zstate of
        None \<Rightarrow> Some (OB_INVALID_ARGUMENT, s)
      | Some z \<Rightarrow> do {
          (cur, it) \<leftarrow> mt_first (table s) p new_iter;
          (ret, s) \<leftarrow> recheck_loop (validate_zone_at z) (part_size p s) p cur it OB_SUCCESS s;
          s \<leftarrow> zn_dec z s;
          Some (ret, s)
        })"

text \<open>A loop over partitions that stops at the first error.\<close>

fun for_parts :: "(nat \<Rightarrow> 'ip cmgr \<Rightarrow> (ob_err \<times> 'ip cmgr) option) \<Rightarrow> nat list \<Rightarrow> 'ip cmgr \<Rightarrow> (ob_err \<times> 'ip cmgr) option" where
  "for_parts f [] s = Some (OB_SUCCESS, s)"
| "for_parts f (p # ps) s = do {
     (ret, s) \<leftarrow> f p s;
     (if ret \<noteq> OB_SUCCESS then Some (ret, s) else for_parts f ps s)
   }"

text \<open>From here on \<open>run\<close> stands for \<open>run_todo_list\<close>, with which the operations are mutually recursive.\<close>

type_synonym 'ip runner = "'ip env \<Rightarrow> nat \<Rightarrow> 'ip cmgr \<Rightarrow> (ob_err \<times> 'ip cmgr) option"

definition config_part :: "'ip runner \<Rightarrow> 'ip env \<Rightarrow> addr \<Rightarrow> nat \<Rightarrow> 'ip cmgr \<Rightarrow> (ob_err \<times> 'ip cmgr) option" where
  "config_part run E c i s =
     (if part_free E i then do {
        (ret, s) \<leftarrow> run E i s;
        (if ret \<noteq> OB_SUCCESS then Some (ret, s)
         else do { s \<leftarrow> cfg_inc c s; revalidate_bucket_config E i (Some c) s })
      } else
        (case mem_alloc s of
           (False, s) \<Rightarrow> Some (OB_ALLOCATE_MEMORY_FAILED, s)
         | (True, s) \<Rightarrow> do {
             s \<leftarrow> cfg_inc c s;
             Some (OB_SUCCESS, push_todo i ((new_request E)\<lparr>rq_op := REVALIDATE_BUCKET_CONFIG, rq_config := Some c\<rparr>) s)
           }))"

definition revalidate_config :: "'ip runner \<Rightarrow> 'ip env \<Rightarrow> addr option \<Rightarrow> 'ip cmgr \<Rightarrow> (ob_err \<times> 'ip cmgr) option" where
  "revalidate_config run E config s =
     (case config of
        None \<Rightarrow> Some (OB_INVALID_ARGUMENT, s)
      | Some c \<Rightarrow> do {
          (ret, s) \<leftarrow> for_parts (config_part run E c) [0..<MT_HASHTABLE_PARTITIONS] s;
          s \<leftarrow> cfg_dec c s;
          Some (ret, s)
        })"

definition zone_part :: "'ip runner \<Rightarrow> 'ip env \<Rightarrow> addr \<Rightarrow> nat \<Rightarrow> 'ip cmgr \<Rightarrow> (ob_err \<times> 'ip cmgr) option" where
  "zone_part run E z i s =
     (if part_free E i then do {
        (ret, s) \<leftarrow> run E i s;
        (if ret \<noteq> OB_SUCCESS then Some (ret, s)
         else do { s \<leftarrow> zn_inc z s; revalidate_bucket_zone i (Some z) s })
      } else
        (case mem_alloc s of
           (False, s) \<Rightarrow> Some (OB_ALLOCATE_MEMORY_FAILED, s)
         | (True, s) \<Rightarrow> do {
             s \<leftarrow> zn_inc z s;
             Some (OB_SUCCESS, push_todo i ((new_request E)\<lparr>rq_op := REVALIDATE_BUCKET_ZONE, rq_zone := Some z\<rparr>) s)
           }))"

definition revalidate_zone :: "'ip runner \<Rightarrow> 'ip env \<Rightarrow> addr option \<Rightarrow> 'ip cmgr \<Rightarrow> (ob_err \<times> 'ip cmgr) option" where
  "revalidate_zone run E zstate s =
     (case zstate of
        None \<Rightarrow> Some (OB_INVALID_ARGUMENT, s)
      | Some z \<Rightarrow> do {
          (ret, s) \<leftarrow> for_parts (zone_part run E z) [0..<MT_HASHTABLE_PARTITIONS] s;
          s \<leftarrow> zn_dec z s;
          Some (ret, s)
        })"

text \<open>The scope of a \<open>SpinWLockGuard\<close> of \<open>rw_lock_\<close>, which is not recursive.\<close>

definition with_wrlock :: "('ip cmgr \<Rightarrow> (ob_err \<times> 'ip cmgr) option) \<Rightarrow> 'ip cmgr \<Rightarrow> (ob_err \<times> 'ip cmgr) option" where
  "with_wrlock f s =
     (if rw_held s then None
      else do { (ret, s) \<leftarrow> f (s\<lparr>rw_held := True\<rparr>); Some (ret, s\<lparr>rw_held := False\<rparr>) })"

definition change_config ::
    "'ip runner \<Rightarrow> 'ip env \<Rightarrow> addr \<Rightarrow> bool \<Rightarrow> 'ip cmgr \<Rightarrow> (ob_err \<times> 'ip cmgr) option" where
  "change_config run E c is_init s =
     (case cm_config s of
        None \<Rightarrow> do { s \<leftarrow> cfg_inc c s; Some (OB_SUCCESS, s\<lparr>cm_config := Some c\<rparr>) }
      | Some old \<Rightarrow> do {
          c0 \<leftarrow> cfgs s old;
          c1 \<leftarrow> cfgs s c;
          (if \<not> config_eq c0 c1 then do {
             s \<leftarrow> cfg_inc c s;
             s \<leftarrow> cfg_dec old s;
             let s = s\<lparr>cm_config := Some c\<rparr>;
             (if \<not> is_init then do { s \<leftarrow> cfg_inc c s; revalidate_config run E (Some c) s }
              else Some (OB_SUCCESS, s))
           } else Some (OB_SUCCESS, s))
        })"

definition update_congestion_config ::
    "'ip runner \<Rightarrow> 'ip env \<Rightarrow> addr option \<Rightarrow> bool \<Rightarrow> 'ip cmgr \<Rightarrow> (ob_err \<times> 'ip cmgr) option" where
  "update_congestion_config run E config is_init s =
     (if \<not> cm_inited s then Some (OB_NOT_INIT, s)
      else case config of
        None \<Rightarrow> Some (OB_INVALID_ARGUMENT, s)
      | Some c \<Rightarrow> with_wrlock (change_config run E c is_init) s)"

text \<open>The position of the zone of a name.\<close>

fun find_zone :: "zones \<Rightarrow> u8 list \<Rightarrow> nat \<Rightarrow> addr list \<Rightarrow> nat option option" where
  "find_zone Z zname j [] = Some None"
| "find_zone Z zname j (a # as) = do {
     z \<leftarrow> Z a;
     (if zone_name z = zname then Some (Some j) else find_zone Z zname (j + 1) as)
   }"

definition get_zone_state :: "u8 list \<Rightarrow> 'ip cmgr \<Rightarrow> (addr option \<times> 'ip cmgr) option" where
  "get_zone_state zname s =
     (if rw_held s then None
      else do {
        j \<leftarrow> find_zone (zns s) zname 0 (zones s);
        (case j of
           None \<Rightarrow> Some (None, s)
         | Some j \<Rightarrow> do { s \<leftarrow> zn_inc (zones s ! j) s; Some (Some (zones s ! j), s) })
      })"

definition renew_zone :: "'ip env \<Rightarrow> addr \<Rightarrow> 'ip cmgr \<Rightarrow> 'ip cmgr option" where
  "renew_zone E a s = map_option (\<lambda>z. s\<lparr>zns := (zns s)(a \<mapsto> z\<lparr>zone_revalidate_us := now_us E\<rparr>)\<rparr>) (zns s a)"

text \<open>The last part of \<open>update_zone\<close>: a new zone takes the place of the one at \<open>j\<close>, or is added.\<close>

definition handle_changed_zone ::
    "'ip runner \<Rightarrow> 'ip env \<Rightarrow> u8 list \<Rightarrow> u8 list \<Rightarrow> zone_status \<Rightarrow> bool \<Rightarrow> nat option \<Rightarrow> 'ip cmgr \<Rightarrow> (ob_err \<times> 'ip cmgr) option"
where
  "handle_changed_zone run E zname rname st is_init j s =
     (case op_alloc (zns s) s of
        (None, s) \<Rightarrow> Some (OB_ALLOCATE_MEMORY_FAILED, s)
      | (Some a, s) \<Rightarrow> do {
          z \<leftarrow> new_zone zname rname st;
          let s = s\<lparr>zns := (zns s)(a \<mapsto> z)\<rparr>;
          (case j of
             Some j \<Rightarrow> do {
               s \<leftarrow> zn_dec (zones s ! j) s;
               s \<leftarrow> zn_inc a s;
               s \<leftarrow> renew_zone E a s;
               let s = s\<lparr>zones := (zones s)[j := a]\<rparr>;
               (if \<not> is_init then do { s \<leftarrow> zn_inc a s; revalidate_zone run E (Some a) s }
                else Some (OB_SUCCESS, s))
             }
           | None \<Rightarrow>
               if length (zones s) < MAX_ZONE_NUM then do {
                 s \<leftarrow> zn_inc a s;
                 s \<leftarrow> renew_zone E a s;
                 Some (OB_SUCCESS, s\<lparr>zones := zones s @ [a]\<rparr>)
               } else Some (OB_SIZE_OVERFLOW, s))
        })"

definition change_zone ::
    "'ip runner \<Rightarrow> 'ip env \<Rightarrow> u8 list \<Rightarrow> u8 list \<Rightarrow> zone_status \<Rightarrow> bool \<Rightarrow> 'ip cmgr \<Rightarrow> (ob_err \<times> 'ip cmgr) option" where
  "change_zone run E zname rname st is_init s = do {
     j \<leftarrow> find_zone (zns s) zname 0 (zones s);
     (case j of
        None \<Rightarrow> handle_changed_zone run E zname rname st is_init None s
      | Some i \<Rightarrow> do {
          z \<leftarrow> zns s (zones s ! i);
          (if rname \<noteq> region_name z then handle_changed_zone run E zname rname st is_init j s
           else if zstatus z \<noteq> st then
             (if st = Z_DELETED then do {
                s \<leftarrow> renew_zone E (zones s ! i) (s\<lparr>zns := (zns s)(zones s ! i \<mapsto> z\<lparr>zstatus := st\<rparr>)\<rparr>);
                Some (OB_SUCCESS, s)
              } else handle_changed_zone run E zname rname st is_init j s)
           else Some (OB_SUCCESS, s))
        })
   }"

definition update_zone ::
    "'ip runner \<Rightarrow> 'ip env \<Rightarrow> u8 list \<Rightarrow> u8 list \<Rightarrow> zone_status \<Rightarrow> bool \<Rightarrow> 'ip cmgr \<Rightarrow> (ob_err \<times> 'ip cmgr) option" where
  "update_zone run E zname rname st is_init s =
     (if \<not> cm_inited s then Some (OB_NOT_INIT, s)
      else with_wrlock (change_zone run E zname rname st is_init) s)"

definition get_congestion_control_config :: "'ip cmgr \<Rightarrow> (addr \<times> 'ip cmgr) option" where
  "get_congestion_control_config s =
     (if rw_held s then None
      else do {
        c \<leftarrow> cm_config s;
        s \<leftarrow> cfg_inc c s;
        Some (c, s)
      })"

section \<open>Servers\<close>

definition add_record_todo_list :: "'ip env \<Rightarrow> u64 \<Rightarrow> 'ip \<Rightarrow> addr \<Rightarrow> 'ip cmgr \<Rightarrow> (ob_err \<times> 'ip cmgr) option" where
  "add_record_todo_list E hash ip a s =
     (case mem_alloc s of
        (False, s) \<Rightarrow> Some (OB_ALLOCATE_MEMORY_FAILED, s)
      | (True, s) \<Rightarrow> do {
          s \<leftarrow> ent_inc a s;
          Some (OB_SUCCESS, push_todo (part_num hash)
            ((new_request E)\<lparr>rq_op := ADD_RECORD, rq_hash := hash, rq_key := ip, rq_entry := Some a\<rparr>) s)
        })"

definition add_record :: "'ip runner \<Rightarrow> 'ip env \<Rightarrow> 'ip \<Rightarrow> addr \<Rightarrow> bool \<Rightarrow> 'ip cmgr \<Rightarrow> (ob_err \<times> 'ip cmgr) option" where
  "add_record run E ip a skip_try_lock s =
     (let hash = hash_of E ip
      in if \<not> skip_try_lock \<and> part_free E (part_num hash) then do {
           (ret, s) \<leftarrow> run E (part_num hash) s;
           (if ret \<noteq> OB_SUCCESS then Some (ret, s)
            else do {
              s \<leftarrow> ent_inc a s;
              (tmp, s) \<leftarrow> tbl_insert hash ip a s;
              s \<leftarrow> discard_opt tmp s;
              Some (ret, s)
            })
         } else add_record_todo_list E hash ip a s)"

text \<open>What the state of a new server makes of its flags.\<close>

definition first_flags :: "'ip env \<Rightarrow> server_status \<Rightarrow> 'ip centry \<Rightarrow> 'ip centry" where
  "first_flags E st e =
     (case st of
        ACTIVE \<Rightarrow> set_all_congested_free e
      | INACTIVE \<Rightarrow> set_dead_congested (now_us E) e
      | REPLAY \<Rightarrow> set_dead_congested (now_us E) e
      | ACTIVE_CONGESTED \<Rightarrow> set_dead_free_alive_congested (now_us E) e
      | DETECT_ALIVE \<Rightarrow> set_alive_congested_free (set_detect_congested_free e)
      | DETECT_DEAD \<Rightarrow> set_detect_congested (now_us E) e
      | _ \<Rightarrow> e)"

definition entry_init_at :: "'ip env \<Rightarrow> addr \<Rightarrow> addr \<Rightarrow> addr \<Rightarrow> 'ip cmgr \<Rightarrow> (ob_err \<times> 'ip cmgr) option" where
  "entry_init_at E config zstate a s =
     (case mem_alloc s of (p, s) \<Rightarrow> do {
        e \<leftarrow> ents s a;
        (ret, C, Z, e) \<leftarrow> entry_init (cfgs s) (zns s) p (Some config) (Some zstate) e;
        Some (ret, s\<lparr>cfgs := C, zns := Z, ents := (ents s)(a \<mapsto> e)\<rparr>)
      })"

text \<open>The part of \<open>add_new_server\<close> that has the configuration and the zone.\<close>

definition create_server ::
    "'ip runner \<Rightarrow> 'ip env \<Rightarrow> addr \<Rightarrow> addr \<Rightarrow> 'ip \<Rightarrow> int \<Rightarrow> server_status \<Rightarrow> bool \<Rightarrow> 'ip cmgr \<Rightarrow> (ob_err \<times> 'ip cmgr) option"
where
  "create_server run E config zstate ip cr st is_init s =
     (case op_alloc (ents s) s of
        (None, s) \<Rightarrow> Some (OB_ALLOCATE_MEMORY_FAILED, s)
      | (Some a, s) \<Rightarrow> do {
          (ret, s) \<leftarrow> entry_init_at E config zstate a (s\<lparr>ents := (ents s)(a \<mapsto> new_entry ip)\<rparr>);
          (if ret \<noteq> OB_SUCCESS then Some (ret, s)
           else do {
             s \<leftarrow> upd_ent a (\<lambda>e. first_flags E st
                    (e\<lparr>cr_version := cr, server_state := st, last_revalidate_us := now_us E\<rparr>)) s;
             add_record run E ip a is_init s
           })
        })"

definition add_new_server ::
    "'ip runner \<Rightarrow> 'ip env \<Rightarrow> 'ip \<Rightarrow> int \<Rightarrow> server_status \<Rightarrow> u8 list \<Rightarrow> u8 list \<Rightarrow> bool \<Rightarrow> 'ip cmgr \<Rightarrow> (ob_err \<times> 'ip cmgr) option"
where
  "add_new_server run E ip cr st zname rname is_init s =
     (if st = DELETED then Some (OB_SUCCESS, s)
      else do {
        (c, s) \<leftarrow> get_congestion_control_config s;
        (z, s) \<leftarrow> get_zone_state zname s;
        (ret, z, s) \<leftarrow> (case z of
            Some z \<Rightarrow> Some (OB_SUCCESS, Some z, s)
          | None \<Rightarrow> do {
              (ret, s) \<leftarrow> update_zone run E zname rname Z_DELETED True s;
              (if ret \<noteq> OB_SUCCESS then Some (ret, None, s)
               else do {
                 (z, s) \<leftarrow> get_zone_state zname s;
                 Some (if z = None then OB_ERR_UNEXPECTED else OB_SUCCESS, z, s)
               })
            });
        (ret, s) \<leftarrow> (if ret \<noteq> OB_SUCCESS then Some (ret, s)
          else do {
            z \<leftarrow> z;
            (ret, s) \<leftarrow> create_server run E c z ip cr st is_init s;
            s \<leftarrow> zn_dec z s;
            Some (ret, s)
          });
        s \<leftarrow> cfg_dec c s;
        Some (ret, s)
      })"

text \<open>What a reported state does to a server that is known: \<open>revalidate_server\<close> and the deferred request
  have the same cases.  A server that is deleted is looked up once more.\<close>

definition note_state :: "'ip env \<Rightarrow> u64 \<Rightarrow> 'ip \<Rightarrow> server_status \<Rightarrow> addr \<Rightarrow> 'ip cmgr \<Rightarrow> 'ip cmgr option" where
  "note_state E hash ip st a s =
     (case st of
        ACTIVE \<Rightarrow> do {
          e \<leftarrow> ents s a;
          e \<leftarrow> check_and_set_alive (cfgs s) (hist_free E a) (now_ns E) (now_us E) e;
          Some (s\<lparr>ents := (ents s)(a \<mapsto> e)\<rparr>)
        }
      | INACTIVE \<Rightarrow> upd_ent a (set_dead_congested (now_us E)) s
      | REPLAY \<Rightarrow> upd_ent a (set_dead_congested (now_us E)) s
      | ACTIVE_CONGESTED \<Rightarrow> upd_ent a (set_dead_free_alive_congested (now_us E)) s
      | DETECT_ALIVE \<Rightarrow> upd_ent a (\<lambda>e. set_alive_congested_free (set_detect_congested_free e)) s
      | DETECT_DEAD \<Rightarrow> upd_ent a (set_detect_congested (now_us E)) s
      | DELETED \<Rightarrow> do {
          (old, s) \<leftarrow> tbl_remove hash ip s;
          discard_opt old s
        }
      | _ \<Rightarrow> Some s)"

definition revalidate_server ::
    "'ip runner \<Rightarrow> 'ip env \<Rightarrow> 'ip \<Rightarrow> int \<Rightarrow> server_status \<Rightarrow> u8 list \<Rightarrow> u8 list \<Rightarrow> 'ip cmgr \<Rightarrow> (ob_err \<times> 'ip cmgr) option"
where
  "revalidate_server run E ip cr st zname rname s =
     (let hash = hash_of E ip
      in if part_free E (part_num hash) then do {
           (ret, s) \<leftarrow> run E (part_num hash) s;
           (if ret \<noteq> OB_SUCCESS then Some (ret, s)
            else do {
              r \<leftarrow> mt_lookup hash ip (table s);
              (case r of
                 Some a \<Rightarrow> do {
                   s \<leftarrow> upd_ent a (\<lambda>e. e\<lparr>server_state := st, last_revalidate_us := now_us E\<rparr>) s;
                   s \<leftarrow> note_state E hash ip st a s;
                   Some (OB_SUCCESS, s)
                 }
               | None \<Rightarrow> add_new_server run E ip cr st zname rname False s)
            })
         } else
           (case mem_alloc s of
              (False, s) \<Rightarrow> Some (OB_ALLOCATE_MEMORY_FAILED, s)
            | (True, s) \<Rightarrow>
                (case op_alloc (zns s) s of
                   (None, s) \<Rightarrow> Some (OB_ALLOCATE_MEMORY_FAILED, s)
                 | (Some z, s) \<Rightarrow> do {
                     zn \<leftarrow> new_zone zname rname Z_ACTIVE;
                     s \<leftarrow> zn_inc z (s\<lparr>zns := (zns s)(z \<mapsto> zn)\<rparr>);
                     Some (OB_SUCCESS, push_todo (part_num hash)
                       ((new_request E)\<lparr>rq_op := REVALIDATE_SERVER, rq_hash := hash, rq_key := ip, rq_cr_version := cr,
                          rq_server_state := st, rq_zone := Some z\<rparr>) s)
                   })))"

definition update_server ::
    "'ip runner \<Rightarrow> 'ip env \<Rightarrow> 'ip \<Rightarrow> int \<Rightarrow> server_status \<Rightarrow> u8 list \<Rightarrow> u8 list \<Rightarrow> bool \<Rightarrow> 'ip cmgr \<Rightarrow> (ob_err \<times> 'ip cmgr) option"
where
  "update_server run E ip cr st zname rname is_init s =
     (if is_init then add_new_server run E ip cr st zname rname is_init s
      else revalidate_server run E ip cr st zname rname s)"

definition remove_all_records :: "'ip runner \<Rightarrow> 'ip env \<Rightarrow> 'ip cmgr \<Rightarrow> (ob_err \<times> 'ip cmgr) option" where
  "remove_all_records run E s =
     for_parts (\<lambda>p s.
         if part_free E p then do {
           (ret, s) \<leftarrow> run E p s;
           (if ret \<noteq> OB_SUCCESS then Some (ret, s) else map_option (Pair OB_SUCCESS) (clear_part p s))
         } else
           (case mem_alloc s of
              (False, s) \<Rightarrow> Some (OB_ALLOCATE_MEMORY_FAILED, s)
            | (True, s) \<Rightarrow>
                Some (OB_SUCCESS, push_todo p ((new_request E)\<lparr>rq_op := REMOVE_ALL_RECORDS, rq_hash := of_nat p\<rparr>) s)))
       [0..<MT_HASHTABLE_PARTITIONS] s"

text \<open>The deferred request does not get the hash.\<close>

definition remove_record :: "'ip runner \<Rightarrow> 'ip env \<Rightarrow> 'ip \<Rightarrow> 'ip cmgr \<Rightarrow> (ob_err \<times> 'ip cmgr) option" where
  "remove_record run E ip s =
     (let hash = hash_of E ip
      in if part_free E (part_num hash) then do {
           (ret, s) \<leftarrow> run E (part_num hash) s;
           (if ret \<noteq> OB_SUCCESS then Some (ret, s)
            else do {
              (old, s) \<leftarrow> tbl_remove hash ip s;
              s \<leftarrow> discard_opt old s;
              Some (ret, s)
            })
         } else
           (case mem_alloc s of
              (False, s) \<Rightarrow> Some (OB_ALLOCATE_MEMORY_FAILED, s)
            | (True, s) \<Rightarrow>
                Some (OB_SUCCESS, push_todo (part_num hash) ((new_request E)\<lparr>rq_op := REMOVE_RECORD, rq_key := ip\<rparr>) s)))"

section \<open>The to-do lists\<close>

text \<open>\<open>entry = NULL\<close> is inserted as such by the code; \<open>None\<close> here, since no request has it.\<close>

definition process :: "'ip runner \<Rightarrow> 'ip env \<Rightarrow> nat \<Rightarrow> 'ip request \<Rightarrow> 'ip cmgr \<Rightarrow> (ob_err \<times> 'ip cmgr) option" where
  "process run E buck_id x s =
     (case rq_op x of
        ADD_RECORD \<Rightarrow> do {
          a \<leftarrow> rq_entry x;
          (old, s) \<leftarrow> tbl_insert (rq_hash x) (rq_key x) a s;
          s \<leftarrow> discard_opt old s;
          Some (OB_SUCCESS, s)
        }
      | REMOVE_ALL_RECORDS \<Rightarrow> map_option (Pair OB_SUCCESS) (clear_part (unat (rq_hash x)) s)
      | REMOVE_RECORD \<Rightarrow> do {
          (old, s) \<leftarrow> tbl_remove (rq_hash x) (rq_key x) s;
          s \<leftarrow> discard_opt old s;
          Some (OB_SUCCESS, s)
        }
      | REVALIDATE_BUCKET_CONFIG \<Rightarrow> revalidate_bucket_config E buck_id (rq_config x) s
      | REVALIDATE_BUCKET_ZONE \<Rightarrow> revalidate_bucket_zone buck_id (rq_zone x) s
      | REVALIDATE_SERVER \<Rightarrow> do {
          r \<leftarrow> mt_lookup (rq_hash x) (rq_key x) (table s);
          (ret, s) \<leftarrow> (case r of
              Some a \<Rightarrow> do {
                s \<leftarrow> upd_ent a (\<lambda>e. e\<lparr>server_state := rq_server_state x\<rparr>) s;
                s \<leftarrow> note_state E (rq_hash x) (rq_key x) (rq_server_state x) a s;
                Some (OB_SUCCESS, s)
              }
            | None \<Rightarrow>
                (case rq_zone x of
                   None \<Rightarrow> Some (OB_ERR_UNEXPECTED, s)
                 | Some z \<Rightarrow> do {
                     zn \<leftarrow> zns s z;
                     add_new_server run E (rq_key x) (rq_cr_version x) (rq_server_state x) (zone_name zn) (region_name zn) False s
                   }));
          s \<leftarrow> (case rq_zone x of None \<Rightarrow> Some s | Some z \<Rightarrow> zn_dec z s);
          Some (ret, s)
        }
      | DELETE_SERVER \<Rightarrow> Some (OB_ERR_UNEXPECTED, s))"

text \<open>The results are ignored; the oldest request is at the end of the list.\<close>

fun process_all :: "'ip runner \<Rightarrow> 'ip env \<Rightarrow> nat \<Rightarrow> 'ip request list \<Rightarrow> 'ip cmgr \<Rightarrow> 'ip cmgr option" where
  "process_all run E p [] s = Some s"
| "process_all run E p (x # xs) s = do { (_, s) \<leftarrow> process run E p x s; process_all run E p xs s }"

text \<open>The fuel is the depth of the recursion.\<close>

fun run_todo_list :: "nat \<Rightarrow> 'ip runner" where
  "run_todo_list 0 E p s = None"
| "run_todo_list (Suc n) E p s =
     (if p \<ge> MT_HASHTABLE_PARTITIONS then Some (OB_INVALID_ARGUMENT, s)
      else do {
        s \<leftarrow> process_all (run_todo_list n) E p (rev (todo s ! p)) (s\<lparr>todo := (todo s)[p := []]\<rparr>);
        Some (OB_SUCCESS, s)
      })"

section \<open>The life of the manager\<close>

definition cm_new :: "addr option list \<Rightarrow> configs \<Rightarrow> 'ip cmgr" where
  "cm_new addrs C = \<lparr>cm_inited = False, base_servers_added = False, congestion_enabled = True, rw_held = False, zones = [],
     todo = replicate MT_HASHTABLE_PARTITIONS [], cm_config = None, table = [], cfgs = C, zns = Map.empty,
     ents = Map.empty, fresh = addrs\<rparr>"

definition cm_init :: "(bool \<times> bool \<times> bool) list \<Rightarrow> int \<Rightarrow> 'ip cmgr \<Rightarrow> ob_err \<times> 'ip cmgr" where
  "cm_init outcomes table_size s =
     (if cm_inited s then (OB_INIT_TWICE, s)
      else if table_size \<le> 0 then (OB_INVALID_ARGUMENT, s)
      else case mt_init False outcomes table_size [] of
        (ret, _, T) \<Rightarrow> if ret \<noteq> OB_SUCCESS then (ret, s\<lparr>table := T\<rparr>)
          else (OB_SUCCESS, s\<lparr>cm_inited := True, table := T, todo := replicate MT_HASHTABLE_PARTITIONS []\<rparr>))"

fun drop_zones :: "addr list \<Rightarrow> 'ip cmgr \<Rightarrow> 'ip cmgr option" where
  "drop_zones [] s = Some s"
| "drop_zones (z # zs) s = do { s \<leftarrow> zn_dec z s; drop_zones zs s }"

definition cm_destroy :: "'ip runner \<Rightarrow> 'ip env \<Rightarrow> 'ip cmgr \<Rightarrow> 'ip cmgr option" where
  "cm_destroy run E s = do {
     (_, s) \<leftarrow> for_parts (\<lambda>p s.
         if part_free E p then do {
           (_, s) \<leftarrow> run E p s;
           s \<leftarrow> clear_part p s;
           Some (OB_SUCCESS, s)
         } else Some (OB_SUCCESS, s)) [0..<MT_HASHTABLE_PARTITIONS] s;
     s \<leftarrow> (case cm_config s of None \<Rightarrow> Some s | Some c \<Rightarrow> map_option (\<lambda>s. s\<lparr>cm_config := None\<rparr>) (cfg_dec c s));
     s \<leftarrow> drop_zones (zones s) s;
     Some (s\<lparr>zones := [], cm_inited := False, base_servers_added := False, congestion_enabled := True\<rparr>)
   }"

end
