(* ===== verification/MTHashIter.thy ===== *)
theory MTHashIter
  imports MTHashTable
begin

text \<open>
  Iterating over a partition of \<open>src/src/obproxy/obutils/ob_mt_hashtable.h\<close>: what an iterator has still to
  visit (\<open>rest\<close>), what the iterator operations do to that, and the loops clients make of them.
\<close>

text \<open>The entries that an iterator has still to visit.\<close>

definition rest :: "('k, 'v) imt \<Rightarrow> iter \<Rightarrow> ('k, 'v) hentry list" where
  "rest t s =
     (case (ppcur s, buckets t) of
        (Some (b, i), Some bs) \<Rightarrow> drop i (bs ! b) @ concat (drop (Suc b) bs)
      | _ \<Rightarrow> [])"

definition placed_at :: "('k, 'v) imt \<Rightarrow> iter \<Rightarrow> nat \<Rightarrow> nat \<Rightarrow> bool" where
  "placed_at t s b i = (\<exists>bs. buckets t = Some bs \<and> bucket_num t = int (length bs) \<and> b < length bs \<and> i \<le> length (bs ! b)
     \<and> ppcur s = Some (b, i) \<and> cur_buck s = int b)"

text \<open>The iterator stands on an entry.\<close>

definition stands :: "('k, 'v) imt \<Rightarrow> iter \<Rightarrow> bool" where
  "stands t s = (\<exists>b i bs. placed_at t s b i \<and> buckets t = Some bs \<and> i < length (bs ! b))"

definition filled :: "('k, 'v) imt \<Rightarrow> bool" where
  "filled t = (\<forall>c \<in> set (elems t). edata c \<noteq> None)"

definition head_data :: "('k, 'v) hentry list \<Rightarrow> 'v option" where
  "head_data cs = (case cs of [] \<Rightarrow> None | c # _ \<Rightarrow> edata c)"

lemma head_data_simps [simp]: "head_data [] = None" "head_data (c # cs) = edata c"
  by (simp_all add: head_data_def)

lemma deref_at:
  assumes "placed_at t s b i" and "buckets t = Some bs"
  shows "deref t s = Some (if i < length (bs ! b) then Some (bs ! b ! i) else None)"
  using assms by (auto simp: placed_at_def deref_def bucket_at_def)

lemma imt_first_at:
  assumes "buckets t = Some bs" and "bucket_num t = int (length bs)" and "b < length bs"
  shows "\<exists>s'. imt_first t (int b) s = Some (head_data (bs ! b), s') \<and> placed_at t s' b 0"
proof -
  let ?s = "s\<lparr>cur_buck := int b, ppcur := Some (b, 0)\<rparr>"
  have p: "placed_at t ?s b 0" using assms by (simp add: placed_at_def)
  have "bucket_at t (int b) = Some (bs ! b)" using assms by (simp add: bucket_at_def)
  then have "imt_first t (int b) s = Some (head_data (bs ! b), ?s)"
    using deref_at [OF p assms(1)] assms(2,3) by (cases "bs ! b") (simp_all add: imt_first_def data_of_def)
  with p show ?thesis by blast
qed

lemma scan_at:
  assumes "buckets t = Some bs" and "bucket_num t = int (length bs)" and "filled t"
  shows "i + n = length bs \<Longrightarrow> \<exists>s'. scan t n (int i) s = Some (head_data (concat (drop i bs)), s')
    \<and> (if concat (drop i bs) \<noteq> [] then stands t s' \<and> rest t s' = concat (drop i bs)
       else if n = 0 then s' = s else rest t s' = [] \<and> (\<exists>b i. placed_at t s' b i))"
proof (induction n arbitrary: i s)
  case 0
  then show ?case by simp
next
  case (Suc n)
  then have i: "i < length bs" by simp
  then have d: "drop i bs = bs ! i # drop (Suc i) bs" by (simp add: Cons_nth_drop_Suc)
  from imt_first_at [OF assms(1,2) i, of s] obtain s1 where s1: "imt_first t (int i) s = Some (head_data (bs ! i), s1)"
    "placed_at t s1 i 0" by blast
  have r: "rest t s1 = concat (drop i bs)" using s1(2) assms(1) by (auto simp: rest_def placed_at_def d)
  show ?case
  proof (cases "bs ! i")
    case Nil
    from Suc.IH [of "Suc i" s1] Suc.prems obtain s' where s': "scan t n (int (Suc i)) s1 = Some (head_data (concat (drop (Suc i) bs)), s')"
      "if concat (drop (Suc i) bs) \<noteq> [] then stands t s' \<and> rest t s' = concat (drop (Suc i) bs)
       else if n = 0 then s' = s1 else rest t s' = [] \<and> (\<exists>b i. placed_at t s' b i)" by auto
    have "scan t (Suc n) (int i) s = Some (head_data (concat (drop i bs)), s')"
      using s1(1) s'(1) Nil d by (simp add: add.commute)
    with s'(2) s1(2) r Nil d show ?thesis by (auto split: if_splits)
  next
    case (Cons c cs)
    have "c \<in> set (elems t)" using Cons i assms(1) in_concat [OF i, of c] by (simp add: elems_def del: set_concat)
    then have "edata c \<noteq> None" using assms(3) by (simp add: filled_def)
    moreover have "stands t s1" unfolding stands_def using s1(2) assms(1) Cons by (intro exI [of _ i] exI [of _ 0] exI [of _ bs]) simp
    ultimately show ?thesis using s1(1) r Cons d by simp
  qed
qed

text \<open>The first entry of a partition, the one the iterator is on, and the next one.\<close>

lemma mt_first_rest:
  assumes "part_at T p = Some t" and "imt_ok t" and "filled t"
  shows "\<exists>s'. mt_first T p s = Some (head_data (elems t), s') \<and> rest t s' = elems t \<and> (elems t \<noteq> [] \<longrightarrow> stands t s')"
proof -
  from assms(2) obtain bs where bs: "buckets t = Some bs" "bucket_num t = int (length bs)" "0 < length bs" by (auto simp: imt_ok_def)
  then have e: "elems t = concat bs" by (simp add: elems_def)
  from scan_at [OF bs(1,2) assms(3), of 0 "length bs" s] bs(3) obtain s' where
    "scan t (length bs) 0 s = Some (head_data (concat bs), s')" "rest t s' = concat bs" "concat bs \<noteq> [] \<longrightarrow> stands t s'"
    by (auto split: if_splits)
  then show ?thesis using assms(1) bs(2) e by (auto simp: mt_first_def)
qed

lemma scan_rest:
  assumes "placed_at t s b (length (bs ! b))" and "buckets t = Some bs" and "filled t"
  shows "\<exists>s'. scan t (nat (bucket_num t - (cur_buck s + 1))) (cur_buck s + 1) s = Some (head_data (rest t s), s')
    \<and> rest t s' = rest t s \<and> (rest t s \<noteq> [] \<longrightarrow> stands t s')"
proof -
  have b: "bucket_num t = int (length bs)" "b < length bs" "cur_buck s = int b" "ppcur s = Some (b, length (bs ! b))"
    using assms(1,2) by (auto simp: placed_at_def)
  have r: "rest t s = concat (drop (Suc b) bs)" using b(4) assms(2) by (simp add: rest_def)
  have n: "cur_buck s + 1 = int (Suc b)" "nat (bucket_num t - int (Suc b)) = length bs - Suc b" using b(1-3) by simp_all
  have m: "Suc b + (length bs - Suc b) = length bs" using b(2) by simp
  from scan_at [OF assms(2) b(1) assms(3) m, of s] obtain s' where s':
    "scan t (length bs - Suc b) (int (Suc b)) s = Some (head_data (concat (drop (Suc b) bs)), s')"
    "if concat (drop (Suc b) bs) \<noteq> [] then stands t s' \<and> rest t s' = concat (drop (Suc b) bs)
     else if length bs - Suc b = 0 then s' = s else rest t s' = [] \<and> (\<exists>b i. placed_at t s' b i)" by blast
  from s'(2) have "rest t s' = rest t s \<and> (rest t s \<noteq> [] \<longrightarrow> stands t s')"
    using r by (cases "concat (drop (Suc b) bs) = []"; cases "length bs - Suc b = 0")
      (simp_all only: if_True if_False not_True_eq_False not_False_eq_True simp_thms)
  with s'(1) show ?thesis unfolding n r by blast
qed

lemma mt_cur_rest:
  assumes "part_at T p = Some t" and "placed_at t s b i" and "filled t"
  shows "\<exists>s'. mt_cur T p s = Some (head_data (rest t s), s') \<and> rest t s' = rest t s \<and> (rest t s \<noteq> [] \<longrightarrow> stands t s')"
proof -
  obtain bs where bs: "buckets t = Some bs" "i \<le> length (bs ! b)" "b < length bs" "ppcur s = Some (b, i)"
    using assms(2) by (auto simp: placed_at_def)
  show ?thesis
  proof (cases "i < length (bs ! b)")
    case True
    let ?c = "bs ! b ! i"
    have "?c \<in> set (elems t)" using True bs(1,3) in_concat [OF bs(3), of ?c] by (simp add: elems_def del: set_concat)
    then have "edata ?c \<noteq> None" using assms(3) by (simp add: filled_def)
    moreover have "rest t s = ?c # drop (Suc i) (bs ! b) @ concat (drop (Suc b) bs)"
      using bs(1,4) True by (simp add: rest_def Cons_nth_drop_Suc [symmetric])
    moreover have "stands t s" using assms(2) bs(1) True by (auto simp: stands_def)
    ultimately show ?thesis
      using assms(1) deref_at [OF assms(2) bs(1)] True by (auto simp: mt_cur_def imt_cur_def data_of_def)
  next
    case False
    then have i: "i = length (bs ! b)" using bs(2) by simp
    from scan_rest [OF assms(2) [unfolded i] bs(1) assms(3)] deref_at [OF assms(2) bs(1)] assms(1) False
    show ?thesis by (auto simp: mt_cur_def imt_cur_def mt_next_def imt_next_def data_of_def)
  qed
qed

lemma mt_next_rest:
  assumes "part_at T p = Some t" and "stands t s" and "filled t"
  shows "\<exists>s'. mt_next T p s = Some (head_data (tl (rest t s)), s') \<and> rest t s' = tl (rest t s)
    \<and> (tl (rest t s) \<noteq> [] \<longrightarrow> stands t s')"
proof -
  obtain b i bs where at: "placed_at t s b i" "buckets t = Some bs" "i < length (bs ! b)" using assms(2) by (auto simp: stands_def)
  let ?s = "s\<lparr>ppcur := Some (b, Suc i)\<rparr>"
  have pp: "ppcur s = Some (b, i)" and b: "b < length bs" using at(1,2) by (auto simp: placed_at_def)
  have at': "placed_at t ?s b (Suc i)" using at by (auto simp: placed_at_def)
  have r: "rest t ?s = tl (rest t s)" using at(2,3) pp by (simp add: rest_def Cons_nth_drop_Suc [symmetric])
  have n: "imt_next t s = Some (data_of (if Suc i < length (bs ! b) then Some (bs ! b ! Suc i) else None), ?s)"
    using deref_at [OF at(1,2)] deref_at [OF at' at(2)] at(3) pp by (simp add: imt_next_def)
  show ?thesis
  proof (cases "Suc i < length (bs ! b)")
    case True
    let ?c = "bs ! b ! Suc i"
    have "?c \<in> set (elems t)" using True at(2) in_concat [OF b, of ?c] by (simp add: elems_def del: set_concat)
    then have "edata ?c \<noteq> None" using assms(3) by (simp add: filled_def)
    moreover have "rest t ?s = ?c # drop (Suc (Suc i)) (bs ! b) @ concat (drop (Suc b) bs)"
      using at(2) True by (simp add: rest_def Cons_nth_drop_Suc [symmetric])
    moreover have "stands t ?s" using at' at(2) True by (auto simp: stands_def)
    ultimately show ?thesis using assms(1) n True r by (auto simp: mt_next_def data_of_def)
  next
    case False
    then have i: "Suc i = length (bs ! b)" using at(3) by simp
    have "placed_at t ?s b (length (bs ! b))" using at' unfolding i .
    from scan_rest [OF this at(2) assms(3)] obtain s' where s':
      "scan t (nat (bucket_num t - (cur_buck ?s + 1))) (cur_buck ?s + 1) ?s = Some (head_data (rest t ?s), s')"
      "rest t s' = rest t ?s" "rest t ?s \<noteq> [] \<longrightarrow> stands t s'" by blast
    have "mt_next T p s = Some (head_data (rest t ?s), s')"
      using assms(1) n False s'(1) by (simp add: mt_next_def data_of_def)
    with s'(2,3) show ?thesis unfolding r by blast
  qed
qed

text \<open>Removing the entry the iterator is on: the iterator is then at what followed.\<close>

lemma mt_remove_rest:
  assumes "part_at T p = Some t" and "imt_ok t" and "stands t s"
  shows "\<exists>t' c. mt_remove_at T p s = Some (edata c, T[p := t']) \<and> rest t s = c # rest t' s \<and> imt_ok t' \<and> (\<exists>b i. placed_at t' s b i)
    \<and> mset (elems t) = add_mset c (mset (elems t')) \<and> tab t' = (tab t)(ident c := None) \<and> c \<in> set (elems t)
    \<and> bucket_num t' = bucket_num t \<and> cur_size t' = cur_size t - 1"
proof -
  obtain b i bs where at: "placed_at t s b i" "buckets t = Some bs" "i < length (bs ! b)" using assms(3) by (auto simp: stands_def)
  have pp: "ppcur s = Some (b, i)" and b: "b < length bs" using at(1,2) by (auto simp: placed_at_def)
  from assms(2) at(2) have ok: "bucket_num t = int (length bs)" "int (length bs) < 2 ^ 63" "in_place (bucket_num t) bs"
    "distinct (map ident (concat bs))" "cur_size t = int (length (concat bs))" by (auto simp: imt_ok_def)
  let ?c = "bs ! b ! i" and ?cs = "take i (bs ! b) @ drop (Suc i) (bs ! b)"
  let ?t = "(set_bucket t (int b) ?cs)\<lparr>cur_size := cur_size t - 1\<rparr>"
  have split: "bs ! b = take i (bs ! b) @ ?c # drop (Suc i) (bs ! b)" using at(3) by (rule id_take_nth_drop)
  have m: "add_mset ?c (mset (concat (bs[b := ?cs]))) = mset (concat bs)"
    using mset_concat_upd [OF b, of ?cs] arg_cong [OF split, of mset] by simp
  then have d: "distinct (map ident (?c # concat (bs[b := ?cs])))"
    using ok(4) distinct_ident_mset [of "?c # concat (bs[b := ?cs])" "concat bs"] by simp
  have n: "cur_size t - 1 = int (length (concat (bs[b := ?cs])))" using arg_cong [OF m, of size] ok(5) by simp
  have "\<forall>c \<in> set ?cs. bucket_id (ehash c) (bucket_num t) = Some (int b)"
    using ok(3) b unfolding in_place_def by (auto dest: in_set_takeD in_set_dropD)
  note sb = set_bucket_ok [OF at(2) ok(1,2) b ok(3) this _ n]
  have ok': "imt_ok ?t" and e: "elems ?t = concat (bs[b := ?cs])" using sb d by simp_all
  have e0: "mset (elems t) = add_mset ?c (mset (elems ?t))" using m at(2) unfolding e by (simp add: elems_def)
  have out: "ident ?c \<notin> ident ` set (elems ?t)" using d e by auto
  have c: "?c \<in> set (elems t)" using at(2,3) in_concat [OF b, of ?c] by (simp add: elems_def del: set_concat)
  have "tab ?t = (tab t)(ident ?c := None)"
  proof
    fix y show "tab ?t y = ((tab t)(ident ?c := None)) y"
    proof (cases "y = ident ?c")
      case True
      with out show ?thesis by (simp add: tab_none)
    next
      case False
      have "set (elems t) = insert ?c (set (elems ?t))" using e0 by (metis set_mset_mset set_mset_add_mset_insert)
      then have "tab t y = Some v \<longleftrightarrow> tab ?t y = Some v" for v
        unfolding tab_iff [OF assms(2)] tab_iff [OF ok'] using False by auto
      then have "tab t y = tab ?t y" by (metis not_Some_eq)
      with False show ?thesis by simp
    qed
  qed
  moreover have "mt_remove_at T p s = Some (edata ?c, T[p := ?t])"
    using assms(1) deref_at [OF at(1,2)] at(2,3) b pp by (simp add: mt_remove_at_def imt_remove_at_def bucket_at_def)
  moreover have "placed_at ?t s b i" using at b by (auto simp: placed_at_def set_bucket_def)
  moreover have "rest t s = ?c # rest ?t s"
    using at(2,3) b pp by (simp add: rest_def set_bucket_def Cons_nth_drop_Suc [symmetric] min_def)
  moreover have "bucket_num ?t = bucket_num t" "cur_size ?t = cur_size t - 1" by (simp_all add: set_bucket_def)
  ultimately show ?thesis using ok' e0 c by blast
qed

section \<open>Loops over a partition\<close>

text \<open>The loop of a reader of a partition, from the entry \<open>cur\<close> on, and the loop that empties a partition,
  as \<open>get_congest_list\<close> and \<open>remove_all_records\<close> of \<open>src/src/obproxy/obutils/ob_congestion_manager.cpp\<close>
  have them; the results are the pointers the loops pass on.  A call of the loop takes fuel.\<close>

fun visit_loop :: "nat \<Rightarrow> ('k, 'v) mt \<Rightarrow> nat \<Rightarrow> 'v option \<Rightarrow> iter \<Rightarrow> 'v list option" where
  "visit_loop n T p None s = Some []"
| "visit_loop 0 T p (Some v) s = None"
| "visit_loop (Suc n) T p (Some v) s = do {
     (cur, s) \<leftarrow> mt_next T p s;
     vs \<leftarrow> visit_loop n T p cur s;
     Some (v # vs)
   }"

definition visit_all :: "nat \<Rightarrow> ('k, 'v) mt \<Rightarrow> nat \<Rightarrow> 'v list option" where
  "visit_all n T p = do { (cur, s) \<leftarrow> mt_first T p new_iter; visit_loop n T p cur s }"

fun empty_loop :: "nat \<Rightarrow> ('k, 'v) mt \<Rightarrow> nat \<Rightarrow> 'v option \<Rightarrow> iter \<Rightarrow> ('v list \<times> ('k, 'v) mt) option" where
  "empty_loop n T p None s = Some ([], T)"
| "empty_loop 0 T p (Some v) s = None"
| "empty_loop (Suc n) T p (Some v) s = do {
     (_, T) \<leftarrow> mt_remove_at T p s;
     (cur, s) \<leftarrow> mt_cur T p s;
     (vs, T) \<leftarrow> empty_loop n T p cur s;
     Some (v # vs, T)
   }"

definition empty_all :: "nat \<Rightarrow> ('k, 'v) mt \<Rightarrow> nat \<Rightarrow> ('v list \<times> ('k, 'v) mt) option" where
  "empty_all n T p = do { (cur, s) \<leftarrow> mt_first T p new_iter; empty_loop n T p cur s }"

lemma head_data_cons:
  assumes "filled t" and "stands t s"
  shows "\<exists>v c cs. rest t s = c # cs \<and> edata c = Some v"
proof -
  obtain b i bs where at: "placed_at t s b i" "buckets t = Some bs" "i < length (bs ! b)" using assms(2) by (auto simp: stands_def)
  then have b: "b < length bs" and pp: "ppcur s = Some (b, i)" by (auto simp: placed_at_def)
  have "bs ! b ! i \<in> set (elems t)" using at(2,3) in_concat [OF b, of "bs ! b ! i"] by (simp add: elems_def del: set_concat)
  then obtain v where "edata (bs ! b ! i) = Some v" using assms(1) by (auto simp: filled_def)
  then show ?thesis using at(2,3) pp by (simp add: rest_def Cons_nth_drop_Suc [symmetric])
qed

lemma rest_filled: "filled t \<Longrightarrow> set cs \<subseteq> set (elems t) \<Longrightarrow> cs \<noteq> [] \<Longrightarrow> head_data cs \<noteq> None"
  by (cases cs) (auto simp: filled_def)

lemma visit_rest:
  assumes "part_at T p = Some t" and "filled t"
  shows "rest t s \<noteq> [] \<longrightarrow> stands t s \<Longrightarrow> length (rest t s) \<le> n \<Longrightarrow>
    visit_loop n T p (head_data (rest t s)) s = Some (map (the \<circ> edata) (rest t s))"
proof (induction n arbitrary: s)
  case 0
  then show ?case by simp
next
  case (Suc n)
  show ?case
  proof (cases "rest t s = []")
    case True
    then show ?thesis by simp
  next
    case False
    with Suc.prems(1) have st: "stands t s" by simp
    obtain v c cs where c: "rest t s = c # cs" "edata c = Some v" using head_data_cons [OF assms(2) st] by blast
    obtain s' where s': "mt_next T p s = Some (head_data cs, s')" "rest t s' = cs" "cs \<noteq> [] \<longrightarrow> stands t s'"
      using mt_next_rest [OF assms(1) st assms(2)] c(1) by auto
    have "visit_loop n T p (head_data (rest t s')) s' = Some (map (the \<circ> edata) (rest t s'))"
      using Suc.IH [of s'] s'(2,3) Suc.prems(2) c(1) by simp
    then show ?thesis using s' c by simp
  qed
qed

lemma visit_all_elems:
  assumes "part_at T p = Some t" and "imt_ok t" and "filled t" and "length (elems t) \<le> n"
  shows "visit_all n T p = Some (map (the \<circ> edata) (elems t))"
proof -
  from mt_first_rest [OF assms(1-3), of new_iter] obtain s where s:
    "mt_first T p new_iter = Some (head_data (elems t), s)" "rest t s = elems t" "elems t \<noteq> [] \<longrightarrow> stands t s" by blast
  with visit_rest [OF assms(1,3), of s n] assms(4) show ?thesis by (simp add: visit_all_def)
qed

lemma empty_rest:
  assumes "p < length T"
  shows "imt_ok (T ! p) \<Longrightarrow> filled (T ! p) \<Longrightarrow> rest (T ! p) s \<noteq> [] \<longrightarrow> stands (T ! p) s \<Longrightarrow>
    mset (rest (T ! p) s) = mset (elems (T ! p)) \<Longrightarrow> length (rest (T ! p) s) \<le> n \<Longrightarrow>
    \<exists>t'. empty_loop n T p (head_data (rest (T ! p) s)) s = Some (map (the \<circ> edata) (rest (T ! p) s), T[p := t'])
      \<and> imt_ok t' \<and> elems t' = []"
  using assms
proof (induction n arbitrary: T s)
  case 0
  then have "rest (T ! p) s = []" by simp
  with 0 show ?case by (intro exI [of _ "T ! p"]) simp
next
  case (Suc n)
  let ?t = "T ! p"
  have pa: "part_at T p = Some ?t" using Suc.prems(6) by (simp add: part_at_def)
  show ?case
  proof (cases "rest ?t s = []")
    case True
    with Suc.prems show ?thesis by (intro exI [of _ ?t]) simp
  next
    case False
    with Suc.prems(3) have st: "stands ?t s" by simp
    obtain v c cs where c: "rest ?t s = c # cs" "edata c = Some v" using head_data_cons [OF Suc.prems(2) st] by blast
    from mt_remove_rest [OF pa Suc.prems(1) st] obtain t1 c1 b i where t1:
      "mt_remove_at T p s = Some (edata c1, T[p := t1])" "rest ?t s = c1 # rest t1 s" "imt_ok t1" "placed_at t1 s b i"
      "mset (elems ?t) = add_mset c1 (mset (elems t1))" by blast
    have cs: "rest t1 s = cs" "c1 = c" using t1(2) c(1) by simp_all
    have m: "mset cs = mset (elems t1)" using Suc.prems(4) t1(5) c(1) cs by simp
    have f: "filled t1" using Suc.prems(2) t1(5) by (metis filled_def set_mset_mset set_mset_add_mset_insert insert_iff)
    let ?T = "T[p := t1]"
    have pa1: "part_at ?T p = Some t1" "?T ! p = t1" "p < length ?T" using Suc.prems(6) by (simp_all add: part_at_def)
    from mt_cur_rest [OF pa1(1) t1(4) f] obtain s' where s': "mt_cur ?T p s = Some (head_data cs, s')" "rest t1 s' = cs"
      "cs \<noteq> [] \<longrightarrow> stands t1 s'" using cs by auto
    have "length cs \<le> n" using Suc.prems(5) c(1) by simp
    with Suc.IH [of ?T s'] pa1(2,3) t1(3) f s'(2,3) m have
      "\<exists>t'. empty_loop n ?T p (head_data cs) s' = Some (map (the \<circ> edata) cs, ?T[p := t']) \<and> imt_ok t' \<and> elems t' = []"
      by (simp del: list_update_overwrite add: comp_def)
    then obtain t' where t': "empty_loop n ?T p (head_data cs) s' = Some (map (the \<circ> edata) cs, ?T[p := t'])" "imt_ok t'" "elems t' = []"
      by blast
    then show ?thesis using c t1(1) s'(1) by auto
  qed
qed

lemma empty_all_elems:
  assumes "p < length T" and "imt_ok (T ! p)" and "filled (T ! p)" and "length (elems (T ! p)) \<le> n"
  shows "\<exists>t'. empty_all n T p = Some (map (the \<circ> edata) (elems (T ! p)), T[p := t']) \<and> imt_ok t' \<and> elems t' = []"
proof -
  have pa: "part_at T p = Some (T ! p)" using assms(1) by (simp add: part_at_def)
  from mt_first_rest [OF pa assms(2,3), of new_iter] obtain s where s:
    "mt_first T p new_iter = Some (head_data (elems (T ! p)), s)" "rest (T ! p) s = elems (T ! p)"
    "elems (T ! p) \<noteq> [] \<longrightarrow> stands (T ! p) s" by blast
  with empty_rest [OF assms(1-3), of s n] assms(4) show ?thesis by (simp add: empty_all_def)
qed

end
