(* ===== verification/CongestionSafety.thy ===== *)
theory CongestionSafety
  imports CongestionManager MTHashIter
begin

text \<open>
  The references of the congestion manager (\<open>CongestionManager\<close>) are counted right: every operation ends
  with a result, so it touches no freed object, and leaves every reference count at least as large as the
  number of references the manager, its table, its to-do lists and its entries hold, together with those that
  others are known to hold.
\<close>

section \<open>Reference counts and holders\<close>

text \<open>\<open>held a\<close> references to \<open>a\<close> are known, and counted.\<close>

definition backed :: "nat \<Rightarrow> 'a refcnt_scheme option \<Rightarrow> bool" where
  "backed n p = (case p of None \<Rightarrow> n = 0 | Some c \<Rightarrow> int n \<le> ref_count c)"

definition covered :: "(addr \<Rightarrow> nat) \<Rightarrow> (addr \<Rightarrow> 'a refcnt_scheme option) \<Rightarrow> bool" where
  "covered held H = (\<forall>a. backed (held a) (H a))"

lemma backed_simps [simp]: "backed n None = (n = 0)" "backed n (Some c) = (int n \<le> ref_count c)"
  by (simp_all add: backed_def)

lemma backed_mono: "backed n p \<Longrightarrow> m \<le> n \<Longrightarrow> backed m p"
  by (cases p) auto

lemma coveredD: "covered held H \<Longrightarrow> 0 < held a \<Longrightarrow> \<exists>c. H a = Some c \<and> int (held a) \<le> ref_count c"
  unfolding covered_def by (drule spec [of _ a]) (cases "H a", simp_all)

lemma covered_mono: "covered held H \<Longrightarrow> (\<And>a. held' a \<le> held a) \<Longrightarrow> covered held' H"
  unfolding covered_def by (blast intro: backed_mono)

lemma covered_fun_upd: "covered held H \<Longrightarrow> backed n p \<Longrightarrow> covered (held(a := n)) (H(a := p))"
  unfolding covered_def by simp

lemma covered_inc:
  assumes "covered held H" and "H a \<noteq> None"
  shows "\<exists>c. H a = Some c \<and> inc_ref H a = Some (H(a \<mapsto> c\<lparr>ref_count := ref_count c + 1\<rparr>))
    \<and> covered (held(a := Suc (held a))) (H(a \<mapsto> c\<lparr>ref_count := ref_count c + 1\<rparr>))"
proof -
  from assms(2) obtain c where c: "H a = Some c" by blast
  with assms(1) have "backed (held a) (Some c)" unfolding covered_def by metis
  then have "backed (Suc (held a)) (Some (c\<lparr>ref_count := ref_count c + 1\<rparr>))" by simp
  from covered_fun_upd [OF assms(1) this] c show ?thesis by (simp add: inc_ref_def)
qed

lemma covered_dec:
  assumes "covered held H" and "held a = Suc k"
  shows "\<exists>c. H a = Some c \<and> dec_ref H a = Some (H(a := dropped c)) \<and> covered (held(a := k)) (H(a := dropped c))"
proof -
  from coveredD [OF assms(1), of a] assms(2) obtain c where c: "H a = Some c" "int (held a) \<le> ref_count c" by auto
  then have "backed k (dropped c)" using assms(2) by (simp add: dropped_def)
  from covered_fun_upd [OF assms(1) this] c(1) dec_ref_dropped [where H = H and a = a and c = c, OF c(1)] show ?thesis by blast
qed

lemma covered_new:
  assumes "covered held H" and "H a = None" and "ref_count c = 0"
  shows "covered held (H(a \<mapsto> c))"
proof -
  have "held a = 0" using assms(1,2) unfolding covered_def by (metis backed_simps(1))
  then have "backed (held a) (Some c)" using assms(3) by simp
  from covered_fun_upd [OF assms(1) this, of a] show ?thesis by simp
qed

lemma covered_upd:
  assumes "covered held H" and "H a = Some c" and "ref_count d = ref_count c"
  shows "covered held (H(a \<mapsto> d))"
proof -
  have "backed (held a) (Some d)" using assms unfolding covered_def by (metis backed_simps(2))
  from covered_fun_upd [OF assms(1) this, of a] show ?thesis by simp
qed

text \<open>How many values of a map have a property.\<close>

definition holders :: "('v \<Rightarrow> bool) \<Rightarrow> ('k \<Rightarrow> 'v option) \<Rightarrow> nat" where
  "holders P m = card {x \<in> dom m. P (the (m x))}"

definition wt :: "('v \<Rightarrow> bool) \<Rightarrow> 'v option \<Rightarrow> nat" where
  "wt P v = (case v of None \<Rightarrow> 0 | Some u \<Rightarrow> if P u then 1 else 0)"

lemma wt_simps [simp]: "wt P None = 0" "wt P (Some u) = (if P u then 1 else 0)"
  by (simp_all add: wt_def)

lemma holders_split: "finite (dom m) \<Longrightarrow> holders P m = card {y \<in> dom m - {x}. P (the (m y))} + wt P (m x)"
proof -
  assume "finite (dom m)"
  then have f: "finite {y \<in> dom m - {x}. P (the (m y))}" by simp
  show ?thesis
  proof (cases "wt P (m x) = 0")
    case True
    then have "{y \<in> dom m. P (the (m y))} = {y \<in> dom m - {x}. P (the (m y))}"
      by (auto split: option.splits if_splits simp: wt_def)
    with True show ?thesis by (simp add: holders_def)
  next
    case False
    then have "{y \<in> dom m. P (the (m y))} = insert x {y \<in> dom m - {x}. P (the (m y))}" and "wt P (m x) = 1"
      by (auto split: option.splits if_splits simp: wt_def)
    with f show ?thesis by (simp add: holders_def)
  qed
qed

lemma holders_upd: "finite (dom m) \<Longrightarrow> holders P (m(x := v)) + wt P (m x) = holders P m + wt P v"
proof -
  assume f: "finite (dom m)"
  then have f': "finite (dom (m(x := v)))" by (simp add: dom_fun_upd)
  have "{y \<in> dom (m(x := v)) - {x}. P (the ((m(x := v)) y))} = {y \<in> dom m - {x}. P (the (m y))}" by auto
  then show ?thesis using holders_split [OF f', of P x] holders_split [OF f, of P x] by simp
qed

lemma holders_pos: "finite (dom m) \<Longrightarrow> m x = Some u \<Longrightarrow> P u \<Longrightarrow> 0 < holders P m"
  using holders_split [of m P x] by simp

text \<open>How many requests have a property.\<close>

definition reqs :: "('a \<Rightarrow> bool) \<Rightarrow> 'a list \<Rightarrow> nat" where
  "reqs P l = length (filter P l)"

lemma reqs_simps [simp]: "reqs P [] = 0" "reqs P (x # l) = (if P x then 1 else 0) + reqs P l" "reqs P (rev l) = reqs P l"
  by (simp_all add: reqs_def flip: rev_filter)

lemma reqs_concat_upd:
  assumes "j < length xss"
  shows "reqs P (concat (xss[j := ys])) + reqs P (xss ! j) = reqs P (concat xss) + reqs P ys"
proof -
  have r: "reqs P l = size (filter_mset P (mset l))" for l :: "'a list"
    by (simp add: reqs_def flip: mset_filter)
  show ?thesis using arg_cong [OF mset_concat_upd [OF assms, of ys], of "\<lambda>M. size (filter_mset P M)"]
    unfolding r by (simp only: filter_union_mset size_union)
qed

section \<open>The table as a map\<close>

text \<open>Every entry is in the partition of its hash.\<close>

definition homed :: "('k, 'v) mt \<Rightarrow> bool" where
  "homed T = (\<forall>p < length T. \<forall>x. tab (T ! p) x \<noteq> None \<longrightarrow> part_num (fst x) = p)"

lemma homedD: "homed T \<Longrightarrow> i < length T \<Longrightarrow> tab (T ! i) y \<noteq> None \<Longrightarrow> part_num (fst y) = i"
  unfolding homed_def by blast

lemma homed_upd:
  assumes "homed T" and "tab t = (tab (T ! p))(x := d)" and "p = part_num (fst x)"
  shows "homed (T[p := t])"
  unfolding homed_def
proof (intro allI impI)
  fix i y assume y: "i < length (T[p := t])" "tab (T[p := t] ! i) y \<noteq> None"
  show "part_num (fst y) = i"
  proof (cases "i = p \<and> y = x")
    case True
    with assms(3) show ?thesis by simp
  next
    case False
    with y assms(2) have "tab (T ! i) y \<noteq> None" by (cases "i = p") auto
    with homedD [OF assms(1)] y(1) show ?thesis by simp
  qed
qed

lemma finite_tab: "finite (dom (tab t))"
  unfolding tab_def by (rule finite_dom_map_of)

lemma finite_content: "mt_fits n T \<Longrightarrow> finite (dom (mt_content T))"
proof -
  assume f: "mt_fits n T"
  have "dom (mt_content T) \<subseteq> (\<Union>t \<in> set T. dom (tab t))"
  proof
    fix x assume "x \<in> dom (mt_content T)"
    moreover have "part_num (fst x) < length T" by (rule mt_part(5) [OF f])
    ultimately show "x \<in> (\<Union>t \<in> set T. dom (tab t))"
      by (intro UN_I [of "T ! part_num (fst x)"]) (auto simp: mt_content_def)
  qed
  then show ?thesis using finite_tab by (meson finite_UN_I finite_set finite_subset)
qed

lemma mt_find: "mt_fits n T \<Longrightarrow> mt_lookup h k T = Some (Option.bind (mt_content T (h, k)) id)"
  using mt.find_spec [of n T "(h, k)"] by simp

lemma mt_take:
  assumes "mt_fits n T" and "homed T"
  shows "\<exists>T'. mt_remove h k T = Some (Option.bind (mt_content T (h, k)) id, T') \<and> mt_fits n T' \<and> homed T'
    \<and> mt_content T' = (mt_content T)((h, k) := None)"
proof -
  let ?t = "T ! part_num h"
  note p = mt_part [OF assms(1), of h]
  from remove_tab [OF p(2), of h k] obtain t' where t': "imt_remove h k ?t = Some (case tab ?t (h, k) of None \<Rightarrow> None | Some d \<Rightarrow> d, t')"
    "imt_ok t'" "tab t' = (tab ?t)((h, k) := None)" "bucket_num t' = bucket_num ?t"
    "mset (elems t') = filter_mset (\<lambda>c. ident c \<noteq> (h, k)) (mset (elems ?t))" by blast
  have "cur_size t' \<le> cur_size ?t" by (rule remove_size [OF p(2) t'(2,5)])
  then have size: "cur_size t' + int n < 2 ^ 62" using p(4) by simp
  have tab': "tab t' = (tab (T ! part_num (fst (h, k))))((h, k) := None)" using t'(3) by simp
  have num: "bucket_num t' < 2 ^ 62" using p(3) t'(4) by simp
  note u = mt_update [OF assms(1) order_refl t'(2) num size tab', unfolded fst_conv]
  have "mt_remove h k T = Some (Option.bind (mt_content T (h, k)) id, T[part_num h := t'])"
    using p(1) t'(1) by (simp add: mt_remove_def mt_content_def split: option.splits)
  with u homed_upd [OF assms(2) tab'] show ?thesis by simp
qed

lemma mt_put:
  assumes "mt_fits (Suc n) T" and "homed T"
  shows "\<exists>T'. mt_insert q r None h k v T =
      Some (case mt_content T (h, k) of None \<Rightarrow> None | Some d \<Rightarrow> if v = d then None else d, T')
    \<and> mt_fits n T' \<and> homed T'
    \<and> ((q \<or> mt_content T (h, k) \<noteq> None) \<and> mt_content T' = (mt_content T)((h, k) \<mapsto> v) \<or> mt_content T (h, k) = None \<and> \<not> q \<and> T' = T)"
proof -
  let ?t = "T ! part_num h"
  note p = mt_part [OF assms(1), of h]
  have "\<exists>t'. imt_insert q r None h k v ?t = Some (case tab ?t (h, k) of None \<Rightarrow> None | Some d \<Rightarrow> if v = d then None else d, t')
    \<and> imt_ok t' \<and> ((q \<or> tab ?t (h, k) \<noteq> None) \<and> tab t' = (tab ?t)((h, k) \<mapsto> v) \<and> bucket_num t' < 2 ^ 62 \<and> cur_size t' + int n < 2 ^ 62
      \<or> tab ?t (h, k) = None \<and> \<not> q \<and> t' = ?t)"
  proof (cases "tab ?t (h, k)")
    case None
    have "swept None m = m" for m :: "u64 \<times> 'a \<Rightarrow> 'b option option"
      by (auto simp: swept_def split: option.splits)
    with insert_absent [OF p(2) None p(3), of q r None v] None p(3,4) show ?thesis by (cases q) auto
  next
    case (Some d)
    from insert_present [OF p(2) Some, of q r None v] Some p(3,4) show ?thesis by auto
  qed
  then obtain t' where t': "imt_insert q r None h k v ?t = Some (case tab ?t (h, k) of None \<Rightarrow> None | Some d \<Rightarrow> if v = d then None else d, t')"
    "imt_ok t'" "(q \<or> tab ?t (h, k) \<noteq> None) \<and> tab t' = (tab ?t)((h, k) \<mapsto> v) \<and> bucket_num t' < 2 ^ 62 \<and> cur_size t' + int n < 2 ^ 62
      \<or> tab ?t (h, k) = None \<and> \<not> q \<and> t' = ?t" by blast
  have i: "mt_insert q r None h k v T =
      Some (case mt_content T (h, k) of None \<Rightarrow> None | Some d \<Rightarrow> if v = d then None else d, T[part_num h := t'])"
    using p(1) t'(1) by (simp add: mt_insert_def mt_content_def)
  from t'(3) show ?thesis
  proof
    assume a: "(q \<or> tab ?t (h, k) \<noteq> None) \<and> tab t' = (tab ?t)((h, k) \<mapsto> v) \<and> bucket_num t' < 2 ^ 62 \<and> cur_size t' + int n < 2 ^ 62"
    then have tab': "tab t' = (tab (T ! part_num (fst (h, k))))((h, k) := Some v)" by simp
    note u = mt_update [OF assms(1) le_SucI [OF order_refl] t'(2) _ _ tab', unfolded fst_conv]
    show ?thesis using i u a homed_upd [OF assms(2) tab'] by (simp add: mt_content_def)
  next
    assume "tab ?t (h, k) = None \<and> \<not> q \<and> t' = ?t"
    moreover have "mt_fits n T" using assms(1) by (auto simp: mt_fits_def)
    moreover have "T[part_num h := ?t] = T" by simp
    ultimately show ?thesis using i assms(2) by (simp add: mt_content_def)
  qed
qed

text \<open>One more reference.\<close>

definition bump :: "(addr \<Rightarrow> nat) \<Rightarrow> addr option \<Rightarrow> addr \<Rightarrow> nat" where
  "bump f p = (case p of None \<Rightarrow> f | Some a \<Rightarrow> f(a := Suc (f a)))"

lemma bump_simps [simp]: "bump f None = f" "bump f (Some a) b = (if b = a then Suc (f b) else f b)"
  by (simp_all add: bump_def)

lemma bump_le: "f b \<le> bump f p b"
  by (cases p) auto

lemma add_bump: "(\<lambda>b. f b + bump g (Some a) b) = (\<lambda>b. f b + g b)(a := Suc (f a + g a))"
  by auto

lemma covered_add:
  assumes "covered (\<lambda>b. f b + g b) H" and "H a = Some c"
  shows "\<exists>H'. inc_ref H a = Some H' \<and> H' = H(a \<mapsto> c\<lparr>ref_count := ref_count c + 1\<rparr>) \<and> covered (\<lambda>b. f b + bump g (Some a) b) H'"
  using covered_inc [OF assms(1), of a] assms(2) unfolding add_bump by auto

lemma covered_drop:
  assumes "covered (\<lambda>b. f b + bump g (Some a) b) H"
  shows "\<exists>c. H a = Some c \<and> dec_ref H a = Some (H(a := dropped c)) \<and> covered (\<lambda>b. f b + g b) (H(a := dropped c))"
proof -
  have "((\<lambda>b. f b + g b)(a := Suc (f a + g a))) a = Suc (f a + g a)" by simp
  moreover have "((\<lambda>b. f b + g b)(a := Suc (f a + g a)))(a := f a + g a) = (\<lambda>b. f b + g b)" by auto
  ultimately show ?thesis using covered_dec [OF assms [unfolded add_bump]] by metis
qed

section \<open>The invariant\<close>

text \<open>A failure history that was initialised, whatever is in its bins.\<close>

definition turning :: "fail_history \<Rightarrow> bool" where
  "turning h = (0 < bin_len h \<and> length (bins h) = 17 \<and> 0 \<le> cur_index h \<and> cur_index h < 17)"

definition ent_ok :: "'ip centry \<Rightarrow> bool" where
  "ent_ok e = (control_config e \<noteq> None \<longrightarrow> turning (conn_hist e) \<and> turning (alive_hist e) \<and> turning (feedback_hist e))"

definition names_ok :: "zone \<Rightarrow> bool" where
  "names_ok z = (length (zone_name z) \<le> MAX_ZONE_LENGTH \<and> length (region_name z) \<le> MAX_REGION_LENGTH)"

text \<open>The references the manager knows of.\<close>

definition erefs :: "'ip cmgr \<Rightarrow> addr \<Rightarrow> nat" where
  "erefs s a = holders (\<lambda>v. v = Some a) (mt_content (table s)) + reqs (\<lambda>x. rq_entry x = Some a) (concat (todo s))"

definition crefs :: "'ip cmgr \<Rightarrow> addr \<Rightarrow> nat" where
  "crefs s a = holders (\<lambda>e. control_config e = Some a) (ents s) + reqs (\<lambda>x. rq_config x = Some a) (concat (todo s))
     + (if cm_config s = Some a then 1 else 0)"

definition zrefs :: "'ip cmgr \<Rightarrow> addr \<Rightarrow> nat" where
  "zrefs s a = holders (\<lambda>e. zone_state e = Some a) (ents s) + reqs (\<lambda>x. rq_zone x = Some a) (concat (todo s))
     + count_list (zones s) a"

text \<open>The requests that may insert an entry when they are processed.\<close>

definition adds :: "'ip request \<Rightarrow> bool" where
  "adds x = (rq_op x = ADD_RECORD \<or> rq_op x = REVALIDATE_SERVER)"

definition request_ok :: "('ip \<Rightarrow> u64) \<Rightarrow> nat \<Rightarrow> 'ip request \<Rightarrow> bool" where
  "request_ok hf p x =
     ((rq_op x = ADD_RECORD \<longrightarrow> rq_entry x \<noteq> None)
      \<and> (rq_op x = REMOVE_ALL_RECORDS \<longrightarrow> unat (rq_hash x) < MT_HASHTABLE_PARTITIONS)
      \<and> (rq_op x = REVALIDATE_SERVER \<longrightarrow> rq_zone x \<noteq> None \<and> rq_hash x = hf (rq_key x) \<and> part_num (rq_hash x) = p))"

definition shape :: "('ip \<Rightarrow> u64) \<Rightarrow> nat \<Rightarrow> 'ip cmgr \<Rightarrow> bool" where
  "shape hf n s =
     (mt_fits (n + reqs adds (concat (todo s))) (table s) \<and> homed (table s) \<and> None \<notin> ran (mt_content (table s))
      \<and> length (todo s) = MT_HASHTABLE_PARTITIONS \<and> (\<forall>p < length (todo s). \<forall>x \<in> set (todo s ! p). request_ok hf p x)
      \<and> finite (dom (ents s)) \<and> (\<forall>e \<in> ran (ents s). ent_ok e) \<and> (\<forall>z \<in> ran (zns s). names_ok z))"

definition sound :: "('ip \<Rightarrow> u64) \<Rightarrow> (addr \<Rightarrow> nat) \<Rightarrow> (addr \<Rightarrow> nat) \<Rightarrow> (addr \<Rightarrow> nat) \<Rightarrow> nat \<Rightarrow> 'ip cmgr \<Rightarrow> bool" where
  "sound hf E C Z n s =
     (shape hf n s
      \<and> covered (\<lambda>a. erefs s a + E a) (ents s) \<and> covered (\<lambda>a. crefs s a + C a) (cfgs s) \<and> covered (\<lambda>a. zrefs s a + Z a) (zns s)
      \<and> (\<forall>a e. ents s a = Some e \<longrightarrow> 0 < erefs s a + E a \<longrightarrow> control_config e \<noteq> None))"

lemma soundD:
  assumes "sound hf E C Z n s"
  shows "shape hf n s" "covered (\<lambda>a. erefs s a + E a) (ents s)" "covered (\<lambda>a. crefs s a + C a) (cfgs s)"
    "covered (\<lambda>a. zrefs s a + Z a) (zns s)"
    "\<forall>a e. ents s a = Some e \<longrightarrow> 0 < erefs s a + E a \<longrightarrow> control_config e \<noteq> None"
  using assms unfolding sound_def by simp_all

lemma soundI:
  assumes "shape hf n s" and "covered (\<lambda>a. erefs s a + E a) (ents s)" and "covered (\<lambda>a. crefs s a + C a) (cfgs s)"
    and "covered (\<lambda>a. zrefs s a + Z a) (zns s)"
    and "\<And>a e. ents s a = Some e \<Longrightarrow> 0 < erefs s a + E a \<Longrightarrow> control_config e \<noteq> None"
  shows "sound hf E C Z n s"
  using assms unfolding sound_def by (intro conjI allI impI)

lemma refs_frame [simp]:
  "erefs (s\<lparr>ents := H\<rparr>) = erefs s" "erefs (s\<lparr>cfgs := F\<rparr>) = erefs s" "erefs (s\<lparr>zns := G\<rparr>) = erefs s"
  "erefs (s\<lparr>zones := l\<rparr>) = erefs s" "erefs (s\<lparr>cm_config := p\<rparr>) = erefs s"
  "crefs (s\<lparr>table := T\<rparr>) = crefs s" "crefs (s\<lparr>cfgs := F\<rparr>) = crefs s" "crefs (s\<lparr>zns := G\<rparr>) = crefs s"
  "crefs (s\<lparr>zones := l\<rparr>) = crefs s"
  "zrefs (s\<lparr>table := T\<rparr>) = zrefs s" "zrefs (s\<lparr>cfgs := F\<rparr>) = zrefs s" "zrefs (s\<lparr>zns := G\<rparr>) = zrefs s"
  "zrefs (s\<lparr>cm_config := p\<rparr>) = zrefs s"
  by (simp_all add: erefs_def crefs_def zrefs_def fun_eq_iff)

lemma soundI_same:
  assumes "sound hf E C Z n s" and "ents s' = ents s" and "erefs s' = erefs s" and "shape hf m s'"
    and "covered (\<lambda>a. crefs s' a + C' a) (cfgs s')" and "covered (\<lambda>a. zrefs s' a + Z' a) (zns s')"
  shows "sound hf E C' Z' m s'"
  using soundD [OF assms(1)] assms(2-) unfolding sound_def by simp

lemma sound_mono:
  assumes "sound hf E C Z n s" and "\<And>a. E' a \<le> E a" and "\<And>a. C' a \<le> C a" and "\<And>a. Z' a \<le> Z a"
  shows "sound hf E' C' Z' n s"
proof -
  have pos: "0 < erefs s a + E a" if "0 < erefs s a + E' a" for a using that assms(2) [of a] by linarith
  have "control_config e \<noteq> None" if "ents s a = Some e" "0 < erefs s a + E' a" for a e
    by (rule soundD(5) [OF assms(1), rule_format, OF that(1) pos [OF that(2)]])
  moreover have "covered (\<lambda>a. erefs s a + E' a) (ents s)" "covered (\<lambda>a. crefs s a + C' a) (cfgs s)" "covered (\<lambda>a. zrefs s a + Z' a) (zns s)"
    by (rule covered_mono [OF soundD(2) [OF assms(1)]], simp add: assms)
      (rule covered_mono [OF soundD(3) [OF assms(1)]], simp add: assms, rule covered_mono [OF soundD(4) [OF assms(1)]], simp add: assms)
  ultimately show ?thesis using soundD(1) [OF assms(1)] by (intro soundI) blast+
qed

lemma sound_unbump: "sound hf (bump E p) C Z n s \<Longrightarrow> sound hf E C Z n s" "sound hf E (bump C p) Z n s \<Longrightarrow> sound hf E C Z n s"
    "sound hf E C (bump Z p) n s \<Longrightarrow> sound hf E C Z n s"
  by (erule sound_mono; simp add: bump_le)+

lemma shape_room: "shape hf n s \<Longrightarrow> m \<le> n \<Longrightarrow> shape hf m s"
  by (auto simp: shape_def mt_fits_def)

lemma sound_room: "sound hf E C Z n s \<Longrightarrow> m \<le> n \<Longrightarrow> sound hf E C Z m s"
  by (auto simp: sound_def intro: shape_room)

lemma sound_fresh [simp]: "sound hf E C Z n (s\<lparr>fresh := l\<rparr>) = sound hf E C Z n s"
  by (simp add: sound_def shape_def erefs_def crefs_def zrefs_def)

lemma sound_inited [simp]: "sound hf E C Z n (s\<lparr>cm_inited := b\<rparr>) = sound hf E C Z n s"
  by (simp add: sound_def shape_def erefs_def crefs_def zrefs_def)

lemma sound_held [simp]: "sound hf E C Z n (s\<lparr>rw_held := b\<rparr>) = sound hf E C Z n s"
  by (simp add: sound_def shape_def erefs_def crefs_def zrefs_def)

text \<open>What is referenced is there.\<close>

lemma cfg_live:
  assumes "sound hf E C Z n s" and "0 < crefs s a + C a"
  shows "\<exists>c. cfgs s a = Some c"
  using coveredD [OF soundD(3) [OF assms(1)], of a] assms(2) by blast

lemma zn_live:
  assumes "sound hf E C Z n s" and "0 < zrefs s a + Z a"
  shows "\<exists>c. zns s a = Some c \<and> names_ok c"
proof -
  obtain c where c: "zns s a = Some c" using coveredD [OF soundD(4) [OF assms(1)], of a] assms(2) by blast
  moreover have "\<forall>z \<in> ran (zns s). names_ok z" using soundD(1) [OF assms(1)] by (simp add: shape_def)
  ultimately show ?thesis by (blast intro: ranI)
qed

lemma ent_live:
  assumes "sound hf E C Z n s" and "0 < erefs s a + E a"
  shows "\<exists>e. ents s a = Some e \<and> ent_ok e \<and> control_config e \<noteq> None"
proof -
  obtain e where e: "ents s a = Some e" using coveredD [OF soundD(2) [OF assms(1)], of a] assms(2) by blast
  moreover have "\<forall>e \<in> ran (ents s). ent_ok e" using soundD(1) [OF assms(1)] by (simp add: shape_def)
  ultimately show ?thesis using soundD(5) [OF assms(1), rule_format, OF e assms(2)] by (blast intro: ranI)
qed

section \<open>Operations on references\<close>

lemma cfg_inc_sound:
  assumes "sound hf E C Z n s" and "cfgs s a = Some c"
  shows "\<exists>H. cfg_inc a s = Some (s\<lparr>cfgs := H\<rparr>) \<and> sound hf E (bump C (Some a)) Z n (s\<lparr>cfgs := H\<rparr>)"
proof -
  have "covered (\<lambda>a. crefs s a + C a) (cfgs s)" using assms(1) by (simp add: sound_def)
  from covered_add [where c = c, OF this assms(2)] obtain H where H: "inc_ref (cfgs s) a = Some H"
    "covered (\<lambda>b. crefs s b + bump C (Some a) b) H" by blast
  then have "sound hf E (bump C (Some a)) Z n (s\<lparr>cfgs := H\<rparr>)"
    using assms(1) by (simp add: sound_def shape_def erefs_def crefs_def zrefs_def)
  with H(1) show ?thesis by (auto simp: cfg_inc_def)
qed

lemma cfg_dec_sound:
  assumes "sound hf E (bump C (Some a)) Z n s"
  shows "\<exists>H. cfg_dec a s = Some (s\<lparr>cfgs := H\<rparr>) \<and> sound hf E C Z n (s\<lparr>cfgs := H\<rparr>)"
proof -
  have c: "covered (\<lambda>b. crefs s b + bump C (Some a) b) (cfgs s)" using assms unfolding sound_def by blast
  from covered_drop [OF c] obtain H where H: "dec_ref (cfgs s) a = Some H" "covered (\<lambda>b. crefs s b + C b) H" by blast
  have "sound hf E C Z n s" by (rule sound_unbump(2) [OF assms])
  with H(2) have "sound hf E C Z n (s\<lparr>cfgs := H\<rparr>)"
    by (simp add: sound_def shape_def erefs_def crefs_def zrefs_def)
  with H(1) show ?thesis by (auto simp: cfg_dec_def)
qed

lemma ran_upd: "\<forall>c \<in> ran H. P c \<Longrightarrow> P d \<Longrightarrow> \<forall>c \<in> ran (H(a \<mapsto> d)). P c"
  by (auto simp: ran_def)

lemma ran_del: "\<forall>c \<in> ran H. P c \<Longrightarrow> \<forall>c \<in> ran (H(a := None)). P c"
  by (auto simp: ran_def)

lemma ran_inc:
  assumes "inc_ref H a = Some H'" and "\<And>c n. P (c\<lparr>ref_count := n\<rparr>) = P c" and "\<forall>c \<in> ran H. P c"
  shows "\<forall>c \<in> ran H'. P c"
proof -
  from assms(1) obtain c where c: "H a = Some c" "H' = H(a \<mapsto> c\<lparr>ref_count := ref_count c + 1\<rparr>)"
    by (auto simp: inc_ref_def split: option.splits)
  with ran_upd [OF assms(3)] assms(2,3) show ?thesis by (blast intro: ranI)
qed

lemma ran_dec:
  assumes "dec_ref H a = Some H'" and "\<And>c n. P (c\<lparr>ref_count := n\<rparr>) = P c" and "\<forall>c \<in> ran H. P c"
  shows "\<forall>c \<in> ran H'. P c"
proof -
  from assms(1) obtain c where c: "H a = Some c" "H' = H(a := None) \<or> H' = H(a \<mapsto> c\<lparr>ref_count := ref_count c - 1\<rparr>)"
    by (auto simp: dec_ref_def split: option.splits if_splits)
  with ran_upd [OF assms(3)] ran_del [OF assms(3)] assms(2,3) show ?thesis by (blast intro: ranI)
qed

lemma names_ok_ref [simp]: "names_ok (z\<lparr>ref_count := n\<rparr>) = names_ok z"
  by (simp add: names_ok_def)

lemma zn_inc_sound:
  assumes "sound hf E C Z n s" and "zns s a = Some c"
  shows "\<exists>H. zn_inc a s = Some (s\<lparr>zns := H\<rparr>) \<and> sound hf E C (bump Z (Some a)) n (s\<lparr>zns := H\<rparr>)"
proof -
  have "covered (\<lambda>a. zrefs s a + Z a) (zns s)" using assms(1) by (simp add: sound_def)
  from covered_add [where c = c, OF this assms(2)] obtain H where H: "inc_ref (zns s) a = Some H"
    "covered (\<lambda>b. zrefs s b + bump Z (Some a) b) H" by blast
  have "\<forall>z \<in> ran (zns s). names_ok z" using assms(1) by (simp add: sound_def shape_def)
  with ran_inc [OF H(1), of names_ok] have "\<forall>z \<in> ran H. names_ok z" by simp
  with H(2) have "sound hf E C (bump Z (Some a)) n (s\<lparr>zns := H\<rparr>)"
    using assms(1) by (simp add: sound_def shape_def erefs_def crefs_def zrefs_def)
  with H(1) show ?thesis by (auto simp: zn_inc_def)
qed

lemma zn_dec_sound:
  assumes "sound hf E C (bump Z (Some a)) n s"
  shows "\<exists>H. zn_dec a s = Some (s\<lparr>zns := H\<rparr>) \<and> sound hf E C Z n (s\<lparr>zns := H\<rparr>)"
proof -
  have c: "covered (\<lambda>b. zrefs s b + bump Z (Some a) b) (zns s)" using assms unfolding sound_def by blast
  from covered_drop [OF c] obtain H where H: "dec_ref (zns s) a = Some H" "covered (\<lambda>b. zrefs s b + Z b) H" by blast
  have i: "sound hf E C Z n s" by (rule sound_unbump(3) [OF assms])
  then have "\<forall>z \<in> ran (zns s). names_ok z" by (simp add: sound_def shape_def)
  with ran_dec [OF H(1), of names_ok] have "\<forall>z \<in> ran H. names_ok z" by simp
  with H(2) i have "sound hf E C Z n (s\<lparr>zns := H\<rparr>)"
    by (simp add: sound_def shape_def erefs_def crefs_def zrefs_def)
  with H(1) show ?thesis by (auto simp: zn_dec_def)
qed

lemma ent_ok_ref [simp]: "ent_ok (e\<lparr>ref_count := n\<rparr>) = ent_ok e"
  by (simp add: ent_ok_def)

text \<open>Changing an entry.\<close>

lemma holders_same:
  assumes "finite (dom m)" and "m x = Some u" and "P v = P u"
  shows "holders P (m(x \<mapsto> v)) = holders P m"
  using holders_upd [OF assms(1), of P x "Some v"] assms(2,3) by simp

lemma put_ent_sound:
  assumes "sound hf E C Z n s" and "ents s a = Some e"
    and "control_config e' = control_config e" and "zone_state e' = zone_state e" and "ref_count e' = ref_count e" and "ent_ok e'"
  shows "sound hf E C Z n (s\<lparr>ents := (ents s)(a \<mapsto> e')\<rparr>)"
proof -
  have f: "finite (dom (ents s))" using assms(1) by (simp add: sound_def shape_def)
  have "holders (\<lambda>e. control_config e = Some b) ((ents s)(a \<mapsto> e')) = holders (\<lambda>e. control_config e = Some b) (ents s)"
    "holders (\<lambda>e. zone_state e = Some b) ((ents s)(a \<mapsto> e')) = holders (\<lambda>e. zone_state e = Some b) (ents s)" for b
    using holders_same [OF f assms(2)] assms(3,4) by simp_all
  moreover have "covered (\<lambda>a. erefs s a + E a) ((ents s)(a \<mapsto> e'))"
    by (rule covered_upd [where c = e, OF soundD(2) [OF assms(1)] assms(2,5)])
  moreover have "\<forall>e \<in> ran ((ents s)(a \<mapsto> e')). ent_ok e"
    using assms(1,6) by (auto simp: sound_def shape_def ran_def)
  moreover have "\<forall>b d. ((ents s)(a \<mapsto> e')) b = Some d \<longrightarrow> 0 < erefs s b + E b \<longrightarrow> control_config d \<noteq> None"
    using assms(1-3) by (simp add: sound_def)
  ultimately show ?thesis using assms(1) by (simp add: sound_def shape_def erefs_def crefs_def zrefs_def)
qed

lemma upd_ent_sound:
  assumes "sound hf E C Z n s" and "0 < erefs s a + E a"
    and "\<And>e. control_config (f e) = control_config e" and "\<And>e. zone_state (f e) = zone_state e"
    and "\<And>e. ref_count (f e) = ref_count e" and "\<And>e. ent_ok e \<Longrightarrow> ent_ok (f e)"
  shows "\<exists>H. upd_ent a f s = Some (s\<lparr>ents := H\<rparr>) \<and> sound hf E C Z n (s\<lparr>ents := H\<rparr>)"
proof -
  obtain e where e: "ents s a = Some e" "ent_ok e" using ent_live [OF assms(1,2)] by blast
  from put_ent_sound [OF assms(1) e(1) assms(3-5)] assms(6) [OF e(2)] e(1) show ?thesis
    by (auto simp: upd_ent_def)
qed

lemma ent_inc_sound:
  assumes "sound hf E C Z n s" and "ents s a = Some e" and "control_config e \<noteq> None"
  shows "\<exists>H. ent_inc a s = Some (s\<lparr>ents := H\<rparr>) \<and> sound hf (bump E (Some a)) C Z n (s\<lparr>ents := H\<rparr>)"
proof -
  let ?e = "e\<lparr>ref_count := ref_count e + 1\<rparr>"
  have "covered (\<lambda>a. erefs s a + E a) (ents s)" using assms(1) by (simp add: sound_def)
  from covered_add [where c = e, OF this assms(2)] have H: "inc_ref (ents s) a = Some ((ents s)(a \<mapsto> ?e))"
    "covered (\<lambda>b. erefs s b + bump E (Some a) b) ((ents s)(a \<mapsto> ?e))" by blast+
  have f: "finite (dom (ents s))" using assms(1) by (simp add: sound_def shape_def)
  have "holders (\<lambda>e. control_config e = Some b) ((ents s)(a \<mapsto> ?e)) = holders (\<lambda>e. control_config e = Some b) (ents s)"
    "holders (\<lambda>e. zone_state e = Some b) ((ents s)(a \<mapsto> ?e)) = holders (\<lambda>e. zone_state e = Some b) (ents s)" for b
    using holders_same [OF f assms(2)] by simp_all
  moreover have "\<forall>e \<in> ran ((ents s)(a \<mapsto> ?e)). ent_ok e"
    using assms(1,2) by (auto simp: sound_def shape_def ran_def)
  moreover have "\<forall>b d. ((ents s)(a \<mapsto> ?e)) b = Some d \<longrightarrow> 0 < erefs s b + bump E (Some a) b \<longrightarrow> control_config d \<noteq> None"
    using assms by (simp add: sound_def)
  ultimately show ?thesis using assms(1) H
    by (auto simp: ent_inc_def sound_def shape_def erefs_def crefs_def zrefs_def simp del: bump_simps)
qed

text \<open>What an entry contributes to the references to its configuration and zone.\<close>

lemma crefs_ents:
  assumes "finite (dom (ents s))"
  shows "crefs (s\<lparr>ents := (ents s)(a := v)\<rparr>) b + wt (\<lambda>e. control_config e = Some b) (ents s a)
    = crefs s b + wt (\<lambda>e. control_config e = Some b) v"
  using holders_upd [OF assms, of "\<lambda>e. control_config e = Some b" a v] by (simp add: crefs_def)

lemma zrefs_ents:
  assumes "finite (dom (ents s))"
  shows "zrefs (s\<lparr>ents := (ents s)(a := v)\<rparr>) b + wt (\<lambda>e. zone_state e = Some b) (ents s a)
    = zrefs s b + wt (\<lambda>e. zone_state e = Some b) v"
  using holders_upd [OF assms, of "\<lambda>e. zone_state e = Some b" a v] by (simp add: zrefs_def)

text \<open>Dropping an optional reference that is counted.\<close>

definition drop_opt :: "(addr \<Rightarrow> 'a refcnt_scheme option) \<Rightarrow> addr option \<Rightarrow> (addr \<Rightarrow> 'a refcnt_scheme option) option" where
  "drop_opt H p = (case p of None \<Rightarrow> Some H | Some a \<Rightarrow> dec_ref H a)"

lemma covered_drop_opt:
  assumes "covered f H" and "\<And>b. f b = g b + (if p = Some b then 1 else 0)"
    and "\<And>c n. Q (c\<lparr>ref_count := n\<rparr>) = Q c" and "\<forall>c \<in> ran H. Q c"
  shows "\<exists>H'. drop_opt H p = Some H' \<and> covered g H' \<and> (\<forall>c \<in> ran H'. Q c)"
proof (cases p)
  case None
  with assms(2) have "f = g" by auto
  with None assms(1,4) show ?thesis by (simp add: drop_opt_def)
next
  case (Some a)
  have "f a = Suc (g a)" using assms(2) [of a] Some by simp
  from covered_dec [OF assms(1) this] obtain c where c: "dec_ref H a = Some (H(a := dropped c))"
    "covered (f(a := g a)) (H(a := dropped c))" by blast
  have "f(a := g a) = g" using assms(2) Some by auto
  with c ran_dec [OF c(1) assms(3,4)] show ?thesis by (simp add: drop_opt_def Some)
qed

lemma entry_destroy_drop:
  "entry_destroy C Z e = (case drop_opt C (control_config e) of None \<Rightarrow> None | Some C \<Rightarrow>
     (case drop_opt Z (zone_state e) of None \<Rightarrow> None | Some Z \<Rightarrow>
       Some (C, Z, e\<lparr>fail_hist_lock := False, control_config := None, zone_state := None\<rparr>)))"
  by (simp add: entry_destroy_def drop_opt_def bind_eq_Some_conv split: option.splits)

text \<open>The parts of the state that dropping a reference leaves alone.\<close>

definition frame :: "'ip cmgr \<Rightarrow> 'ip cmgr \<Rightarrow> bool" where
  "frame s s' = (table s' = table s \<and> todo s' = todo s \<and> zones s' = zones s \<and> cm_config s' = cm_config s
     \<and> cm_inited s' = cm_inited s \<and> rw_held s' = rw_held s)"

lemma frame_refl [simp]: "frame s s"
  by (simp add: frame_def)

lemma frame_trans [trans]: "frame s t \<Longrightarrow> frame t u \<Longrightarrow> frame s u"
  by (simp add: frame_def)

lemma ent_dec_sound:
  assumes "sound hf (bump E (Some a)) C Z n s"
  shows "\<exists>s'. ent_dec a s = Some s' \<and> sound hf E C Z n s' \<and> frame s s'"
proof -
  have i: "sound hf E C Z n s" by (rule sound_unbump(1) [OF assms])
  have f: "finite (dom (ents s))" using soundD(1) [OF i] by (simp add: shape_def)
  from covered_drop [OF soundD(2) [OF assms]] obtain e where e: "ents s a = Some e"
    "dec_ref (ents s) a = Some ((ents s)(a := dropped e))" "covered (\<lambda>b. erefs s b + E b) ((ents s)(a := dropped e))" by blast
  have sh: "\<forall>e \<in> ran (ents s). ent_ok e" "\<forall>z \<in> ran (zns s). names_ok z" using soundD(1) [OF i] by (simp_all add: shape_def)
  show ?thesis
  proof (cases "ref_count e = 1")
    case False
    let ?e = "e\<lparr>ref_count := ref_count e - 1\<rparr>"
    let ?s = "s\<lparr>ents := (ents s)(a \<mapsto> ?e)\<rparr>"
    have "crefs ?s b = crefs s b" "zrefs ?s b = zrefs s b" for b
      using crefs_ents [OF f, of a "Some ?e" b] zrefs_ents [OF f, of a "Some ?e" b] e(1) by simp_all
    moreover have "erefs ?s = erefs s" by (simp add: erefs_def fun_eq_iff)
    moreover have "dropped e = Some ?e" using False by (simp add: dropped_def)
    moreover have "shape hf n ?s"
      using soundD(1) [OF i] ran_upd [OF sh(1), of ?e a] sh(1) e(1) by (simp add: shape_def ranI)
    moreover have "control_config d \<noteq> None" if "ents ?s b = Some d" "0 < erefs s b + E b" for b d
      using that soundD(5) [OF i, rule_format, of b] e(1) by (cases "b = a") auto
    ultimately have "sound hf E C Z n ?s"
      using e(3) soundD(3,4) [OF i] by (intro soundI) simp_all
    moreover have "ent_dec a s = Some ?s" using e(1) False by (simp add: ent_dec_def)
    ultimately show ?thesis by (simp add: frame_def)
  next
    case True
    let ?H = "(ents s)(a := None)"
    let ?s = "s\<lparr>ents := ?H\<rparr>"
    have c: "crefs s b + C b = (crefs ?s b + C b) + (if control_config e = Some b then 1 else 0)" for b
      using crefs_ents [OF f, of a None b] e(1) by (simp split: if_splits)
    have z: "zrefs s b + Z b = (zrefs ?s b + Z b) + (if zone_state e = Some b then 1 else 0)" for b
      using zrefs_ents [OF f, of a None b] e(1) by (simp split: if_splits)
    from covered_drop_opt [OF soundD(3) [OF i] c, of "\<lambda>_. True"] obtain C' where C': "drop_opt (cfgs s) (control_config e) = Some C'"
      "covered (\<lambda>b. crefs ?s b + C b) C'" by blast
    from covered_drop_opt [OF soundD(4) [OF i] z names_ok_ref sh(2)] obtain Z' where
      Z': "drop_opt (zns s) (zone_state e) = Some Z'" "covered (\<lambda>b. zrefs ?s b + Z b) Z'" "\<forall>c \<in> ran Z'. names_ok c" by blast
    let ?t = "s\<lparr>cfgs := C', zns := Z', ents := ?H\<rparr>"
    have "erefs ?t = erefs s" "crefs ?t = crefs ?s" "zrefs ?t = zrefs ?s" by (simp_all add: erefs_def crefs_def zrefs_def fun_eq_iff)
    moreover have "dropped e = None" using True by (simp add: dropped_def)
    moreover have "shape hf n ?t"
      using soundD(1) [OF i] ran_del [OF sh(1), of a] Z'(3) by (simp add: shape_def)
    moreover have "control_config d \<noteq> None" if "ents ?t b = Some d" "0 < erefs s b + E b" for b d
      using that soundD(5) [OF i, rule_format, of b] by (cases "b = a") auto
    ultimately have "sound hf E C Z n ?t"
      using e(3) C'(2) Z'(2) by (intro soundI) simp_all
    moreover have "ent_dec a s = Some ?t"
      using e(1) True C'(1) Z'(1) by (simp add: ent_dec_def entry_destroy_drop)
    ultimately show ?thesis by (auto simp: frame_def)
  qed
qed

lemma discard_sound:
  assumes "sound hf (bump E (Some a)) C Z n s"
  shows "\<exists>s'. discard a s = Some s' \<and> sound hf E C Z n s' \<and> frame s s'"
proof -
  have "0 < erefs s a + bump E (Some a) a" by simp
  then have "\<exists>H. upd_ent a (\<lambda>e. e\<lparr>entry_state := ENTRY_DELETED\<rparr>) s = Some (s\<lparr>ents := H\<rparr>)
      \<and> sound hf (bump E (Some a)) C Z n (s\<lparr>ents := H\<rparr>)"
    by (rule upd_ent_sound [OF assms]) (simp_all add: ent_ok_def)
  then obtain H where H: "upd_ent a (\<lambda>e. e\<lparr>entry_state := ENTRY_DELETED\<rparr>) s = Some (s\<lparr>ents := H\<rparr>)"
    "sound hf (bump E (Some a)) C Z n (s\<lparr>ents := H\<rparr>)" by blast
  from ent_dec_sound [OF H(2)] obtain s' where "ent_dec a (s\<lparr>ents := H\<rparr>) = Some s'" "sound hf E C Z n s'"
    "frame (s\<lparr>ents := H\<rparr>) s'" by blast
  with H(1) show ?thesis by (simp add: discard_def frame_def)
qed

lemma discard_opt_sound:
  assumes "sound hf (bump E p) C Z n s"
  shows "\<exists>s'. discard_opt p s = Some s' \<and> sound hf E C Z n s' \<and> frame s s'"
  using assms discard_sound [of hf E _ C Z n s] by (cases p) (auto simp: discard_opt_def)

section \<open>The table and the to-do lists\<close>

lemma op_alloc_fresh: "\<exists>p l. op_alloc H s = (p, s\<lparr>fresh := l\<rparr>) \<and> (\<forall>a. p = Some a \<longrightarrow> H a = None)"
proof (cases "fresh s")
  case Nil
  then have "op_alloc H s = (None, s\<lparr>fresh := fresh s\<rparr>)" by (simp add: op_alloc_def)
  then show ?thesis by blast
next
  case (Cons p ps)
  then show ?thesis by (auto simp: op_alloc_def split: option.splits)
qed

lemma mem_alloc_fresh: "\<exists>q l. mem_alloc s = (q, s\<lparr>fresh := l\<rparr>)"
  using op_alloc_fresh [of "Map.empty :: addr \<Rightarrow> unit option" s] by (auto simp: mem_alloc_def)

lemma finite_table: "sound hf E C Z n s \<Longrightarrow> finite (dom (mt_content (table s)))"
  using finite_content by (blast dest: soundD(1) intro: shape_def [THEN iffD1, THEN conjunct1])

lemma erefs_table:
  assumes "sound hf E C Z n s" and "mt_content T = (mt_content (table s))(x := v)"
  shows "erefs (s\<lparr>table := T\<rparr>) b + wt (\<lambda>v. v = Some b) (mt_content (table s) x) = erefs s b + wt (\<lambda>v. v = Some b) v"
  using holders_upd [OF finite_table [OF assms(1)], of "\<lambda>v. v = Some b" x v] by (simp add: erefs_def assms(2))

lemma table_sound:
  assumes "sound hf E C Z n s"
    and "mt_fits (m + reqs adds (concat (todo s))) T" and "homed T" and "None \<notin> ran (mt_content T)"
    and "\<And>b. erefs (s\<lparr>table := T\<rparr>) b + E' b \<le> erefs s b + E b"
  shows "sound hf E' C Z m (s\<lparr>table := T\<rparr>)"
proof (rule soundI)
  have pos: "0 < erefs s b + E b" if "0 < erefs (s\<lparr>table := T\<rparr>) b + E' b" for b using that assms(5) [of b] by linarith
  show "control_config e \<noteq> None" if "ents (s\<lparr>table := T\<rparr>) b = Some e" "0 < erefs (s\<lparr>table := T\<rparr>) b + E' b" for b e
    using soundD(5) [OF assms(1), rule_format, of b e, OF _ pos [OF that(2)]] that(1) by simp
  show "covered (\<lambda>b. erefs (s\<lparr>table := T\<rparr>) b + E' b) (ents (s\<lparr>table := T\<rparr>))"
    using covered_mono [OF soundD(2) [OF assms(1)] assms(5)] by simp
qed (use assms(2-4) soundD [OF assms(1)] in \<open>simp_all add: shape_def crefs_def zrefs_def\<close>)

lemma tbl_insert_sound:
  assumes "sound hf (bump E (Some a)) C Z (Suc n) s"
  shows "\<exists>old T l. tbl_insert hash ip a s = Some (old, s\<lparr>table := T, fresh := l\<rparr>)
    \<and> sound hf (bump E old) C Z n (s\<lparr>table := T, fresh := l\<rparr>)"
proof -
  obtain q l0 where q: "mem_alloc s = (q, s\<lparr>fresh := l0\<rparr>)" using mem_alloc_fresh [of s] by blast
  obtain r l where r: "mem_alloc (s\<lparr>fresh := l0\<rparr>) = (r, s\<lparr>fresh := l\<rparr>)"
    using mem_alloc_fresh [of "s\<lparr>fresh := l0\<rparr>"] by auto
  let ?m = "n + reqs adds (concat (todo s))" and ?x = "(hash, ip)"
  have sh: "mt_fits (Suc ?m) (table s)" "homed (table s)" "None \<notin> ran (mt_content (table s))"
    using soundD(1) [OF assms] by (simp_all add: shape_def)
  from mt_put [OF sh(1,2), of q r hash ip "Some a"] obtain T where T: "mt_insert q r None hash ip (Some a) (table s) =
      Some (case mt_content (table s) ?x of None \<Rightarrow> None | Some d \<Rightarrow> if Some a = d then None else d, T)"
    "mt_fits ?m T" "homed T"
    "mt_content T = (mt_content (table s))(?x \<mapsto> Some a) \<or> mt_content (table s) ?x = None \<and> T = table s" by blast
  define old where "old = (case mt_content (table s) ?x of None \<Rightarrow> None | Some d \<Rightarrow> if Some a = d then None else d)"
  have "erefs (s\<lparr>table := T\<rparr>) b + bump E old b \<le> erefs s b + bump E (Some a) b" for b
    using T(4)
  proof
    assume c: "mt_content T = (mt_content (table s))(?x \<mapsto> Some a)"
    show ?thesis
    proof (cases "mt_content (table s) ?x")
      case None
      then show ?thesis using erefs_table [OF assms c, of b] by (auto simp: old_def)
    next
      case (Some d)
      then obtain d' where "d = Some d'" using sh(3) by (cases d) (auto simp: ran_def)
      with Some show ?thesis using erefs_table [OF assms c, of b] by (auto simp: old_def)
    qed
  next
    assume "mt_content (table s) ?x = None \<and> T = table s"
    then show ?thesis by (simp add: old_def erefs_def bump_le)
  qed
  moreover have "None \<notin> ran (mt_content T)" using T(4) sh(3) by (auto simp: ran_def split: if_splits)
  ultimately have "sound hf (bump E old) C Z n (s\<lparr>table := T\<rparr>)"
    by (intro table_sound [OF assms]) (use T in simp_all)
  then have "sound hf (bump E old) C Z n (s\<lparr>table := T\<rparr>\<lparr>fresh := l\<rparr>)" by (simp only: sound_fresh)
  moreover have "tbl_insert hash ip a s = Some (old, s\<lparr>table := T, fresh := l\<rparr>)"
    using q r T(1) by (simp add: tbl_insert_def old_def)
  ultimately show ?thesis by (simp only: cmgr.simps) blast
qed

lemma tbl_remove_sound:
  assumes "sound hf E C Z n s"
  shows "\<exists>old T. tbl_remove hash ip s = Some (old, s\<lparr>table := T\<rparr>) \<and> sound hf (bump E old) C Z n (s\<lparr>table := T\<rparr>)"
proof -
  let ?m = "n + reqs adds (concat (todo s))" and ?x = "(hash, ip)"
  have sh: "mt_fits ?m (table s)" "homed (table s)" "None \<notin> ran (mt_content (table s))"
    using soundD(1) [OF assms] by (simp_all add: shape_def)
  from mt_take [OF sh(1,2), of hash ip] obtain T where T: "mt_remove hash ip (table s) =
      Some (Option.bind (mt_content (table s) ?x) id, T)" "mt_fits ?m T" "homed T"
    "mt_content T = (mt_content (table s))(?x := None)" by blast
  let ?old = "Option.bind (mt_content (table s) ?x) id"
  have "erefs (s\<lparr>table := T\<rparr>) b + bump E ?old b \<le> erefs s b + E b" for b
  proof (cases "mt_content (table s) ?x")
    case None
    then show ?thesis using erefs_table [OF assms T(4), of b] by simp
  next
    case (Some d)
    then obtain d' where "d = Some d'" using sh(3) by (cases d) (auto simp: ran_def)
    with Some show ?thesis using erefs_table [OF assms T(4), of b] by auto
  qed
  moreover have "None \<notin> ran (mt_content T)" using T(4) sh(3) by (auto simp: ran_def split: if_splits)
  ultimately have "sound hf (bump E ?old) C Z n (s\<lparr>table := T\<rparr>)"
    by (intro table_sound [OF assms]) (use T in simp_all)
  then show ?thesis using T(1) by (auto simp: tbl_remove_def)
qed

lemma todo_sound:
  assumes "sound hf E C Z n s" and "length l = MT_HASHTABLE_PARTITIONS" and "\<forall>p < length l. \<forall>x \<in> set (l ! p). request_ok hf p x"
    and "m + reqs adds (concat l) \<le> n + reqs adds (concat (todo s))"
    and "\<And>b. reqs (\<lambda>x. rq_entry x = Some b) (concat l) + E' b \<le> reqs (\<lambda>x. rq_entry x = Some b) (concat (todo s)) + E b"
    and "\<And>b. reqs (\<lambda>x. rq_config x = Some b) (concat l) + C' b \<le> reqs (\<lambda>x. rq_config x = Some b) (concat (todo s)) + C b"
    and "\<And>b. reqs (\<lambda>x. rq_zone x = Some b) (concat l) + Z' b \<le> reqs (\<lambda>x. rq_zone x = Some b) (concat (todo s)) + Z b"
  shows "sound hf E' C' Z' m (s\<lparr>todo := l\<rparr>)"
proof (rule soundI)
  let ?s = "s\<lparr>todo := l\<rparr>"
  have le: "erefs ?s b + E' b \<le> erefs s b + E b" "crefs ?s b + C' b \<le> crefs s b + C b" "zrefs ?s b + Z' b \<le> zrefs s b + Z b" for b
    using assms(5-7) [of b] by (simp_all add: erefs_def crefs_def zrefs_def)
  have pos: "0 < erefs s b + E b" if "0 < erefs ?s b + E' b" for b using that le(1) [of b] by linarith
  show "control_config e \<noteq> None" if "ents ?s b = Some e" "0 < erefs ?s b + E' b" for b e
    using soundD(5) [OF assms(1), rule_format, of b e, OF _ pos [OF that(2)]] that(1) by simp
  show "covered (\<lambda>b. erefs ?s b + E' b) (ents ?s)" "covered (\<lambda>b. crefs ?s b + C' b) (cfgs ?s)" "covered (\<lambda>b. zrefs ?s b + Z' b) (zns ?s)"
    using covered_mono [OF soundD(2) [OF assms(1)] le(1)] covered_mono [OF soundD(3) [OF assms(1)] le(2)]
      covered_mono [OF soundD(4) [OF assms(1)] le(3)] by simp_all
  have "mt_fits (m + reqs adds (concat l)) (table s)"
    using soundD(1) [OF assms(1)] assms(4) by (auto simp: shape_def mt_fits_def)
  then show "shape hf m ?s"
    using soundD(1) [OF assms(1)] assms(2,3) by (simp add: shape_def)
qed

lemma bump_request: "reqs (\<lambda>x. f x = Some b) [x] + g b = bump g (f x) b"
  by (cases "f x") auto

lemma push_sound:
  assumes "sound hf (bump E (rq_entry x)) (bump C (rq_config x)) (bump Z (rq_zone x)) (n + (if adds x then 1 else 0)) s"
    and "request_ok hf p x" and "p < MT_HASHTABLE_PARTITIONS"
  shows "sound hf E C Z n (push_todo p x s)"
proof -
  let ?l = "(todo s)[p := x # todo s ! p]"
  have sh: "length (todo s) = MT_HASHTABLE_PARTITIONS" "\<forall>p < length (todo s). \<forall>x \<in> set (todo s ! p). request_ok hf p x"
    using soundD(1) [OF assms(1)] by (simp_all add: shape_def)
  then have p: "p < length (todo s)" using assms(3) by simp
  have r: "reqs P (concat ?l) = reqs P [x] + reqs P (concat (todo s))" for P
    using reqs_concat_upd [OF p, of P "x # todo s ! p"] by simp
  have "\<forall>q < length ?l. \<forall>y \<in> set (?l ! q). request_ok hf q y"
    using sh(2) assms(2) p by (auto simp: nth_list_update split: if_splits)
  then have "sound hf E C Z n (s\<lparr>todo := ?l\<rparr>)"
    using sh(1) by (intro todo_sound [OF assms(1)]) (auto simp: r simp flip: bump_request)
  then show ?thesis by (simp add: push_todo_def)
qed

text \<open>Taking the requests of a partition: the references they hold are known to the loop that processes them.\<close>

definition with_reqs :: "('ip request \<Rightarrow> addr option) \<Rightarrow> 'ip request list \<Rightarrow> (addr \<Rightarrow> nat) \<Rightarrow> addr \<Rightarrow> nat" where
  "with_reqs f xs g b = reqs (\<lambda>x. f x = Some b) xs + g b"

lemma with_reqs_simps [simp]: "with_reqs f [] g = g" "with_reqs f (rev xs) g = with_reqs f xs g"
  by (simp_all add: with_reqs_def fun_eq_iff)

lemma with_reqs_Cons: "with_reqs f (x # xs) g = bump (with_reqs f xs g) (f x)"
proof
  fix b show "with_reqs f (x # xs) g b = bump (with_reqs f xs g) (f x) b"
    by (cases "f x") (simp_all add: with_reqs_def)
qed

lemma take_todo_sound:
  assumes "sound hf E C Z n s" and "p < MT_HASHTABLE_PARTITIONS"
  shows "sound hf (with_reqs rq_entry (todo s ! p) E) (with_reqs rq_config (todo s ! p) C) (with_reqs rq_zone (todo s ! p) Z)
    (n + reqs adds (todo s ! p)) (s\<lparr>todo := (todo s)[p := []]\<rparr>)"
proof -
  let ?l = "(todo s)[p := []]"
  have sh: "length (todo s) = MT_HASHTABLE_PARTITIONS" "\<forall>p < length (todo s). \<forall>x \<in> set (todo s ! p). request_ok hf p x"
    using soundD(1) [OF assms(1)] by (simp_all add: shape_def)
  then have p: "p < length (todo s)" using assms(2) by simp
  have r: "reqs P (concat (todo s)) = reqs P (concat ?l) + reqs P (todo s ! p)" for P
    using reqs_concat_upd [OF p, of P "[]"] by simp
  have "\<forall>q < length ?l. \<forall>y \<in> set (?l ! q). request_ok hf q y"
    using sh(2) p by (auto simp: nth_list_update split: if_splits)
  with sh(1) show ?thesis by (intro todo_sound [OF assms(1)]) (simp_all add: r with_reqs_def)
qed

section \<open>New objects and exchanged references\<close>

lemma new_ent_sound:
  assumes "sound hf E C Z n s" and "ents s a = None"
  shows "sound hf E C Z n (s\<lparr>ents := (ents s)(a \<mapsto> new_entry ip)\<rparr>)"
proof -
  let ?s = "s\<lparr>ents := (ents s)(a \<mapsto> new_entry ip)\<rparr>"
  have f: "finite (dom (ents s))" and ok: "\<forall>e \<in> ran (ents s). ent_ok e" using soundD(1) [OF assms(1)] by (simp_all add: shape_def)
  have "crefs ?s b = crefs s b" "zrefs ?s b = zrefs s b" "erefs ?s b = erefs s b" for b
    using crefs_ents [OF f, of a "Some (new_entry ip)" b] zrefs_ents [OF f, of a "Some (new_entry ip)" b] assms(2)
    by (simp_all add: new_entry_def erefs_def)
  moreover have "shape hf n ?s"
    using soundD(1) [OF assms(1)] ran_upd [OF ok, of "new_entry ip" a] by (simp add: shape_def ent_ok_def new_entry_def)
  moreover have "covered (\<lambda>b. erefs s b + E b) ((ents s)(a \<mapsto> new_entry ip))"
    by (rule covered_new [OF soundD(2) [OF assms(1)] assms(2)]) (simp add: new_entry_def)
  moreover have "erefs s a + E a = 0"
    using soundD(2) [OF assms(1)] assms(2) unfolding covered_def by (metis backed_simps(1))
  then have "control_config d \<noteq> None" if "ents ?s b = Some d" "0 < erefs s b + E b" for b d
    using that soundD(5) [OF assms(1), rule_format, of b] by (cases "b = a") auto
  ultimately show ?thesis using soundD(3,4) [OF assms(1)] by (intro soundI) simp_all
qed

lemma new_zone_sound:
  assumes "sound hf E C Z n s" and "zns s a = None" and "ref_count z = 0" and "names_ok z"
  shows "sound hf E C Z n (s\<lparr>zns := (zns s)(a \<mapsto> z)\<rparr>)"
proof -
  have ok: "\<forall>z \<in> ran (zns s). names_ok z" using soundD(1) [OF assms(1)] by (simp add: shape_def)
  have "covered (\<lambda>b. zrefs s b + Z b) ((zns s)(a \<mapsto> z))" by (rule covered_new [OF soundD(4) [OF assms(1)] assms(2,3)])
  moreover have "shape hf n (s\<lparr>zns := (zns s)(a \<mapsto> z)\<rparr>)"
    using soundD(1) [OF assms(1)] ran_upd [OF ok assms(4)] by (simp add: shape_def)
  ultimately show ?thesis using soundD(3) [OF assms(1)] by (intro soundI_same [OF assms(1)]) simp_all
qed

lemma put_zone_sound:
  assumes "sound hf E C Z n s" and "zns s a = Some z" and "ref_count z' = ref_count z" and "names_ok z'"
  shows "sound hf E C Z n (s\<lparr>zns := (zns s)(a \<mapsto> z')\<rparr>)"
proof -
  have ok: "\<forall>z \<in> ran (zns s). names_ok z" using soundD(1) [OF assms(1)] by (simp add: shape_def)
  have "covered (\<lambda>b. zrefs s b + Z b) ((zns s)(a \<mapsto> z'))"
    by (rule covered_upd [where c = z, OF soundD(4) [OF assms(1)] assms(2,3)])
  moreover have "shape hf n (s\<lparr>zns := (zns s)(a \<mapsto> z')\<rparr>)"
    using soundD(1) [OF assms(1)] ran_upd [OF ok assms(4)] by (simp add: shape_def)
  ultimately show ?thesis using soundD(3) [OF assms(1)] by (intro soundI_same [OF assms(1)]) simp_all
qed

text \<open>Moving references between the manager's own pointers and the ones others hold.\<close>

lemma zones_sound:
  assumes "sound hf E C Z n s" and "\<And>b. count_list l b + Z' b \<le> count_list (zones s) b + Z b"
  shows "sound hf E C Z' n (s\<lparr>zones := l\<rparr>)"
proof -
  have le: "zrefs (s\<lparr>zones := l\<rparr>) b + Z' b \<le> zrefs s b + Z b" for b using assms(2) [of b] by (simp add: zrefs_def)
  from covered_mono [OF soundD(4) [OF assms(1)] this] show ?thesis
    using soundD [OF assms(1)] by (intro soundI_same [OF assms(1)]) (simp_all add: shape_def)
qed

lemma config_sound:
  assumes "sound hf E C Z n s" and "\<And>b. (if p = Some b then 1 else 0) + C' b \<le> (if cm_config s = Some b then 1 else 0) + C b"
  shows "sound hf E C' Z n (s\<lparr>cm_config := p\<rparr>)"
proof -
  have le: "crefs (s\<lparr>cm_config := p\<rparr>) b + C' b \<le> crefs s b + C b" for b using assms(2) [of b] by (simp add: crefs_def)
  from covered_mono [OF soundD(3) [OF assms(1)] this] show ?thesis
    using soundD [OF assms(1)] by (intro soundI_same [OF assms(1)]) (simp_all add: shape_def)
qed

text \<open>An entry that gets another configuration or zone.\<close>

lemma exchange_config:
  assumes "sound hf E C Z n s" and "ents s a = Some e" and "control_config e = Some old" and "0 < C c"
  shows "\<exists>H1 H2 d. dec_ref (cfgs s) old = Some H1 \<and> inc_ref H1 c = Some H2 \<and> H2 c = Some d
    \<and> (\<forall>e'. control_config e' = Some c \<longrightarrow> zone_state e' = zone_state e \<longrightarrow> ref_count e' = ref_count e \<longrightarrow> ent_ok e'
       \<longrightarrow> sound hf E C Z n (s\<lparr>cfgs := H2, ents := (ents s)(a \<mapsto> e')\<rparr>))"
proof -
  have f: "finite (dom (ents s))" using soundD(1) [OF assms(1)] by (simp add: shape_def)
  define g where "g b = crefs (s\<lparr>ents := (ents s)(a := None)\<rparr>) b + C b" for b
  have g: "crefs s b + C b = g b + (if Some old = Some b then 1 else 0)" for b
    using crefs_ents [OF f, of a None b] assms(2,3) by (simp add: g_def split: if_splits)
  from covered_drop_opt [OF soundD(3) [OF assms(1)] g, of "\<lambda>_. True"] obtain H1 where H1:
    "dec_ref (cfgs s) old = Some H1" "covered g H1" by (auto simp: drop_opt_def)
  have "0 < g c" using assms(4) by (simp add: g_def)
  from coveredD [OF H1(2) this] obtain d0 where d0: "H1 c = Some d0" by blast
  from covered_inc [OF H1(2), of c] d0 obtain H2 where H2: "inc_ref H1 c = Some H2" "covered (g(c := Suc (g c))) H2" by auto
  from coveredD [OF H2(2), of c] obtain d where d: "H2 c = Some d" by auto
  have "sound hf E C Z n (s\<lparr>cfgs := H2, ents := (ents s)(a \<mapsto> e')\<rparr>)"
    if e': "control_config e' = Some c" "zone_state e' = zone_state e" "ref_count e' = ref_count e" "ent_ok e'" for e'
  proof -
    let ?s = "s\<lparr>cfgs := H2, ents := (ents s)(a \<mapsto> e')\<rparr>"
    have "crefs ?s b + C b = (g(c := Suc (g c))) b" for b
      using crefs_ents [OF f, of a None b] crefs_ents [OF f, of a "Some e'" b] e'(1) assms(2,3) by (auto simp: g_def crefs_def)
    then have eq: "(\<lambda>b. crefs ?s b + C b) = g(c := Suc (g c))" by blast
    have "covered (\<lambda>b. crefs ?s b + C b) H2" unfolding eq by (rule H2(2))
    moreover have "zrefs ?s b = zrefs s b" for b
      using zrefs_ents [OF f, of a "Some e'" b] e'(2) assms(2) by (simp add: zrefs_def)
    moreover have "erefs ?s b = erefs s b" for b by (simp add: erefs_def)
    moreover have "shape hf n ?s"
      using soundD(1) [OF assms(1)] ran_upd [of "ents s" ent_ok e' a] e'(4) by (simp add: shape_def)
    moreover have "covered (\<lambda>b. erefs s b + E b) ((ents s)(a \<mapsto> e'))"
      by (rule covered_upd [where c = e, OF soundD(2) [OF assms(1)] assms(2) e'(3)])
    moreover have "control_config d \<noteq> None" if "ents ?s b = Some d" "0 < erefs s b + E b" for b d
      using that soundD(5) [OF assms(1), rule_format, of b] e'(1) by (cases "b = a") auto
    ultimately show ?thesis using soundD(4) [OF assms(1)] by (intro soundI) simp_all
  qed
  with H1(1) H2(1) d show ?thesis by blast
qed

lemma exchange_zone:
  assumes "sound hf E C Z n s" and "ents s a = Some e" and "zone_state e = Some old" and "0 < Z c"
  shows "\<exists>H1 H2. dec_ref (zns s) old = Some H1 \<and> inc_ref H1 c = Some H2
    \<and> sound hf E C Z n (s\<lparr>zns := H2, ents := (ents s)(a \<mapsto> e\<lparr>zone_state := Some c\<rparr>)\<rparr>)"
proof -
  let ?e = "e\<lparr>zone_state := Some c\<rparr>"
  have f: "finite (dom (ents s))" and ok: "\<forall>e \<in> ran (ents s). ent_ok e" "\<forall>z \<in> ran (zns s). names_ok z"
    using soundD(1) [OF assms(1)] by (simp_all add: shape_def)
  define g where "g b = zrefs (s\<lparr>ents := (ents s)(a := None)\<rparr>) b + Z b" for b
  have g: "zrefs s b + Z b = g b + (if Some old = Some b then 1 else 0)" for b
    using zrefs_ents [OF f, of a None b] assms(2,3) by (simp add: g_def split: if_splits)
  from covered_drop_opt [OF soundD(4) [OF assms(1)] g names_ok_ref ok(2)] obtain H1 where H1:
    "dec_ref (zns s) old = Some H1" "covered g H1" "\<forall>z \<in> ran H1. names_ok z" by (auto simp: drop_opt_def)
  have "0 < g c" using assms(4) by (simp add: g_def)
  from coveredD [OF H1(2) this] obtain d0 where d0: "H1 c = Some d0" by blast
  from covered_inc [OF H1(2), of c] d0 obtain H2 where H2: "inc_ref H1 c = Some H2" "covered (g(c := Suc (g c))) H2" by auto
  let ?s = "s\<lparr>zns := H2, ents := (ents s)(a \<mapsto> ?e)\<rparr>"
  have "zrefs ?s b + Z b = (g(c := Suc (g c))) b" for b
    using zrefs_ents [OF f, of a None b] zrefs_ents [OF f, of a "Some ?e" b] assms(2,3) by (auto simp: g_def zrefs_def)
  then have eq: "(\<lambda>b. zrefs ?s b + Z b) = g(c := Suc (g c))" by blast
  have "covered (\<lambda>b. zrefs ?s b + Z b) H2" unfolding eq by (rule H2(2))
  moreover have "crefs ?s b = crefs s b" for b
    using crefs_ents [OF f, of a "Some ?e" b] assms(2) by (simp add: crefs_def)
  moreover have "erefs ?s b = erefs s b" for b by (simp add: erefs_def)
  moreover have "shape hf n ?s"
    using soundD(1) [OF assms(1)] ran_upd [OF ok(1), of ?e a] ok(1) assms(2) ran_inc [OF H2(1) names_ok_ref H1(3)]
    by (simp add: shape_def ent_ok_def ranI)
  moreover have "covered (\<lambda>b. erefs s b + E b) ((ents s)(a \<mapsto> ?e))"
    by (rule covered_upd [where c = e, OF soundD(2) [OF assms(1)] assms(2)]) simp
  moreover have "control_config d \<noteq> None" if "ents ?s b = Some d" "0 < erefs s b + E b" for b d
    using that soundD(5) [OF assms(1), rule_format, of b] assms(2) by (cases "b = a") auto
  ultimately have "sound hf E C Z n ?s" using soundD(3) [OF assms(1)] by (intro soundI) simp_all
  with H1(1) H2(1) show ?thesis by blast
qed

section \<open>Entries\<close>

lemma hist_init_turning: "turning (hist_init w h)"
  by (simp add: turning_def hist_init_def Let_def)

lemma slide_turning: "turning h \<Longrightarrow> \<exists>h'. slide t h = Some h' \<and> turning h'"
proof (induction "nat (t - hstart h - hlength h)" arbitrary: h rule: less_induct)
  case less
  define cur where "cur = (if CONG_HIST_ENTRIES = cur_index h + 1 then 0 else cur_index h + 1)"
  have c: "0 \<le> cur" "cur < 17" using less.prems by (auto simp: turning_def cur_def CONG_HIST_ENTRIES_def)
  with less.prems have b: "bin_at h cur = Some (bins h ! nat cur)" by (simp add: bin_at_def turning_def)
  define g where "g = h\<lparr>hstart := hstart h + bin_len h, cur_index := cur, hevents := hevents h - uint (bins h ! nat cur),
    bins := (bins h)[nat cur := 0]\<rparr>"
  have g: "turning g" "hstart g = hstart h + bin_len h" "hlength g = hlength h" using less.prems c by (simp_all add: turning_def g_def)
  have s: "slide t h = (if hstart g + hlength g < t then slide t g else Some g)"
    by (subst slide.simps) (simp add: b Let_def g_def flip: cur_def)
  show ?case
  proof (cases "hstart g + hlength g < t")
    case True
    then have "nat (t - hstart g - hlength g) < nat (t - hstart h - hlength h)"
      using g(2,3) less.prems by (simp add: turning_def)
    from less.hyps [OF this g(1)] s True show ?thesis by simp
  next
    case False
    with s g(1) show ?thesis by simp
  qed
qed

text \<open>Registering a failure in an initialised history ends, whatever the time.\<close>

lemma regist_turning:
  assumes "turning h"
  shows "\<exists>h' k. regist_event t n h = Some (h', k) \<and> turning h'"
proof -
  have h: "0 < bin_len h" "length (bins h) = 17" "0 \<le> cur_index h" "cur_index h < 17" using assms by (simp_all add: turning_def)
  consider "t < hstart h" | "hstart h \<le> t" "t > last_event h + hlength h"
    | "hstart h \<le> t" "t \<le> last_event h + hlength h" "t < hstart h + hlength h"
    | "hstart h \<le> t" "t \<le> last_event h + hlength h" "hstart h + hlength h \<le> t" by linarith
  then show ?thesis
  proof cases
    case 1
    then show ?thesis using assms by (simp add: regist_event_def)
  next
    case 2
    then show ?thesis using h by (simp add: regist_event_def init_event_def turning_def)
  next
    case 3
    let ?i = "((t - hstart h) sdiv bin_len h + 1 + cur_index h) smod CONG_HIST_ENTRIES"
    have "0 \<le> (t - hstart h) sdiv bin_len h" using 3(1) h(1) by (simp add: pos_sdiv pos_imp_zdiv_nonneg_iff)
    then have i: "0 \<le> ?i" "?i < 17" using h(3) by (simp_all add: pos_smod CONG_HIST_ENTRIES_def)
    then have b: "bin_at h ?i = Some (bins h ! nat ?i)" by (simp add: bin_at_def h(2))
    show ?thesis using 3 h b by (simp add: regist_event_def turning_def Let_def)
  next
    case 4
    from slide_turning [OF assms, of t] obtain g where g: "slide t h = Some g" "turning g" by blast
    then have b: "bin_at g (cur_index g) = Some (bins g ! nat (cur_index g))" by (simp add: bin_at_def turning_def)
    show ?thesis using 4 g b by (simp add: regist_event_def turning_def Let_def)
  qed
qed

text \<open>What the operations on an entry leave alone.\<close>

definition same_refs :: "'ip centry \<Rightarrow> 'ip centry \<Rightarrow> bool" where
  "same_refs e e' = (control_config e' = control_config e \<and> zone_state e' = zone_state e \<and> ref_count e' = ref_count e
     \<and> (ent_ok e \<longrightarrow> ent_ok e'))"

lemma same_refs_flags [simp]:
  "same_refs e (set_dead_congested us e)" "same_refs e (set_dead_free_alive_congested us e)" "same_refs e (set_all_congested_free e)"
  "same_refs e (set_detect_congested us e)" "same_refs e (set_alive_congested_free (set_detect_congested_free e))"
  "same_refs e (set_alive_congested us e)" "same_refs e (set_alive_congested_free e)" "same_refs e (set_dead_congested_free e)"
  by (simp_all add: same_refs_def flag_defs ent_ok_def Let_def)

lemma same_refs_first [simp]: "same_refs e (first_flags E st e)"
  by (cases st) (simp_all add: first_flags_def same_refs_def [of e e])

lemma same_refs_trans: "same_refs d e \<Longrightarrow> same_refs e f \<Longrightarrow> same_refs d f"
  by (simp add: same_refs_def)

lemma alive_failed_total:
  assumes "turning (alive_hist e)" and "control_config e \<noteq> None"
  shows "\<exists>e'. set_alive_failed_at c l t e = Some e' \<and> same_refs e e'"
proof -
  let ?e = "e\<lparr>stat_alive_failures := stat_alive_failures e + 1\<rparr>"
  from regist_turning [OF assms(1), of "hrtime_to_sec t" 1] obtain h k where
    "regist_event (hrtime_to_sec t) 1 (alive_hist ?e) = Some (h, k)" "turning h" by auto
  then show ?thesis using assms(2) by (auto simp: set_alive_failed_at_def same_refs_def ent_ok_def Let_def)
qed

lemma check_alive_total:
  assumes "ent_ok e" and "control_config e = Some a" and "C a = Some c"
  shows "\<exists>e'. check_and_set_alive C l now us e = Some e' \<and> same_refs e e'"
proof -
  have t: "turning (alive_hist e)" "control_config e \<noteq> None" using assms by (simp_all add: ent_ok_def)
  from alive_failed_total [OF t, of c l now] obtain e' where e': "set_alive_failed_at c l now e = Some e'" "same_refs e e'" by blast
  then have "same_refs e (set_dead_free_alive_congested us e')" by (blast intro: same_refs_trans same_refs_flags)
  with e'(1) assms(2,3) show ?thesis by (auto simp: check_and_set_alive_def same_refs_def [of e e])
qed

lemma reset_refs: "control_config (reset_fail_history c e) = control_config e" "zone_state (reset_fail_history c e) = zone_state e"
    "ref_count (reset_fail_history c e) = ref_count e" "ent_ok (reset_fail_history c e)"
  by (simp_all add: reset_fail_history_def Let_def ent_ok_def hist_init_turning)

lemma adjust_refs: "same_refs e (adjust_alive us c aft (adjust_dead us c cft e))"
proof -
  have "same_refs e (adjust_dead us c cft e)" for e :: "'a centry"
    by (simp add: adjust_dead_def) (simp add: same_refs_def)
  moreover have "same_refs e (adjust_alive us c aft e)" for e :: "'a centry"
    by (simp add: adjust_alive_def) (simp add: same_refs_def)
  ultimately show ?thesis by (blast intro: same_refs_trans)
qed

lemma put_same:
  assumes "sound hf E C Z n s" and "ents s a = Some e" and "same_refs e e'"
  shows "sound hf E C Z n (s\<lparr>ents := (ents s)(a \<mapsto> e')\<rparr>)"
proof -
  have "\<forall>e \<in> ran (ents s). ent_ok e" using soundD(1) [OF assms(1)] by (simp add: shape_def)
  then have "ent_ok e" using assms(2) by (blast intro: ranI)
  with assms show ?thesis by (intro put_ent_sound [OF assms(1,2)]) (simp_all add: same_refs_def)
qed

lemma upd_same:
  assumes "sound hf E C Z n s" and "0 < erefs s a + E a" and "\<And>e. same_refs e (f e)"
  shows "\<exists>H. upd_ent a f s = Some (s\<lparr>ents := H\<rparr>) \<and> sound hf E C Z n (s\<lparr>ents := H\<rparr>)"
proof -
  obtain e where e: "ents s a = Some e" using ent_live [OF assms(1,2)] by blast
  with put_same [OF assms(1) e assms(3)] show ?thesis by (auto simp: upd_ent_def)
qed

section \<open>The entries of a partition\<close>

lemma in_content:
  assumes "sound hf E C Z n s" and "mt_content (table s) x = Some (Some a)"
  shows "0 < erefs s a"
  using holders_pos [OF finite_table [OF assms(1)] assms(2)] by (simp add: erefs_def)

lemma part_facts:
  assumes "sound hf E C Z n s" and "p < MT_HASHTABLE_PARTITIONS"
  shows "p < length (table s)" "part_at (table s) p = Some (table s ! p)" "imt_ok (table s ! p)" "filled (table s ! p)"
    "bucket_num (table s ! p) < 2 ^ 62" "cur_size (table s ! p) + int (n + reqs adds (concat (todo s))) < 2 ^ 62"
    "\<And>c. c \<in> set (elems (table s ! p)) \<Longrightarrow> part_num (fst (ident c)) = p \<and> mt_content (table s) (ident c) = Some (edata c)"
proof -
  have f: "mt_fits (n + reqs adds (concat (todo s))) (table s)" "homed (table s)" "None \<notin> ran (mt_content (table s))"
    using soundD(1) [OF assms(1)] by (simp_all add: shape_def)
  show p: "p < length (table s)" using f(1) assms(2) by (simp add: mt_fits_def)
  then show "part_at (table s) p = Some (table s ! p)" by (simp add: part_at_def)
  have m: "table s ! p \<in> set (table s)" using p by simp
  with f(1) show ok: "imt_ok (table s ! p)" and "bucket_num (table s ! p) < 2 ^ 62"
    "cur_size (table s ! p) + int (n + reqs adds (concat (todo s))) < 2 ^ 62" by (simp_all add: mt_fits_def)
  show c: "part_num (fst (ident c)) = p \<and> mt_content (table s) (ident c) = Some (edata c)" if "c \<in> set (elems (table s ! p))" for c
  proof -
    have "tab (table s ! p) (ident c) = Some (edata c)" unfolding tab_iff [OF ok] using that by blast
    with homedD [OF f(2) p, of "ident c"] show ?thesis by (simp add: mt_content_def)
  qed
  show "filled (table s ! p)"
    unfolding filled_def
  proof
    fix c assume "c \<in> set (elems (table s ! p))"
    with c f(3) show "edata c \<noteq> None" by (metis ranI)
  qed
qed

text \<open>Removing the entry an iterator is on.\<close>

lemma remove_at_sound:
  assumes "sound hf E C Z n s" and "p < MT_HASHTABLE_PARTITIONS" and "stands (table s ! p) it"
  shows "\<exists>t' c a. mt_remove_at (table s) p it = Some (Some a, (table s)[p := t']) \<and> edata c = Some a
    \<and> rest (table s ! p) it = c # rest t' it \<and> (\<exists>b i. placed_at t' it b i) \<and> filled t'
    \<and> sound hf (bump E (Some a)) C Z n (s\<lparr>table := (table s)[p := t']\<rparr>)"
proof -
  note pf = part_facts [OF assms(1,2)]
  from mt_remove_rest [OF pf(2,3) assms(3)] obtain t' c where t': "mt_remove_at (table s) p it = Some (edata c, (table s)[p := t'])"
    "rest (table s ! p) it = c # rest t' it" "imt_ok t'" "\<exists>b i. placed_at t' it b i" "tab t' = (tab (table s ! p))(ident c := None)"
    "c \<in> set (elems (table s ! p))" "bucket_num t' = bucket_num (table s ! p)" "cur_size t' = cur_size (table s ! p) - 1"
    "mset (elems (table s ! p)) = add_mset c (mset (elems t'))" by blast
  have c: "part_num (fst (ident c)) = p" "mt_content (table s) (ident c) = Some (edata c)" using pf(7) [OF t'(6)] by blast+
  obtain a where a: "edata c = Some a" using pf(4) t'(6) by (auto simp: filled_def)
  have fill: "filled t'" using pf(4) t'(9) by (metis filled_def set_mset_mset set_mset_add_mset_insert insert_iff)
  let ?m = "n + reqs adds (concat (todo s))" and ?T = "(table s)[p := t']"
  have f: "mt_fits ?m (table s)" "homed (table s)" "None \<notin> ran (mt_content (table s))"
    using soundD(1) [OF assms(1)] by (simp_all add: shape_def)
  have tab': "tab t' = (tab (table s ! part_num (fst (ident c))))(ident c := None)" using t'(5) c(1) by simp
  have num: "bucket_num t' < 2 ^ 62" "cur_size t' + int ?m < 2 ^ 62" using t'(7,8) pf(5,6) by simp_all
  note u = mt_update [OF f(1) order_refl t'(3) num tab', unfolded c(1)]
  have h: "homed ?T" by (rule homed_upd [OF f(2) tab' [unfolded c(1)]]) (simp add: c(1))
  have "erefs (s\<lparr>table := ?T\<rparr>) b + bump E (Some a) b \<le> erefs s b + E b" for b
    using erefs_table [OF assms(1) u(2), of b] c(2) a by auto
  moreover have "None \<notin> ran (mt_content ?T)" using u(2) f(3) by (auto simp: ran_def split: if_splits)
  ultimately have "sound hf (bump E (Some a)) C Z n (s\<lparr>table := ?T\<rparr>)"
    by (intro table_sound [OF assms(1) u(1) h])
  with t'(1,2,4) a fill show ?thesis by auto
qed

text \<open>The state behind an operation that changes neither the table nor the to-do lists.\<close>

lemma frame_table: "frame s s' \<Longrightarrow> table s' = table s"
  by (simp add: frame_def)

definition frame_t :: "'ip cmgr \<Rightarrow> 'ip cmgr \<Rightarrow> bool" where
  "frame_t s s' = (todo s' = todo s \<and> zones s' = zones s \<and> cm_config s' = cm_config s \<and> cm_inited s' = cm_inited s \<and> rw_held s' = rw_held s)"

lemma frame_frame_t: "frame s s' \<Longrightarrow> frame_t s s'"
  by (simp add: frame_def frame_t_def)

lemma frame_t_trans [trans]: "frame_t s t \<Longrightarrow> frame_t t u \<Longrightarrow> frame_t s u"
  by (simp add: frame_t_def)

lemma clear_loop_sound:
  assumes "p < MT_HASHTABLE_PARTITIONS"
  shows "sound hf E C Z n s \<Longrightarrow> rest (table s ! p) it \<noteq> [] \<longrightarrow> stands (table s ! p) it \<Longrightarrow>
    mset (rest (table s ! p) it) = mset (elems (table s ! p)) \<Longrightarrow> length (rest (table s ! p) it) \<le> k \<Longrightarrow>
    \<exists>s'. clear_loop k p (head_data (rest (table s ! p) it)) it s = Some s' \<and> sound hf E C Z n s' \<and> frame_t s s'
      \<and> elems (table s' ! p) = []"
proof (induction k arbitrary: s it)
  case 0
  then have "elems (table s ! p) = []" by simp
  with 0 show ?case by (simp add: frame_t_def)
next
  case (Suc k)
  show ?case
  proof (cases "rest (table s ! p) it = []")
    case True
    with Suc.prems have "elems (table s ! p) = []" by simp
    with True Suc.prems(1) show ?thesis by (simp add: frame_t_def)
  next
    case False
    with Suc.prems(2) have st: "stands (table s ! p) it" by blast
    have mid: "mset (rest t' it) = mset (elems t')" if "rest (table s ! p) it = c # rest t' it"
      "mset (elems (table s ! p)) = add_mset c (mset (elems t'))" for t' c
      using that Suc.prems(3) by simp
    have pf: "part_at (table s) p = Some (table s ! p)" "imt_ok (table s ! p)" "p < length (table s)"
      using part_facts [OF Suc.prems(1) assms] by simp_all
    from remove_at_sound [OF Suc.prems(1) assms st] obtain t' c a b i where t':
      "mt_remove_at (table s) p it = Some (Some a, (table s)[p := t'])" "edata c = Some a"
      "rest (table s ! p) it = c # rest t' it" "placed_at t' it b i" "filled t'"
      "sound hf (bump E (Some a)) C Z n (s\<lparr>table := (table s)[p := t']\<rparr>)" by blast
    have rem: "mset (elems (table s ! p)) = add_mset c (mset (elems t'))"
    proof -
      from mt_remove_rest [OF pf(1,2) st] obtain t'' c' where "mt_remove_at (table s) p it = Some (edata c', (table s)[p := t''])"
        "rest (table s ! p) it = c' # rest t'' it" "mset (elems (table s ! p)) = add_mset c' (mset (elems t''))" by blast
      moreover from this(1) t'(1) have "(table s)[p := t''] = (table s)[p := t']" by simp
      then have "t'' = t'" using pf(3) by (metis nth_list_update_eq)
      ultimately show ?thesis using t'(3) by simp
    qed
    let ?s = "s\<lparr>table := (table s)[p := t']\<rparr>"
    from discard_sound [OF t'(6)] obtain s1 where s1: "discard a ?s = Some s1" "sound hf E C Z n s1" "frame ?s s1" by blast
    then have T: "table s1 = (table s)[p := t']" "table s1 ! p = t'" using pf(3) by (simp_all add: frame_def)
    have pf1: "part_at (table s1) p = Some t'" using part_facts(2) [OF s1(2) assms] T(2) by simp
    from mt_cur_rest [OF pf1 t'(4,5)] obtain it' where it': "mt_cur (table s1) p it = Some (head_data (rest t' it), it')"
      "rest t' it' = rest t' it" "rest t' it \<noteq> [] \<longrightarrow> stands t' it'" by blast
    have "\<exists>s'. clear_loop k p (head_data (rest (table s1 ! p) it')) it' s1 = Some s' \<and> sound hf E C Z n s' \<and> frame_t s1 s'
      \<and> elems (table s' ! p) = []"
      using it'(2,3) T(2) mid [OF t'(3) rem] Suc.prems(4) t'(3) by (intro Suc.IH [OF s1(2)]) simp_all
    then obtain s' where s': "clear_loop k p (head_data (rest t' it)) it' s1 = Some s'" "sound hf E C Z n s'" "frame_t s1 s'"
      "elems (table s' ! p) = []" using it'(2) T(2) by auto
    have "frame_t s s'" using s1(3) s'(3) by (simp add: frame_def frame_t_def)
    then show ?thesis using s' s1(1) it'(1) t'(1,2,3) T(1) by (intro exI [of _ s']) simp
  qed
qed

lemma clear_part_sound:
  assumes "sound hf E C Z n s" and "p < MT_HASHTABLE_PARTITIONS"
  shows "\<exists>s'. clear_part p s = Some s' \<and> sound hf E C Z n s' \<and> frame_t s s' \<and> elems (table s' ! p) = []"
proof -
  note pf = part_facts [OF assms]
  from mt_first_rest [OF pf(2-4), of new_iter] obtain it where it: "mt_first (table s) p new_iter = Some (head_data (elems (table s ! p)), it)"
    "rest (table s ! p) it = elems (table s ! p)" "elems (table s ! p) \<noteq> [] \<longrightarrow> stands (table s ! p) it" by blast
  have "part_size p s = length (elems (table s ! p))" using pf(2) by (simp add: part_size_def)
  with clear_loop_sound [OF assms(2,1), of it "part_size p s"] it show ?thesis by (simp add: clear_part_def)
qed

text \<open>The loop that validates the entries of a partition, for a validation \<open>f\<close> that does not fail, keeps
  \<open>I\<close> and establishes \<open>Q\<close> for the entry for good.\<close>

lemma recheck_loop_all:
  assumes "p < MT_HASHTABLE_PARTITIONS" and "part_at T p = Some t" and "filled t"
    and f: "\<And>a s. I s \<Longrightarrow> Some a \<in> edata ` set (elems t) \<Longrightarrow> \<exists>s'. f a s = Some (OB_SUCCESS, s') \<and> table s' = table s \<and> I s' \<and> Q a s'
      \<and> (\<forall>b. Q b s \<longrightarrow> Q b s')"
  shows "I s \<Longrightarrow> table s = T \<Longrightarrow> rest t it \<noteq> [] \<longrightarrow> stands t it \<Longrightarrow> set (rest t it) \<subseteq> set (elems t) \<Longrightarrow> length (rest t it) \<le> k \<Longrightarrow>
    \<exists>s'. recheck_loop f k p (head_data (rest t it)) it OB_SUCCESS s = Some (OB_SUCCESS, s') \<and> I s' \<and> table s' = T
      \<and> (\<forall>c \<in> set (rest t it). Q (the (edata c)) s') \<and> (\<forall>b. Q b s \<longrightarrow> Q b s')"
proof (induction k arbitrary: s it)
  case 0
  then show ?case by simp
next
  case (Suc k)
  show ?case
  proof (cases "rest t it = []")
    case True
    with Suc.prems show ?thesis by simp
  next
    case False
    with Suc.prems(3) have st: "stands t it" by blast
    obtain a c cs where c: "rest t it = c # cs" "edata c = Some a" using head_data_cons [OF assms(3) st] by blast
    then have "Some a \<in> edata ` set (elems t)" using Suc.prems(4) by (metis image_eqI list.set_intros(1) subsetD)
    from f [OF Suc.prems(1) this] obtain s1 where s1: "f a s = Some (OB_SUCCESS, s1)" "table s1 = T" "I s1" "Q a s1" "\<forall>b. Q b s \<longrightarrow> Q b s1"
      using Suc.prems(2) by auto
    from mt_next_rest [OF assms(2) st assms(3)] c(1) obtain it' where it': "mt_next T p it = Some (head_data cs, it')"
      "rest t it' = cs" "cs \<noteq> [] \<longrightarrow> stands t it'" by auto
    have "\<exists>s'. recheck_loop f k p (head_data (rest t it')) it' OB_SUCCESS s1 = Some (OB_SUCCESS, s') \<and> I s' \<and> table s' = T
      \<and> (\<forall>c \<in> set (rest t it'). Q (the (edata c)) s') \<and> (\<forall>b. Q b s1 \<longrightarrow> Q b s')"
      using it' Suc.prems(4,5) c(1) by (intro Suc.IH [OF s1(3,2)]) auto
    then obtain s' where s': "recheck_loop f k p (head_data cs) it' OB_SUCCESS s1 = Some (OB_SUCCESS, s')" "I s'" "table s' = T"
      "\<forall>c \<in> set cs. Q (the (edata c)) s'" "\<forall>b. Q b s1 \<longrightarrow> Q b s'" using it'(2) by auto
    moreover have "recheck_loop f (Suc k) p (head_data (rest t it)) it OB_SUCCESS s = Some (OB_SUCCESS, s')"
      using s1(1,2) it'(1) s'(1) c by simp
    ultimately show ?thesis using s1(4,5) c by auto
  qed
qed

lemma recheck_part:
  assumes "sound hf E C Z n s" and "p < MT_HASHTABLE_PARTITIONS" and "I s"
    and f: "\<And>a s'. I s' \<Longrightarrow> table s' = table s \<Longrightarrow> Some a \<in> edata ` set (elems (table s ! p)) \<Longrightarrow>
      \<exists>s''. f a s' = Some (OB_SUCCESS, s'') \<and> table s'' = table s' \<and> I s'' \<and> Q a s'' \<and> (\<forall>b. Q b s' \<longrightarrow> Q b s'')"
  shows "\<exists>cur it s'. mt_first (table s) p new_iter = Some (cur, it)
    \<and> recheck_loop f (part_size p s) p cur it OB_SUCCESS s = Some (OB_SUCCESS, s') \<and> I s' \<and> table s' = table s
    \<and> (\<forall>c \<in> set (elems (table s ! p)). Q (the (edata c)) s') \<and> (\<forall>b. Q b s \<longrightarrow> Q b s')"
proof -
  note pf = part_facts [OF assms(1,2)]
  from mt_first_rest [OF pf(2-4), of new_iter] obtain it where it: "mt_first (table s) p new_iter = Some (head_data (elems (table s ! p)), it)"
    "rest (table s ! p) it = elems (table s ! p)" "elems (table s ! p) \<noteq> [] \<longrightarrow> stands (table s ! p) it" by blast
  have n: "part_size p s = length (elems (table s ! p))" using pf(2) by (simp add: part_size_def)
  have "\<exists>s'. recheck_loop f (part_size p s) p (head_data (rest (table s ! p) it)) it OB_SUCCESS s = Some (OB_SUCCESS, s')
      \<and> (I s' \<and> table s' = table s) \<and> table s' = table s
      \<and> (\<forall>c \<in> set (rest (table s ! p) it). Q (the (edata c)) s') \<and> (\<forall>b. Q b s \<longrightarrow> Q b s')"
    by (rule recheck_loop_all [OF assms(2) pf(2,4), where I = "\<lambda>s'. I s' \<and> table s' = table s"]; (use f assms(3) it n in fastforce)?)
  with it show ?thesis by auto
qed

section \<open>Revalidation\<close>

lemma validate_config_sound:
  assumes "sound hf E C Z n s" and "0 < C c" and "0 < erefs s a + E a"
  shows "\<exists>e' s'. validate_config_at V c a s = Some (OB_SUCCESS, s') \<and> sound hf E C Z n s' \<and> frame s s'
    \<and> ents s' = (ents s)(a \<mapsto> e') \<and> control_config e' = Some c \<and> server_ip e' = server_ip (the (ents s a))"
proof -
  obtain e where e: "ents s a = Some e" "ent_ok e" "control_config e \<noteq> None" using ent_live [OF assms(1,3)] by blast
  then obtain old where old: "control_config e = Some old" by blast
  have f: "finite (dom (ents s))" using soundD(1) [OF assms(1)] by (simp add: shape_def)
  have pos_c0: "0 < crefs s old + C old" using holders_pos [OF f e(1), of "\<lambda>e. control_config e = Some old"] old by (simp add: crefs_def)
  obtain c0 where c0: "cfgs s old = Some c0" using cfg_live [OF assms(1) pos_c0] by blast
  have pos_c1: "0 < crefs s c + C c" using assms(2) by simp
  obtain c1 where c1: "cfgs s c = Some c1" using cfg_live [OF assms(1) pos_c1] by blast
  from exchange_config [OF assms(1) e(1) old assms(2)] obtain H1 H2 d where x: "dec_ref (cfgs s) old = Some H1"
    "inc_ref H1 c = Some H2" "H2 c = Some d"
    "\<And>e'. control_config e' = Some c \<Longrightarrow> zone_state e' = zone_state e \<Longrightarrow> ref_count e' = ref_count e \<Longrightarrow> ent_ok e'
       \<Longrightarrow> sound hf E C Z n (s\<lparr>cfgs := H2, ents := (ents s)(a \<mapsto> e')\<rparr>)" by blast
  let ?e = "e\<lparr>control_config := Some c\<rparr>"
  let ?r = "reset_fail_history d ?e"
    and ?k = "adjust_alive (now_us V) d (alive_failure_threshold c0) (adjust_dead (now_us V) d (conn_failure_threshold c0) ?e)"
  have ok: "ent_ok ?e" using e(2) old by (simp add: ent_ok_def)
  have r: "control_config ?r = Some c" "zone_state ?r = zone_state e" "ref_count ?r = ref_count e" "ent_ok ?r"
    by (simp_all add: reset_refs)
  have k: "control_config ?k = Some c" "zone_state ?k = zone_state e" "ref_count ?k = ref_count e" "ent_ok ?k"
    using adjust_refs [of ?e "now_us V" d] ok by (simp_all add: same_refs_def)
  have ip: "server_ip ?r = server_ip e" "server_ip ?k = server_ip e"
    by (simp_all add: reset_fail_history_def adjust_alive_def adjust_dead_def flag_defs Let_def)
  show ?thesis
  proof (cases "fail_window_sec c0 \<noteq> fail_window_sec c1")
    case True
    then have "validate_config_at V c a s = Some (OB_SUCCESS, s\<lparr>cfgs := H2, ents := (ents s)(a \<mapsto> ?r)\<rparr>)"
      using e(1) old c0 c1 x(1-3) by (simp add: validate_config_at_def validate_config_def apply_new_config_def)
    with x(4) [OF r] r(1) ip(1) e(1) show ?thesis by (intro exI [of _ ?r]) (auto simp: frame_def)
  next
    case False
    then have "validate_config_at V c a s = Some (OB_SUCCESS, s\<lparr>cfgs := H2, ents := (ents s)(a \<mapsto> ?k)\<rparr>)"
      using e(1) old c0 c1 x(1-3) by (simp add: validate_config_at_def validate_config_def apply_new_config_def Let_def)
    with x(4) [OF k] k(1) ip(2) e(1) show ?thesis by (intro exI [of _ ?k]) (auto simp: frame_def)
  qed
qed

lemma elems_held:
  assumes "sound hf E C Z n s" and "p < MT_HASHTABLE_PARTITIONS" and "Some a \<in> edata ` set (elems (table s ! p))"
  shows "0 < erefs s a"
  using part_facts(7) [OF assms(1,2)] assms(3) in_content [OF assms(1)] by (metis imageE)

text \<open>After a revalidation every entry of the partition has the configuration.\<close>

definition configured :: "addr \<Rightarrow> 'ip cmgr \<Rightarrow> addr \<Rightarrow> bool" where
  "configured c s a = (\<exists>e. ents s a = Some e \<and> control_config e = Some c)"

lemma configured_cfgs [simp]: "configured c (s\<lparr>cfgs := H\<rparr>) a = configured c s a"
  by (simp add: configured_def)

lemma bucket_config_sound:
  assumes "sound hf E (bump C (Some c)) Z n s" and "p < MT_HASHTABLE_PARTITIONS"
  shows "\<exists>s'. revalidate_bucket_config V p (Some c) s = Some (OB_SUCCESS, s') \<and> sound hf E C Z n s' \<and> frame s s'
    \<and> (\<forall>a. Some a \<in> edata ` set (elems (table s ! p)) \<longrightarrow> configured c s' a) \<and> (\<forall>a. configured c s a \<longrightarrow> configured c s' a)"
proof -
  define Q where "Q a s = configured c s a" for a and s :: "'a cmgr"
  define I where "I s' = (sound hf E (bump C (Some c)) Z n s' \<and> frame s s')" for s'
  have step: "\<exists>s''. validate_config_at V c a s' = Some (OB_SUCCESS, s'') \<and> table s'' = table s' \<and> I s'' \<and> Q a s'' \<and> (\<forall>b. Q b s' \<longrightarrow> Q b s'')"
    if "I s'" "table s' = table s" "Some a \<in> edata ` set (elems (table s ! p))" for a s'
  proof -
    have i: "sound hf E (bump C (Some c)) Z n s'" "frame s s'" using that(1) by (simp_all add: I_def)
    have "0 < erefs s' a" using elems_held [OF i(1) assms(2)] that(2,3) by simp
    then have "0 < erefs s' a + E a" by simp
    from validate_config_sound [OF i(1) _ this, of c V] obtain e' s'' where "validate_config_at V c a s' = Some (OB_SUCCESS, s'')"
      "sound hf E (bump C (Some c)) Z n s''" "frame s' s''" "ents s'' = (ents s')(a \<mapsto> e')" "control_config e' = Some c" by auto
    then show ?thesis using frame_trans [OF i(2)] frame_table [of s' s''] by (auto simp: I_def Q_def configured_def)
  qed
  have "I s" using assms(1) by (simp add: I_def)
  from recheck_part [where I = I and Q = Q and f = "validate_config_at V c", OF assms this step] obtain cur it s' where
    s': "mt_first (table s) p new_iter = Some (cur, it)"
    "recheck_loop (validate_config_at V c) (part_size p s) p cur it OB_SUCCESS s = Some (OB_SUCCESS, s')" "I s'"
    "\<forall>c \<in> set (elems (table s ! p)). Q (the (edata c)) s'" "\<forall>b. Q b s \<longrightarrow> Q b s'" by blast
  from s'(3) have i: "sound hf E (bump C (Some c)) Z n s'" "frame s s'" by (simp_all add: I_def)
  from cfg_dec_sound [OF i(1)] obtain H where H: "cfg_dec c s' = Some (s'\<lparr>cfgs := H\<rparr>)" "sound hf E C Z n (s'\<lparr>cfgs := H\<rparr>)" by blast
  have "revalidate_bucket_config V p (Some c) s = Some (OB_SUCCESS, s'\<lparr>cfgs := H\<rparr>)"
    using s'(1,2) H(1) by (simp add: revalidate_bucket_config_def)
  moreover have "frame s (s'\<lparr>cfgs := H\<rparr>)" using i(2) by (simp add: frame_def)
  moreover have "configured c (s'\<lparr>cfgs := H\<rparr>) a"
    if a: "Some a \<in> edata ` set (elems (table s ! p))" for a
  proof -
    from a obtain x where "x \<in> set (elems (table s ! p))" "edata x = Some a" by (metis imageE)
    with s'(4) show ?thesis by (auto simp: Q_def)
  qed
  moreover have "configured c s a \<longrightarrow> configured c (s'\<lparr>cfgs := H\<rparr>) a" for a using s'(5) by (simp add: Q_def)
  ultimately show ?thesis using H(2) by blast
qed

text \<open>The zone an entry gets: the new one exactly when it has the same name and is not deleted.\<close>

lemma validate_zone_sound:
  assumes "sound hf E C Z n s" and "0 < Z z" and "0 < erefs s a + E a"
  shows "\<exists>e' s'. validate_zone_at z a s = Some (OB_SUCCESS, s') \<and> sound hf E C Z n s' \<and> frame s s' \<and> ents s' = (ents s)(a \<mapsto> e')
    \<and> (zone_state e' = zone_state (the (ents s a)) \<or> zone_state e' = Some z)"
proof -
  obtain e where e: "ents s a = Some e" using ent_live [OF assms(1,3)] by blast
  have f: "finite (dom (ents s))" using soundD(1) [OF assms(1)] by (simp add: shape_def)
  have pos_z1: "0 < zrefs s z + Z z" using assms(2) by simp
  obtain z1 where z1: "zns s z = Some z1" using zn_live [OF assms(1) pos_z1] by blast
  have same: "s\<lparr>zns := zns s, ents := (ents s)(a \<mapsto> e)\<rparr> = s" using e by (simp add: fun_upd_idem)
  show ?thesis
  proof (cases "zone_state e")
    case None
    then have "validate_zone_at z a s = Some (OB_SUCCESS, s)"
      using e same by (simp add: validate_zone_at_def validate_zone_def apply_new_zone_state_def)
    then show ?thesis using assms(1) e by (intro exI [of _ e] exI [of _ s]) (simp add: fun_upd_idem)
  next
    case (Some old)
    have pos_z0: "0 < zrefs s old + Z old" using holders_pos [OF f e, of "\<lambda>e. zone_state e = Some old"] Some by (simp add: zrefs_def)
  obtain z0 where z0: "zns s old = Some z0" using zn_live [OF assms(1) pos_z0] by blast
    show ?thesis
    proof (cases "old \<noteq> z \<and> zone_name z0 = zone_name z1 \<and> zstatus z1 \<noteq> Z_DELETED")
      case False
      then have "validate_zone_at z a s = Some (OB_SUCCESS, s)"
        using e same Some z0 z1 by (auto simp: validate_zone_at_def validate_zone_def apply_new_zone_state_def)
      then show ?thesis using assms(1) e by (intro exI [of _ e] exI [of _ s]) (simp add: fun_upd_idem)
    next
      case True
      from exchange_zone [OF assms(1) e Some assms(2)] obtain H1 H2 where x: "dec_ref (zns s) old = Some H1" "inc_ref H1 z = Some H2"
        "sound hf E C Z n (s\<lparr>zns := H2, ents := (ents s)(a \<mapsto> e\<lparr>zone_state := Some z\<rparr>)\<rparr>)" by blast
      have "validate_zone_at z a s = Some (OB_SUCCESS, s\<lparr>zns := H2, ents := (ents s)(a \<mapsto> e\<lparr>zone_state := Some z\<rparr>)\<rparr>)"
        using e Some z0 z1 True x(1,2) by (simp add: validate_zone_at_def validate_zone_def apply_new_zone_state_def)
      with x(3) show ?thesis by (intro exI [of _ "e\<lparr>zone_state := Some z\<rparr>"]) (auto simp: frame_def)
    qed
  qed
qed

lemma bucket_zone_sound:
  assumes "sound hf E C (bump Z (Some z)) n s" and "p < MT_HASHTABLE_PARTITIONS"
  shows "\<exists>s'. revalidate_bucket_zone p (Some z) s = Some (OB_SUCCESS, s') \<and> sound hf E C Z n s' \<and> frame s s'"
proof -
  define I where "I s' = (sound hf E C (bump Z (Some z)) n s' \<and> frame s s')" for s'
  have step: "\<exists>s''. validate_zone_at z a s' = Some (OB_SUCCESS, s'') \<and> table s'' = table s' \<and> I s'' \<and> True \<and> (\<forall>b. True \<longrightarrow> True)"
    if "I s'" "table s' = table s" "Some a \<in> edata ` set (elems (table s ! p))" for a s'
  proof -
    have i: "sound hf E C (bump Z (Some z)) n s'" "frame s s'" using that(1) by (simp_all add: I_def)
    have "0 < erefs s' a" using elems_held [OF i(1) assms(2)] that(2,3) by simp
    then have "0 < erefs s' a + E a" by simp
    from validate_zone_sound [OF i(1) _ this, of z] obtain e' s'' where "validate_zone_at z a s' = Some (OB_SUCCESS, s'')"
      "sound hf E C (bump Z (Some z)) n s''" "frame s' s''" by auto
    then show ?thesis using frame_trans [OF i(2)] frame_table [of s' s''] by (auto simp: I_def)
  qed
  have "I s" using assms(1) by (simp add: I_def)
  from recheck_part [where I = I and Q = "\<lambda>_ _. True" and f = "validate_zone_at z", OF assms this step] obtain cur it s' where
    s': "mt_first (table s) p new_iter = Some (cur, it)"
    "recheck_loop (validate_zone_at z) (part_size p s) p cur it OB_SUCCESS s = Some (OB_SUCCESS, s')" "I s'" by blast
  from s'(3) have i: "sound hf E C (bump Z (Some z)) n s'" "frame s s'" by (simp_all add: I_def)
  from zn_dec_sound [OF i(1)] obtain H where H: "zn_dec z s' = Some (s'\<lparr>zns := H\<rparr>)" "sound hf E C Z n (s'\<lparr>zns := H\<rparr>)" by blast
  have "revalidate_bucket_zone p (Some z) s = Some (OB_SUCCESS, s'\<lparr>zns := H\<rparr>)"
    using s'(1,2) H(1) by (simp add: revalidate_bucket_zone_def)
  moreover have "frame s (s'\<lparr>zns := H\<rparr>)" using i(2) by (simp add: frame_def)
  ultimately show ?thesis using H(2) by blast
qed

end
