(* ===== verification/CongestionOps.thy ===== *)
theory CongestionOps
  imports CongestionSafety
begin

text \<open>
  The operations of the congestion manager keep the references sound (\<open>CongestionSafety\<close>): configuration, zones,
  servers, the to-do lists.
\<close>

section \<open>Zones\<close>

lemma zone_listed:
  assumes "sound hf E C Z n s" and "a \<in> set (zones s)"
  shows "\<exists>z. zns s a = Some z \<and> names_ok z"
proof -
  have "count_list (zones s) a \<noteq> 0" using assms(2) by (simp add: count_list_0_iff)
  then have "0 < zrefs s a + Z a" by (simp add: zrefs_def)
  then show ?thesis by (rule zn_live [OF assms(1)])
qed

lemma find_zone_total:
  "\<forall>a \<in> set l. Z a \<noteq> None \<Longrightarrow> \<exists>r. find_zone Z zname k l = Some r \<and> (\<forall>j. r = Some j \<longrightarrow> k \<le> j \<and> j < k + length l)"
proof (induction l arbitrary: k)
  case Nil
  then show ?case by simp
next
  case (Cons a l)
  then obtain z where z: "Z a = Some z" by auto
  from Cons.IH [of "k + 1"] Cons.prems obtain r where "find_zone Z zname (k + 1) l = Some r"
    "\<forall>j. r = Some j \<longrightarrow> k + 1 \<le> j \<and> j < k + 1 + length l" by auto
  with z show ?case by auto
qed

lemma find_zone_sound:
  assumes "sound hf E C Z n s"
  shows "\<exists>r. find_zone (zns s) zname 0 (zones s) = Some r
    \<and> (\<forall>j. r = Some j \<longrightarrow> j < length (zones s) \<and> (\<exists>z. zns s (zones s ! j) = Some z \<and> names_ok z))"
proof -
  have "\<forall>a \<in> set (zones s). zns s a \<noteq> None" using zone_listed [OF assms] by blast
  from find_zone_total [OF this, of zname 0] obtain r where r: "find_zone (zns s) zname 0 (zones s) = Some r"
    "\<forall>j. r = Some j \<longrightarrow> j < length (zones s)" by auto
  moreover have "\<exists>z. zns s (zones s ! j) = Some z \<and> names_ok z" if "j < length (zones s)" for j
    using zone_listed [OF assms] that by simp
  ultimately show ?thesis by blast
qed

lemma get_zone_sound:
  assumes "sound hf E C Z n s" and "\<not> rw_held s"
  shows "\<exists>p s'. get_zone_state zname s = Some (p, s') \<and> sound hf E C (bump Z p) n s' \<and> frame s s'"
proof -
  obtain r where r: "find_zone (zns s) zname 0 (zones s) = Some r"
    "\<forall>j. r = Some j \<longrightarrow> j < length (zones s) \<and> (\<exists>z. zns s (zones s ! j) = Some z \<and> names_ok z)"
    using find_zone_sound [OF assms(1)] by blast
  show ?thesis
  proof (cases r)
    case None
    with r(1) assms show ?thesis by (simp add: get_zone_state_def)
  next
    case (Some j)
    with r(2) obtain z where "zns s (zones s ! j) = Some z" by blast
    from zn_inc_sound [OF assms(1) this] obtain H where "zn_inc (zones s ! j) s = Some (s\<lparr>zns := H\<rparr>)"
      "sound hf E C (bump Z (Some (zones s ! j))) n (s\<lparr>zns := H\<rparr>)" by blast
    with r(1) Some assms(2) show ?thesis by (auto simp: get_zone_state_def frame_def simp del: bump_simps)
  qed
qed

text \<open>What the operations below keep.\<close>

definition keeps :: "'ip cmgr \<Rightarrow> 'ip cmgr \<Rightarrow> bool" where
  "keeps s s' = (cm_config s' = cm_config s \<and> cm_inited s' = cm_inited s \<and> rw_held s' = rw_held s)"

lemma keeps_refl [simp]: "keeps s s"
  by (simp add: keeps_def)

lemma keeps_trans [trans]: "keeps s t \<Longrightarrow> keeps t u \<Longrightarrow> keeps s u"
  by (simp add: keeps_def)

lemma frame_keeps: "frame s s' \<Longrightarrow> keeps s s'" and frame_t_keeps: "frame_t s s' \<Longrightarrow> keeps s s'"
  by (simp_all add: frame_def frame_t_def keeps_def)

text \<open>
  The runner works on every sound state, but while \<open>rw_lock_\<close> is held only when no server is pending, because
  adding a server takes the lock.
\<close>

definition no_server :: "'ip request list \<Rightarrow> bool" where
  "no_server l = (\<forall>x \<in> set l. rq_op x \<noteq> REVALIDATE_SERVER)"

definition calm :: "'ip env \<Rightarrow> 'ip cmgr \<Rightarrow> bool" where
  "calm V s = (\<forall>p < MT_HASHTABLE_PARTITIONS. part_free V p \<longrightarrow> no_server (todo s ! p))"

lemma no_server_Nil [simp]: "no_server []"
  by (simp add: no_server_def)

lemma calmD: "calm V s \<Longrightarrow> p < MT_HASHTABLE_PARTITIONS \<Longrightarrow> part_free V p \<Longrightarrow> no_server (todo s ! p)"
  by (simp add: calm_def)

lemma calm_same: "calm V s \<Longrightarrow> todo s' = todo s \<Longrightarrow> calm V s'"
  by (simp add: calm_def)

lemma calm_upd: "calm V s \<Longrightarrow> todo s' = (todo s)[p := l] \<Longrightarrow> part_free V p \<longrightarrow> no_server l \<Longrightarrow> calm V s'"
  unfolding calm_def by (metis list_update_beyond not_less nth_list_update)

definition runs :: "('ip \<Rightarrow> u64) \<Rightarrow> 'ip env \<Rightarrow> 'ip runner \<Rightarrow> bool" where
  "runs hf V run = (\<forall>E C Z n s p. sound hf E C Z n s \<longrightarrow> p < MT_HASHTABLE_PARTITIONS \<longrightarrow> part_free V p \<longrightarrow> cm_config s \<noteq> None
     \<longrightarrow> (rw_held s \<longrightarrow> no_server (todo s ! p))
     \<longrightarrow> (\<exists>s'. run V p s = Some (OB_SUCCESS, s') \<and> sound hf E C Z n s' \<and> keeps s s' \<and> todo s' = (todo s)[p := []]))"

lemma runsD:
  assumes "runs hf V run" and "sound hf E C Z n s" and "p < MT_HASHTABLE_PARTITIONS" and "part_free V p" and "cm_config s \<noteq> None"
    and "rw_held s \<Longrightarrow> no_server (todo s ! p)"
  shows "\<exists>s'. run V p s = Some (OB_SUCCESS, s') \<and> sound hf E C Z n s' \<and> keeps s s' \<and> todo s' = (todo s)[p := []]"
  using assms(1) [unfolded runs_def, rule_format, OF assms(2-6)] .

lemma todo_length: "sound hf E C Z n s \<Longrightarrow> length (todo s) = MT_HASHTABLE_PARTITIONS"
  by (simp add: sound_def shape_def)

lemma new_request_simps [simp]: "rq_entry (new_request V) = None" "rq_zone (new_request V) = None" "rq_config (new_request V) = None"
  by (simp_all add: new_request_def)

lemma sound_for_parts:
  assumes step: "\<And>p s. p \<in> set ps \<Longrightarrow> sound hf E C Z n s \<Longrightarrow> cm_config s \<noteq> None \<Longrightarrow> J s \<Longrightarrow>
      \<exists>ret s'. f p s = Some (ret, s') \<and> sound hf E C Z n s' \<and> keeps s s' \<and> J s'"
  shows "sound hf E C Z n s \<Longrightarrow> cm_config s \<noteq> None \<Longrightarrow> J s \<Longrightarrow>
    \<exists>ret s'. for_parts f ps s = Some (ret, s') \<and> sound hf E C Z n s' \<and> keeps s s'"
  using step
proof (induction ps arbitrary: s)
  case Nil
  then show ?case by simp
next
  case (Cons p ps)
  from Cons.prems(4) [of p s] Cons.prems(1-3) obtain ret s1 where s1: "f p s = Some (ret, s1)" "sound hf E C Z n s1" "keeps s s1" "J s1" by auto
  show ?case
  proof (cases "ret = OB_SUCCESS")
    case False
    with s1 show ?thesis by auto
  next
    case True
    have "cm_config s1 \<noteq> None" using s1(3) Cons.prems(2) by (simp add: keeps_def)
    from Cons.IH [OF s1(2) this s1(4)] Cons.prems(4) obtain ret' s' where "for_parts f ps s1 = Some (ret', s')" "sound hf E C Z n s'" "keeps s1 s'"
      by auto
    with s1 True show ?thesis by (auto intro: keeps_trans)
  qed
qed

lemma push_keeps: "keeps s (push_todo p x s)"
  by (simp add: keeps_def push_todo_def)

text \<open>A request to all partitions: it is carried out where the partition is free, and put on the list elsewhere.\<close>

lemma each_part_sound:
  assumes "runs hf V run" and "sound hf E C Z n s" and "cm_config s \<noteq> None" and "rw_held s \<longrightarrow> calm V s"
    and inc: "\<And>s. sound hf E C Z n s \<Longrightarrow> \<exists>s'. inc s = Some s' \<and> sound hf E C' Z' n s' \<and> frame s s'"
    and bucket: "\<And>p s. p < MT_HASHTABLE_PARTITIONS \<Longrightarrow> sound hf E C' Z' n s \<Longrightarrow>
      \<exists>ret s'. bucket p s = Some (ret, s') \<and> sound hf E C Z n s' \<and> frame s s'"
    and push: "\<And>p s. p < MT_HASHTABLE_PARTITIONS \<Longrightarrow> sound hf E C' Z' n s \<Longrightarrow> sound hf E C Z n (push_todo p (x p) s)"
  shows "\<exists>ret s'. for_parts (\<lambda>i s.
              if part_free V i then do {
                (ret, s) \<leftarrow> run V i s;
                (if ret \<noteq> OB_SUCCESS then Some (ret, s) else do { s \<leftarrow> inc s; bucket i s })
              } else
                (case mem_alloc s of
                   (False, s) \<Rightarrow> Some (OB_ALLOCATE_MEMORY_FAILED, s)
                 | (True, s) \<Rightarrow> do { s \<leftarrow> inc s; Some (OB_SUCCESS, push_todo i (x i) s) }))
      [0..<MT_HASHTABLE_PARTITIONS] s = Some (ret, s') \<and> sound hf E C Z n s' \<and> keeps s s'"
proof (rule sound_for_parts [where J = "\<lambda>s. rw_held s \<longrightarrow> calm V s", OF _ assms(2-4)], goal_cases)
  case (1 p s)
  then have p: "p < MT_HASHTABLE_PARTITIONS" by simp
  show ?case
  proof (cases "part_free V p")
    case True
    have "no_server (todo s ! p)" if "rw_held s" using 1(4) that calmD [OF _ p True] by blast
    from runsD [OF assms(1) 1(2) p True 1(3) this] obtain s1 where s1: "run V p s = Some (OB_SUCCESS, s1)" "sound hf E C Z n s1" "keeps s s1"
      "todo s1 = (todo s)[p := []]" by blast
    from inc [OF s1(2)] obtain s2 where s2: "inc s1 = Some s2" "sound hf E C' Z' n s2" "frame s1 s2" by blast
    from bucket [OF p s2(2)] obtain ret s3 where s3: "bucket p s2 = Some (ret, s3)" "sound hf E C Z n s3" "frame s2 s3" by blast
    have t: "todo s3 = (todo s)[p := []]" and k: "keeps s s3" using s1(3,4) s2(3) s3(3) by (simp_all add: frame_def keeps_def)
    have "rw_held s3 \<longrightarrow> calm V s3" using k 1(4) calm_upd [OF _ t] by (simp add: keeps_def)
    with True s1(1) s2(1) s3(1,2) k show ?thesis by simp
  next
    case False
    obtain q l where q: "mem_alloc s = (q, s\<lparr>fresh := l\<rparr>)" using mem_alloc_fresh [of s] by blast
    have k: "keeps s (s\<lparr>fresh := l\<rparr>)" and sl: "sound hf E C Z n (s\<lparr>fresh := l\<rparr>)" using 1(2) by (simp_all add: keeps_def)
    from inc [OF sl] obtain s1 where s1: "inc (s\<lparr>fresh := l\<rparr>) = Some s1" "sound hf E C' Z' n s1" "frame (s\<lparr>fresh := l\<rparr>) s1" by blast
    let ?u = "push_todo p (x p) s1"
    have t: "todo ?u = (todo s)[p := x p # todo s ! p]" and k': "keeps s ?u" using s1(3) by (simp_all add: frame_def keeps_def push_todo_def)
    have "rw_held ?u \<longrightarrow> calm V ?u" using k' 1(4) False calm_upd [OF _ t] by (simp add: keeps_def)
    moreover have "rw_held s \<longrightarrow> calm V (s\<lparr>fresh := l\<rparr>)" using 1(4) calm_same [of V s "s\<lparr>fresh := l\<rparr>"] by simp
    ultimately show ?thesis using push [OF p s1(2)] False q k k' sl s1(1) by (cases q) auto
  qed
qed

lemma revalidate_config_sound:
  assumes "runs hf V run" and "sound hf E (bump C (Some c)) Z n s" and "cm_config s \<noteq> None" and "rw_held s \<longrightarrow> calm V s"
  shows "\<exists>ret s'. revalidate_config run V (Some c) s = Some (ret, s') \<and> sound hf E C Z n s' \<and> keeps s s'"
proof -
  let ?C = "bump C (Some c)" and ?x = "\<lambda>_. (new_request V)\<lparr>rq_op := REVALIDATE_BUCKET_CONFIG, rq_config := Some c\<rparr>"
  have inc: "\<exists>s'. cfg_inc c s = Some s' \<and> sound hf E (bump ?C (Some c)) Z n s' \<and> frame s s'"
    if s: "sound hf E ?C Z n s" for s
  proof -
    have "0 < crefs s c + ?C c" by simp
    from cfg_live [OF s this] obtain d where "cfgs s c = Some d" by blast
    from cfg_inc_sound [OF s this] show ?thesis by (auto simp: frame_def simp del: bump_simps)
  qed
  have bucket: "\<exists>ret s'. revalidate_bucket_config V p (Some c) s = Some (ret, s') \<and> sound hf E ?C Z n s' \<and> frame s s'"
    if "p < MT_HASHTABLE_PARTITIONS" "sound hf E (bump ?C (Some c)) Z n s" for p s
    using bucket_config_sound [OF that(2,1), of V] by blast
  have push: "sound hf E ?C Z n (push_todo p (?x p) s)" if "p < MT_HASHTABLE_PARTITIONS" "sound hf E (bump ?C (Some c)) Z n s" for p s
    using that by (intro push_sound) (simp_all add: adds_def request_ok_def del: bump_simps(2))
  from each_part_sound [where inc = "cfg_inc c" and bucket = "\<lambda>p. revalidate_bucket_config V p (Some c)" and x = ?x,
      OF assms inc bucket push] obtain ret s1 where s1:
    "for_parts (config_part run V c) [0..<MT_HASHTABLE_PARTITIONS] s = Some (ret, s1)" "sound hf E ?C Z n s1" "keeps s s1" unfolding config_part_def [abs_def] by blast
  from cfg_dec_sound [OF s1(2)] obtain H where "cfg_dec c s1 = Some (s1\<lparr>cfgs := H\<rparr>)" "sound hf E C Z n (s1\<lparr>cfgs := H\<rparr>)" by blast
  with s1(1,3) show ?thesis by (simp add: revalidate_config_def keeps_def)
qed

lemma revalidate_zone_sound:
  assumes "runs hf V run" and "sound hf E C (bump Z (Some z)) n s" and "cm_config s \<noteq> None" and "rw_held s \<longrightarrow> calm V s"
  shows "\<exists>ret s'. revalidate_zone run V (Some z) s = Some (ret, s') \<and> sound hf E C Z n s' \<and> keeps s s'"
proof -
  let ?Z = "bump Z (Some z)" and ?x = "\<lambda>_. (new_request V)\<lparr>rq_op := REVALIDATE_BUCKET_ZONE, rq_zone := Some z\<rparr>"
  have inc: "\<exists>s'. zn_inc z s = Some s' \<and> sound hf E C (bump ?Z (Some z)) n s' \<and> frame s s'"
    if s: "sound hf E C ?Z n s" for s
  proof -
    have "0 < zrefs s z + ?Z z" by simp
    from zn_live [OF s this] obtain d where "zns s z = Some d" by blast
    from zn_inc_sound [OF s this] show ?thesis by (auto simp: frame_def simp del: bump_simps)
  qed
  have bucket: "\<exists>ret s'. revalidate_bucket_zone p (Some z) s = Some (ret, s') \<and> sound hf E C ?Z n s' \<and> frame s s'"
    if "p < MT_HASHTABLE_PARTITIONS" "sound hf E C (bump ?Z (Some z)) n s" for p s
    using bucket_zone_sound [OF that(2,1)] by blast
  have push: "sound hf E C ?Z n (push_todo p (?x p) s)" if "p < MT_HASHTABLE_PARTITIONS" "sound hf E C (bump ?Z (Some z)) n s" for p s
    using that by (intro push_sound) (simp_all add: adds_def request_ok_def del: bump_simps(2))
  from each_part_sound [where inc = "zn_inc z" and bucket = "\<lambda>p. revalidate_bucket_zone p (Some z)" and x = ?x,
      OF assms inc bucket push] obtain ret s1 where s1:
    "for_parts (zone_part run V z) [0..<MT_HASHTABLE_PARTITIONS] s = Some (ret, s1)" "sound hf E C ?Z n s1" "keeps s s1" unfolding zone_part_def [abs_def] by blast
  from zn_dec_sound [OF s1(2)] obtain H where "zn_dec z s1 = Some (s1\<lparr>zns := H\<rparr>)" "sound hf E C Z n (s1\<lparr>zns := H\<rparr>)" by blast
  with s1(1,3) show ?thesis by (simp add: revalidate_zone_def keeps_def)
qed

text \<open>Replacing the configuration of the manager.\<close>

lemma swap_config_sound:
  assumes "sound hf E C Z n s" and "cfgs s c = Some c1" and "cm_config s = Some old"
  obtains H G K where "cfg_inc c s = Some (s\<lparr>cfgs := H\<rparr>)" "cfg_dec old (s\<lparr>cfgs := H\<rparr>) = Some (s\<lparr>cfgs := G\<rparr>)"
    "sound hf E C Z n (s\<lparr>cfgs := G, cm_config := Some c\<rparr>)"
    "cfg_inc c (s\<lparr>cfgs := G, cm_config := Some c\<rparr>) = Some (s\<lparr>cfgs := K, cm_config := Some c\<rparr>)"
    "sound hf E (bump C (Some c)) Z n (s\<lparr>cfgs := K, cm_config := Some c\<rparr>)"
proof -
  from cfg_inc_sound [OF assms(1,2)] obtain H where H: "cfg_inc c s = Some (s\<lparr>cfgs := H\<rparr>)"
    "sound hf E (bump C (Some c)) Z n (s\<lparr>cfgs := H\<rparr>)" by blast
  let ?t = "s\<lparr>cfgs := H\<rparr>\<lparr>cm_config := None\<rparr>"
  have "sound hf E (bump (bump C (Some c)) (Some old)) Z n ?t" by (rule config_sound [OF H(2)]) (simp add: assms(3))
  from cfg_dec_sound [OF this] obtain G where G: "cfg_dec old ?t = Some (?t\<lparr>cfgs := G\<rparr>)"
    "sound hf E (bump C (Some c)) Z n (?t\<lparr>cfgs := G\<rparr>)" by blast
  then have dec: "cfg_dec old (s\<lparr>cfgs := H\<rparr>) = Some (s\<lparr>cfgs := G\<rparr>)"
    by (auto simp: cfg_dec_def dest: arg_cong [where f = cfgs])
  let ?u = "s\<lparr>cfgs := G, cm_config := Some c\<rparr>"
  have u: "sound hf E C Z n ?u" using config_sound [OF G(2), of "Some c" C] by simp
  have "0 < crefs ?u c + C c" by (simp add: crefs_def)
  from cfg_live [OF u this] obtain d where d: "cfgs ?u c = Some d" by blast
  from cfg_inc_sound [OF u d] obtain K where K: "cfg_inc c ?u = Some (?u\<lparr>cfgs := K\<rparr>)"
    "sound hf E (bump C (Some c)) Z n (?u\<lparr>cfgs := K\<rparr>)" by blast
  have "?u\<lparr>cfgs := K\<rparr> = s\<lparr>cfgs := K, cm_config := Some c\<rparr>" by simp
  with that [OF H(1) dec u, of K] K show thesis by (simp only:)
qed

lemma change_config_sound:
  assumes "runs hf V run" and "sound hf E C Z n s" and "0 < C c" and "is_init \<or> cm_config s = None \<or> calm V s"
  shows "\<exists>ret s'. change_config run V c is_init s = Some (ret, s') \<and> sound hf E C Z n s'
    \<and> cm_inited s' = cm_inited s \<and> (cm_config s \<noteq> None \<longrightarrow> cm_config s' \<noteq> None)"
proof -
  from assms(3) have "0 < crefs s c + C c" by simp
  from cfg_live [OF assms(2) this] obtain c1 where c1: "cfgs s c = Some c1" by blast
  show ?thesis
  proof (cases "cm_config s")
    case None
    from cfg_inc_sound [OF assms(2) c1] obtain H where H: "cfg_inc c s = Some (s\<lparr>cfgs := H\<rparr>)" "sound hf E (bump C (Some c)) Z n (s\<lparr>cfgs := H\<rparr>)" by blast
    have "sound hf E C Z n (s\<lparr>cfgs := H\<rparr>\<lparr>cm_config := Some c\<rparr>)" by (rule config_sound [OF H(2)]) (simp add: None)
    with H(1) None show ?thesis by (simp add: change_config_def)
  next
    case (Some old)
    have "0 < crefs s old + C old" using Some by (simp add: crefs_def)
    from cfg_live [OF assms(2) this] obtain c0 where c0: "cfgs s old = Some c0" by blast
    show ?thesis
    proof (cases "config_eq c0 c1")
      case True
      with c0 c1 Some assms(2) show ?thesis by (simp add: change_config_def)
    next
      case False
      obtain H G K where x: "cfg_inc c s = Some (s\<lparr>cfgs := H\<rparr>)" "cfg_dec old (s\<lparr>cfgs := H\<rparr>) = Some (s\<lparr>cfgs := G\<rparr>)"
        "sound hf E C Z n (s\<lparr>cfgs := G, cm_config := Some c\<rparr>)"
        "cfg_inc c (s\<lparr>cfgs := G, cm_config := Some c\<rparr>) = Some (s\<lparr>cfgs := K, cm_config := Some c\<rparr>)"
        "sound hf E (bump C (Some c)) Z n (s\<lparr>cfgs := K, cm_config := Some c\<rparr>)" by (rule swap_config_sound [OF assms(2) c1 Some])
      show ?thesis
      proof (cases is_init)
        case True
        with c0 c1 Some False x(1-3) show ?thesis by (simp add: change_config_def)
      next
        case init: False
        let ?u = "s\<lparr>cfgs := K, cm_config := Some c\<rparr>"
        have "calm V s" using assms(4) init Some by simp
        then have "rw_held ?u \<longrightarrow> calm V ?u" using calm_same [of V s ?u] by simp
        moreover have "cm_config ?u \<noteq> None" by simp
        ultimately obtain ret s' where "revalidate_config run V (Some c) ?u = Some (ret, s')" "sound hf E C Z n s'" "keeps ?u s'"
          using revalidate_config_sound [OF assms(1) x(5)] by blast
        with c0 c1 Some False init x(1,2,4) show ?thesis by (simp add: change_config_def keeps_def)
      qed
    qed
  qed
qed

lemma update_config_sound:
  assumes "runs hf V run" and "sound hf E C Z n s" and "\<forall>c. config = Some c \<longrightarrow> 0 < C c" and "\<not> rw_held s"
    and "is_init \<or> cm_config s = None \<or> calm V s"
  shows "\<exists>ret s'. update_congestion_config run V config is_init s = Some (ret, s') \<and> sound hf E C Z n s' \<and> cm_inited s' = cm_inited s
    \<and> \<not> rw_held s' \<and> (cm_config s \<noteq> None \<longrightarrow> cm_config s' \<noteq> None)"
proof (cases "\<not> cm_inited s \<or> config = None")
  case True
  with assms(2,4) show ?thesis by (auto simp: update_congestion_config_def split: option.splits)
next
  case False
  then obtain c where c: "config = Some c" "cm_inited s" by blast
  let ?s = "s\<lparr>rw_held := True\<rparr>"
  have s: "sound hf E C Z n ?s" "0 < C c" using assms(2,3) c(1) by simp_all
  have "is_init \<or> cm_config ?s = None \<or> calm V ?s" using assms(5) calm_same [of V s ?s] by auto
  from change_config_sound [OF assms(1) s this] c assms(4) show ?thesis by (auto simp: update_congestion_config_def with_wrlock_def)
qed

text \<open>Adding or replacing a zone.  A sound state allows the zones of the array to be exchanged for others
  that are referenced.\<close>

lemma renew_zone_sound:
  assumes "sound hf E C Z n s" and "zns s a = Some z"
  shows "\<exists>H. renew_zone V a s = Some (s\<lparr>zns := H\<rparr>) \<and> sound hf E C Z n (s\<lparr>zns := H\<rparr>)"
proof -
  have "\<forall>z \<in> ran (zns s). names_ok z" using soundD(1) [OF assms(1)] by (simp add: shape_def)
  with assms(2) have "names_ok z" by (blast intro: ranI)
  then have "sound hf E C Z n (s\<lparr>zns := (zns s)(a \<mapsto> z\<lparr>zone_revalidate_us := now_us V\<rparr>)\<rparr>)"
    by (intro put_zone_sound [OF assms]) (simp_all add: names_ok_def)
  with assms(2) show ?thesis by (auto simp: renew_zone_def)
qed

lemma zn_inc_iff: "zn_inc a s = Some (s\<lparr>zns := H\<rparr>) \<longleftrightarrow> inc_ref (zns s) a = Some H"
    and zn_dec_iff: "zn_dec a s = Some (s\<lparr>zns := H\<rparr>) \<longleftrightarrow> dec_ref (zns s) a = Some H"
    and renew_zone_iff: "renew_zone V a s = Some (s\<lparr>zns := H\<rparr>) \<longleftrightarrow>
      map_option (\<lambda>z. (zns s)(a \<mapsto> z\<lparr>zone_revalidate_us := now_us V\<rparr>)) (zns s a) = Some H"
  by (auto simp: renew_zone_def zn_inc_def zn_dec_def dest: arg_cong [where f = zns])

lemma count_list_split:
  assumes "j < length l"
  shows "count_list (take j l @ drop (Suc j) l) b + (if l ! j = b then 1 else 0) = count_list l b"
    and "count_list (l[j := a]) b = count_list (take j l @ drop (Suc j) l) b + (if a = b then 1 else 0)"
proof -
  have "count_list l b = count_list (take j l @ l ! j # drop (Suc j) l) b" using id_take_nth_drop [OF assms] by simp
  then show "count_list (take j l @ drop (Suc j) l) b + (if l ! j = b then 1 else 0) = count_list l b" by simp
  show "count_list (l[j := a]) b = count_list (take j l @ drop (Suc j) l) b + (if a = b then 1 else 0)"
    by (simp add: upd_conv_take_nth_drop [OF assms])
qed

definition names_fit :: "u8 list \<Rightarrow> u8 list \<Rightarrow> bool" where
  "names_fit zname rname = (length zname \<le> MAX_ZONE_LENGTH \<and> length rname \<le> MAX_REGION_LENGTH)"

lemma new_zone_fit:
  assumes "names_fit zname rname"
  obtains z where "new_zone zname rname st = Some z" "ref_count z = 0" "names_ok z" "zone_name z = zname"
  using assms by (simp add: new_zone_def names_fit_def names_ok_def)

text \<open>A new zone that gets a reference and a time.\<close>

lemma fresh_zone_sound:
  assumes "sound hf E C Z n s" and "zns s a = Some z"
  shows "\<exists>H H'. zn_inc a s = Some (s\<lparr>zns := H\<rparr>) \<and> renew_zone V a (s\<lparr>zns := H\<rparr>) = Some (s\<lparr>zns := H'\<rparr>)
    \<and> sound hf E C (bump Z (Some a)) n (s\<lparr>zns := H'\<rparr>)"
proof -
  from zn_inc_sound [OF assms] obtain H where H: "zn_inc a s = Some (s\<lparr>zns := H\<rparr>)" "sound hf E C (bump Z (Some a)) n (s\<lparr>zns := H\<rparr>)" by blast
  have "0 < zrefs (s\<lparr>zns := H\<rparr>) a + bump Z (Some a) a" by simp
  from zn_live [OF H(2) this] obtain z' where "zns (s\<lparr>zns := H\<rparr>) a = Some z'" by blast
  from renew_zone_sound [OF H(2) this, of V] H(1) show ?thesis by auto
qed

lemma changed_zone_sound:
  assumes "sound hf E C Z n s" and "names_fit zname rname" and "\<forall>i. j = Some i \<longrightarrow> i < length (zones s)"
    and "is_init \<or> runs hf V run \<and> cm_config s \<noteq> None \<and> calm V s"
  shows "\<exists>ret s'. handle_changed_zone run V zname rname st is_init j s = Some (ret, s') \<and> sound hf E C Z n s' \<and> keeps s s'
    \<and> (is_init \<longrightarrow> todo s' = todo s)"
proof -
  obtain p l where p: "op_alloc (zns s) s = (p, s\<lparr>fresh := l\<rparr>)" "\<forall>a. p = Some a \<longrightarrow> zns s a = None"
    using op_alloc_fresh [of "zns s" s] by blast
  let ?s = "s\<lparr>fresh := l\<rparr>"
  have s: "sound hf E C Z n ?s" using assms(1) by simp
  obtain z where z: "new_zone zname rname st = Some z" "ref_count z = 0" "names_ok z" by (rule new_zone_fit [OF assms(2)])
  show ?thesis
  proof (cases p)
    case None
    with p(1) assms(1) show ?thesis by (simp add: handle_changed_zone_def keeps_def)
  next
    case (Some a)
    then have free: "zns ?s a = None" using p(2) by simp
    let ?s1 = "?s\<lparr>zns := (zns ?s)(a \<mapsto> z)\<rparr>"
    have s1: "sound hf E C Z n ?s1" by (rule new_zone_sound [OF s free z(2,3)])
    show ?thesis
    proof (cases j)
      case None
      show ?thesis
      proof (cases "length (zones s) < MAX_ZONE_NUM")
        case False
        with p(1) Some None z(1) s1 show ?thesis by (simp add: handle_changed_zone_def keeps_def)
      next
        case True
        have za: "zns ?s1 a = Some z" by simp
        from fresh_zone_sound [OF s1 za, of V] obtain H H' where H: "zn_inc a ?s1 = Some (?s1\<lparr>zns := H\<rparr>)"
          "renew_zone V a (?s1\<lparr>zns := H\<rparr>) = Some (?s1\<lparr>zns := H'\<rparr>)" "sound hf E C (bump Z (Some a)) n (?s1\<lparr>zns := H'\<rparr>)" by blast
        have "sound hf E C Z n ((?s1\<lparr>zns := H'\<rparr>)\<lparr>zones := zones s @ [a]\<rparr>)" by (rule zones_sound [OF H(3)]) auto
        with p(1) Some None z(1) True H(1,2) show ?thesis by (simp add: handle_changed_zone_def keeps_def)
      qed
    next
      case j: (Some i)
      with assms(3) have i: "i < length (zones s)" by simp
      let ?l = "take i (zones s) @ drop (Suc i) (zones s)" and ?old = "zones s ! i"
      have "count_list ?l b + bump Z (Some ?old) b \<le> count_list (zones ?s1) b + Z b" for b
        using count_list_split(1) [OF i, of b] by (cases "b = ?old") auto
      from zones_sound [OF s1 this] have "sound hf E C (bump Z (Some ?old)) n (?s1\<lparr>zones := ?l\<rparr>)" .
      let ?t = "?s1\<lparr>zones := ?l\<rparr>"
      from zn_dec_sound [OF \<open>sound hf E C (bump Z (Some ?old)) n ?t\<close>] obtain G where
        G: "zn_dec ?old ?t = Some (?t\<lparr>zns := G\<rparr>)" "sound hf E C Z n (?t\<lparr>zns := G\<rparr>)" by blast
      then have d: "dec_ref (zns ?s1) ?old = Some G" unfolding zn_dec_iff by simp
      then have dec: "zn_dec ?old ?s1 = Some (?s1\<lparr>zns := G\<rparr>)" unfolding zn_dec_iff .
      have "zns s ?old \<noteq> None" using zone_listed [OF assms(1), of ?old] i by force
      then have "a \<noteq> ?old" using free by auto
      then have "zns (?t\<lparr>zns := G\<rparr>) a = Some z" using dec_ref_other [OF d] by simp
      from fresh_zone_sound [OF G(2) this, of V] obtain H H' where
        "zn_inc a (?t\<lparr>zns := G\<rparr>) = Some (?t\<lparr>zns := G\<rparr>\<lparr>zns := H\<rparr>)"
        "renew_zone V a (?t\<lparr>zns := G\<rparr>\<lparr>zns := H\<rparr>) = Some (?t\<lparr>zns := G\<rparr>\<lparr>zns := H\<rparr>\<lparr>zns := H'\<rparr>)"
        and H: "sound hf E C (bump Z (Some a)) n (?t\<lparr>zns := G\<rparr>\<lparr>zns := H'\<rparr>)" by auto
      then have inc: "zn_inc a (?s1\<lparr>zns := G\<rparr>) = Some (?s1\<lparr>zns := G\<rparr>\<lparr>zns := H\<rparr>)"
        "renew_zone V a (?s1\<lparr>zns := G\<rparr>\<lparr>zns := H\<rparr>) = Some (?s1\<lparr>zns := G\<rparr>\<lparr>zns := H\<rparr>\<lparr>zns := H'\<rparr>)"
        unfolding zn_inc_iff renew_zone_iff by simp_all
      let ?u = "?s1\<lparr>zns := H', zones := (zones s)[i := a]\<rparr>"
      have "count_list ((zones s)[i := a]) b + Z b \<le> count_list (zones (?t\<lparr>zns := G\<rparr>\<lparr>zns := H'\<rparr>)) b + bump Z (Some a) b" for b
        using count_list_split(2) [OF i, of a b] by auto
      from zones_sound [OF H this] have u: "sound hf E C Z n ?u" by simp
      show ?thesis
      proof (cases is_init)
        case True
        with p(1) Some j z(1) dec inc u show ?thesis by (simp add: handle_changed_zone_def keeps_def)
      next
        case False
        with assms(4) have r: "runs hf V run" "cm_config ?u \<noteq> None" "calm V s" by simp_all
        have "0 < count_list (zones ?u) a" using count_list_split(2) [OF i, of a a] by simp
        then have "0 < zrefs ?u a + Z a" by (simp add: zrefs_def)
        from zn_live [OF u this] obtain d where d: "zns ?u a = Some d" by blast
        from zn_inc_sound [OF u d] obtain K where K: "zn_inc a ?u = Some (?u\<lparr>zns := K\<rparr>)" "sound hf E C (bump Z (Some a)) n (?u\<lparr>zns := K\<rparr>)" by blast
        have "cm_config (?u\<lparr>zns := K\<rparr>) \<noteq> None" "rw_held (?u\<lparr>zns := K\<rparr>) \<longrightarrow> calm V (?u\<lparr>zns := K\<rparr>)"
          using r(2) calm_same [OF r(3), of "?u\<lparr>zns := K\<rparr>"] by simp_all
        from revalidate_zone_sound [OF r(1) K(2) this] obtain ret s' where
          "revalidate_zone run V (Some a) (?u\<lparr>zns := K\<rparr>) = Some (ret, s')" "sound hf E C Z n s'" "keeps (?u\<lparr>zns := K\<rparr>) s'" by blast
        with p(1) Some j z(1) dec inc False K(1) show ?thesis by (simp add: handle_changed_zone_def keeps_def)
      qed
    qed
  qed
qed

lemma change_zone_sound:
  assumes "sound hf E C Z n s" and "names_fit zname rname" and "is_init \<or> runs hf V run \<and> cm_config s \<noteq> None \<and> calm V s"
  shows "\<exists>ret s'. change_zone run V zname rname st is_init s = Some (ret, s') \<and> sound hf E C Z n s' \<and> keeps s s'
    \<and> (is_init \<longrightarrow> todo s' = todo s)"
proof -
  obtain r where r: "find_zone (zns s) zname 0 (zones s) = Some r"
    "\<forall>j. r = Some j \<longrightarrow> j < length (zones s) \<and> (\<exists>z. zns s (zones s ! j) = Some z \<and> names_ok z)"
    using find_zone_sound [OF assms(1)] by blast
  have "\<forall>i. r = Some i \<longrightarrow> i < length (zones s)" using r(2) by blast
  note ch = changed_zone_sound [OF assms(1,2) this assms(3), of st]
  show ?thesis
  proof (cases r)
    case None
    with ch r(1) show ?thesis by (simp add: change_zone_def)
  next
    case (Some i)
    with r(2) obtain z where z: "zns s (zones s ! i) = Some z" "names_ok z" by blast
    show ?thesis
    proof (cases "rname \<noteq> region_name z \<or> zstatus z \<noteq> st \<and> st \<noteq> Z_DELETED \<or> zstatus z = st")
      case t: True
      show ?thesis
      proof (cases "rname = region_name z \<and> zstatus z = st")
        case True
        with r(1) Some z assms(1) show ?thesis by (simp add: change_zone_def)
      next
        case False
        with t have "change_zone run V zname rname st is_init s = handle_changed_zone run V zname rname st is_init r s"
          using r(1) Some z(1) by (auto simp: change_zone_def)
        with ch show ?thesis by simp
      qed
    next
      case False
      then have st: "st = Z_DELETED" "rname = region_name z" "zstatus z \<noteq> Z_DELETED" by blast+
      let ?s = "s\<lparr>zns := (zns s)(zones s ! i \<mapsto> z\<lparr>zstatus := st\<rparr>)\<rparr>"
      have "sound hf E C Z n ?s" by (rule put_zone_sound [OF assms(1) z(1)]) (use z(2) in \<open>simp_all add: names_ok_def\<close>)
      from renew_zone_sound [OF this, of "zones s ! i" "z\<lparr>zstatus := st\<rparr>" V] obtain H where
        "renew_zone V (zones s ! i) ?s = Some (?s\<lparr>zns := H\<rparr>)" "sound hf E C Z n (?s\<lparr>zns := H\<rparr>)" by auto
      with st r(1) Some z(1) show ?thesis by (simp add: change_zone_def keeps_def)
    qed
  qed
qed

lemma update_zone_sound:
  assumes "sound hf E C Z n s" and "names_fit zname rname" and "is_init \<or> runs hf V run \<and> cm_config s \<noteq> None \<and> calm V s"
    and "\<not> rw_held s"
  shows "\<exists>ret s'. update_zone run V zname rname st is_init s = Some (ret, s') \<and> sound hf E C Z n s' \<and> keeps s s'
    \<and> (is_init \<longrightarrow> todo s' = todo s)"
proof (cases "cm_inited s")
  case False
  with assms(1) show ?thesis by (simp add: update_zone_def)
next
  case True
  let ?s = "s\<lparr>rw_held := True\<rparr>"
  have "sound hf E C Z n ?s" using assms(1) by simp
  moreover have "is_init \<or> runs hf V run \<and> cm_config ?s \<noteq> None \<and> calm V ?s" using assms(3) calm_same [of V s ?s] by auto
  ultimately obtain ret s' where "change_zone run V zname rname st is_init ?s = Some (ret, s')" "sound hf E C Z n s'" "keeps ?s s'"
    "is_init \<longrightarrow> todo s' = todo ?s" using change_zone_sound [where s = ?s and zname = zname and rname = rname, OF _ assms(2)] by blast
  with True assms(4) show ?thesis by (simp add: update_zone_def with_wrlock_def keeps_def)
qed

section \<open>Servers\<close>

text \<open>On an empty to-do list the runner does nothing.\<close>

definition idle :: "'ip env \<Rightarrow> 'ip runner \<Rightarrow> bool" where
  "idle V run = (\<forall>p s. p < MT_HASHTABLE_PARTITIONS \<longrightarrow> todo s ! p = [] \<longrightarrow> run V p s = Some (OB_SUCCESS, s))"

lemma add_todo_sound:
  assumes "sound hf E C Z (Suc n) s" and "ents s a = Some e" and "control_config e \<noteq> None"
  shows "\<exists>ret s'. add_record_todo_list V hash ip a s = Some (ret, s') \<and> sound hf E C Z n s' \<and> keeps s s'"
proof -
  obtain q l where q: "mem_alloc s = (q, s\<lparr>fresh := l\<rparr>)" using mem_alloc_fresh [of s] by blast
  have s: "sound hf E C Z (Suc n) (s\<lparr>fresh := l\<rparr>)" using assms(1) by simp
  show ?thesis
  proof (cases q)
    case False
    have "sound hf E C Z n (s\<lparr>fresh := l\<rparr>)" by (rule sound_room [OF s]) simp
    with q False show ?thesis by (simp add: add_record_todo_list_def keeps_def)
  next
    case True
    have "ents (s\<lparr>fresh := l\<rparr>) a = Some e" using assms(2) by simp
    from ent_inc_sound [OF s this assms(3)] obtain H where H: "ent_inc a (s\<lparr>fresh := l\<rparr>) = Some (s\<lparr>fresh := l\<rparr>\<lparr>ents := H\<rparr>)"
      "sound hf (bump E (Some a)) C Z (Suc n) (s\<lparr>fresh := l\<rparr>\<lparr>ents := H\<rparr>)" by blast
    let ?x = "(new_request V)\<lparr>rq_op := ADD_RECORD, rq_hash := hash, rq_key := ip, rq_entry := Some a\<rparr>"
    have "sound hf E C Z n (push_todo (part_num hash) ?x (s\<lparr>fresh := l\<rparr>\<lparr>ents := H\<rparr>))"
      by (rule push_sound) (use H(2) part_num_less in \<open>simp_all add: adds_def request_ok_def del: bump_simps(2)\<close>)
    with q True H(1) show ?thesis by (simp add: add_record_todo_list_def keeps_def push_todo_def)
  qed
qed

lemma tbl_put_sound:
  assumes "sound hf (bump E (Some a)) C Z (Suc n) s"
  shows "\<exists>old s1 s'. tbl_insert hash ip a s = Some (old, s1) \<and> discard_opt old s1 = Some s' \<and> sound hf E C Z n s' \<and> keeps s s' \<and> todo s' = todo s"
proof -
  from tbl_insert_sound [OF assms, of hash ip] obtain old T l where t: "tbl_insert hash ip a s = Some (old, s\<lparr>table := T, fresh := l\<rparr>)"
    "sound hf (bump E old) C Z n (s\<lparr>table := T, fresh := l\<rparr>)" by blast
  from discard_opt_sound [OF t(2)] obtain s' where "discard_opt old (s\<lparr>table := T, fresh := l\<rparr>) = Some s'" "sound hf E C Z n s'"
    "frame (s\<lparr>table := T, fresh := l\<rparr>) s'" by blast
  with t(1) show ?thesis by (auto simp: frame_def keeps_def)
qed

lemma tbl_take_sound:
  assumes "sound hf E C Z n s"
  shows "\<exists>old s1 s'. tbl_remove hash ip s = Some (old, s1) \<and> discard_opt old s1 = Some s' \<and> sound hf E C Z n s' \<and> keeps s s' \<and> todo s' = todo s"
proof -
  from tbl_remove_sound [OF assms, of hash ip] obtain old T where t: "tbl_remove hash ip s = Some (old, s\<lparr>table := T\<rparr>)"
    "sound hf (bump E old) C Z n (s\<lparr>table := T\<rparr>)" by blast
  from discard_opt_sound [OF t(2)] obtain s' where "discard_opt old (s\<lparr>table := T\<rparr>) = Some s'" "sound hf E C Z n s'"
    "frame (s\<lparr>table := T\<rparr>) s'" by blast
  with t(1) show ?thesis by (auto simp: frame_def keeps_def)
qed

lemma add_record_sound:
  assumes "sound hf E C Z (Suc n) s" and "ents s a = Some e" and "control_config e \<noteq> None" and "idle V run"
    and "\<not> skip \<Longrightarrow> part_free V (part_num (hash_of V ip)) \<Longrightarrow> todo s ! part_num (hash_of V ip) = []"
  shows "\<exists>ret s'. add_record run V ip a skip s = Some (ret, s') \<and> sound hf E C Z n s' \<and> keeps s s'
    \<and> (\<not> skip \<longrightarrow> part_free V (part_num (hash_of V ip)) \<longrightarrow> todo s' = todo s)"
proof (cases "\<not> skip \<and> part_free V (part_num (hash_of V ip))")
  case False
  with add_todo_sound [OF assms(1-3), of V "hash_of V ip" ip] show ?thesis by (auto simp: add_record_def)
next
  case True
  with assms(4,5) part_num_less have r: "run V (part_num (hash_of V ip)) s = Some (OB_SUCCESS, s)" by (simp add: idle_def)
  from ent_inc_sound [OF assms(1-3)] obtain H where H: "ent_inc a s = Some (s\<lparr>ents := H\<rparr>)" "sound hf (bump E (Some a)) C Z (Suc n) (s\<lparr>ents := H\<rparr>)" by blast
  from tbl_put_sound [OF H(2), of "hash_of V ip" ip] H(1) r True show ?thesis by (auto simp: add_record_def Let_def keeps_def)
qed

text \<open>A new entry gets its configuration and zone.\<close>

lemma init_ent_sound:
  assumes "sound hf E C Z n s" and "ents s a = Some (new_entry ip)" and "0 < C c" and "0 < Z z"
  shows "\<exists>ret s' e. entry_init_at V c z a s = Some (ret, s') \<and> sound hf E C Z n s' \<and> keeps s s' \<and> todo s' = todo s
    \<and> ents s' a = Some e \<and> control_config e \<noteq> None"
proof -
  obtain q l where q: "mem_alloc s = (q, s\<lparr>fresh := l\<rparr>)" using mem_alloc_fresh [of s] by blast
  have f: "finite (dom (ents s))" and ok: "\<forall>e \<in> ran (ents s). ent_ok e" "\<forall>z \<in> ran (zns s). names_ok z"
    using soundD(1) [OF assms(1)] by (simp_all add: shape_def)
  have "0 < crefs s c + C c" using assms(3) by simp
  from cfg_live [OF assms(1) this] obtain d where d: "cfgs s c = Some d" by blast
  have "0 < zrefs s z + Z z" using assms(4) by simp
  from zn_live [OF assms(1) this] obtain y where y: "zns s z = Some y" by blast
  from covered_add [where c = d, OF soundD(3) [OF assms(1)] d] obtain F where F: "inc_ref (cfgs s) c = Some F"
    "F = (cfgs s)(c \<mapsto> d\<lparr>ref_count := ref_count d + 1\<rparr>)" "covered (\<lambda>b. crefs s b + bump C (Some c) b) F" by blast
  from covered_add [where c = y, OF soundD(4) [OF assms(1)] y] obtain G where G: "inc_ref (zns s) z = Some G"
    "covered (\<lambda>b. zrefs s b + bump Z (Some z) b) G" by blast
  let ?e = "(reset_fail_history (d\<lparr>ref_count := ref_count d + 1\<rparr>) (new_entry ip\<lparr>control_config := Some c, zone_state := Some z\<rparr>))\<lparr>fail_hist_lock := q\<rparr>"
  let ?s = "s\<lparr>fresh := l, cfgs := F, zns := G, ents := (ents s)(a \<mapsto> ?e)\<rparr>"
  have e: "control_config ?e = Some c" "zone_state ?e = Some z" "ref_count ?e = 0" "ent_ok ?e"
    using reset_refs(4) [of "d\<lparr>ref_count := ref_count d + 1\<rparr>" "new_entry ip\<lparr>control_config := Some c, zone_state := Some z\<rparr>"]
    by (simp_all add: reset_refs new_entry_def ent_ok_def)
  have n: "control_config (new_entry ip) = None" "zone_state (new_entry ip) = None" "ref_count (new_entry ip) = 0"
    by (simp_all add: new_entry_def)
  have c': "crefs ?s b + C b = crefs s b + bump C (Some c) b" and z': "zrefs ?s b + Z b = zrefs s b + bump Z (Some z) b" for b
    using crefs_ents [OF f, of a "Some ?e" b] zrefs_ents [OF f, of a "Some ?e" b] assms(2) e n by (auto simp: crefs_def zrefs_def)
  have "sound hf E C Z n ?s"
  proof (rule soundI)
    show "shape hf n ?s"
      using soundD(1) [OF assms(1)] ran_upd [OF ok(1) e(4), of a] ran_inc [OF G(1) names_ok_ref ok(2)] by (simp add: shape_def)
    show "covered (\<lambda>b. erefs ?s b + E b) (ents ?s)"
      using covered_upd [where c = "new_entry ip", OF soundD(2) [OF assms(1)] assms(2)] e(3) n(3) by (simp add: erefs_def)
    show "covered (\<lambda>b. crefs ?s b + C b) (cfgs ?s)" "covered (\<lambda>b. zrefs ?s b + Z b) (zns ?s)"
      unfolding c' z' using F(3) G(2) by simp_all
    show "control_config e \<noteq> None" if "ents ?s b = Some e" "0 < erefs ?s b + E b" for b e
    proof (cases "b = a")
      case True
      with that(1) e(1) show ?thesis by auto
    next
      case False
      have "0 < erefs s b + E b" using that(2) by (simp add: erefs_def)
      from soundD(5) [OF assms(1), rule_format, OF _ this] that(1) False show ?thesis by simp
    qed
  qed
  moreover have "entry_init_at V c z a s = Some (if q then OB_SUCCESS else OB_ALLOCATE_MEMORY_FAILED, ?s)"
    using q assms(2) F(1,2) G(1) by (simp add: entry_init_at_def entry_init_def n)
  ultimately show ?thesis using e(1) by (auto simp: keeps_def)
qed

lemma create_server_sound:
  assumes "sound hf E C Z (Suc n) s" and "0 < C c" and "0 < Z z" and "idle V run"
    and "\<not> is_init \<Longrightarrow> part_free V (part_num (hash_of V ip)) \<Longrightarrow> todo s ! part_num (hash_of V ip) = []"
  shows "\<exists>ret s'. create_server run V c z ip cr st is_init s = Some (ret, s') \<and> sound hf E C Z n s' \<and> keeps s s'
    \<and> (\<not> is_init \<longrightarrow> part_free V (part_num (hash_of V ip)) \<longrightarrow> todo s' = todo s)"
proof -
  obtain p l where p: "op_alloc (ents s) s = (p, s\<lparr>fresh := l\<rparr>)" "\<forall>a. p = Some a \<longrightarrow> ents s a = None"
    using op_alloc_fresh [of "ents s" s] by blast
  let ?s = "s\<lparr>fresh := l\<rparr>"
  have s: "sound hf E C Z (Suc n) ?s" using assms(1) by simp
  show ?thesis
  proof (cases p)
    case None
    have "sound hf E C Z n ?s" by (rule sound_room [OF s]) simp
    with p(1) None show ?thesis by (simp add: create_server_def keeps_def)
  next
    case (Some a)
    then have "ents ?s a = None" using p(2) by simp
    note s1 = new_ent_sound [OF s this, of ip]
    let ?s1 = "?s\<lparr>ents := (ents ?s)(a \<mapsto> new_entry ip)\<rparr>"
    have "ents ?s1 a = Some (new_entry ip)" by simp
    from init_ent_sound [OF s1 this assms(2,3), of V] obtain ret s2 e where s2: "entry_init_at V c z a ?s1 = Some (ret, s2)"
      "sound hf E C Z (Suc n) s2" "keeps ?s1 s2" "todo s2 = todo s" "ents s2 a = Some e" "control_config e \<noteq> None" by auto
    show ?thesis
    proof (cases "ret = OB_SUCCESS")
      case False
      have "sound hf E C Z n s2" by (rule sound_room [OF s2(2)]) simp
      with p(1) Some s2 False show ?thesis by (simp add: create_server_def keeps_def)
    next
      case True
      let ?e = "first_flags V st (e\<lparr>cr_version := cr, server_state := st, last_revalidate_us := now_us V\<rparr>)"
      have "same_refs e (e\<lparr>cr_version := cr, server_state := st, last_revalidate_us := now_us V\<rparr>)"
        by (simp add: same_refs_def ent_ok_def)
      then have e: "same_refs e ?e" by (blast intro: same_refs_trans same_refs_first)
      let ?s3 = "s2\<lparr>ents := (ents s2)(a \<mapsto> ?e)\<rparr>"
      have s3: "sound hf E C Z (Suc n) ?s3" by (rule put_same [OF s2(2,5) e])
      have live: "ents ?s3 a = Some ?e" "control_config ?e \<noteq> None" using e s2(6) by (simp_all add: same_refs_def)
      have "todo ?s3 ! part_num (hash_of V ip) = []" if "\<not> is_init" "part_free V (part_num (hash_of V ip))"
        using assms(5) [OF that] s2(4) by simp
      from add_record_sound [OF s3 live assms(4), of is_init ip] this obtain ret' s' where
        "add_record run V ip a is_init ?s3 = Some (ret', s')" "sound hf E C Z n s'" "keeps ?s3 s'"
        "\<not> is_init \<longrightarrow> part_free V (part_num (hash_of V ip)) \<longrightarrow> todo s' = todo ?s3" by auto
      with p(1) Some s2 True show ?thesis by (simp add: create_server_def upd_ent_def keeps_def)
    qed
  qed
qed

lemma get_config_sound:
  assumes "sound hf E C Z n s" and "cm_config s \<noteq> None" and "\<not> rw_held s"
  shows "\<exists>c s'. get_congestion_control_config s = Some (c, s') \<and> sound hf E (bump C (Some c)) Z n s' \<and> frame s s'"
proof -
  obtain c where c: "cm_config s = Some c" using assms(2) by blast
  then have "0 < crefs s c + C c" by (simp add: crefs_def)
  from cfg_live [OF assms(1) this] obtain d where "cfgs s c = Some d" by blast
  from cfg_inc_sound [OF assms(1) this] c assms(3) show ?thesis
    by (auto simp: get_congestion_control_config_def frame_def simp del: bump_simps)
qed

lemma add_new_server_sound:
  assumes "sound hf E C Z (Suc n) s" and "cm_config s \<noteq> None" and "names_fit zname rname" and "idle V run"
    and "\<not> is_init \<Longrightarrow> part_free V (part_num (hash_of V ip)) \<Longrightarrow> todo s ! part_num (hash_of V ip) = []" and "\<not> rw_held s"
  shows "\<exists>ret s'. add_new_server run V ip cr st zname rname is_init s = Some (ret, s') \<and> sound hf E C Z n s' \<and> keeps s s'
    \<and> (\<not> is_init \<longrightarrow> part_free V (part_num (hash_of V ip)) \<longrightarrow> todo s' = todo s)"
proof (cases "st = DELETED")
  case True
  have "sound hf E C Z n s" by (rule sound_room [OF assms(1)]) simp
  with True show ?thesis by (simp add: add_new_server_def)
next
  case False
  from get_config_sound [OF assms(1,2,6)] obtain c s1 where s1: "get_congestion_control_config s = Some (c, s1)"
    "sound hf E (bump C (Some c)) Z (Suc n) s1" "frame s s1" by blast
  have "\<not> rw_held s1" using s1(3) assms(6) by (simp add: frame_def)
  from get_zone_sound [OF s1(2) this, of zname] obtain p s2 where s2: "get_zone_state zname s1 = Some (p, s2)"
    "sound hf E (bump C (Some c)) (bump Z p) (Suc n) s2" "frame s1 s2" by blast
  have k2: "keeps s s2" "todo s2 = todo s" using s1(3) s2(3) by (simp_all add: frame_def keeps_def)
  have zone: "\<exists>ret q s3. (case p of
            Some z \<Rightarrow> Some (OB_SUCCESS, Some z, s2)
          | None \<Rightarrow> do {
              (ret, s) \<leftarrow> update_zone run V zname rname Z_DELETED True s2;
              (if ret \<noteq> OB_SUCCESS then Some (ret, None, s)
               else do {
                 (z, s) \<leftarrow> get_zone_state zname s;
                 Some (if z = None then OB_ERR_UNEXPECTED else OB_SUCCESS, z, s)
               })
            }) = Some (ret, q, s3)
      \<and> sound hf E (bump C (Some c)) (bump Z q) (Suc n) s3 \<and> keeps s s3 \<and> todo s3 = todo s \<and> (ret = OB_SUCCESS \<longrightarrow> q \<noteq> None)"
  proof (cases p)
    case (Some z)
    with s2(2) k2 show ?thesis by (auto simp del: bump_simps)
  next
    case None
    have s2': "sound hf E (bump C (Some c)) Z (Suc n) s2" using s2(2) None by simp
    have h2: "\<not> rw_held s2" using k2(1) assms(6) by (simp add: keeps_def)
    have "True \<or> runs hf V run \<and> cm_config s2 \<noteq> None \<and> calm V s2" by simp
    from update_zone_sound [where run = run and V = V and is_init = True and st = Z_DELETED, OF s2' assms(3) this h2] obtain ret s3 where
      s3: "update_zone run V zname rname Z_DELETED True s2 = Some (ret, s3)" "sound hf E (bump C (Some c)) Z (Suc n) s3" "keeps s2 s3"
      "todo s3 = todo s2" by blast
    show ?thesis
    proof (cases "ret = OB_SUCCESS")
      case False
      with None s3 k2 show ?thesis by (auto intro: keeps_trans)
    next
      case True
      have "\<not> rw_held s3" using s3(3) h2 by (simp add: keeps_def)
      from get_zone_sound [OF s3(2) this, of zname] obtain q s4 where s4: "get_zone_state zname s3 = Some (q, s4)"
        "sound hf E (bump C (Some c)) (bump Z q) (Suc n) s4" "frame s3 s4" by blast
      have "keeps s s4" "todo s4 = todo s" using keeps_trans [OF k2(1) s3(3)] s3(4) s4(3) k2(2) by (simp_all add: frame_def keeps_def)
      with None True s3(1) s4(1,2) show ?thesis by (auto simp del: bump_simps)
    qed
  qed
  then obtain ret q s3 where s3: "(case p of
            Some z \<Rightarrow> Some (OB_SUCCESS, Some z, s2)
          | None \<Rightarrow> do {
              (ret, s) \<leftarrow> update_zone run V zname rname Z_DELETED True s2;
              (if ret \<noteq> OB_SUCCESS then Some (ret, None, s)
               else do {
                 (z, s) \<leftarrow> get_zone_state zname s;
                 Some (if z = None then OB_ERR_UNEXPECTED else OB_SUCCESS, z, s)
               })
            }) = Some (ret, q, s3)" "sound hf E (bump C (Some c)) (bump Z q) (Suc n) s3" "keeps s s3" "todo s3 = todo s"
      "ret = OB_SUCCESS \<longrightarrow> q \<noteq> None" by blast
  have serve: "\<exists>ret' s4. (if ret \<noteq> OB_SUCCESS then Some (ret, s3)
          else do {
            z \<leftarrow> q;
            (ret, s) \<leftarrow> create_server run V c z ip cr st is_init s3;
            s \<leftarrow> zn_dec z s;
            Some (ret, s)
          }) = Some (ret', s4) \<and> sound hf E (bump C (Some c)) Z n s4 \<and> keeps s s4
      \<and> (\<not> is_init \<longrightarrow> part_free V (part_num (hash_of V ip)) \<longrightarrow> todo s4 = todo s)"
  proof (cases "ret = OB_SUCCESS")
    case False
    have "sound hf E (bump C (Some c)) Z n s3" by (rule sound_unbump(3) [OF sound_room [OF s3(2)]]) simp
    with False s3(3,4) show ?thesis by simp
  next
    case True
    with s3(5) obtain z where z: "q = Some z" by blast
    have pos: "0 < bump C (Some c) c" "0 < bump Z q z" by (simp_all add: z)
    have "todo s3 ! part_num (hash_of V ip) = []" if "\<not> is_init" "part_free V (part_num (hash_of V ip))"
      using assms(5) [OF that] s3(4) by simp
    from create_server_sound [OF s3(2) pos assms(4), of is_init ip cr st] this obtain ret' s4 where
      s4: "create_server run V c z ip cr st is_init s3 = Some (ret', s4)" "sound hf E (bump C (Some c)) (bump Z q) n s4" "keeps s3 s4"
      "\<not> is_init \<longrightarrow> part_free V (part_num (hash_of V ip)) \<longrightarrow> todo s4 = todo s3" by blast
    from zn_dec_sound [OF s4(2) [unfolded z]] obtain H where "zn_dec z s4 = Some (s4\<lparr>zns := H\<rparr>)"
      "sound hf E (bump C (Some c)) Z n (s4\<lparr>zns := H\<rparr>)" by blast
    with True z s3(3,4) s4 show ?thesis by (auto simp: keeps_def)
  qed
  then obtain ret' s4 where s4: "(if ret \<noteq> OB_SUCCESS then Some (ret, s3)
          else do {
            z \<leftarrow> q;
            (ret, s) \<leftarrow> create_server run V c z ip cr st is_init s3;
            s \<leftarrow> zn_dec z s;
            Some (ret, s)
          }) = Some (ret', s4)" "sound hf E (bump C (Some c)) Z n s4" "keeps s s4"
      "\<not> is_init \<longrightarrow> part_free V (part_num (hash_of V ip)) \<longrightarrow> todo s4 = todo s" by blast
  from cfg_dec_sound [OF s4(2)] obtain H where H: "cfg_dec c s4 = Some (s4\<lparr>cfgs := H\<rparr>)" "sound hf E C Z n (s4\<lparr>cfgs := H\<rparr>)" by blast
  have "add_new_server run V ip cr st zname rname is_init s = Some (ret', s4\<lparr>cfgs := H\<rparr>)"
    unfolding add_new_server_def using False s1(1) s2(1) H(1)
    by (simp only: if_False bind.bind_lunit prod.case s3(1) s4(1))
  with H(2) s4(3,4) show ?thesis by (simp add: keeps_def)
qed

lemma note_state_sound:
  assumes "sound hf E C Z n s" and "0 < erefs s a + E a"
  shows "\<exists>s'. note_state V hash ip st a s = Some s' \<and> sound hf E C Z n s' \<and> keeps s s' \<and> todo s' = todo s"
proof -
  have u: "\<exists>s'. upd_ent a f s = Some s' \<and> sound hf E C Z n s' \<and> keeps s s' \<and> todo s' = todo s"
    if "\<And>e. same_refs e (f e)" for f
    using upd_same [OF assms, of f] that by (auto simp: keeps_def)
  obtain e where e: "ents s a = Some e" "ent_ok e" "control_config e \<noteq> None" using ent_live [OF assms] by blast
  then obtain c where c: "control_config e = Some c" by blast
  have f: "finite (dom (ents s))" using soundD(1) [OF assms(1)] by (simp add: shape_def)
  have "0 < crefs s c + C c" using holders_pos [OF f e(1), of "\<lambda>e. control_config e = Some c"] c by (simp add: crefs_def)
  from cfg_live [OF assms(1) this] obtain d where d: "cfgs s c = Some d" by blast
  have checked: "\<exists>s'. note_state V hash ip ACTIVE a s = Some s' \<and> sound hf E C Z n s' \<and> keeps s s' \<and> todo s' = todo s"
  proof -
    from check_alive_total [where C = "cfgs s" and a = c and c = d, OF e(2) c d, of "hist_free V a" "now_ns V" "now_us V"] obtain e' where
      e': "check_and_set_alive (cfgs s) (hist_free V a) (now_ns V) (now_us V) e = Some e'" "same_refs e e'" by blast
    from put_same [OF assms(1) e(1) e'(2)] e(1) e'(1) show ?thesis by (simp add: note_state_def keeps_def)
  qed
  show ?thesis
  proof (cases st)
    case ACTIVE
    with checked show ?thesis by simp
  next
    case DELETED
    with tbl_take_sound [OF assms(1), of hash ip] show ?thesis by (auto simp: note_state_def)
  qed (use u assms(1) in \<open>simp_all add: note_state_def\<close>)
qed

text \<open>A server that is known: its state is stored and acted upon.\<close>

lemma known_server_sound:
  assumes "sound hf E C Z n s" and "0 < erefs s a + E a" and "\<And>e. same_refs e (f e)"
  shows "\<exists>s1 s'. upd_ent a f s = Some s1 \<and> note_state V hash ip st a s1 = Some s' \<and> sound hf E C Z n s' \<and> keeps s s' \<and> todo s' = todo s"
proof -
  from upd_same [OF assms(1,2), of f] assms(3) obtain H where H: "upd_ent a f s = Some (s\<lparr>ents := H\<rparr>)" "sound hf E C Z n (s\<lparr>ents := H\<rparr>)" by blast
  have "0 < erefs (s\<lparr>ents := H\<rparr>) a + E a" using assms(2) by simp
  from note_state_sound [OF H(2) this, of V hash ip st] H(1) show ?thesis by (auto simp: keeps_def)
qed

lemma state_refs: "same_refs e (e\<lparr>server_state := st\<rparr>)" "same_refs e (e\<lparr>server_state := st, last_revalidate_us := us\<rparr>)"
  by (simp_all add: same_refs_def ent_ok_def)

lemma lookup_held:
  assumes "sound hf E C Z n s"
  shows "\<exists>r. mt_lookup hash ip (table s) = Some r \<and> (\<forall>a. r = Some a \<longrightarrow> 0 < erefs s a + E a)"
proof -
  have f: "mt_fits (n + reqs adds (concat (todo s))) (table s)" using soundD(1) [OF assms] by (simp add: shape_def)
  have "0 < erefs s a + E a" if "Option.bind (mt_content (table s) (hash, ip)) id = Some a" for a
  proof -
    have "mt_content (table s) (hash, ip) = Some (Some a)" using that by (simp add: bind_eq_Some_conv)
    from in_content [OF assms this] show ?thesis by simp
  qed
  with mt_find [OF f, of hash ip] show ?thesis by blast
qed

section \<open>Processing the requests\<close>

lemma process_sound:
  assumes "sound hf (bump E (rq_entry x)) (bump C (rq_config x)) (bump Z (rq_zone x)) (n + (if adds x then 1 else 0)) s"
    and "request_ok hf p x" and "p < MT_HASHTABLE_PARTITIONS" and "cm_config s \<noteq> None" and "idle V run" and "hash_of V = hf"
    and "todo s ! p = []" and "part_free V p" and "rw_held s \<Longrightarrow> rq_op x \<noteq> REVALIDATE_SERVER"
  shows "\<exists>ret s'. process run V p x s = Some (ret, s') \<and> sound hf E C Z n s' \<and> keeps s s' \<and> todo s' = todo s"
proof (cases "rq_op x")
  case ADD_RECORD
  then obtain a where a: "rq_entry x = Some a" using assms(2) by (auto simp: request_ok_def)
  have "sound hf (bump E (Some a)) C Z (Suc n) s"
    using sound_unbump(2) [OF sound_unbump(3) [OF assms(1)]] ADD_RECORD a by (simp add: adds_def del: bump_simps)
  from tbl_put_sound [OF this, of "rq_hash x" "rq_key x"] ADD_RECORD a show ?thesis by (auto simp: process_def)
next
  case REMOVE_RECORD
  have "sound hf E C Z n s"
    using sound_unbump(1) [OF sound_unbump(2) [OF sound_unbump(3) [OF assms(1)]]] REMOVE_RECORD by (simp add: adds_def)
  from tbl_take_sound [OF this, of "rq_hash x" "rq_key x"] REMOVE_RECORD show ?thesis by (auto simp: process_def)
next
  case REMOVE_ALL_RECORDS
  have "sound hf E C Z n s"
    using sound_unbump(1) [OF sound_unbump(2) [OF sound_unbump(3) [OF assms(1)]]] REMOVE_ALL_RECORDS by (simp add: adds_def)
  moreover have "unat (rq_hash x) < MT_HASHTABLE_PARTITIONS" using assms(2) REMOVE_ALL_RECORDS by (simp add: request_ok_def)
  ultimately show ?thesis using clear_part_sound [of hf E C Z n s "unat (rq_hash x)"] REMOVE_ALL_RECORDS
    by (auto simp: process_def frame_t_def keeps_def)
next
  case REVALIDATE_BUCKET_CONFIG
  have s: "sound hf E (bump C (rq_config x)) Z n s"
    using sound_unbump(1) [OF sound_unbump(3) [OF assms(1)]] REVALIDATE_BUCKET_CONFIG by (simp add: adds_def del: bump_simps)
  show ?thesis
  proof (cases "rq_config x")
    case None
    with s REVALIDATE_BUCKET_CONFIG show ?thesis by (simp add: process_def revalidate_bucket_config_def)
  next
    case (Some c)
    with bucket_config_sound [OF s [unfolded Some] assms(3), of V] REVALIDATE_BUCKET_CONFIG show ?thesis
      by (auto simp: process_def frame_def keeps_def)
  qed
next
  case REVALIDATE_BUCKET_ZONE
  have s: "sound hf E C (bump Z (rq_zone x)) n s"
    using sound_unbump(1) [OF sound_unbump(2) [OF assms(1)]] REVALIDATE_BUCKET_ZONE by (simp add: adds_def del: bump_simps)
  show ?thesis
  proof (cases "rq_zone x")
    case None
    with s REVALIDATE_BUCKET_ZONE show ?thesis by (simp add: process_def revalidate_bucket_zone_def)
  next
    case (Some z)
    with bucket_zone_sound [OF s [unfolded Some] assms(3)] REVALIDATE_BUCKET_ZONE show ?thesis
      by (auto simp: process_def frame_def keeps_def)
  qed
next
  case REVALIDATE_SERVER
  then obtain z where z: "rq_zone x = Some z" and h: "rq_hash x = hash_of V (rq_key x)" "part_num (rq_hash x) = p"
    using assms(2,6) by (auto simp: request_ok_def)
  have s: "sound hf E C (bump Z (Some z)) (Suc n) s"
    using sound_unbump(1) [OF sound_unbump(2) [OF assms(1)]] REVALIDATE_SERVER z by (simp add: adds_def del: bump_simps)
  obtain r where r: "mt_lookup (rq_hash x) (rq_key x) (table s) = Some r" "\<forall>a. r = Some a \<longrightarrow> 0 < erefs s a + E a"
    using lookup_held [OF s] by blast
  have "\<exists>ret s1. (case r of
              Some a \<Rightarrow> do {
                s \<leftarrow> upd_ent a (\<lambda>e. e\<lparr>server_state := rq_server_state x\<rparr>) s;
                s \<leftarrow> note_state V (rq_hash x) (rq_key x) (rq_server_state x) a s;
                Some (OB_SUCCESS, s)
              }
            | None \<Rightarrow>
                (case rq_zone x of
                   None \<Rightarrow> Some (OB_ERR_UNEXPECTED, s)
                 | Some z \<Rightarrow> do {
                     zn \<leftarrow> zns s z;
                     add_new_server run V (rq_key x) (rq_cr_version x) (rq_server_state x) (zone_name zn) (region_name zn) False s
                   })) = Some (ret, s1) \<and> sound hf E C (bump Z (Some z)) n s1 \<and> keeps s s1 \<and> todo s1 = todo s"
  proof (cases r)
    case (Some a)
    then have "0 < erefs s a + E a" by (rule r(2) [rule_format])
    from known_server_sound [where f = "\<lambda>e. e\<lparr>server_state := rq_server_state x\<rparr>" and V = V and hash = "rq_hash x" and ip = "rq_key x"
        and st = "rq_server_state x", OF sound_room [OF s le_SucI [OF order_refl]] this state_refs(1)]
    obtain s1 s' where "upd_ent a (\<lambda>e. e\<lparr>server_state := rq_server_state x\<rparr>) s = Some s1"
      "note_state V (rq_hash x) (rq_key x) (rq_server_state x) a s1 = Some s'" "sound hf E C (bump Z (Some z)) n s'" "keeps s s'" "todo s' = todo s"
      by blast
    with Some show ?thesis by simp
  next
    case None
    have "0 < zrefs s z + bump Z (Some z) z" by simp
    from zn_live [OF s this] obtain y where y: "zns s z = Some y" "names_fit (zone_name y) (region_name y)"
      by (auto simp: names_ok_def names_fit_def)
    have "todo s ! part_num (hash_of V (rq_key x)) = []" "\<not> rw_held s" using h assms(7,9) REVALIDATE_SERVER by auto
    from add_new_server_sound [where is_init = False and ip = "rq_key x" and cr = "rq_cr_version x" and st = "rq_server_state x",
        OF s assms(4) y(2) assms(5) this]
    obtain ret s' where "add_new_server run V (rq_key x) (rq_cr_version x) (rq_server_state x) (zone_name y) (region_name y) False s = Some (ret, s')"
      "sound hf E C (bump Z (Some z)) n s'" "keeps s s'" "part_free V (part_num (hash_of V (rq_key x))) \<longrightarrow> todo s' = todo s" by blast
    with None z y(1) h assms(8) show ?thesis by simp
  qed
  then obtain ret s1 where s1: "(case r of
              Some a \<Rightarrow> do {
                s \<leftarrow> upd_ent a (\<lambda>e. e\<lparr>server_state := rq_server_state x\<rparr>) s;
                s \<leftarrow> note_state V (rq_hash x) (rq_key x) (rq_server_state x) a s;
                Some (OB_SUCCESS, s)
              }
            | None \<Rightarrow>
                (case rq_zone x of
                   None \<Rightarrow> Some (OB_ERR_UNEXPECTED, s)
                 | Some z \<Rightarrow> do {
                     zn \<leftarrow> zns s z;
                     add_new_server run V (rq_key x) (rq_cr_version x) (rq_server_state x) (zone_name zn) (region_name zn) False s
                   })) = Some (ret, s1)" "sound hf E C (bump Z (Some z)) n s1" "keeps s s1" "todo s1 = todo s" by blast
  from zn_dec_sound [OF s1(2)] obtain H where H: "zn_dec z s1 = Some (s1\<lparr>zns := H\<rparr>)" "sound hf E C Z n (s1\<lparr>zns := H\<rparr>)" by blast
  have "process run V p x s = Some (ret, s1\<lparr>zns := H\<rparr>)"
    unfolding process_def REVALIDATE_SERVER z
    by (simp only: request_op.case bind.bind_lunit r(1) s1(1) [unfolded z option.case] prod.case option.case H(1))
  with H(2) s1(3,4) show ?thesis by (simp add: keeps_def)
next
  case DELETE_SERVER
  have "sound hf E C Z n s"
    using sound_unbump(1) [OF sound_unbump(2) [OF sound_unbump(3) [OF assms(1)]]] DELETE_SERVER by (simp add: adds_def)
  with DELETE_SERVER show ?thesis by (simp add: process_def)
qed

lemma process_all_sound:
  assumes "idle V run" and "hash_of V = hf" and "p < MT_HASHTABLE_PARTITIONS" and "part_free V p"
  shows "sound hf (with_reqs rq_entry xs E) (with_reqs rq_config xs C) (with_reqs rq_zone xs Z) (n + reqs adds xs) s \<Longrightarrow>
    \<forall>x \<in> set xs. request_ok hf p x \<Longrightarrow> cm_config s \<noteq> None \<Longrightarrow> todo s ! p = [] \<Longrightarrow> (rw_held s \<longrightarrow> no_server xs) \<Longrightarrow>
    \<exists>s'. process_all run V p xs s = Some s' \<and> sound hf E C Z n s' \<and> keeps s s' \<and> todo s' = todo s"
proof (induction xs arbitrary: s)
  case Nil
  then show ?case by simp
next
  case (Cons x xs)
  have "sound hf (bump (with_reqs rq_entry xs E) (rq_entry x)) (bump (with_reqs rq_config xs C) (rq_config x))
      (bump (with_reqs rq_zone xs Z) (rq_zone x)) ((n + reqs adds xs) + (if adds x then 1 else 0)) s"
    using Cons.prems(1) unfolding with_reqs_Cons by (cases "adds x") (simp_all del: bump_simps)
  from process_sound [OF this _ assms(3) Cons.prems(3) assms(1,2) Cons.prems(4) assms(4)] Cons.prems(2,5) obtain ret s1 where
    s1: "process run V p x s = Some (ret, s1)" "sound hf (with_reqs rq_entry xs E) (with_reqs rq_config xs C) (with_reqs rq_zone xs Z) (n + reqs adds xs) s1"
    "keeps s s1" "todo s1 = todo s" by (auto simp: no_server_def)
  have "rw_held s1 \<longrightarrow> no_server xs" using s1(3) Cons.prems(5) by (auto simp: keeps_def no_server_def)
  note h1 = this
  have "cm_config s1 \<noteq> None" "todo s1 ! p = []" "\<forall>x \<in> set xs. request_ok hf p x"
    using s1(3,4) Cons.prems(2-4) by (simp_all add: keeps_def)
  from Cons.IH [OF s1(2) this(3,1,2) h1] s1 show ?case by (auto intro: keeps_trans)
qed

text \<open>A depth of one is enough for an empty list, two for every list.\<close>

lemma run_idle: "idle V (run_todo_list (Suc m))"
proof -
  have "s\<lparr>todo := (todo s)[p := []]\<rparr> = s" if "todo s ! p = []" for p and s :: "'a cmgr"
    using list_update_id [of "todo s" p] that by simp
  then show ?thesis by (simp add: idle_def)
qed

lemma run_runs:
  assumes "hash_of V = hf"
  shows "runs hf V (run_todo_list (Suc (Suc m)))"
  unfolding runs_def
proof (intro allI impI)
  fix E C Z n s p
  assume s: "sound hf E C Z n s" and p: "p < MT_HASHTABLE_PARTITIONS" and f: "part_free V p" and c: "cm_config s \<noteq> None"
    and h: "rw_held s \<longrightarrow> no_server (todo s ! p)"
  let ?s = "s\<lparr>todo := (todo s)[p := []]\<rparr>" and ?xs = "rev (todo s ! p)"
  have sh: "length (todo s) = MT_HASHTABLE_PARTITIONS" "\<forall>p < length (todo s). \<forall>x \<in> set (todo s ! p). request_ok hf p x"
    using soundD(1) [OF s] by (simp_all add: shape_def)
  have "sound hf (with_reqs rq_entry ?xs E) (with_reqs rq_config ?xs C) (with_reqs rq_zone ?xs Z) (n + reqs adds ?xs) ?s"
    using take_todo_sound [OF s p] by simp
  moreover have "\<forall>x \<in> set ?xs. request_ok hf p x" using sh p by simp
  moreover have "todo ?s ! p = []" using sh(1) p by simp
  moreover have "rw_held ?s \<longrightarrow> no_server ?xs" using h by (simp add: no_server_def)
  ultimately obtain s' where "process_all (run_todo_list (Suc m)) V p ?xs ?s = Some s'" "sound hf E C Z n s'" "keeps ?s s'" "todo s' = todo ?s"
    using process_all_sound [OF run_idle assms p f, of ?xs E C Z n ?s] c by auto
  then show "\<exists>s'. run_todo_list (Suc (Suc m)) V p s = Some (OB_SUCCESS, s') \<and> sound hf E C Z n s' \<and> keeps s s' \<and> todo s' = (todo s)[p := []]"
    using p sh(1) by (simp add: keeps_def del: run_todo_list.simps add: run_todo_list.simps(2))
qed

section \<open>The operations of the manager\<close>

definition full_run :: "'ip runner" where
  "full_run = run_todo_list 2"

lemma full_run: "idle V full_run" "hash_of V = hf \<Longrightarrow> runs hf V full_run"
  unfolding full_run_def using run_idle [of V 1] run_runs [of V hf 0] by (simp_all only: numeral_2_eq_2 One_nat_def)

text \<open>Where nothing is held, the runner works always, and leaves the list empty.\<close>

lemma run_free:
  assumes "hash_of V = hf" and "sound hf E C Z n s" and "p < MT_HASHTABLE_PARTITIONS" and "part_free V p" and "cm_config s \<noteq> None"
    and "\<not> rw_held s"
  obtains s' where "full_run V p s = Some (OB_SUCCESS, s')" "sound hf E C Z n s'" "keeps s s'" "todo s' = (todo s)[p := []]" "todo s' ! p = []"
  using runsD [OF full_run(2) [OF assms(1)] assms(2-5)] assms(3,6) todo_length [OF assms(2)] by auto

lemma revalidate_server_sound:
  assumes "sound hf E C Z (Suc n) s" and "cm_config s \<noteq> None" and "names_fit zname rname" and "hash_of V = hf"
    and "\<not> rw_held s"
  shows "\<exists>ret s'. revalidate_server full_run V ip cr st zname rname s = Some (ret, s') \<and> sound hf E C Z n s' \<and> keeps s s'"
proof (cases "part_free V (part_num (hash_of V ip))")
  case True
  let ?p = "part_num (hash_of V ip)"
  obtain s1 where s1: "full_run V ?p s = Some (OB_SUCCESS, s1)" "sound hf E C Z (Suc n) s1" "keeps s s1" "todo s1 ! ?p = []"
    by (rule run_free [OF assms(4,1) part_num_less True assms(2,5)])
  from lookup_held [OF s1(2), of "hash_of V ip" ip] obtain r where r: "mt_lookup (hash_of V ip) ip (table s1) = Some r"
    "\<forall>a. r = Some a \<longrightarrow> 0 < erefs s1 a + E a" by blast
  show ?thesis
  proof (cases r)
    case (Some a)
    then have a: "0 < erefs s1 a + E a" by (rule r(2) [rule_format])
    have s1': "sound hf E C Z n s1" by (rule sound_room [OF s1(2)]) simp
    from known_server_sound [where f = "\<lambda>e. e\<lparr>server_state := st, last_revalidate_us := now_us V\<rparr>" and V = V and hash = "hash_of V ip"
        and ip = ip and st = st, OF s1' a state_refs(2)]
    obtain s2 s' where "upd_ent a (\<lambda>e. e\<lparr>server_state := st, last_revalidate_us := now_us V\<rparr>) s1 = Some s2"
      "note_state V (hash_of V ip) ip st a s2 = Some s'" "sound hf E C Z n s'" "keeps s1 s'" by blast
    with True s1(1,3) r(1) Some show ?thesis by (simp add: revalidate_server_def keeps_def)
  next
    case None
    have "cm_config s1 \<noteq> None" "\<not> rw_held s1" using s1(3) assms(2,5) by (simp_all add: keeps_def)
    from add_new_server_sound [where is_init = False and cr = cr and st = st, OF s1(2) this(1) assms(3) full_run(1) s1(4) this(2)] obtain ret s' where
      "add_new_server full_run V ip cr st zname rname False s1 = Some (ret, s')" "sound hf E C Z n s'" "keeps s1 s'" by blast
    with True s1(1,3) r(1) None show ?thesis by (simp add: revalidate_server_def keeps_def)
  qed
next
  case False
  obtain q l where q: "mem_alloc s = (q, s\<lparr>fresh := l\<rparr>)" using mem_alloc_fresh [of s] by blast
  have s0: "sound hf E C Z n (s\<lparr>fresh := l\<rparr>)" for l using sound_room [OF assms(1), of n] by simp
  obtain p l' where p: "op_alloc (zns s) (s\<lparr>fresh := l\<rparr>) = (p, s\<lparr>fresh := l'\<rparr>)" "\<forall>a. p = Some a \<longrightarrow> zns s a = None"
    using op_alloc_fresh [of "zns s" "s\<lparr>fresh := l\<rparr>"] by auto
  obtain z where z: "new_zone zname rname Z_ACTIVE = Some z" "ref_count z = 0" "names_ok z" by (rule new_zone_fit [OF assms(3)])
  show ?thesis
  proof (cases "q \<and> p \<noteq> None")
    case no: False
    with False q p(1) s0 show ?thesis by (cases q) (auto simp: revalidate_server_def Let_def keeps_def)
  next
    case True
    then obtain b where b: "p = Some b" "q" by blast
    let ?t = "s\<lparr>fresh := l'\<rparr>" and ?h = "hash_of V ip"
    have t: "sound hf E C Z (Suc n) ?t" "zns ?t b = None" using assms(1) p(2) b(1) by simp_all
    let ?u = "?t\<lparr>zns := (zns ?t)(b \<mapsto> z)\<rparr>"
    have u: "sound hf E C Z (Suc n) ?u" by (rule new_zone_sound [OF t z(2,3)])
    have ub: "zns ?u b = Some z" by simp
    from zn_inc_sound [OF u ub] obtain H where H: "zn_inc b ?u = Some (?u\<lparr>zns := H\<rparr>)"
      "sound hf E C (bump Z (Some b)) (Suc n) (?u\<lparr>zns := H\<rparr>)" by blast
    let ?x = "(new_request V)\<lparr>rq_op := REVALIDATE_SERVER, rq_hash := ?h, rq_key := ip, rq_cr_version := cr,
                rq_server_state := st, rq_zone := Some b\<rparr>"
    have "sound hf E C Z n (push_todo (part_num ?h) ?x (?u\<lparr>zns := H\<rparr>))"
      by (rule push_sound) (use H(2) part_num_less assms(4) in \<open>simp_all add: adds_def request_ok_def del: bump_simps(2)\<close>)
    with False q p(1) b z(1) H(1) show ?thesis
      by (simp add: revalidate_server_def Let_def keeps_def push_todo_def)
  qed
qed

lemma update_server_sound:
  assumes "sound hf E C Z (Suc n) s" and "cm_config s \<noteq> None" and "names_fit zname rname" and "hash_of V = hf"
    and "\<not> rw_held s"
  shows "\<exists>ret s'. update_server full_run V ip cr st zname rname is_init s = Some (ret, s') \<and> sound hf E C Z n s' \<and> keeps s s'"
proof (cases is_init)
  case True
  with add_new_server_sound [where is_init = True and V = V and ip = ip and cr = cr and st = st, OF assms(1-3) full_run(1) _ assms(5)] show ?thesis by (auto simp: update_server_def)
next
  case False
  with revalidate_server_sound [OF assms, of ip cr st] show ?thesis by (simp add: update_server_def)
qed

lemma remove_record_sound:
  assumes "sound hf E C Z n s" and "cm_config s \<noteq> None" and "hash_of V = hf" and "\<not> rw_held s"
  shows "\<exists>ret s'. remove_record full_run V ip s = Some (ret, s') \<and> sound hf E C Z n s' \<and> keeps s s'"
proof (cases "part_free V (part_num (hash_of V ip))")
  case True
  obtain s1 where s1: "full_run V (part_num (hash_of V ip)) s = Some (OB_SUCCESS, s1)" "sound hf E C Z n s1" "keeps s s1"
    by (rule run_free [OF assms(3,1) part_num_less True assms(2,4)])
  from tbl_take_sound [OF s1(2), of "hash_of V ip" ip] True s1(1,3) show ?thesis
    by (auto simp: remove_record_def Let_def intro: keeps_trans)
next
  case False
  obtain q l where q: "mem_alloc s = (q, s\<lparr>fresh := l\<rparr>)" using mem_alloc_fresh [of s] by blast
  have s: "sound hf E C Z n (s\<lparr>fresh := l\<rparr>)" using assms(1) by simp
  have "sound hf E C Z n (push_todo (part_num (hash_of V ip)) ((new_request V)\<lparr>rq_op := REMOVE_RECORD, rq_key := ip\<rparr>) (s\<lparr>fresh := l\<rparr>))"
    by (rule push_sound) (use s part_num_less in \<open>simp_all add: adds_def request_ok_def\<close>)
  with False q s show ?thesis by (cases q) (simp_all add: remove_record_def Let_def keeps_def push_todo_def)
qed

lemma remove_all_sound:
  assumes "sound hf E C Z n s" and "cm_config s \<noteq> None" and "hash_of V = hf" and "\<not> rw_held s"
  shows "\<exists>ret s'. remove_all_records full_run V s = Some (ret, s') \<and> sound hf E C Z n s' \<and> keeps s s'"
  unfolding remove_all_records_def
proof (rule sound_for_parts [where J = "\<lambda>s. \<not> rw_held s", OF _ assms(1,2,4)], goal_cases)
  case (1 p s)
  then have p: "p < MT_HASHTABLE_PARTITIONS" by simp
  show ?case
  proof (cases "part_free V p")
    case True
    obtain s1 where s1: "full_run V p s = Some (OB_SUCCESS, s1)" "sound hf E C Z n s1" "keeps s s1"
      by (rule run_free [OF assms(3) 1(2) p True 1(3,4)])
    from clear_part_sound [OF s1(2) p] obtain s' where "clear_part p s1 = Some s'" "sound hf E C Z n s'" "frame_t s1 s'" by blast
    with True s1(1,3) 1(4) show ?thesis by (simp add: frame_t_def keeps_def)
  next
    case False
    obtain q l where q: "mem_alloc s = (q, s\<lparr>fresh := l\<rparr>)" using mem_alloc_fresh [of s] by blast
    have s: "sound hf E C Z n (s\<lparr>fresh := l\<rparr>)" using 1(2) by simp
    have "p < 2 ^ 64" using p by (simp add: MT_HASHTABLE_PARTITIONS_def MT_HASHTABLE_PARTITION_BITS_def)
    then have u: "unat (of_nat p :: u64) = p" by (simp add: unat_of_nat take_bit_nat_eq_self)
    have "sound hf E C Z n (push_todo p ((new_request V)\<lparr>rq_op := REMOVE_ALL_RECORDS, rq_hash := of_nat p\<rparr>) (s\<lparr>fresh := l\<rparr>))"
      by (rule push_sound) (use s p u in \<open>simp_all add: adds_def request_ok_def\<close>)
    with False q s 1(4) show ?thesis by (cases q) (simp_all add: keeps_def push_todo_def)
  qed
qed

end
