(* ===== verification/CongestionRun.thy ===== *)
theory CongestionRun
  imports CongestionOps
begin

text \<open>
  What the congestion manager does over time: the states it reaches (\<open>reached\<close>), a new configuration, requests that
  are deferred, the lock of the zones and the configuration, the end of a manager.
\<close>

text \<open>A loop over partitions that does its work on each.\<close>

lemma for_parts_all:
  assumes "\<And>p s. p \<in> set ps \<Longrightarrow> I s \<Longrightarrow> \<exists>s'. f p s = Some (OB_SUCCESS, s') \<and> I s' \<and> D p s' \<and> (\<forall>q. D q s \<longrightarrow> D q s')"
  shows "I s \<Longrightarrow> \<exists>s'. for_parts f ps s = Some (OB_SUCCESS, s') \<and> I s' \<and> (\<forall>p \<in> set ps. D p s') \<and> (\<forall>q. D q s \<longrightarrow> D q s')"
  using assms
proof (induction ps arbitrary: s)
  case Nil
  then show ?case by simp
next
  case (Cons p ps)
  from Cons.prems(2) [of p s] Cons.prems(1) obtain s1 where s1: "f p s = Some (OB_SUCCESS, s1)" "I s1" "D p s1" "\<forall>q. D q s \<longrightarrow> D q s1" by auto
  from Cons.IH [OF s1(2)] Cons.prems(2) obtain s' where
    "for_parts f ps s1 = Some (OB_SUCCESS, s')" "I s'" "\<forall>p \<in> set ps. D p s'" "\<forall>q. D q s1 \<longrightarrow> D q s'" by auto
  with s1 show ?case by simp
qed

text \<open>When no partition is locked and nothing is deferred, a new configuration reaches every entry at once.\<close>

lemma config_part_all:
  assumes "sound hf E (bump C (Some c)) Z n s" and p: "p < MT_HASHTABLE_PARTITIONS" and "part_free V p" and "todo s ! p = []"
  shows "\<exists>s'. config_part full_run V c p s = Some (OB_SUCCESS, s') \<and> sound hf E (bump C (Some c)) Z n s' \<and> frame s s'
    \<and> (\<forall>a. Some a \<in> edata ` set (elems (table s ! p)) \<longrightarrow> configured c s' a) \<and> (\<forall>a. configured c s a \<longrightarrow> configured c s' a)"
proof -
  have "full_run V p s = Some (OB_SUCCESS, s)" using full_run(1) [of V] p assms(4) by (simp add: idle_def)
  moreover obtain d where d: "cfgs s c = Some d" using cfg_live [where a = c, OF assms(1)] by auto
  moreover from cfg_inc_sound [OF assms(1) d] obtain H where H: "cfg_inc c s = Some (s\<lparr>cfgs := H\<rparr>)"
    "sound hf E (bump (bump C (Some c)) (Some c)) Z n (s\<lparr>cfgs := H\<rparr>)" by blast
  moreover from bucket_config_sound [OF H(2) p, of V] obtain s' where "revalidate_bucket_config V p (Some c) (s\<lparr>cfgs := H\<rparr>) = Some (OB_SUCCESS, s')"
    "sound hf E (bump C (Some c)) Z n s'" "frame (s\<lparr>cfgs := H\<rparr>) s'"
    "\<forall>a. Some a \<in> edata ` set (elems (table (s\<lparr>cfgs := H\<rparr>) ! p)) \<longrightarrow> configured c s' a"
    "\<forall>a. configured c (s\<lparr>cfgs := H\<rparr>) a \<longrightarrow> configured c s' a" by blast
  ultimately show ?thesis using assms(3) by (simp add: config_part_def frame_def)
qed

text \<open>A run over partitions that are free and have nothing to do.\<close>

lemma config_parts_all:
  fixes s :: "'ip cmgr"
  assumes "sound hf E (bump C (Some c)) Z n s" and "\<forall>p \<in> set ps. p < MT_HASHTABLE_PARTITIONS \<and> part_free V p \<and> todo s ! p = []"
  shows "\<exists>s'. for_parts (config_part full_run V c) ps s = Some (OB_SUCCESS, s') \<and> sound hf E (bump C (Some c)) Z n s' \<and> frame s s'
    \<and> (\<forall>p \<in> set ps. \<forall>a. Some a \<in> edata ` set (elems (table s ! p)) \<longrightarrow> configured c s' a)"
proof -
  define I where "I s' = (sound hf E (bump C (Some c)) Z n s' \<and> frame s s')" for s' :: "'ip cmgr"
  define D where "D p s' = (\<forall>a. Some a \<in> edata ` set (elems (table s ! p)) \<longrightarrow> configured c s' a)" for p and s' :: "'ip cmgr"
  have step: "\<exists>s''. config_part full_run V c p s' = Some (OB_SUCCESS, s'') \<and> I s'' \<and> D p s'' \<and> (\<forall>q. D q s' \<longrightarrow> D q s'')"
    if "p \<in> set ps" "I s'" for p s'
  proof -
    have i: "sound hf E (bump C (Some c)) Z n s'" "frame s s'" using that(2) by (simp_all add: I_def)
    have p: "p < MT_HASHTABLE_PARTITIONS" "part_free V p" "todo s' ! p = []" using assms(2) that(1) i(2) by (simp_all add: frame_def)
    from config_part_all [OF i(1) p] i(2) show ?thesis by (auto simp: I_def D_def frame_def)
  qed
  have "I s" using assms(1) by (simp add: I_def)
  from for_parts_all [where I = I and D = D and ps = ps, OF step this] show ?thesis unfolding I_def D_def by blast
qed

lemma revalidate_config_all:
  assumes "sound hf E (bump C (Some c)) Z n s" and free: "\<forall>p < MT_HASHTABLE_PARTITIONS. part_free V p \<and> todo s ! p = []"
  shows "\<exists>s'. revalidate_config full_run V (Some c) s = Some (OB_SUCCESS, s') \<and> sound hf E C Z n s' \<and> frame s s'
    \<and> (\<forall>x a. mt_content (table s) x = Some (Some a) \<longrightarrow> configured c s' a)"
proof -
  have "\<forall>p \<in> set [0..<MT_HASHTABLE_PARTITIONS]. p < MT_HASHTABLE_PARTITIONS \<and> part_free V p \<and> todo s ! p = []" using free by simp
  from config_parts_all [OF assms(1) this] obtain s1 where
    s1: "for_parts (config_part full_run V c) [0..<MT_HASHTABLE_PARTITIONS] s = Some (OB_SUCCESS, s1)" "sound hf E (bump C (Some c)) Z n s1"
    "frame s s1" "\<forall>p < MT_HASHTABLE_PARTITIONS. \<forall>a. Some a \<in> edata ` set (elems (table s ! p)) \<longrightarrow> configured c s1 a" by auto
  from cfg_dec_sound [OF s1(2)] obtain H where H: "cfg_dec c s1 = Some (s1\<lparr>cfgs := H\<rparr>)" "sound hf E C Z n (s1\<lparr>cfgs := H\<rparr>)" by blast
  have "configured c s1 a" if "mt_content (table s) x = Some (Some a)" for x a
  proof -
    let ?p = "part_num (fst x)"
    from that obtain y where "y \<in> set (elems (table s ! ?p))" "edata y = Some a"
      unfolding mt_content_def tab_def by (auto dest!: map_of_SomeD)
    then have "Some a \<in> edata ` set (elems (table s ! ?p))" by (metis image_eqI)
    with s1(4) part_num_less [of "fst x"] show ?thesis by simp
  qed
  then show ?thesis using s1(1,3) H by (simp add: revalidate_config_def frame_def)
qed

lemma new_config_everywhere:
  assumes "sound hf E C Z n s" and "0 < C c" and "cm_inited s" and "\<not> rw_held s" and "cm_config s = Some old"
    and "cfgs s old = Some c0" and "cfgs s c = Some c1" and "\<not> config_eq c0 c1"
    and "\<forall>p < MT_HASHTABLE_PARTITIONS. part_free V p \<and> todo s ! p = []"
  shows "\<exists>s'. update_congestion_config full_run V (Some c) False s = Some (OB_SUCCESS, s') \<and> sound hf E C Z n s'
    \<and> cm_config s' = Some c \<and> table s' = table s \<and> (\<forall>x a. mt_content (table s') x = Some (Some a) \<longrightarrow> configured c s' a)"
proof -
  let ?s = "s\<lparr>rw_held := True\<rparr>"
  have s: "sound hf E C Z n ?s" "cfgs ?s c = Some c1" "cm_config ?s = Some old" using assms by simp_all
  obtain H G K where x: "cfg_inc c ?s = Some (?s\<lparr>cfgs := H\<rparr>)" "cfg_dec old (?s\<lparr>cfgs := H\<rparr>) = Some (?s\<lparr>cfgs := G\<rparr>)"
    "sound hf E C Z n (?s\<lparr>cfgs := G, cm_config := Some c\<rparr>)"
    "cfg_inc c (?s\<lparr>cfgs := G, cm_config := Some c\<rparr>) = Some (?s\<lparr>cfgs := K, cm_config := Some c\<rparr>)"
    "sound hf E (bump C (Some c)) Z n (?s\<lparr>cfgs := K, cm_config := Some c\<rparr>)" by (rule swap_config_sound [OF s])
  let ?u = "?s\<lparr>cfgs := K, cm_config := Some c\<rparr>"
  have "\<forall>p < MT_HASHTABLE_PARTITIONS. part_free V p \<and> todo ?u ! p = []" using assms(9) by simp
  from revalidate_config_all [OF x(5) this] obtain s' where s': "revalidate_config full_run V (Some c) ?u = Some (OB_SUCCESS, s')"
    "sound hf E C Z n s'" "frame ?u s'" "\<forall>x a. mt_content (table ?u) x = Some (Some a) \<longrightarrow> configured c s' a" by blast
  then have "change_config full_run V c False ?s = Some (OB_SUCCESS, s')"
    using x(1,2,4) assms(5-8) by (simp add: change_config_def)
  with s'(2-4) assms(3,4) show ?thesis by (simp add: update_congestion_config_def with_wrlock_def frame_def configured_def)
qed

section \<open>A new manager, and any sequence of operations\<close>

datatype 'ip cm_op =
    UpdateConfig addr bool
  | UpdateZone "u8 list" "u8 list" zone_status bool
  | UpdateServer 'ip int server_status "u8 list" "u8 list" bool
  | RemoveRecord 'ip
  | RemoveAllRecords
  | RunTodoList nat

fun cm_step :: "'ip env \<Rightarrow> 'ip cm_op \<Rightarrow> 'ip cmgr \<Rightarrow> (ob_err \<times> 'ip cmgr) option" where
  "cm_step V (UpdateConfig c is_init) s = update_congestion_config full_run V (Some c) is_init s"
| "cm_step V (UpdateZone zname rname st is_init) s = update_zone full_run V zname rname st is_init s"
| "cm_step V (UpdateServer ip cr st zname rname is_init) s = update_server full_run V ip cr st zname rname is_init s"
| "cm_step V (RemoveRecord ip) s = remove_record full_run V ip s"
| "cm_step V RemoveAllRecords s = remove_all_records full_run V s"
| "cm_step V (RunTodoList p) s = full_run V p s"

text \<open>
  The callers hold the configurations they pass, keep the names of zones within their arrays, and run a to-do
  list only when they have locked its partition.
\<close>

fun op_fits :: "(addr \<Rightarrow> nat) \<Rightarrow> 'ip env \<Rightarrow> 'ip cm_op \<Rightarrow> bool" where
  "op_fits C V (UpdateConfig c is_init) = (0 < C c)"
| "op_fits C V (UpdateZone zname rname st is_init) = names_fit zname rname"
| "op_fits C V (UpdateServer ip cr st zname rname is_init) = names_fit zname rname"
| "op_fits C V (RunTodoList p) = part_free V p"
| "op_fits C V _ = True"

text \<open>
  An update that tells the entries about a new configuration or zone holds \<open>rw_lock_\<close> meanwhile; it must not find
  a server that is still to be added.
\<close>

fun calm_for :: "'ip env \<Rightarrow> 'ip cm_op \<Rightarrow> 'ip cmgr \<Rightarrow> bool" where
  "calm_for V (UpdateConfig c is_init) s = (is_init \<or> calm V s)"
| "calm_for V (UpdateZone zname rname st is_init) s = (is_init \<or> calm V s)"
| "calm_for V _ s = True"

definition ready :: "'ip cmgr \<Rightarrow> bool" where
  "ready s = (cm_config s \<noteq> None \<and> \<not> rw_held s \<and> cm_inited s)"

lemma ready_keeps: "ready s \<Longrightarrow> keeps s s' \<Longrightarrow> ready s'"
  by (simp add: ready_def keeps_def)

lemma readyD: "ready s \<Longrightarrow> cm_config s \<noteq> None" "ready s \<Longrightarrow> \<not> rw_held s"
  by (simp_all add: ready_def)

lemma step_sound:
  assumes "sound hf E C Z (Suc n) s" and "ready s" and "hash_of V = hf" and "op_fits C V x" and "calm_for V x s"
  shows "\<exists>ret s'. cm_step V x s = Some (ret, s') \<and> sound hf E C Z n s' \<and> ready s'"
proof -
  have s: "sound hf E C Z n s" by (rule sound_room [OF assms(1)]) simp
  note d = readyD [OF assms(2)]
  have k: "\<exists>ret s'. r = Some (ret, s') \<and> sound hf E C Z n s' \<and> ready s'"
    if "\<exists>ret s'. r = Some (ret, s') \<and> sound hf E C Z n s' \<and> keeps s s'" for r
    using that ready_keeps [OF assms(2)] by blast
  show ?thesis
  proof (cases x)
    case (UpdateConfig c is_init)
    with assms(5) have "is_init \<or> cm_config s = None \<or> calm V s" by auto
    from update_config_sound [OF full_run(2) [OF assms(3)] s _ d(2) this, of "Some c"] UpdateConfig assms(2,4) show ?thesis
      by (auto simp: ready_def)
  next
    case (UpdateZone zname rname st is_init)
    with assms(4) have "names_fit zname rname" by simp
    moreover have "is_init \<or> runs hf V full_run \<and> cm_config s \<noteq> None \<and> calm V s"
      using assms(5) UpdateZone full_run(2) [OF assms(3)] d(1) by auto
    ultimately show ?thesis using update_zone_sound [where is_init = is_init and st = st, OF s _ _ d(2)]
      unfolding UpdateZone cm_step.simps by (intro k) blast
  next
    case (UpdateServer ip cr st zname rname is_init)
    with assms(4) have "names_fit zname rname" by simp
    from update_server_sound [OF assms(1) d(1) this assms(3) d(2)] show ?thesis unfolding UpdateServer cm_step.simps by (rule k)
  next
    case (RemoveRecord ip)
    from remove_record_sound [OF s d(1) assms(3) d(2)] show ?thesis unfolding RemoveRecord cm_step.simps by (rule k)
  next
    case RemoveAllRecords
    from remove_all_sound [OF s d(1) assms(3) d(2)] show ?thesis unfolding RemoveAllRecords cm_step.simps by (rule k)
  next
    case (RunTodoList p)
    show ?thesis
    proof (cases "p < MT_HASHTABLE_PARTITIONS")
      case True
      have "part_free V p" using assms(4) RunTodoList by simp
      then obtain s' where "full_run V p s = Some (OB_SUCCESS, s')" "sound hf E C Z n s'" "keeps s s'"
        using run_free [OF assms(3) s True _ d] by blast
      then show ?thesis unfolding RunTodoList cm_step.simps by (intro k) blast
    next
      case False
      with RunTodoList s assms(2) show ?thesis by (simp add: full_run_def numeral_2_eq_2)
    qed
  qed
qed

definition cm_start :: "addr option list \<Rightarrow> configs \<Rightarrow> int \<Rightarrow> 'ip cmgr" where
  "cm_start addrs H sz = snd (cm_init (replicate MT_HASHTABLE_PARTITIONS (True, True, True)) sz (cm_new addrs H))"

lemma start_sound:
  fixes s :: "'ip cmgr"
  assumes "0 < sz" and "sz < 2 ^ 62" and "int n < 2 ^ 62" and "covered C H" and s: "s = cm_start addrs H sz"
  shows "sound hf (\<lambda>_. 0) C (\<lambda>_. 0) n s" "cm_inited s" "cfgs s = H" "cm_config s = None" "todo s = replicate MT_HASHTABLE_PARTITIONS []"
    "mt_content (table s) = Map.empty" "\<not> rw_held s"
proof -
  let ?t = "\<lparr>buckets = Some (replicate (nat sz) []), cur_size = 0, bucket_num = sz\<rparr> :: ('ip, addr) imt"
  let ?T = "replicate MT_HASHTABLE_PARTITIONS ?t"
  have i: "s = (cm_new addrs H)\<lparr>cm_inited := True, table := ?T, todo := replicate MT_HASHTABLE_PARTITIONS []\<rparr>"
    using assms(1) by (simp add: s cm_start_def cm_init_def mt_init_def new_parts cm_new_def)
  have "imt_ok ?t" using assms(1,2) by (auto simp: imt_ok_def in_place_def)
  then have f: "mt_fits n ?T" using assms(2,3) unfolding mt_fits_def by simp
  have t: "tab ?t = Map.empty" by (rule ext) (simp add: tab_def elems_def)
  then have c: "mt_content ?T = Map.empty" by (intro ext) (simp add: mt_content_def part_num_less)
  have h: "homed ?T" using t by (simp add: homed_def)
  have r: "reqs P (concat (replicate m [])) = 0" for P :: "'ip request \<Rightarrow> bool" and m by (induction m) simp_all
  show "sound hf (\<lambda>_. 0) C (\<lambda>_. 0) n s"
    using f c h assms(4)
    by (simp add: i sound_def shape_def erefs_def crefs_def zrefs_def r cm_new_def holders_def covered_def)
  show "cm_inited s" "cfgs s = H" "cm_config s = None" "todo s = replicate MT_HASHTABLE_PARTITIONS []" "mt_content (table s) = Map.empty"
    "\<not> rw_held s" using c by (simp_all add: i cm_new_def)
qed

text \<open>
  The states a manager gets into: a new one is given a configuration, then come operations of any kind, each with
  partitions locked and allocations failing as it happens; \<open>k\<close> is their number.
\<close>

inductive reached :: "('ip \<Rightarrow> u64) \<Rightarrow> (addr \<Rightarrow> nat) \<Rightarrow> nat \<Rightarrow> 'ip cmgr \<Rightarrow> bool" for hf C where
  reached_init: "0 < sz \<Longrightarrow> sz < 2 ^ 62 \<Longrightarrow> covered C H \<Longrightarrow> 0 < C c \<Longrightarrow>
    cm_step V (UpdateConfig c True) (cm_start addrs H sz) = Some (ret, s) \<Longrightarrow> reached hf C 0 s"
| reached_step: "reached hf C k s \<Longrightarrow> hash_of V = hf \<Longrightarrow> op_fits C V x \<Longrightarrow> calm_for V x s \<Longrightarrow>
    cm_step V x s = Some (ret, s') \<Longrightarrow> reached hf C (Suc k) s'"

lemma first_config:
  fixes s :: "'ip cmgr"
  assumes "0 < sz" and "sz < 2 ^ 62" and "int n < 2 ^ 62" and "covered C H" and "0 < C c" and s: "s = cm_start addrs H sz"
  shows "\<exists>s'. cm_step V (UpdateConfig c True) s = Some (OB_SUCCESS, s') \<and> sound hf (\<lambda>_. 0) C (\<lambda>_. 0) n s' \<and> ready s'"
proof -
  note st = start_sound [OF assms(1-4) s]
  let ?s = "s\<lparr>rw_held := True\<rparr>"
  obtain d where "H c = Some d" using coveredD [OF assms(4,5)] by blast
  then have d: "cfgs ?s c = Some d" using st(3) by simp
  have "sound hf (\<lambda>_. 0) C (\<lambda>_. 0) n ?s" using st(1) by simp
  from cfg_inc_sound [OF this d] obtain G where G: "cfg_inc c ?s = Some (?s\<lparr>cfgs := G\<rparr>)"
    "sound hf (\<lambda>_. 0) (bump C (Some c)) (\<lambda>_. 0) n (?s\<lparr>cfgs := G\<rparr>)" by blast
  have "sound hf (\<lambda>_. 0) C (\<lambda>_. 0) n (?s\<lparr>cfgs := G\<rparr>\<lparr>cm_config := Some c\<rparr>)"
    using config_sound [OF G(2), of "Some c" C] st(4) by simp
  moreover have "?s\<lparr>cfgs := G\<rparr>\<lparr>cm_config := Some c\<rparr> = s\<lparr>cfgs := G, cm_config := Some c\<rparr>\<lparr>rw_held := True\<rparr>"
    by (rule cmgr.equality) simp_all
  ultimately have "sound hf (\<lambda>_. 0) C (\<lambda>_. 0) n (s\<lparr>cfgs := G, cm_config := Some c\<rparr>)" by (simp only: sound_held)
  with G(1) st(2-7) show ?thesis by (simp add: update_congestion_config_def with_wrlock_def change_config_def ready_def)
qed

lemma reached_sound: "reached hf C k s \<Longrightarrow> int (n + k) < 2 ^ 62 \<Longrightarrow> sound hf (\<lambda>_. 0) C (\<lambda>_. 0) n s \<and> ready s"
proof (induction arbitrary: n rule: reached.induct)
  case (reached_init sz H c V addrs ret s)
  have "int n < 2 ^ 62" using reached_init.prems by simp
  from first_config [OF reached_init.hyps(1,2) this reached_init.hyps(3,4) refl, where addrs = addrs and V = V and hf = hf] reached_init.hyps(5) show ?case by fastforce
next
  case (reached_step k s V x ret s')
  have "int (Suc n + k) < 2 ^ 62" using reached_step.prems by simp
  from reached_step.IH [OF this] step_sound [OF _ _ reached_step.hyps(2-4)] reached_step.hyps(5) show ?case by fastforce
qed

text \<open>Running a sequence of operations, as far as they are allowed.\<close>

fun cm_run :: "(addr \<Rightarrow> nat) \<Rightarrow> ('ip env \<times> 'ip cm_op) list \<Rightarrow> 'ip cmgr \<Rightarrow> 'ip cmgr option" where
  "cm_run C [] s = Some s"
| "cm_run C (y # l) s =
     (if op_fits C (fst y) (snd y) \<and> calm_for (fst y) (snd y) s then do { (_, s) \<leftarrow> cm_step (fst y) (snd y) s; cm_run C l s } else None)"

lemma run_reached: "reached hf C k s \<Longrightarrow> \<forall>y \<in> set l. hash_of (fst y) = hf \<Longrightarrow> cm_run C l s = Some s' \<Longrightarrow> reached hf C (k + length l) s'"
proof (induction l arbitrary: k s)
  case Nil
  then show ?case by simp
next
  case (Cons y l)
  from Cons.prems(3) obtain ret s1 where s1: "op_fits C (fst y) (snd y)" "calm_for (fst y) (snd y) s"
    "cm_step (fst y) (snd y) s = Some (ret, s1)" "cm_run C l s1 = Some s'" by (auto split: if_splits simp: bind_eq_Some_conv)
  have "reached hf C (Suc k) s1" by (rule reached_step [OF Cons.prems(1) _ s1(1-3)]) (use Cons.prems(2) in simp)
  from Cons.IH [OF this _ s1(4)] Cons.prems(2) show ?case by simp
qed

text \<open>What that means for an entry that can be found.\<close>

lemma found_alive:
  assumes "sound hf E C Z n s" and "mt_content (table s) x = Some (Some a)"
  shows "\<exists>e c. ents s a = Some e \<and> int (erefs s a) \<le> ref_count e \<and> 0 < ref_count e \<and> control_config e = Some c \<and> cfgs s c \<noteq> None
    \<and> (\<forall>z. zone_state e = Some z \<longrightarrow> zns s z \<noteq> None)"
proof -
  have pos: "0 < erefs s a" by (rule in_content [OF assms])
  then have pos': "0 < erefs s a + E a" by simp
  from ent_live [OF assms(1) pos'] obtain e c where e: "ents s a = Some e" "control_config e = Some c" by blast
  have f: "finite (dom (ents s))" using soundD(1) [OF assms(1)] by (simp add: shape_def)
  have "int (erefs s a + E a) \<le> ref_count e" using coveredD [OF soundD(2) [OF assms(1)], of a] pos' e(1) by simp
  moreover have "0 < crefs s c + C c" using holders_pos [OF f e(1), of "\<lambda>e. control_config e = Some c"] e(2) by (simp add: crefs_def)
  from cfg_live [OF assms(1) this] have "cfgs s c \<noteq> None" by blast
  moreover have "zns s z \<noteq> None" if "zone_state e = Some z" for z
  proof -
    have "0 < zrefs s z + Z z" using holders_pos [OF f e(1), of "\<lambda>e. zone_state e = Some z"] that by (simp add: zrefs_def)
    from zn_live [OF assms(1) this] show ?thesis by blast
  qed
  ultimately show ?thesis using e pos by auto
qed

section \<open>Deferred requests\<close>

lemma sound_table: "sound hf E C Z (k + n) s \<Longrightarrow> mt_fits (k + n) (table s) \<and> mt_fits n (table s) \<and> homed (table s)"
  by (auto simp: sound_def shape_def mt_fits_def)

lemma put_content:
  assumes "sound hf E C Z (Suc n) s" and "tbl_insert h ip a s = Some (old, s1)"
  shows "mt_content (table s1) = (if fst (mem_alloc s) \<or> mt_content (table s) (h, ip) \<noteq> None
    then (mt_content (table s))((h, ip) \<mapsto> Some a) else mt_content (table s))"
proof -
  obtain q l where q: "mem_alloc s = (q, s\<lparr>fresh := l\<rparr>)" using mem_alloc_fresh [of s] by blast
  obtain r k where r: "mem_alloc (s\<lparr>fresh := l\<rparr>) = (r, s\<lparr>fresh := k\<rparr>)" using mem_alloc_fresh [of "s\<lparr>fresh := l\<rparr>"] by auto
  have t: "mt_fits (Suc n) (table s)" "homed (table s)" using sound_table [of hf E C Z 1 n s] assms(1) by simp_all
  from mt_put [OF t, of q r h ip "Some a"] assms(2) q r show ?thesis by (auto simp: tbl_insert_def)
qed

lemma take_content:
  assumes "sound hf E C Z n s" and "tbl_remove h ip s = Some (old, s1)"
  shows "mt_content (table s1) = (mt_content (table s))((h, ip) := None)"
proof -
  have t: "mt_fits n (table s)" "homed (table s)" using sound_table [of hf E C Z 0 n s] assms(1) by simp_all
  from mt_take [OF t, of h ip] assms(2) show ?thesis by (auto simp: tbl_remove_def)
qed

lemma discard_opt_keeps_table: "sound hf (bump E p) C Z n s \<Longrightarrow> discard_opt p s = Some s' \<Longrightarrow> table s' = table s"
  by (drule discard_opt_sound) (auto simp: frame_def)

lemma take_discard:
  assumes "sound hf E C Z n s"
  shows "\<exists>old s1 s'. tbl_remove h ip s = Some (old, s1) \<and> discard_opt old s1 = Some s' \<and> sound hf E C Z n s'
    \<and> mt_content (table s') = (mt_content (table s))((h, ip) := None)"
proof -
  from tbl_remove_sound [OF assms, of h ip] obtain old T where t: "tbl_remove h ip s = Some (old, s\<lparr>table := T\<rparr>)"
    "sound hf (bump E old) C Z n (s\<lparr>table := T\<rparr>)" by blast
  from discard_opt_sound [OF t(2)] obtain s' where d: "discard_opt old (s\<lparr>table := T\<rparr>) = Some s'" "sound hf E C Z n s'"
    "frame (s\<lparr>table := T\<rparr>) s'" by blast
  have "table s' = T" using d(3) by (simp add: frame_def)
  with t(1) d(1,2) take_content [OF assms t(1)] show ?thesis by auto
qed

lemma full_run_list:
  assumes "p < MT_HASHTABLE_PARTITIONS"
  shows "full_run V p s = map_option (Pair OB_SUCCESS) (process_all (run_todo_list 1) V p (rev (todo s ! p)) (s\<lparr>todo := (todo s)[p := []]\<rparr>))"
proof -
  have two: "(2 :: nat) = Suc 1" by simp
  have m: "(do { s \<leftarrow> r; Some (OB_SUCCESS, s) }) = map_option (Pair OB_SUCCESS) r" for r :: "'a cmgr option" by (cases r) simp_all
  show ?thesis unfolding full_run_def two run_todo_list.simps(2) using assms m by simp
qed

lemma process_all_append:
  "process_all run V p (xs @ ys) s = Option.bind (process_all run V p xs s) (process_all run V p ys)"
  by (induction xs arbitrary: s) (simp_all add: split_def)

lemma with_reqs_bump: "with_reqs f (x # xs) g = with_reqs f xs (bump g (f x))"
  unfolding with_reqs_Cons by (rule ext) (cases "f x"; simp add: with_reqs_def bump_def)

text \<open>The newest request of a list is processed in the state that the older ones leave.\<close>

lemma older_first:
  assumes "sound hf E C Z n s" and "ready s" and "p < MT_HASHTABLE_PARTITIONS" and "todo s ! p = x # l"
    and "hash_of V = hf" and "part_free V p"
  shows "\<exists>t. process_all (run_todo_list 1) V p (rev l) (s\<lparr>todo := (todo s)[p := []]\<rparr>) = Some t
    \<and> sound hf (bump E (rq_entry x)) (bump C (rq_config x)) (bump Z (rq_zone x)) (n + (if adds x then 1 else 0)) t
    \<and> full_run V p s = map_option (\<lambda>(_, s). (OB_SUCCESS, s)) (process (run_todo_list 1) V p x t)"
proof -
  let ?s = "s\<lparr>todo := (todo s)[p := []]\<rparr>"
  have len: "length (todo s) = MT_HASHTABLE_PARTITIONS" by (rule todo_length [OF assms(1)])
  have "sound hf (with_reqs rq_entry l (bump E (rq_entry x))) (with_reqs rq_config l (bump C (rq_config x)))
      (with_reqs rq_zone l (bump Z (rq_zone x))) (n + reqs adds (x # l)) ?s"
    using take_todo_sound [OF assms(1,3)] unfolding assms(4) with_reqs_bump .
  moreover have "n + reqs adds (x # l) = n + (if adds x then 1 else 0) + reqs adds (rev l)" by (simp add: reqs_def flip: rev_filter)
  moreover have "\<forall>x \<in> set (rev l). request_ok hf p x" using soundD(1) [OF assms(1)] assms(3,4) by (simp add: shape_def)
  moreover have "cm_config ?s \<noteq> None" "rw_held ?s \<longrightarrow> no_server (rev l)" using readyD [OF assms(2)] by simp_all
  moreover have "todo ?s ! p = []" using len assms(3) by simp
  moreover have "idle V (run_todo_list 1)" using run_idle [of V 0] by simp
  ultimately obtain t where t: "process_all (run_todo_list 1) V p (rev l) ?s = Some t"
    "sound hf (bump E (rq_entry x)) (bump C (rq_config x)) (bump Z (rq_zone x)) (n + (if adds x then 1 else 0)) t"
    using process_all_sound [where xs = "rev l" and run = "run_todo_list 1" and s = ?s, OF _ assms(5,3,6)] by (simp only: with_reqs_simps) blast
  moreover have "full_run V p s = map_option (\<lambda>(_, s). (OB_SUCCESS, s)) (process (run_todo_list 1) V p x t)"
    unfolding full_run_list [OF assms(3)] assms(4) rev.simps process_all_append t(1)
    by (cases "process (run_todo_list 1) V p x t") (auto simp: split_def)
  ultimately show ?thesis by blast
qed

text \<open>A new entry that is deferred is the one that is found after the list has been worked off, whatever else was on
  it, if the address had one already or there is memory for it then.\<close>

lemma add_later:
  assumes "sound hf E C Z (Suc n) s" and "ready s" and "ents s a = Some e" and "control_config e \<noteq> None"
    and "\<not> part_free V (part_num (hash_of V ip))" and "add_record full_run V ip a False s = Some (OB_SUCCESS, s1)"
    and "hash_of V' = hf" and "part_free V' (part_num (hash_of V ip))"
  shows "\<exists>t s2. process_all (run_todo_list 1) V' (part_num (hash_of V ip)) (rev (todo s ! part_num (hash_of V ip)))
      (s1\<lparr>todo := (todo s1)[part_num (hash_of V ip) := []]\<rparr>) = Some t
    \<and> full_run V' (part_num (hash_of V ip)) s1 = Some (OB_SUCCESS, s2) \<and> sound hf E C Z n s2
    \<and> mt_content (table s2) = (if fst (mem_alloc t) \<or> mt_content (table t) (hash_of V ip, ip) \<noteq> None
        then (mt_content (table t))((hash_of V ip, ip) \<mapsto> Some a) else mt_content (table t))"
proof -
  let ?h = "hash_of V ip"
  let ?p = "part_num ?h"
  let ?x = "(new_request V)\<lparr>rq_op := ADD_RECORD, rq_hash := ?h, rq_key := ip, rq_entry := Some a\<rparr>"
  from add_todo_sound [OF assms(1,3,4), of V ?h ip] assms(5,6) have s1: "sound hf E C Z n s1" "keeps s s1"
    by (auto simp: add_record_def Let_def)
  obtain q l where q: "mem_alloc s = (q, s\<lparr>fresh := l\<rparr>)" using mem_alloc_fresh [of s] by blast
  with assms(5,6) obtain H where s1': "s1 = push_todo ?p ?x (s\<lparr>fresh := l\<rparr>\<lparr>ents := H\<rparr>)"
    by (cases q) (auto simp: add_record_def add_record_todo_list_def Let_def ent_inc_def bind_eq_Some_conv)
  have todo: "todo s1 ! ?p = ?x # todo s ! ?p" using part_num_less [of ?h] todo_length [OF assms(1)] by (simp add: s1' push_todo_def)
  from older_first [OF s1(1) ready_keeps [OF assms(2) s1(2)] part_num_less todo assms(7,8)] obtain t where
    t: "process_all (run_todo_list 1) V' ?p (rev (todo s ! ?p)) (s1\<lparr>todo := (todo s1)[?p := []]\<rparr>) = Some t"
      "sound hf (bump E (Some a)) C Z (Suc n) t"
      "full_run V' ?p s1 = map_option (\<lambda>(_, s). (OB_SUCCESS, s)) (process (run_todo_list 1) V' ?p ?x t)"
    by (auto simp: adds_def)
  from tbl_insert_sound [OF t(2), of ?h ip] obtain old T l' where i: "tbl_insert ?h ip a t = Some (old, t\<lparr>table := T, fresh := l'\<rparr>)"
    "sound hf (bump E old) C Z n (t\<lparr>table := T, fresh := l'\<rparr>)" by blast
  from discard_opt_sound [OF i(2)] obtain s2 where s2: "discard_opt old (t\<lparr>table := T, fresh := l'\<rparr>) = Some s2" "sound hf E C Z n s2"
    "frame (t\<lparr>table := T, fresh := l'\<rparr>) s2" by blast
  have "full_run V' ?p s1 = Some (OB_SUCCESS, s2)" using t(3) i(1) s2(1) by (simp add: process_def)
  moreover have "table s2 = T" using s2(3) by (simp add: frame_def)
  ultimately show ?thesis using t(1) s2(2) put_content [OF t(2) i(1)] by (intro exI [of _ t] exI [of _ s2]) simp
qed

text \<open>A removal that is carried out works off the list first and then takes the address out of the table.\<close>

lemma remove_now:
  assumes "sound hf E C Z n s" and "ready s" and "hash_of V = hf" and "part_free V (part_num (hash_of V ip))"
  shows "\<exists>t s'. full_run V (part_num (hash_of V ip)) s = Some (OB_SUCCESS, t)
    \<and> remove_record full_run V ip s = Some (OB_SUCCESS, s') \<and> sound hf E C Z n s'
    \<and> mt_content (table s') = (mt_content (table t))((hash_of V ip, ip) := None)"
proof -
  obtain t where t: "full_run V (part_num (hash_of V ip)) s = Some (OB_SUCCESS, t)" "sound hf E C Z n t"
    by (rule run_free [OF assms(3,1) part_num_less assms(4) readyD [OF assms(2)]])
  from take_discard [OF t(2), of "hash_of V ip" ip] t(1) assms(4) show ?thesis by (auto simp: remove_record_def Let_def)
qed

text \<open>One that is deferred looks for the address under hash 0 afterwards: the request lost the hash.\<close>

lemma remove_later:
  assumes "sound hf E C Z n s" and "ready s" and "\<not> part_free V (part_num (hash_of V ip))"
    and "remove_record full_run V ip s = Some (OB_SUCCESS, s1)"
    and "hash_of V = hf" and "hash_of V' = hf" and "part_free V' (part_num (hash_of V ip))"
  shows "\<exists>t s2. process_all (run_todo_list 1) V' (part_num (hash_of V ip)) (rev (todo s ! part_num (hash_of V ip)))
      (s1\<lparr>todo := (todo s1)[part_num (hash_of V ip) := []]\<rparr>) = Some t
    \<and> full_run V' (part_num (hash_of V ip)) s1 = Some (OB_SUCCESS, s2) \<and> sound hf E C Z n s2
    \<and> mt_content (table s2) = (mt_content (table t))((0, ip) := None)"
proof -
  let ?p = "part_num (hash_of V ip)"
  let ?x = "(new_request V)\<lparr>rq_op := REMOVE_RECORD, rq_key := ip\<rparr>"
  from remove_record_sound [OF assms(1) readyD(1) [OF assms(2)] assms(5) readyD(2) [OF assms(2)], of ip] assms(4)
  have s1: "sound hf E C Z n s1" "keeps s s1" by auto
  obtain q l where q: "mem_alloc s = (q, s\<lparr>fresh := l\<rparr>)" using mem_alloc_fresh [of s] by blast
  with assms(3,4) have s1': "s1 = push_todo ?p ?x (s\<lparr>fresh := l\<rparr>)" by (cases q) (simp_all add: remove_record_def Let_def)
  have todo: "todo s1 ! ?p = ?x # todo s ! ?p"
    using part_num_less [of "hash_of V ip"] todo_length [OF assms(1)] by (simp add: s1' push_todo_def)
  from older_first [OF s1(1) ready_keeps [OF assms(2) s1(2)] part_num_less todo assms(6,7)] obtain t where
    t: "process_all (run_todo_list 1) V' ?p (rev (todo s ! ?p)) (s1\<lparr>todo := (todo s1)[?p := []]\<rparr>) = Some t" "sound hf E C Z n t"
      "full_run V' ?p s1 = map_option (\<lambda>(_, s). (OB_SUCCESS, s)) (process (run_todo_list 1) V' ?p ?x t)"
    by (auto simp: adds_def)
  have "rq_hash ?x = 0" by (simp add: new_request_def)
  with take_discard [OF t(2), of 0 ip] t(3) show ?thesis using t(1) by (auto simp: process_def)
qed

section \<open>The lock\<close>

text \<open>A deferred server that is not known is added, which needs the configuration, and so \<open>rw_lock_\<close>.\<close>

lemma add_waits: "rw_held s \<Longrightarrow> st \<noteq> DELETED \<Longrightarrow> add_new_server run V ip cr st zname rname is_init s = None"
  by (simp add: add_new_server_def get_congestion_control_config_def)

lemma process_waits:
  assumes "sound hf E C Z n s" and "rw_held s" and "rq_op x = REVALIDATE_SERVER" and "rq_server_state x \<noteq> DELETED"
    and "mt_content (table s) (rq_hash x, rq_key x) = None" and "rq_zone x \<noteq> None"
  shows "process run V p x s = None"
proof -
  have "mt_fits (0 + n) (table s)" using sound_table [of hf E C Z 0 n s] assms(1) by simp
  from mt_find [OF this, of "rq_hash x" "rq_key x"] assms(5) have l: "mt_lookup (rq_hash x) (rq_key x) (table s) = Some None" by simp
  from assms(6) obtain z where z: "rq_zone x = Some z" by blast
  show ?thesis using assms(3) l z add_waits [OF assms(2,4)] by (simp add: process_def bind_eq_None_conv split: option.split)
qed

lemma for_parts_append:
  "for_parts f (ps @ qs) s = do { (ret, s) \<leftarrow> for_parts f ps s; (if ret \<noteq> OB_SUCCESS then Some (ret, s) else for_parts f qs s) }"
proof (induction ps arbitrary: s)
  case Nil
  then show ?case by simp
next
  case (Cons p ps)
  then show ?case by (cases "f p s") auto
qed

lemma update_waits:
  assumes "sound hf E C Z n s" and "0 < C c" and "ready s" and "cm_config s = Some old"
    and "cfgs s old = Some c0" and "cfgs s c = Some c1" and "\<not> config_eq c0 c1"
    and free: "\<forall>q < MT_HASHTABLE_PARTITIONS. part_free V q" and p: "p < MT_HASHTABLE_PARTITIONS"
    and todo: "\<forall>q < p. todo s ! q = []" "todo s ! p = [x]"
    and x: "rq_op x = REVALIDATE_SERVER" "rq_server_state x \<noteq> DELETED" "mt_content (table s) (rq_hash x, rq_key x) = None"
  shows "update_congestion_config full_run V (Some c) False s = None"
proof -
  let ?s = "s\<lparr>rw_held := True\<rparr>"
  have s: "sound hf E C Z n ?s" "cfgs ?s c = Some c1" "cm_config ?s = Some old" using assms by simp_all
  obtain H G K where k: "cfg_inc c ?s = Some (?s\<lparr>cfgs := H\<rparr>)" "cfg_dec old (?s\<lparr>cfgs := H\<rparr>) = Some (?s\<lparr>cfgs := G\<rparr>)"
    "sound hf E C Z n (?s\<lparr>cfgs := G, cm_config := Some c\<rparr>)"
    "cfg_inc c (?s\<lparr>cfgs := G, cm_config := Some c\<rparr>) = Some (?s\<lparr>cfgs := K, cm_config := Some c\<rparr>)"
    "sound hf E (bump C (Some c)) Z n (?s\<lparr>cfgs := K, cm_config := Some c\<rparr>)" by (rule swap_config_sound [OF s])
  let ?u = "?s\<lparr>cfgs := K, cm_config := Some c\<rparr>"
  have "\<forall>q \<in> set [0..<p]. q < MT_HASHTABLE_PARTITIONS \<and> part_free V q \<and> todo ?u ! q = []" using free p todo(1) by simp
  from config_parts_all [OF k(5) this] obtain t where t: "for_parts (config_part full_run V c) [0..<p] ?u = Some (OB_SUCCESS, t)"
    "sound hf E (bump C (Some c)) Z n t" "frame ?u t" by blast
  have taken: "sound hf (with_reqs rq_entry [x] E) (with_reqs rq_config [x] (bump C (Some c))) (with_reqs rq_zone [x] Z) (n + reqs adds [x])
      (t\<lparr>todo := (todo t)[p := []]\<rparr>)"
    using take_todo_sound [OF t(2) p] t(3) todo(2) by (simp add: frame_def)
  have "request_ok hf p x" using soundD(1) [OF assms(1)] p todo(2) by (auto simp: shape_def)
  then have z: "rq_zone x \<noteq> None" using x(1) by (simp add: request_ok_def)
  have "process (run_todo_list 1) V p x (t\<lparr>todo := (todo t)[p := []]\<rparr>) = None"
    by (rule process_waits [OF taken _ x(1,2) _ z]) (use t(3) x(3) in \<open>simp_all add: frame_def\<close>)
  then have "full_run V p t = None" using t(3) todo(2) by (simp add: full_run_list [OF p] frame_def)
  then have "config_part full_run V c p t = None" using free p by (simp add: config_part_def)
  moreover have "[0..<MT_HASHTABLE_PARTITIONS] = [0..<p] @ p # [Suc p..<MT_HASHTABLE_PARTITIONS]"
    using p upt_add_eq_append [of 0 p "MT_HASHTABLE_PARTITIONS - p"] by (simp add: upt_conv_Cons)
  ultimately have "revalidate_config full_run V (Some c) ?u = None"
    using t(1) by (simp add: revalidate_config_def for_parts_append)
  then show ?thesis using k(1,2,4) assms(3-7)
    by (simp add: update_congestion_config_def with_wrlock_def change_config_def ready_def)
qed

section \<open>The end of a manager\<close>

lemma drop_zones_sound:
  "sound hf E C (\<lambda>b. count_list zs b + Z b) n (s\<lparr>zones := []\<rparr>) \<Longrightarrow>
    \<exists>H. drop_zones zs s = Some (s\<lparr>zns := H\<rparr>) \<and> sound hf E C Z n (s\<lparr>zns := H, zones := []\<rparr>)"
proof (induction zs arbitrary: s)
  case Nil
  then show ?case by (intro exI [of _ "zns s"]) simp
next
  case (Cons z zs)
  have "(\<lambda>b. count_list (z # zs) b + Z b) = bump (\<lambda>b. count_list zs b + Z b) (Some z)" by (rule ext) simp
  with Cons.prems have "sound hf E C (bump (\<lambda>b. count_list zs b + Z b) (Some z)) n (s\<lparr>zones := []\<rparr>)" by (simp only:)
  from zn_dec_sound [OF this] obtain H where H: "zn_dec z (s\<lparr>zones := []\<rparr>) = Some (s\<lparr>zones := []\<rparr>\<lparr>zns := H\<rparr>)"
    "sound hf E C (\<lambda>b. count_list zs b + Z b) n (s\<lparr>zones := []\<rparr>\<lparr>zns := H\<rparr>)" by blast
  then have "zn_dec z s = Some (s\<lparr>zns := H\<rparr>)" unfolding zn_dec_iff by simp
  note dec = this
  have swap: "s\<lparr>zones := []\<rparr>\<lparr>zns := K\<rparr> = s\<lparr>zns := K\<rparr>\<lparr>zones := []\<rparr>" for K by (rule cmgr.equality) simp_all
  have "sound hf E C (\<lambda>b. count_list zs b + Z b) n (s\<lparr>zns := H\<rparr>\<lparr>zones := []\<rparr>)" using H(2) unfolding swap .
  from Cons.IH [OF this] obtain G where "drop_zones zs (s\<lparr>zns := H\<rparr>) = Some (s\<lparr>zns := G\<rparr>)"
    "sound hf E C Z n (s\<lparr>zns := G, zones := []\<rparr>)" by auto
  with dec show ?case by (intro exI [of _ G]) simp
qed

lemma destroy_sound:
  fixes s :: "'ip cmgr"
  assumes "sound hf E C Z n s" and "cm_config s \<noteq> None" and "hash_of V = hf" and "\<not> rw_held s"
  shows "\<exists>s'. cm_destroy full_run V s = Some s' \<and> sound hf E C Z n s' \<and> cm_config s' = None \<and> zones s' = [] \<and> \<not> cm_inited s'"
proof -
  have step: "\<exists>ret s'. (if part_free V p then do {
           (_, s) \<leftarrow> full_run V p s;
           s \<leftarrow> clear_part p s;
           Some (OB_SUCCESS, s)
         } else Some (OB_SUCCESS, s)) = Some (ret, s') \<and> sound hf E C Z n s' \<and> keeps s s' \<and> \<not> rw_held s'"
    if p: "p \<in> set [0..<MT_HASHTABLE_PARTITIONS]" and s: "sound hf E C Z n s" "cm_config s \<noteq> None" "\<not> rw_held s" for p and s :: "'ip cmgr"
  proof (cases "part_free V p")
    case True
    have p': "p < MT_HASHTABLE_PARTITIONS" using p by simp
    obtain s1 where s1: "full_run V p s = Some (OB_SUCCESS, s1)" "sound hf E C Z n s1" "keeps s s1"
      by (rule run_free [OF assms(3) s(1) p' True s(2,3)])
    from clear_part_sound [OF s1(2) p'] obtain s2 where "clear_part p s1 = Some s2" "sound hf E C Z n s2" "frame_t s1 s2" by blast
    with True s1(1,3) s(3) show ?thesis by (simp add: frame_t_def keeps_def)
  qed (use s(1,3) in simp)
  from sound_for_parts [where J = "\<lambda>s. \<not> rw_held s" and ps = "[0..<MT_HASHTABLE_PARTITIONS]" and f = "\<lambda>p s. if part_free V p then do {
           (_, s) \<leftarrow> full_run V p s;
           s \<leftarrow> clear_part p s;
           Some (OB_SUCCESS, s)
         } else Some (OB_SUCCESS, s)", OF step assms(1,2,4)] obtain ret s1 where
    s1: "for_parts (\<lambda>p s. if part_free V p then do {
           (_, s) \<leftarrow> full_run V p s;
           s \<leftarrow> clear_part p s;
           Some (OB_SUCCESS, s)
         } else Some (OB_SUCCESS, s)) [0..<MT_HASHTABLE_PARTITIONS] s = Some (ret, s1)" "sound hf E C Z n s1" "keeps s s1" by blast
  obtain c where c: "cm_config s1 = Some c" using s1(3) assms(2) by (auto simp: keeps_def)
  have "sound hf E (bump C (Some c)) Z n (s1\<lparr>cm_config := None\<rparr>)" by (rule config_sound [OF s1(2)]) (simp add: c)
  from cfg_dec_sound [OF this] obtain G where G: "cfg_dec c (s1\<lparr>cm_config := None\<rparr>) = Some (s1\<lparr>cm_config := None\<rparr>\<lparr>cfgs := G\<rparr>)"
    "sound hf E C Z n (s1\<lparr>cm_config := None\<rparr>\<lparr>cfgs := G\<rparr>)" by blast
  then have dec: "cfg_dec c s1 = Some (s1\<lparr>cfgs := G\<rparr>)" by (auto simp: cfg_dec_def dest: arg_cong [where f = cfgs])
  let ?t = "s1\<lparr>cfgs := G, cm_config := None\<rparr>"
  have "s1\<lparr>cm_config := None\<rparr>\<lparr>cfgs := G\<rparr> = ?t" by (rule cmgr.equality) simp_all
  with G(2) have "sound hf E C Z n ?t" by (simp only:)
  then have "sound hf E C (\<lambda>b. count_list (zones ?t) b + Z b) n (?t\<lparr>zones := []\<rparr>)" by (rule zones_sound) simp
  from drop_zones_sound [OF this] obtain H where H: "drop_zones (zones s1) ?t = Some (?t\<lparr>zns := H\<rparr>)"
    "sound hf E C Z n (?t\<lparr>zns := H, zones := []\<rparr>)" by auto
  let ?u = "?t\<lparr>zns := H\<rparr>\<lparr>zones := [], cm_inited := False, base_servers_added := False, congestion_enabled := True\<rparr>"
  have "cm_destroy full_run V s = Some ?u" using s1(1) c dec H(1) by (simp add: cm_destroy_def)
  moreover have "sound hf E C Z n ?u" using H(2) by (simp add: sound_def shape_def erefs_def crefs_def zrefs_def)
  ultimately show ?thesis by (intro exI [of _ ?u]) simp
qed

end
