(* ===== verification/FloatMul.thy ===== *)
theory FloatMul
  imports Prelude
begin

text \<open>
  Products of an integer and a floating-point constant, cut to an integer, as
  \<open>(int64_t)((double)capacity_ * load_factor)\<close> and \<open>(int64_t)(1.1 * (double)item_count())\<close> of
  \<open>src/src/lib/hash/ob_pointer_hashmap.h\<close> compute them.  A double that is not zero is a product of an integer
  and a power of two; the conversion and the product keep 53 bits and round to the nearest, ties to even (the
  rounding every platform the program runs on uses).  The cut is towards zero.
\<close>

section \<open>Rounding\<close>

fun bit_length :: "int \<Rightarrow> nat" where
  "bit_length n = (if n \<le> 0 then 0 else Suc (bit_length (n div 2)))"

declare bit_length.simps [simp del]

lemma bit_length_le_0 [simp]: "n \<le> 0 \<Longrightarrow> bit_length n = 0"
  by (simp add: bit_length.simps)

lemma bit_length_bounds: "0 < n \<Longrightarrow> 2 ^ (bit_length n - 1) \<le> n \<and> n < 2 ^ bit_length n"
proof (induction n rule: bit_length.induct)
  case (1 n)
  show ?case
  proof (cases "n = 1")
    case True
    then show ?thesis
      by (simp add: bit_length.simps)
  next
    case False
    let ?h = "n div 2"
    have h: "0 < ?h" "\<not> n \<le> 0"
      using 1(2) False by auto
    have b: "2 ^ (bit_length ?h - 1) \<le> ?h" "?h < 2 ^ bit_length ?h"
      using 1(1)[OF h(2,1)] by auto
    obtain j where j: "bit_length ?h = Suc j"
      using h by (metis bit_length.simps not_le)
    have l: "bit_length n = Suc (Suc j)"
      using h(2) j by (simp add: bit_length.simps [of n])
    show ?thesis
      unfolding l using b unfolding j by simp linarith
  qed
qed

definition round_double :: "int \<Rightarrow> int" where
  "round_double p =
     (let s = bit_length p - 53; q = p div 2 ^ s; r = 2 * (p mod 2 ^ s)
      in (if r > 2 ^ s \<or> r = 2 ^ s \<and> s \<noteq> 0 \<and> odd q then q + 1 else q) * 2 ^ s)"

text \<open>The product with the double \<open>m / 2 ^ e\<close>, cut.\<close>

definition times_double :: "int \<Rightarrow> nat \<Rightarrow> int \<Rightarrow> int" where
  "times_double m e n = sgn n * (round_double (round_double \<bar>n\<bar> * m) div 2 ^ e)"

text \<open>The doubles that the constants 0.7 and 1.1 of the source denote.\<close>

definition times_07 :: "int \<Rightarrow> int" where
  "times_07 = times_double 6305039478318694 53"

definition times_11 :: "int \<Rightarrow> int" where
  "times_11 = times_double 4953959590107546 52"

section \<open>Bounds\<close>

lemma round_double_0 [simp]: "round_double 0 = 0"
  by (simp add: round_double_def)

lemma round_double_exact:
  assumes "p < 2 ^ 53"
  shows "round_double p = p"
proof -
  have "bit_length p \<le> 53"
  proof (rule ccontr)
    assume a: "\<not> bit_length p \<le> 53"
    then have "0 < p"
      by (metis bit_length_le_0 not_le zero_le)
    then have "2 ^ (bit_length p - 1) \<le> p"
      using bit_length_bounds by blast
    moreover have "(2 :: int) ^ 53 \<le> 2 ^ (bit_length p - 1)"
      by (rule power_increasing) (use a in auto)
    ultimately show False
      using assms by linarith
  qed
  then show ?thesis
    by (simp add: round_double_def)
qed

lemma round_double_near:
  assumes "0 < p"
  shows "2 ^ 53 * \<bar>round_double p - p\<bar> \<le> p"
proof (cases "bit_length p \<le> 53")
  case True
  then show ?thesis
    using assms by (simp add: round_double_def)
next
  case False
  define s where "s = bit_length p - 53"
  define q where "q = p div 2 ^ s"
  define r where "r = p mod 2 ^ s"
  define S :: int where "S = 2 ^ s"
  have s: "0 < s" "bit_length p - 1 = 52 + s"
    using False by (auto simp: s_def)
  have p: "p = q * S + r" "0 \<le> r" "r < S"
    unfolding q_def r_def S_def by (simp_all only: div_mult_mod_eq) simp_all
  have "2 * \<bar>round_double p - p\<bar> \<le> S"
    unfolding round_double_def Let_def s_def [symmetric] q_def [symmetric] r_def [symmetric] S_def [symmetric]
    using p by (auto simp: algebra_simps)
  moreover have "2 ^ 52 * S \<le> p"
    using bit_length_bounds [OF assms] unfolding s S_def by (simp add: power_add)
  ultimately show ?thesis
    by simp
qed

text \<open>A decimal constant \<open>d / 10\<close> whose double is within \<open>4 / (10 * 2 ^ e)\<close> of it.\<close>

lemma times_double_bounds:
  fixes m d :: int
  assumes n: "0 \<le> n" "n \<le> 2 ^ 44" and m: "0 < m" "\<bar>10 * m - d * 2 ^ e\<bar> \<le> 4" "m \<le> 2 ^ 53" "52 \<le> e"
  shows "10 * times_double m e n \<le> d * n" "d * n - 10 \<le> 10 * times_double m e n"
proof -
  define P where "P = n * m"
  define R where "R = round_double P"
  define t where "t = R div 2 ^ e"
  define E :: int where "E = 2 ^ e"
  have ex: "round_double n = n"
    using n by (intro round_double_exact) simp
  have t: "times_double m e n = t"
    using n ex by (cases "n = 0") (auto simp: times_double_def t_def R_def P_def)
  have E: "2 ^ 52 \<le> E"
    unfolding E_def using m by (intro power_increasing) auto
  have "n * m \<le> n * 2 ^ 53"
    using n m by (intro mult_left_mono) auto
  then have P: "0 \<le> P" "P \<le> n * 2 ^ 53"
    using n m by (auto simp: P_def)
  have "2 ^ 53 * \<bar>R - P\<bar> \<le> P"
    using round_double_near [of P] P by (cases "P = 0") (auto simp: R_def)
  then have R: "\<bar>R - P\<bar> \<le> n"
    using P by (intro mult_left_le_imp_le [of "2 ^ 53" "\<bar>R - P\<bar>" n]) auto
  have "\<bar>n * (10 * m - d * E)\<bar> \<le> n * 4"
    using n m by (auto simp: abs_mult E_def intro!: mult_left_mono)
  then have "\<bar>10 * P - d * n * E\<bar> \<le> 4 * n"
    by (simp add: P_def algebra_simps)
  then have near: "\<bar>10 * R - d * n * E\<bar> \<le> 14 * n"
    using R by linarith
  have small: "14 * n < E"
    using n E by simp
  have tt: "t * E \<le> R" "R < (t + 1) * E"
  proof -
    have "R = t * E + R mod E"
      unfolding t_def E_def by (simp only: div_mult_mod_eq)
    moreover have "0 \<le> R mod E" "R mod E < E"
      using E by (auto intro: pos_mod_sign pos_mod_bound)
    ultimately show "t * E \<le> R" "R < (t + 1) * E"
      by (auto simp: algebra_simps)
  qed
  have "10 * t * E < (d * n + 1) * E"
    using tt(1) near small by (simp add: algebra_simps)
  then have "10 * t < d * n + 1"
    using E by (simp add: mult_less_cancel_right)
  moreover have "(d * n - 11) * E < 10 * t * E"
    using tt(2) near small by (simp add: algebra_simps)
  then have "d * n - 11 < 10 * t"
    using E by (simp add: mult_less_cancel_right)
  ultimately show "10 * times_double m e n \<le> d * n" "d * n - 10 \<le> 10 * times_double m e n"
    unfolding t by auto
qed

lemma times_07_bounds:
  assumes "0 \<le> n" "n \<le> 2 ^ 44"
  shows "10 * times_07 n \<le> 7 * n" "7 * n - 10 \<le> 10 * times_07 n"
  using times_double_bounds [of n 6305039478318694 7 53] assms by (auto simp: times_07_def)

lemma times_11_bounds:
  assumes "0 \<le> n" "n \<le> 2 ^ 44"
  shows "10 * times_11 n \<le> 11 * n" "11 * n - 10 \<le> 10 * times_11 n"
  using times_double_bounds [of n 4953959590107546 11 52] assms by (auto simp: times_11_def)

text \<open>The rounding is not that of the decimal product: 90 * 0.7 is 62.\<close>

lemma times_07_90: "times_07 90 = 62"
  by code_simp

lemma times_11_values: "times_11 9 = 9" "times_11 10 = 11"
  by (code_simp, code_simp)

end
