(* ===== verification/PointerHash.thy ===== *)
theory PointerHash
  imports FloatMul
begin

text \<open>
  One array of the pointer hash map, \<open>ObPointerHashArray\<close> of \<open>src/src/lib/hash/ob_pointer_hashmap.h\<close>: open
  addressing with linear probing, where an erased cell keeps its place in the probes.  A cell is empty (the
  null pointer), erased (the pointer \<open>-1\<close>) or full, and the key of a value is part of the value.

  What the map is a template over, the hash of a key and the key of a value, are the fields of \<open>hfuns\<close>.  An
  operation is \<open>None\<close> when it reads or writes outside the cells, divides by zero or counts the leading zeros
  of zero.
\<close>

unbundle bit_operations_syntax

section \<open>Arrays\<close>

datatype 'v cell = Empty | Erased | Full 'v

record ('k, 'v) hfuns =
  key_hash :: "'k \<Rightarrow> u64"
  key_of :: "'v \<Rightarrow> 'k"

record 'v harray =
  capacity :: int
  max_entries :: int
  anchor_mask :: u64
  used :: int
  item_count :: int
  slots :: "'v cell list"

text \<open>The size of an array without its cells.\<close>

definition HASH_ARRAY_SIZE :: int where
  "HASH_ARRAY_SIZE = 64"

definition next_pow2 :: "int \<Rightarrow> int option" where
  "next_pow2 x =
     (if x = 0 then Some 1
      else
        let b = bit_length (uint (word_of_int (x - 1) :: u64))
        in if x = 1 \<or> b = 64 then None else Some (sint (push_bit b 1 :: i64)))"

definition new_harray :: "int \<Rightarrow> 'v harray option" where
  "new_harray mem_size =
     (let n = sint ((word_of_int mem_size - word_of_int HASH_ARRAY_SIZE :: u64) div 8)
      in do {
        p \<leftarrow> next_pow2 n;
        (if HASH_ARRAY_SIZE + 8 * n \<le> mem_size
         then Some \<lparr>capacity = n, max_entries = times_07 n, anchor_mask = word_of_int (p - 1), used = 0, item_count = 0,
           slots = replicate (nat n) Empty\<rparr>
         else None)
      })"

text \<open>The memory for an array of so many elements.\<close>

definition MIN_HASH_ARRAY_ITEM_COUNT :: int where
  "MIN_HASH_ARRAY_ITEM_COUNT = 16"

definition get_hash_array_mem_size :: "int \<Rightarrow> int" where
  "get_hash_array_mem_size ele_cnt = max MIN_HASH_ARRAY_ITEM_COUNT (ele_cnt * 2) * 8 + HASH_ARRAY_SIZE"

definition ha_is_full :: "'v harray \<Rightarrow> bool" where
  "ha_is_full a = (used a \<ge> max_entries a)"

definition need_rebuild :: "'v harray \<Rightarrow> bool" where
  "need_rebuild a = (used a - item_count a > max_entries a sdiv 10 \<and> ha_is_full a)"

definition ha_clear :: "'v harray \<Rightarrow> 'v harray" where
  "ha_clear a = a\<lparr>slots := replicate (nat (capacity a)) Empty, used := 0, item_count := 0\<rparr>"

section \<open>Probing\<close>

definition cell_at :: "'v harray \<Rightarrow> int \<Rightarrow> 'v cell option" where
  "cell_at a i = (if 0 \<le> i \<and> i < int (length (slots a)) then Some (slots a ! nat i) else None)"

definition key_to_anchor_idx :: "('k, 'v) hfuns \<Rightarrow> 'v harray \<Rightarrow> 'k \<Rightarrow> int option" where
  "key_to_anchor_idx F a k =
     (let h = key_hash F k; probe = h AND anchor_mask a; n = word_of_int (capacity a) :: u64
      in if probe < n then Some (uint probe) else if n = 0 then None else Some (uint (h mod n)))"

definition probe_next :: "'v harray \<Rightarrow> int \<Rightarrow> int" where
  "probe_next a i = (if i + 1 < capacity a then i + 1 else i + 1 - capacity a)"

text \<open>The loops of the two searches; the fuel is the number of probes left.\<close>

fun search_loop :: "('k, 'v) hfuns \<Rightarrow> 'v harray \<Rightarrow> 'k \<Rightarrow> nat \<Rightarrow> int \<Rightarrow> (ob_err \<times> int) option" where
  "search_loop F a k 0 i = Some (OB_HASH_NOT_EXIST, - 1)"
| "search_loop F a k (Suc n) i = do {
     c \<leftarrow> cell_at a i;
     (case c of
        Empty \<Rightarrow> Some (OB_HASH_NOT_EXIST, - 1)
      | Erased \<Rightarrow> search_loop F a k n (probe_next a i)
      | Full v \<Rightarrow> if key_of F v = k then Some (OB_SUCCESS, i) else search_loop F a k n (probe_next a i))
   }"

definition placement_hash_search :: "('k, 'v) hfuns \<Rightarrow> 'v harray \<Rightarrow> 'k \<Rightarrow> (ob_err \<times> int) option" where
  "placement_hash_search F a k =
     (if item_count a \<le> 0 then Some (OB_HASH_NOT_EXIST, - 1)
      else do { i \<leftarrow> key_to_anchor_idx F a k; search_loop F a k (nat (capacity a)) i })"

fun set_pos_loop :: "('k, 'v) hfuns \<Rightarrow> 'v harray \<Rightarrow> 'k \<Rightarrow> bool \<Rightarrow> nat \<Rightarrow> int \<Rightarrow> int \<Rightarrow> (ob_err \<times> int \<times> bool) option" where
  "set_pos_loop F a k overwrite 0 i pos = Some (OB_HASH_FULL, pos, False)"
| "set_pos_loop F a k overwrite (Suc n) i pos = do {
     c \<leftarrow> cell_at a i;
     (case c of
        Empty \<Rightarrow> Some (OB_SUCCESS, if pos = - 1 then i else pos, False)
      | Erased \<Rightarrow> set_pos_loop F a k overwrite n (probe_next a i) (if pos = - 1 then i else pos)
      | Full v \<Rightarrow>
          if key_of F v = k then Some (if overwrite then OB_SUCCESS else OB_HASH_EXIST, i, True)
          else set_pos_loop F a k overwrite n (probe_next a i) pos)
   }"

definition placement_hash_find_set_pos :: "('k, 'v) hfuns \<Rightarrow> 'v harray \<Rightarrow> 'k \<Rightarrow> bool \<Rightarrow> (ob_err \<times> int \<times> bool) option" where
  "placement_hash_find_set_pos F a k overwrite = do {
     i \<leftarrow> key_to_anchor_idx F a k;
     set_pos_loop F a k overwrite (nat (capacity a)) i (- 1)
   }"

section \<open>Operations of an array\<close>

text \<open>The result code, the position, the erased position and whether the key exists.\<close>

definition ha_find_set_pos ::
    "('k, 'v) hfuns \<Rightarrow> 'v harray \<Rightarrow> 'k \<Rightarrow> 'v cell \<Rightarrow> bool \<Rightarrow> (ob_err \<times> int \<times> int \<times> bool) option" where
  "ha_find_set_pos F a k value overwrite = do {
     (ret, pos, exist) \<leftarrow> placement_hash_find_set_pos F a k overwrite;
     (if ret = OB_SUCCESS \<and> \<not> exist then
        if value = Erased then Some (OB_HASH_NOT_EXIST, pos, - 1, exist)
        else if ha_is_full a then
          (if pos < 0 \<or> pos \<ge> capacity a then Some (OB_HASH_FULL, pos, - 1, exist)
           else do { c \<leftarrow> cell_at a pos; Some (OB_HASH_FULL, pos, if c = Erased then pos else - 1, exist) })
        else Some (ret, pos, - 1, exist)
      else Some (ret, pos, - 1, exist))
   }"

text \<open>The old content of the cell is what the caller gets as the overwritten value.\<close>

definition set_value :: "'v harray \<Rightarrow> int \<Rightarrow> 'v cell \<Rightarrow> (ob_err \<times> 'v cell \<times> 'v harray) option" where
  "set_value a pos value =
     (if pos < 0 \<or> pos \<ge> capacity a then Some (OB_INVALID_ARGUMENT, Empty, a)
      else do {
        c \<leftarrow> cell_at a pos;
        let (over, a) = (case c of
            Empty \<Rightarrow> (Empty, a\<lparr>used := used a + 1, item_count := item_count a + 1\<rparr>)
          | Erased \<Rightarrow> (Empty, a\<lparr>item_count := item_count a + 1\<rparr>)
          | Full v \<Rightarrow> (Full v, if value = Erased then a\<lparr>item_count := item_count a - 1\<rparr> else a));
        let a = a\<lparr>slots := (slots a)[nat pos := value]\<rparr>;
        Some (if item_count a > used a then OB_ERR_UNEXPECTED else OB_SUCCESS, over, a)
      })"

definition ha_set_refactored ::
    "('k, 'v) hfuns \<Rightarrow> 'v harray \<Rightarrow> 'k \<Rightarrow> 'v cell \<Rightarrow> bool \<Rightarrow> (ob_err \<times> 'v cell \<times> 'v harray) option" where
  "ha_set_refactored F a k value overwrite = do {
     (ret, pos, _, _) \<leftarrow> ha_find_set_pos F a k value overwrite;
     (if ret = OB_SUCCESS then set_value a pos value else Some (ret, Empty, a))
   }"

text \<open>\<open>get\<close>, which returns a pointer to a cell or null, and \<open>get_refactored\<close>.\<close>

definition ha_get :: "('k, 'v) hfuns \<Rightarrow> 'v harray \<Rightarrow> 'k \<Rightarrow> 'v cell option option" where
  "ha_get F a k = do {
     (ret, pos) \<leftarrow> placement_hash_search F a k;
     (if ret = OB_SUCCESS \<and> 0 \<le> pos \<and> pos < capacity a then map_option Some (cell_at a pos) else Some None)
   }"

definition ha_get_refactored :: "('k, 'v) hfuns \<Rightarrow> 'v harray \<Rightarrow> 'k \<Rightarrow> (ob_err \<times> 'v cell option) option" where
  "ha_get_refactored F a k = do {
     (ret, pos) \<leftarrow> placement_hash_search F a k;
     (if ret = OB_SUCCESS then
        if pos < 0 \<or> pos \<ge> capacity a then Some (OB_ERR_UNEXPECTED, None)
        else do { c \<leftarrow> cell_at a pos; Some (OB_SUCCESS, Some c) }
      else Some (ret, None))
   }"

definition ha_erase_refactored :: "('k, 'v) hfuns \<Rightarrow> 'v harray \<Rightarrow> 'k \<Rightarrow> (ob_err \<times> 'v cell \<times> 'v harray) option" where
  "ha_erase_refactored F a k = ha_set_refactored F a k Erased True"

section \<open>Iterators\<close>

text \<open>An iterator is a position; \<open>advance\<close> goes on to the next full cell or to the end.\<close>

fun advance :: "'v cell list \<Rightarrow> nat \<Rightarrow> nat" where
  "advance [] i = i"
| "advance (Full v # cs) i = i"
| "advance (c # cs) i = advance cs (Suc i)"

definition ha_begin :: "'v harray \<Rightarrow> nat" where
  "ha_begin a = advance (slots a) 0"

definition ha_next :: "'v harray \<Rightarrow> nat \<Rightarrow> nat" where
  "ha_next a i = (if i = length (slots a) then i else advance (drop (Suc i) (slots a)) (Suc i))"

definition ha_erase :: "'v harray \<Rightarrow> nat \<Rightarrow> (ob_err \<times> 'v harray) option" where
  "ha_erase a i = do {
     c \<leftarrow> cell_at a (int i);
     Some (case c of
        Full v \<Rightarrow> (OB_SUCCESS, a\<lparr>slots := (slots a)[i := Erased], item_count := item_count a - 1\<rparr>)
      | _ \<Rightarrow> (OB_INVALID_ARGUMENT, a))
   }"

section \<open>The array as a map\<close>

text \<open>The entries of an array, and what a search for a key is to find.\<close>

fun entries :: "'v cell list \<Rightarrow> 'v list" where
  "entries [] = []"
| "entries (Full v # cs) = v # entries cs"
| "entries (c # cs) = entries cs"

fun cells_map :: "('k, 'v) hfuns \<Rightarrow> 'v cell list \<Rightarrow> 'k \<Rightarrow> 'v option" where
  "cells_map F [] k = None"
| "cells_map F (Full v # cs) k = (if key_of F v = k then Some v else cells_map F cs k)"
| "cells_map F (c # cs) k = cells_map F cs k"

abbreviation ha_map :: "('k, 'v) hfuns \<Rightarrow> 'v harray \<Rightarrow> 'k \<Rightarrow> 'v option" where
  "ha_map F a \<equiv> cells_map F (slots a)"

fun same_key :: "('k, 'v) hfuns \<Rightarrow> 'v cell \<Rightarrow> 'v cell \<Rightarrow> bool" where
  "same_key F (Full v) (Full w) = (key_of F v = key_of F w)"
| "same_key F c d = False"

text \<open>The \<open>d\<close>-th cell of a probe, and whether a probe that stops at empty cells gets to a cell.\<close>

definition probe :: "'v cell list \<Rightarrow> nat \<Rightarrow> nat \<Rightarrow> nat" where
  "probe cs i d = (i + d) mod length cs"

definition reaches :: "'v cell list \<Rightarrow> nat \<Rightarrow> nat \<Rightarrow> bool" where
  "reaches cs i j = (\<exists>d<length cs. probe cs i d = j \<and> (\<forall>e<d. cs ! probe cs i e \<noteq> Empty))"

definition anchor :: "('k, 'v) hfuns \<Rightarrow> 'v harray \<Rightarrow> 'k \<Rightarrow> nat" where
  "anchor F a k = nat (the (key_to_anchor_idx F a k))"

definition ha_ok :: "('k, 'v) hfuns \<Rightarrow> 'v harray \<Rightarrow> bool" where
  "ha_ok F a =
     (2 \<le> capacity a \<and> capacity a < 2 ^ 44 \<and> capacity a = int (length (slots a)) \<and>
      used a = int (length [c \<leftarrow> slots a. c \<noteq> Empty]) \<and> item_count a = int (length (entries (slots a))) \<and>
      used a \<le> max_entries a \<and> max_entries a = times_07 (capacity a) \<and>
      (\<forall>i<length (slots a). \<forall>j<length (slots a). same_key F (slots a ! i) (slots a ! j) \<longrightarrow> i = j) \<and>
      (\<forall>j<length (slots a). case slots a ! j of
         Full v \<Rightarrow> reaches (slots a) (anchor F a (key_of F v)) j
       | _ \<Rightarrow> True))"

text \<open>The maximum is below the capacity, so an array that is well-formed has an empty cell.\<close>

lemma max_entries_bounds:
  assumes "ha_ok F a"
  shows "0 < max_entries a" "max_entries a < capacity a" "10 * max_entries a \<le> 7 * capacity a"
    "7 * capacity a - 10 \<le> 10 * max_entries a"
  using assms times_07_bounds [of "capacity a"] by (auto simp: ha_ok_def)

lemma entries_le_used: "length (entries cs) \<le> length [c \<leftarrow> cs. c \<noteq> Empty]"
  by (induction cs rule: entries.induct) auto

lemma ha_ok_item_count: "ha_ok F a \<Longrightarrow> 0 \<le> item_count a \<and> item_count a \<le> used a"
  using entries_le_used by (auto simp: ha_ok_def)

lemma ha_ok_length: "ha_ok F a \<Longrightarrow> capacity a = int (length (slots a)) \<and> 0 < length (slots a)"
  by (auto simp: ha_ok_def)

lemma ha_ok_unique:
  "ha_ok F a \<Longrightarrow> i < length (slots a) \<Longrightarrow> j < length (slots a) \<Longrightarrow> slots a ! i = Full v \<Longrightarrow> slots a ! j = Full w \<Longrightarrow>
   key_of F v = key_of F w \<Longrightarrow> i = j"
proof -
  assume a: "ha_ok F a" "i < length (slots a)" "j < length (slots a)" "slots a ! i = Full v" "slots a ! j = Full w"
    "key_of F v = key_of F w"
  have "same_key F (slots a ! i) (slots a ! j) \<longrightarrow> i = j"
    using a(1) [unfolded ha_ok_def] a(2,3) by simp
  then show "i = j"
    using a(4-6) by simp
qed

lemma ha_ok_reaches:
  "ha_ok F a \<Longrightarrow> j < length (slots a) \<Longrightarrow> slots a ! j = Full v \<Longrightarrow> reaches (slots a) (anchor F a (key_of F v)) j"
proof -
  assume a: "ha_ok F a" "j < length (slots a)" "slots a ! j = Full v"
  have "case slots a ! j of Full v \<Rightarrow> reaches (slots a) (anchor F a (key_of F v)) j | _ \<Rightarrow> True"
    using a(1) [unfolded ha_ok_def] a(2) by simp
  then show ?thesis
    using a(3) by simp
qed

lemma filter_all_length: "length [c \<leftarrow> cs. P c] < length cs \<Longrightarrow> \<exists>j<length cs. \<not> P (cs ! j)"
  by (metis length_filter_less filter_True in_set_conv_nth less_irrefl)

lemma ha_ok_empty:
  assumes "ha_ok F a"
  shows "\<exists>j<length (slots a). slots a ! j = Empty"
  using filter_all_length [of "\<lambda>c. c \<noteq> Empty" "slots a"] max_entries_bounds [OF assms] assms by (auto simp: ha_ok_def)

lemma cells_map_None: "cells_map F cs k = None \<longleftrightarrow> (\<forall>v. Full v \<in> set cs \<longrightarrow> key_of F v \<noteq> k)"
  by (induction F cs k rule: cells_map.induct) auto

lemma cells_map_Some_in: "cells_map F cs k = Some v \<Longrightarrow> key_of F v = k \<and> Full v \<in> set cs"
  by (induction F cs k rule: cells_map.induct) (auto split: if_splits)

lemma cells_map_SomeD: "cells_map F cs k = Some v \<Longrightarrow> key_of F v = k \<and> (\<exists>j<length cs. cs ! j = Full v)"
  using cells_map_Some_in [of F cs k v] by (auto simp: in_set_conv_nth)

lemma cells_map_None_nth: "cells_map F cs k = None \<Longrightarrow> j < length cs \<Longrightarrow> cs ! j = Full v \<Longrightarrow> key_of F v \<noteq> k"
  unfolding cells_map_None by (metis nth_mem)

lemma cells_map_SomeI:
  assumes "\<And>i v'. i < length cs \<Longrightarrow> cs ! i = Full v' \<Longrightarrow> key_of F v' = k \<Longrightarrow> i = j"
    and "j < length cs" "cs ! j = Full v" "key_of F v = k"
  shows "cells_map F cs k = Some v"
proof (cases "cells_map F cs k")
  case None
  then show ?thesis
    using cells_map_None_nth assms(2-4) by metis
next
  case (Some w)
  obtain i where "i < length cs" "cs ! i = Full w" "key_of F w = k"
    using cells_map_SomeD [OF Some] by auto
  then have "i = j"
    using assms(1) by blast
  then show ?thesis
    using Some assms(3) \<open>cs ! i = Full w\<close> by simp
qed

lemma ha_map_Some:
  assumes "ha_ok F a"
  shows "ha_map F a k = Some v \<longleftrightarrow> key_of F v = k \<and> (\<exists>j<length (slots a). slots a ! j = Full v)"
proof
  assume "key_of F v = k \<and> (\<exists>j<length (slots a). slots a ! j = Full v)"
  then obtain j where j: "key_of F v = k" "j < length (slots a)" "slots a ! j = Full v"
    by auto
  then show "ha_map F a k = Some v"
    using ha_ok_unique [OF assms] by (intro cells_map_SomeI [of "slots a" F k j v]) auto
qed (rule cells_map_SomeD)

section \<open>Searching\<close>

lemma key_to_anchor_idx_ok:
  assumes "ha_ok F a"
  shows "key_to_anchor_idx F a k = Some (int (anchor F a k))" "anchor F a k < length (slots a)"
proof -
  let ?n = "word_of_int (capacity a) :: u64"
  have "0 \<le> capacity a" "capacity a < 2 ^ 64"
    using assms by (auto simp: ha_ok_def)
  then have n: "uint ?n = capacity a"
    by (simp add: uint_word_of_int)
  have ne: "?n \<noteq> 0"
    using n assms by (metis ha_ok_length of_nat_0_less_iff less_irrefl unsigned_0)
  obtain i where i: "key_to_anchor_idx F a k = Some i" "0 \<le> i" "i < capacity a"
  proof (cases "key_hash F k AND anchor_mask a < ?n")
    case True
    then show thesis
      using that n by (auto simp: key_to_anchor_idx_def Let_def word_less_def)
  next
    case False
    then have "key_to_anchor_idx F a k = Some (uint (key_hash F k mod ?n))"
      using ne by (simp add: key_to_anchor_idx_def Let_def)
    moreover have "uint (key_hash F k mod ?n) = uint (key_hash F k) mod capacity a"
      by (simp add: uint_mod_distrib n)
    ultimately show thesis
      using that ha_ok_length [OF assms] by simp
  qed
  then show "key_to_anchor_idx F a k = Some (int (anchor F a k))" "anchor F a k < length (slots a)"
    using ha_ok_length [OF assms] by (auto simp: anchor_def)
qed

lemma probe_less: "0 < length cs \<Longrightarrow> probe cs i d < length cs"
  by (simp add: probe_def)

lemma cell_at_nat: "i < length (slots a) \<Longrightarrow> cell_at a (int i) = Some (slots a ! i)"
  by (simp add: cell_at_def)

lemma probe_next_probe:
  assumes "capacity a = int (length (slots a))" "0 < length (slots a)"
  shows "probe_next a (int (probe (slots a) i d)) = int (probe (slots a) i (Suc d))"
proof -
  have "(i + d) mod length (slots a) < length (slots a)"
    using assms by simp
  then show ?thesis
    using assms(1) by (auto simp: probe_next_def probe_def mod_Suc simp del: mod_less_divisor)
qed

lemma probe_0: "i < length cs \<Longrightarrow> probe cs i 0 = i"
  by (simp add: probe_def)

text \<open>Either search finds the key at its cell.\<close>

lemma search_loop_found:
  assumes ok: "ha_ok F a" and j: "j < length (slots a)" "slots a ! j = Full v"
    and d: "d < length (slots a)" "probe (slots a) i d = j" "\<forall>e<d. slots a ! probe (slots a) i e \<noteq> Empty"
  shows "e \<le> d \<Longrightarrow> search_loop F a (key_of F v) (length (slots a) - e) (int (probe (slots a) i e)) = Some (OB_SUCCESS, int j)"
    and "e \<le> d \<Longrightarrow>
      set_pos_loop F a (key_of F v) ow (length (slots a) - e) (int (probe (slots a) i e)) pos =
        Some (if ow then OB_SUCCESS else OB_HASH_EXIST, int j, True)"
proof -
  note len = ha_ok_length [OF ok]
  have len_step: "length (slots a) - e = Suc (length (slots a) - Suc e)" if "e \<le> d" for e
    using that d by simp
  have cell: "cell_at a (int (probe (slots a) i e)) = Some (slots a ! probe (slots a) i e)" for e
    using len by (intro cell_at_nat probe_less) simp
  have other: "probe (slots a) i e = j" if "slots a ! probe (slots a) i e = Full w" "key_of F w = key_of F v" for e w
    using ha_ok_unique [OF ok _ j(1) that(1) j(2) that(2)] len by (simp add: probe_less)
  show "e \<le> d \<Longrightarrow> search_loop F a (key_of F v) (length (slots a) - e) (int (probe (slots a) i e)) = Some (OB_SUCCESS, int j)"
  proof (induction e rule: inc_induct)
    case base
    then show ?case
      using d j cell [of d] by (simp add: len_step)
  next
    case (step e)
    then show ?case
      using d(3) cell other probe_next_probe [of a i e] len len_step [of e]
      by (auto split: cell.split)
  qed
  show "e \<le> d \<Longrightarrow>
      set_pos_loop F a (key_of F v) ow (length (slots a) - e) (int (probe (slots a) i e)) pos =
        Some (if ow then OB_SUCCESS else OB_HASH_EXIST, int j, True)"
  proof (induction e arbitrary: pos rule: inc_induct)
    case base
    then show ?case
      using d j cell [of d] by (simp add: len_step)
  next
    case (step e)
    then show ?case
      using d(3) cell other probe_next_probe [of a i e] len len_step [of e]
      by (auto split: cell.split)
  qed
qed

lemma in_entries: "v \<in> set (entries cs) \<longleftrightarrow> Full v \<in> set cs"
  by (induction cs rule: entries.induct) auto

theorem placement_found:
  assumes ok: "ha_ok F a" and k: "ha_map F a k = Some v"
  shows "\<exists>j<length (slots a). slots a ! j = Full v \<and> placement_hash_search F a k = Some (OB_SUCCESS, int j) \<and>
    placement_hash_find_set_pos F a k ow = Some (if ow then OB_SUCCESS else OB_HASH_EXIST, int j, True)"
proof -
  note len = ha_ok_length [OF ok] and anchor = key_to_anchor_idx_ok [OF ok, of k]
  obtain j where j: "key_of F v = k" "j < length (slots a)" "slots a ! j = Full v"
    using cells_map_SomeD [OF k] by auto
  obtain d where d: "d < length (slots a)" "probe (slots a) (anchor F a k) d = j"
      "\<forall>e<d. slots a ! probe (slots a) (anchor F a k) e \<noteq> Empty"
    using ha_ok_reaches [OF ok j(2,3)] unfolding reaches_def j(1) by blast
  have "v \<in> set (entries (slots a))"
    using j nth_mem by (fastforce simp: in_entries)
  then have "0 < item_count a"
    using ok by (auto simp: ha_ok_def)
  moreover have "nat (capacity a) = length (slots a) - 0" "int (anchor F a k) = int (probe (slots a) (anchor F a k) 0)"
    using len anchor by (auto simp: probe_0)
  ultimately show ?thesis
    using search_loop_found [OF ok j(2,3) d, of 0] j anchor
    by (auto simp: placement_hash_search_def placement_hash_find_set_pos_def simp del: One_nat_def)
qed

text \<open>A probe that meets no empty cell comes to every cell.\<close>

lemma probe_surj: "i < length cs \<Longrightarrow> j < length cs \<Longrightarrow> \<exists>d<length cs. probe cs i d = j"
proof -
  assume a: "i < length cs" "j < length cs"
  show ?thesis
  proof (cases "i \<le> j")
    case True
    then show ?thesis
      using a by (intro exI [of _ "j - i"]) (simp add: probe_def)
  next
    case False
    then have "(i + (length cs + j - i)) mod length cs = j"
      using a by simp
    then show ?thesis
      using a False by (intro exI [of _ "length cs + j - i"]) (auto simp: probe_def)
  qed
qed

lemma probe_first_empty:
  assumes "i < length cs" "j < length cs" "cs ! j = Empty"
  shows "\<exists>d<length cs. cs ! probe cs i d = Empty \<and> (\<forall>e<d. cs ! probe cs i e \<noteq> Empty)"
proof -
  obtain d where "d < length cs" "cs ! probe cs i d = Empty"
    using probe_surj [OF assms(1,2)] assms(3) by blast
  then show ?thesis
    using exists_least_iff [of "\<lambda>d. d < length cs \<and> cs ! probe cs i d = Empty"] less_trans by blast
qed

lemma cell_not_key:
  assumes "ha_map F a k = None" "j < length (slots a)" "slots a ! j = Full v"
  shows "key_of F v \<noteq> k"
  using cells_map_None_nth [OF assms] .

lemma search_loop_missing:
  assumes "ha_map F a k = None" "capacity a = int (length (slots a))" "i < length (slots a)"
  shows "search_loop F a k n (int (probe (slots a) i d)) = Some (OB_HASH_NOT_EXIST, - 1)"
proof (induction n arbitrary: d)
  case (Suc n)
  have p: "probe (slots a) i d < length (slots a)"
    using assms by (intro probe_less) auto
  have n: "probe_next a (int (probe (slots a) i d)) = int (probe (slots a) i (Suc d))"
    using assms by (intro probe_next_probe) auto
  show ?case
    using Suc cell_at_nat [OF p] cell_not_key [OF assms(1) p] n
    by (cases "slots a ! probe (slots a) i d") auto
qed simp

text \<open>Where a key that is missing is put: in the first erased cell of its probe, or in the empty cell that ends it.\<close>

lemma set_pos_loop_missing:
  assumes k: "ha_map F a k = None" and len: "capacity a = int (length (slots a))" "i < length (slots a)"
    and d: "d < length (slots a)" "slots a ! probe (slots a) i d = Empty" "\<forall>e<d. slots a ! probe (slots a) i e \<noteq> Empty"
  shows "e \<le> d \<Longrightarrow> pos = - 1 \<or> (\<exists>p<length (slots a). pos = int p \<and> slots a ! p = Erased \<and> reaches (slots a) i p) \<Longrightarrow>
    \<exists>p<length (slots a). (slots a ! p = Empty \<or> slots a ! p = Erased) \<and> reaches (slots a) i p \<and>
      set_pos_loop F a k ow (length (slots a) - e) (int (probe (slots a) i e)) pos = Some (OB_SUCCESS, int p, False)"
proof (induction e arbitrary: pos rule: inc_induct)
  case base
  have p: "probe (slots a) i d < length (slots a)"
    using len by (intro probe_less) auto
  have r: "reaches (slots a) i (probe (slots a) i d)"
    using d unfolding reaches_def by blast
  have s: "length (slots a) - d = Suc (length (slots a) - Suc d)"
    using d by simp
  have "set_pos_loop F a k ow (length (slots a) - d) (int (probe (slots a) i d)) pos =
      Some (OB_SUCCESS, if pos = - 1 then int (probe (slots a) i d) else pos, False)"
    using cell_at_nat [OF p] d(2) by (simp add: s)
  then show ?case
    using base p d(2) r by (cases "pos = - 1") auto
next
  case (step e)
  have p: "probe (slots a) i e < length (slots a)"
    using len by (intro probe_less) auto
  have r: "reaches (slots a) i (probe (slots a) i e)"
    using step d unfolding reaches_def by (intro exI [of _ e]) auto
  have s: "length (slots a) - e = Suc (length (slots a) - Suc e)"
    using d step by simp
  have n: "probe_next a (int (probe (slots a) i e)) = int (probe (slots a) i (Suc e))"
    using len by (intro probe_next_probe) auto
  show ?case
  proof (cases "slots a ! probe (slots a) i e")
    case Empty
    then show ?thesis
      using d(3) step by blast
  next
    case Erased
    have "set_pos_loop F a k ow (length (slots a) - e) (int (probe (slots a) i e)) pos =
        set_pos_loop F a k ow (length (slots a) - Suc e) (int (probe (slots a) i (Suc e)))
          (if pos = - 1 then int (probe (slots a) i e) else pos)"
      using cell_at_nat [OF p] Erased by (simp add: s n)
    then show ?thesis
      using step.IH [of "if pos = - 1 then int (probe (slots a) i e) else pos"] step.prems p r Erased by auto
  next
    case (Full v)
    have "set_pos_loop F a k ow (length (slots a) - e) (int (probe (slots a) i e)) pos =
        set_pos_loop F a k ow (length (slots a) - Suc e) (int (probe (slots a) i (Suc e))) pos"
      using cell_at_nat [OF p] Full cell_not_key [OF k p Full] by (simp add: s n)
    then show ?thesis
      using step.IH [of pos] step.prems by simp
  qed
qed

theorem placement_missing:
  assumes ok: "ha_ok F a" and k: "ha_map F a k = None"
  shows "placement_hash_search F a k = Some (OB_HASH_NOT_EXIST, - 1)"
    and "\<exists>p<length (slots a). (slots a ! p = Empty \<or> slots a ! p = Erased) \<and> reaches (slots a) (anchor F a k) p \<and>
      placement_hash_find_set_pos F a k ow = Some (OB_SUCCESS, int p, False)"
proof -
  note len = ha_ok_length [OF ok] and anchor = key_to_anchor_idx_ok [OF ok, of k]
  have 0: "int (anchor F a k) = int (probe (slots a) (anchor F a k) 0)"
    using anchor by (simp add: probe_0)
  show "placement_hash_search F a k = Some (OB_HASH_NOT_EXIST, - 1)"
    using search_loop_missing [OF k _ anchor(2), of _ 0] anchor len
    by (simp add: placement_hash_search_def 0 [symmetric])
  obtain j where "j < length (slots a)" "slots a ! j = Empty"
    using ha_ok_empty [OF ok] by auto
  then obtain d where d: "d < length (slots a)" "slots a ! probe (slots a) (anchor F a k) d = Empty"
      "\<forall>e<d. slots a ! probe (slots a) (anchor F a k) e \<noteq> Empty"
    using probe_first_empty [OF anchor(2)] by auto
  show "\<exists>p<length (slots a). (slots a ! p = Empty \<or> slots a ! p = Erased) \<and> reaches (slots a) (anchor F a k) p \<and>
      placement_hash_find_set_pos F a k ow = Some (OB_SUCCESS, int p, False)"
    using set_pos_loop_missing [OF k _ anchor(2) d, of 0 "- 1" ow] anchor len
    by (simp add: placement_hash_find_set_pos_def 0 [symmetric])
qed

section \<open>Reading\<close>

theorem ha_get_spec:
  assumes "ha_ok F a"
  shows "ha_get F a k = Some (map_option Full (ha_map F a k))"
    and "ha_get_refactored F a k =
      Some (case ha_map F a k of None \<Rightarrow> (OB_HASH_NOT_EXIST, None) | Some v \<Rightarrow> (OB_SUCCESS, Some (Full v)))"
  using placement_found [OF assms, of k] placement_missing(1) [OF assms, of k] ha_ok_length [OF assms]
  by (cases "ha_map F a k"; fastforce simp: ha_get_def ha_get_refactored_def cell_at_nat)+

section \<open>Writing\<close>

lemma length_filter_update:
  "p < length cs \<Longrightarrow>
   length (filter P (cs[p := c])) + of_bool (P (cs ! p)) = length (filter P cs) + of_bool (P c)"
proof (induction cs arbitrary: p)
  case (Cons x cs)
  show ?case
  proof (cases p)
    case (Suc q)
    then show ?thesis
      using Cons.IH [of q] Cons.prems by (cases "P x") simp_all
  qed simp
qed simp

lemma length_entries: "length (entries cs) = length [c \<leftarrow> cs. c \<noteq> Empty \<and> c \<noteq> Erased]"
  by (induction cs rule: entries.induct) auto

lemma reaches_update: "reaches cs i j \<Longrightarrow> c \<noteq> Empty \<Longrightarrow> reaches (cs[p := c]) i j"
proof -
  assume "reaches cs i j" and c: "c \<noteq> Empty"
  then obtain d where d: "d < length cs" "probe cs i d = j" "\<forall>e<d. cs ! probe cs i e \<noteq> Empty"
    unfolding reaches_def by auto
  have "cs[p := c] ! n \<noteq> Empty" if "cs ! n \<noteq> Empty" for n
    using that c by (cases "p < length cs") (auto simp: nth_list_update list_update_beyond)
  then show ?thesis
    using d unfolding reaches_def by (intro exI [of _ d]) (auto simp: probe_def)
qed

text \<open>An array whose cells change keeps where its probes start.\<close>

lemma anchor_cells [simp]: "anchor F (a\<lparr>slots := x, used := y, item_count := z\<rparr>) k = anchor F a k"
  by (simp add: anchor_def key_to_anchor_idx_def)

definition put_cell :: "'v harray \<Rightarrow> nat \<Rightarrow> 'v cell \<Rightarrow> 'v harray" where
  "put_cell a p c =
     a\<lparr>slots := (slots a)[p := c],
       used := used a + of_bool (slots a ! p = Empty),
       item_count := item_count a + of_bool (c \<noteq> Erased) - of_bool (slots a ! p \<noteq> Empty \<and> slots a ! p \<noteq> Erased)\<rparr>"

lemma put_cell_sizes [simp]:
  "capacity (put_cell a p c) = capacity a" "max_entries (put_cell a p c) = max_entries a"
  "used (put_cell a p c) = used a + of_bool (slots a ! p = Empty)"
  "slots (put_cell a p c) = (slots a)[p := c]"
  by (simp_all add: put_cell_def)

lemma put_cell_ok:
  assumes ok: "ha_ok F a" and p: "p < length (slots a)" and c: "c \<noteq> Empty"
    and room: "slots a ! p = Empty \<Longrightarrow> used a < max_entries a"
    and full: "\<And>v. c = Full v \<Longrightarrow> reaches (slots a) (anchor F a (key_of F v)) p"
    and unique: "\<And>v j w. c = Full v \<Longrightarrow> j < length (slots a) \<Longrightarrow> slots a ! j = Full w \<Longrightarrow> key_of F w = key_of F v \<Longrightarrow> j = p"
  shows "ha_ok F (put_cell a p c)"
proof -
  have u: "used (put_cell a p c) = int (length [c \<leftarrow> (slots a)[p := c]. c \<noteq> Empty])"
    using length_filter_update [OF p, of "\<lambda>c. c \<noteq> Empty" c] ok c by (auto simp: ha_ok_def put_cell_def split: if_splits)
  have i: "item_count (put_cell a p c) = int (length (entries ((slots a)[p := c])))"
    using length_filter_update [OF p, of "\<lambda>c. c \<noteq> Empty \<and> c \<noteq> Erased" c] ok c
    by (auto simp: ha_ok_def put_cell_def length_entries split: if_splits)
  have le: "used (put_cell a p c) \<le> max_entries a"
    using ok room by (auto simp: ha_ok_def)
  have anchor: "anchor F (put_cell a p c) = anchor F a"
    by (simp add: put_cell_def fun_eq_iff)
  have k: "i = j" if ij: "i < length (slots a)" "j < length (slots a)"
      "same_key F ((slots a)[p := c] ! i) ((slots a)[p := c] ! j)" for i j
  proof -
    obtain v w where vw: "(slots a)[p := c] ! i = Full v" "(slots a)[p := c] ! j = Full w" "key_of F v = key_of F w"
      using ij(3) by (metis same_key.elims(2))
    show ?thesis
      using ha_ok_unique [OF ok ij(1,2), of v w] unique [of w i v] unique [of v j w] vw ij(1,2) p
      by (auto simp: nth_list_update split: if_splits)
  qed
  have r: "case (slots a)[p := c] ! j of Full v \<Rightarrow> reaches ((slots a)[p := c]) (anchor F a (key_of F v)) j | _ \<Rightarrow> True"
    if j: "j < length (slots a)" for j
    using ha_ok_reaches [OF ok j] full reaches_update [OF _ c] j
    by (cases "j = p") (auto split: cell.split)
  show ?thesis
    using ok u i le k r unfolding ha_ok_def anchor put_cell_sizes by (auto simp del: put_cell_sizes)
qed

lemma set_value_eq:
  assumes "ha_ok F a" "p < length (slots a)" "c \<noteq> Empty" "c \<noteq> Erased \<or> (\<exists>w. slots a ! p = Full w)"
  shows "set_value a (int p) c =
    Some (if item_count (put_cell a p c) > used (put_cell a p c) then OB_ERR_UNEXPECTED else OB_SUCCESS,
      (case slots a ! p of Full w \<Rightarrow> Full w | _ \<Rightarrow> Empty), put_cell a p c)"
proof -
  have "\<not> (int p < 0 \<or> int p \<ge> capacity a)"
    using assms ha_ok_length [OF assms(1)] by simp
  then show ?thesis
    using assms cell_at_nat [OF assms(2)]
    by (cases "slots a ! p") (auto simp: set_value_def put_cell_def)
qed

lemma set_value_ok:
  assumes "ha_ok F a" "p < length (slots a)" "c \<noteq> Empty" "c \<noteq> Erased \<or> (\<exists>w. slots a ! p = Full w)"
    and "ha_ok F (put_cell a p c)"
  shows "set_value a (int p) c = Some (OB_SUCCESS, (case slots a ! p of Full w \<Rightarrow> Full w | _ \<Rightarrow> Empty), put_cell a p c)"
  using set_value_eq [OF assms(1-4)] ha_ok_item_count [OF assms(5)] by simp

lemma option_eqI: "(\<And>v. x = Some v \<longleftrightarrow> y = Some v) \<Longrightarrow> x = y"
  by (metis not_Some_eq)

lemma ha_map_put:
  assumes ok: "ha_ok F a" and ok': "ha_ok F (put_cell a p (Full v))" and p: "p < length (slots a)"
    and here: "\<And>w. slots a ! p = Full w \<Longrightarrow> key_of F w = key_of F v"
  shows "ha_map F (put_cell a p (Full v)) = (ha_map F a)(key_of F v \<mapsto> v)"
proof (rule ext, rule option_eqI)
  fix k w
  let ?a = "put_cell a p (Full v)"
  have "key_of F w = k \<and> (\<exists>j<length (slots a). (slots a)[p := Full v] ! j = Full w) \<longleftrightarrow>
      (if k = key_of F v then w = v else key_of F w = k \<and> (\<exists>j<length (slots a). slots a ! j = Full w))"
    (is "?l \<longleftrightarrow> ?r")
  proof
    assume ?l
    then obtain j where j: "key_of F w = k" "j < length (slots a)" "(slots a)[p := Full v] ! j = Full w"
      by auto
    show ?r
      using ha_ok_unique [OF ok', of j p w v] j p by (cases "j = p") auto
  next
    assume ?r
    then show ?l
      using p here by (auto simp: nth_list_update split: if_splits) metis+
  qed
  then show "ha_map F ?a k = Some w \<longleftrightarrow> ((ha_map F a)(key_of F v \<mapsto> v)) k = Some w"
    unfolding ha_map_Some [OF ok'] using ha_map_Some [OF ok, of k w] by auto
qed

lemma ha_map_erase:
  assumes ok: "ha_ok F a" and ok': "ha_ok F (put_cell a p Erased)" and p: "p < length (slots a)" "slots a ! p = Full v"
  shows "ha_map F (put_cell a p Erased) = (ha_map F a)(key_of F v := None)"
proof (rule ext, rule option_eqI)
  fix k w
  have "(\<exists>j<length (slots a). (slots a)[p := Erased] ! j = Full w) \<longleftrightarrow>
      key_of F w \<noteq> key_of F v \<and> (\<exists>j<length (slots a). slots a ! j = Full w)" (is "?l \<longleftrightarrow> ?r")
  proof
    assume ?l
    then obtain j where "j < length (slots a)" "j \<noteq> p" "slots a ! j = Full w"
      using p by (auto simp: nth_list_update split: if_splits)
    then show ?r
      using ha_ok_unique [OF ok _ p(1) _ p(2)] by blast
  next
    assume ?r
    then obtain j where j: "key_of F w \<noteq> key_of F v" "j < length (slots a)" "slots a ! j = Full w"
      by auto
    then have "j \<noteq> p"
      using p by auto
    then show ?l
      using j by (intro exI [of _ j]) simp
  qed
  then show "ha_map F (put_cell a p Erased) k = Some w \<longleftrightarrow> ((ha_map F a)(key_of F v := None)) k = Some w"
    unfolding ha_map_Some [OF ok'] using ha_map_Some [OF ok, of k w] by auto
qed

text \<open>What a write keeps: the size of the array and the number of cells in use, which only grows.\<close>

definition same_size :: "'v harray \<Rightarrow> 'v harray \<Rightarrow> bool" where
  "same_size a b = (capacity b = capacity a \<and> max_entries b = max_entries a \<and> used a \<le> used b)"

lemma same_size_refl [simp]: "same_size a a"
  by (simp add: same_size_def)

lemma put_cell_same_size [simp]: "same_size a (put_cell a p c)"
  by (simp add: same_size_def)

lemma put_new:
  assumes ok: "ha_ok F a" and k: "ha_map F a (key_of F v) = None" and p: "p < length (slots a)"
    and c: "slots a ! p = Empty \<or> slots a ! p = Erased" and r: "reaches (slots a) (anchor F a (key_of F v)) p"
    and room: "slots a ! p = Empty \<Longrightarrow> used a < max_entries a"
  shows "set_value a (int p) (Full v) = Some (OB_SUCCESS, Empty, put_cell a p (Full v))"
    and "ha_ok F (put_cell a p (Full v))" and "ha_map F (put_cell a p (Full v)) = (ha_map F a)(key_of F v \<mapsto> v)"
proof -
  show ok': "ha_ok F (put_cell a p (Full v))"
    using r room cells_map_None_nth [OF k] by (intro put_cell_ok [OF ok p]) auto
  show "set_value a (int p) (Full v) = Some (OB_SUCCESS, Empty, put_cell a p (Full v))"
    using set_value_ok [OF ok p _ _ ok'] c by auto
  show "ha_map F (put_cell a p (Full v)) = (ha_map F a)(key_of F v \<mapsto> v)"
    using c by (intro ha_map_put [OF ok ok' p]) auto
qed

lemma put_existing:
  assumes ok: "ha_ok F a" and p: "p < length (slots a)" "slots a ! p = Full w" and k: "key_of F w = key_of F v"
  shows "set_value a (int p) (Full v) = Some (OB_SUCCESS, Full w, put_cell a p (Full v))"
    and "ha_ok F (put_cell a p (Full v))" and "ha_map F (put_cell a p (Full v)) = (ha_map F a)(key_of F v \<mapsto> v)"
proof -
  show ok': "ha_ok F (put_cell a p (Full v))"
  proof (rule put_cell_ok [OF ok p(1)])
    fix v' j w'
    assume c: "Full v = Full v'"
    then show "reaches (slots a) (anchor F a (key_of F v')) p"
      using ha_ok_reaches [OF ok p] k by simp
    assume j: "j < length (slots a)" "slots a ! j = Full w'" "key_of F w' = key_of F v'"
    show "j = p"
      by (rule ha_ok_unique [OF ok j(1) p(1) j(2) p(2)]) (use c j(3) k in simp)
  qed (use p in auto)
  show "set_value a (int p) (Full v) = Some (OB_SUCCESS, Full w, put_cell a p (Full v))"
    using set_value_ok [OF ok p(1) _ _ ok'] p by auto
  show "ha_map F (put_cell a p (Full v)) = (ha_map F a)(key_of F v \<mapsto> v)"
    using p k by (intro ha_map_put [OF ok ok' p(1)]) auto
qed

lemma put_erased:
  assumes ok: "ha_ok F a" and p: "p < length (slots a)" "slots a ! p = Full w"
  shows "set_value a (int p) Erased = Some (OB_SUCCESS, Full w, put_cell a p Erased)"
    and "ha_ok F (put_cell a p Erased)" and "ha_map F (put_cell a p Erased) = (ha_map F a)(key_of F w := None)"
proof -
  show ok': "ha_ok F (put_cell a p Erased)"
    using p by (intro put_cell_ok [OF ok p(1)]) auto
  show "set_value a (int p) Erased = Some (OB_SUCCESS, Full w, put_cell a p Erased)"
    using set_value_ok [OF ok p(1) _ _ ok'] p by auto
  show "ha_map F (put_cell a p Erased) = (ha_map F a)(key_of F w := None)"
    by (rule ha_map_erase [OF ok ok' p])
qed

text \<open>The position that a write is to use.\<close>

theorem ha_find_set_pos_found:
  assumes ok: "ha_ok F a" and k: "ha_map F a k = Some w"
  shows "\<exists>p<length (slots a). slots a ! p = Full w \<and> key_of F w = k \<and>
    ha_find_set_pos F a k c ow = Some (if ow then OB_SUCCESS else OB_HASH_EXIST, int p, - 1, True)"
  using placement_found [OF ok k, of ow] cells_map_SomeD [OF k] by (auto simp: ha_find_set_pos_def)

theorem ha_find_set_pos_missing:
  assumes ok: "ha_ok F a" and k: "ha_map F a k = None"
  shows "\<exists>p<length (slots a). (slots a ! p = Empty \<or> slots a ! p = Erased) \<and> reaches (slots a) (anchor F a k) p \<and>
    ha_find_set_pos F a k c ow =
      Some (if c = Erased then (OB_HASH_NOT_EXIST, int p, - 1, False)
        else if used a < max_entries a then (OB_SUCCESS, int p, - 1, False)
        else (OB_HASH_FULL, int p, if slots a ! p = Erased then int p else - 1, False))"
proof -
  obtain p where p: "p < length (slots a)" "slots a ! p = Empty \<or> slots a ! p = Erased" "reaches (slots a) (anchor F a k) p"
      "placement_hash_find_set_pos F a k ow = Some (OB_SUCCESS, int p, False)"
    using placement_missing(2) [OF ok k] by blast
  then show ?thesis
    using ha_ok_length [OF ok] cell_at_nat [OF p(1)]
    by (intro exI [of _ p]) (auto simp: ha_find_set_pos_def ha_is_full_def)
qed

theorem ha_set_spec:
  assumes ok: "ha_ok F a" and k: "key_of F v = k"
  shows "\<exists>a'. ha_set_refactored F a k (Full v) ow = Some
      (case ha_map F a k of
         Some w \<Rightarrow> if ow then (OB_SUCCESS, Full w, a') else (OB_HASH_EXIST, Empty, a)
       | None \<Rightarrow> if used a < max_entries a then (OB_SUCCESS, Empty, a') else (OB_HASH_FULL, Empty, a)) \<and>
    same_size a a' \<and>
    (if ha_map F a k = None \<and> \<not> used a < max_entries a \<or> ha_map F a k \<noteq> None \<and> \<not> ow then a' = a
     else ha_ok F a' \<and> ha_map F a' = (ha_map F a)(k \<mapsto> v) \<and> used a' \<le> used a + 1)"
proof (cases "ha_map F a k")
  case None
  obtain p where p: "p < length (slots a)" "slots a ! p = Empty \<or> slots a ! p = Erased" "reaches (slots a) (anchor F a k) p"
    and f: "ha_find_set_pos F a k (Full v) ow =
      Some (if used a < max_entries a then (OB_SUCCESS, int p, - 1, False)
        else (OB_HASH_FULL, int p, if slots a ! p = Erased then int p else - 1, False))"
    using ha_find_set_pos_missing [OF ok None, of "Full v" ow] by auto
  show ?thesis
  proof (cases "used a < max_entries a")
    case True
    then show ?thesis
      using put_new [OF ok, of v p] p k f None
      by (intro exI [of _ "put_cell a p (Full v)"]) (auto simp: ha_set_refactored_def)
  next
    case False
    then show ?thesis
      using f None by (intro exI [of _ a]) (auto simp: ha_set_refactored_def)
  qed
next
  case (Some w)
  obtain p where p: "p < length (slots a)" "slots a ! p = Full w" "key_of F w = k"
    and f: "ha_find_set_pos F a k (Full v) ow = Some (if ow then OB_SUCCESS else OB_HASH_EXIST, int p, - 1, True)"
    using ha_find_set_pos_found [OF ok Some, of "Full v" ow] by auto
  show ?thesis
  proof (cases ow)
    case True
    then show ?thesis
      using put_existing [OF ok p(1,2), of v] p k f Some
      by (intro exI [of _ "put_cell a p (Full v)"]) (auto simp: ha_set_refactored_def)
  next
    case False
    then show ?thesis
      using f Some by (intro exI [of _ a]) (auto simp: ha_set_refactored_def)
  qed
qed

theorem ha_erase_spec:
  assumes ok: "ha_ok F a"
  shows "\<exists>a'. ha_erase_refactored F a k = Some
      (case ha_map F a k of Some w \<Rightarrow> (OB_SUCCESS, Full w, a') | None \<Rightarrow> (OB_HASH_NOT_EXIST, Empty, a')) \<and>
    ha_ok F a' \<and> ha_map F a' = (ha_map F a)(k := None) \<and> same_size a a' \<and> used a' = used a \<and>
    (ha_map F a k = None \<longrightarrow> a' = a)"
proof (cases "ha_map F a k")
  case None
  then show ?thesis
    using ha_find_set_pos_missing [OF ok None, of Erased True] ok
    by (intro exI [of _ a]) (auto simp: ha_erase_refactored_def ha_set_refactored_def)
next
  case (Some w)
  obtain p where p: "p < length (slots a)" "slots a ! p = Full w" "key_of F w = k"
    and f: "ha_find_set_pos F a k Erased True = Some (OB_SUCCESS, int p, - 1, True)"
    using ha_find_set_pos_found [OF ok Some, of Erased True] by auto
  show ?thesis
    using put_erased [OF ok p(1,2)] p f Some
    by (intro exI [of _ "put_cell a p Erased"]) (auto simp: ha_erase_refactored_def ha_set_refactored_def)
qed

section \<open>New arrays, clearing and iterators\<close>

lemma replicate_empty [simp]:
  "cells_map F (replicate n Empty) k = None" "entries (replicate n Empty) = []" "[c \<leftarrow> replicate n Empty. c \<noteq> Empty] = []"
  by (induction n) auto

lemma empty_cells_ok:
  assumes "2 \<le> n" "n < 2 ^ 44"
  shows "ha_ok F \<lparr>capacity = n, max_entries = times_07 n, anchor_mask = m, used = 0, item_count = 0,
    slots = replicate (nat n) Empty\<rparr>"
  using assms times_07_bounds [of n] by (simp add: ha_ok_def)

theorem ha_clear_spec:
  assumes "ha_ok F a"
  shows "ha_ok F (ha_clear a)" "ha_map F (ha_clear a) = Map.empty" "capacity (ha_clear a) = capacity a"
    "max_entries (ha_clear a) = max_entries a"
  using empty_cells_ok [of "capacity a" F "anchor_mask a"] assms
  by (auto simp: ha_clear_def ha_ok_def anchor_def key_to_anchor_idx_def fun_eq_iff)

lemma next_pow2_defined: "2 \<le> n \<Longrightarrow> n < 2 ^ 44 \<Longrightarrow> \<exists>p. next_pow2 n = Some p"
proof -
  assume n: "2 \<le> n" "n < 2 ^ 44"
  have u: "uint (word_of_int (n - 1) :: u64) = n - 1"
    unfolding uint_word_of_int using n by simp
  have "bit_length (n - 1) \<noteq> 64"
  proof
    assume "bit_length (n - 1) = 64"
    then show False
      using bit_length_bounds [of "n - 1"] n by simp
  qed
  then show ?thesis
    using n u by (simp add: next_pow2_def Let_def)
qed

theorem new_harray_spec:
  assumes s: "80 \<le> s" "s < 2 ^ 44"
  shows "\<exists>a. new_harray s = Some a \<and> ha_ok F a \<and> ha_map F a = Map.empty \<and> used a = 0 \<and> item_count a = 0 \<and>
    capacity a = (s - 64) div 8"
proof -
  define n where "n = (s - 64) div 8"
  have n: "2 \<le> n" "n < 2 ^ 44" "64 + 8 * n \<le> s"
    using s by (auto simp: n_def)
  have "uint (word_of_int s - word_of_int HASH_ARRAY_SIZE :: u64) = s - 64"
    unfolding HASH_ARRAY_SIZE_def wi_hom_sub uint_word_of_int using s by simp
  then have "uint ((word_of_int s - word_of_int HASH_ARRAY_SIZE :: u64) div 8) = n"
    by (simp add: uint_div_distrib n_def)
  then have "sint ((word_of_int s - word_of_int HASH_ARRAY_SIZE :: u64) div 8) = n"
    using n by (simp add: sint_uint signed_take_bit_int_eq_self)
  then show ?thesis
    using next_pow2_defined [OF n(1,2)] n empty_cells_ok [OF n(1,2)]
    by (auto simp: new_harray_def Let_def HASH_ARRAY_SIZE_def n_def [symmetric] fun_eq_iff)
qed

text \<open>An array with the memory for a number of elements has room for them.\<close>

theorem sized_array:
  assumes "n \<le> 2 ^ 39"
  shows "\<exists>a. new_harray (get_hash_array_mem_size n) = Some a \<and> ha_ok F a \<and> ha_map F a = Map.empty \<and> used a = 0 \<and>
    n \<le> max_entries a"
proof -
  let ?s = "get_hash_array_mem_size n"
  have s: "80 \<le> ?s" "?s < 2 ^ 44" "(?s - 64) div 8 = max 16 (n * 2)"
    using assms by (auto simp: get_hash_array_mem_size_def MIN_HASH_ARRAY_ITEM_COUNT_def HASH_ARRAY_SIZE_def)
  obtain a where a: "new_harray ?s = Some a" "ha_ok F a" "ha_map F a = Map.empty" "used a = 0" "capacity a = (?s - 64) div 8"
    using new_harray_spec [OF s(1,2), of F] by auto
  have "n \<le> max_entries a"
    using max_entries_bounds(4) [OF a(2)] a(5) s(3) by linarith
  then show ?thesis
    using a by blast
qed

text \<open>Erasing at an iterator.\<close>

theorem ha_erase_at:
  assumes ok: "ha_ok F a" and p: "p < length (slots a)"
  shows "case slots a ! p of
      Full v \<Rightarrow> \<exists>a'. ha_erase a p = Some (OB_SUCCESS, a') \<and> ha_ok F a' \<and> ha_map F a' = (ha_map F a)(key_of F v := None) \<and>
        same_size a a' \<and> slots a' = (slots a)[p := Erased]
    | _ \<Rightarrow> ha_erase a p = Some (OB_INVALID_ARGUMENT, a)"
proof (cases "slots a ! p")
  case (Full v)
  have "ha_erase a p = Some (OB_SUCCESS, put_cell a p Erased)"
    using Full cell_at_nat [OF p] by (simp add: ha_erase_def put_cell_def)
  then show ?thesis
    using put_erased [OF ok p Full] Full by auto
qed (use cell_at_nat [OF p] in \<open>auto simp: ha_erase_def\<close>)

text \<open>The positions an iterator visits are those of the full cells, in order.\<close>

lemma advance_ge: "i \<le> advance cs i" "advance cs i \<le> i + length cs"
  by (induction cs i rule: advance.induct) auto

lemma ha_next_gt: "i < length (slots a) \<Longrightarrow> i < ha_next a i"
  using advance_ge(1) [of "Suc i" "drop (Suc i) (slots a)"] by (simp add: ha_next_def)

lemma advance_step:
  assumes "i < length (slots a)"
  shows "advance (drop i (slots a)) i = (case slots a ! i of Full v \<Rightarrow> i | _ \<Rightarrow> advance (drop (Suc i) (slots a)) (Suc i))"
  using assms by (cases "slots a ! i") (simp_all flip: Cons_nth_drop_Suc)

lemma entries_step:
  assumes "i < length (slots a)"
  shows "entries (drop i (slots a)) =
    (case slots a ! i of Full v \<Rightarrow> v # entries (drop (Suc i) (slots a)) | _ \<Rightarrow> entries (drop (Suc i) (slots a)))"
  using assms by (cases "slots a ! i") (simp_all flip: Cons_nth_drop_Suc)

section \<open>Copying the entries of an array into another\<close>

text \<open>
  The inner loop of \<open>copy_from\<close>: an iterator goes over \<open>a\<close>, and its entries are set in \<open>sub\<close>, without a look at
  the results.
\<close>

function copy_iter :: "('k, 'v) hfuns \<Rightarrow> 'v harray \<Rightarrow> nat \<Rightarrow> 'v harray \<Rightarrow> 'v harray option" where
  "copy_iter F a i sub =
     (if i \<ge> length (slots a) then Some sub
      else case slots a ! i of
        Full v \<Rightarrow> do {
          (_, _, sub) \<leftarrow> ha_set_refactored F sub (key_of F v) (Full v) False;
          copy_iter F a (ha_next a i) sub
        }
      | _ \<Rightarrow> None)"
  by pat_completeness auto

termination
  by (relation "measure (\<lambda>(F, a, i, sub). length (slots a) - i)") (auto simp: ha_next_gt diff_less_mono2)

declare copy_iter.simps [simp del]

fun put_all :: "('k, 'v) hfuns \<Rightarrow> 'v list \<Rightarrow> 'v harray \<Rightarrow> 'v harray option" where
  "put_all F [] sub = Some sub"
| "put_all F (v # vs) sub = do {
     (_, _, sub) \<leftarrow> ha_set_refactored F sub (key_of F v) (Full v) False;
     put_all F vs sub
   }"

lemma copy_iter_from:
  "i \<le> length (slots a) \<Longrightarrow> copy_iter F a (advance (drop i (slots a)) i) sub = put_all F (entries (drop i (slots a))) sub"
proof (induction "length (slots a) - i" arbitrary: i sub)
  case 0
  then show ?case
    by (simp add: copy_iter.simps)
next
  case (Suc n)
  then have i: "i < length (slots a)" "n = length (slots a) - Suc i" "Suc i \<le> length (slots a)"
    by auto
  show ?case
  proof (cases "slots a ! i")
    case (Full v)
    have "ha_next a i = advance (drop (Suc i) (slots a)) (Suc i)"
      using i by (simp add: ha_next_def)
    then show ?thesis
      using Suc.hyps(1) [OF i(2,3)] Full i(1)
      by (cases "ha_set_refactored F sub (key_of F v) (Full v) False")
        (simp_all add: advance_step entries_step copy_iter.simps [of F a i] split: prod.split)
  qed (use Suc.hyps(1) [OF i(2,3)] i(1) in \<open>simp_all add: advance_step entries_step\<close>)
qed

theorem copy_iter_entries: "copy_iter F a (ha_begin a) sub = put_all F (entries (slots a)) sub"
  using copy_iter_from [of 0 a F sub] by (simp add: ha_begin_def)

lemma cells_map_entries: "cells_map F cs = map_of (map (\<lambda>v. (key_of F v, v)) (entries cs))"
proof
  fix k
  show "cells_map F cs k = map_of (map (\<lambda>v. (key_of F v, v)) (entries cs)) k"
    by (induction F cs k rule: cells_map.induct) auto
qed

lemma ha_entries_dom: "dom (ha_map F a) = key_of F ` set (entries (slots a))"
  by (simp add: cells_map_entries dom_map_of_conv_image_fst image_image)

lemma entries_distinct:
  assumes "\<And>i j v w. i < length cs \<Longrightarrow> j < length cs \<Longrightarrow> cs ! i = Full v \<Longrightarrow> cs ! j = Full w \<Longrightarrow> key_of F v = key_of F w \<Longrightarrow> i = j"
  shows "distinct (map (key_of F) (entries cs))"
  using assms
proof (induction cs)
  case (Cons c cs)
  have IH: "distinct (map (key_of F) (entries cs))"
    using Cons.prems [of "Suc _" "Suc _"] by (intro Cons.IH) fastforce
  show ?case
  proof (cases c)
    case (Full v)
    have "key_of F v \<noteq> key_of F w" if w: "Full w \<in> set cs" for w
    proof -
      obtain j where "j < length cs" "cs ! j = Full w"
        using w by (auto simp: in_set_conv_nth)
      then show ?thesis
        using Cons.prems [of 0 "Suc j" v w] Full by auto
    qed
    then show ?thesis
      using IH Full by (force simp: in_entries)
  qed (use IH in auto)
qed simp

lemma ha_entries_distinct: "ha_ok F a \<Longrightarrow> distinct (map (key_of F) (entries (slots a)))"
  by (rule entries_distinct) (rule ha_ok_unique)

text \<open>The number of items is the number of keys.\<close>

theorem ha_item_count: "ha_ok F a \<Longrightarrow> item_count a = int (card (dom (ha_map F a)))"
proof -
  assume ok: "ha_ok F a"
  have "item_count a = int (length (entries (slots a)))"
    using ok by (simp add: ha_ok_def)
  then show ?thesis
    using distinct_card [OF ha_entries_distinct [OF ok]] unfolding ha_entries_dom by simp
qed

theorem put_all_spec:
  assumes "ha_ok F s" "distinct (map (key_of F) vs)" "\<forall>v\<in>set vs. ha_map F s (key_of F v) = None"
    and "used s + int (length vs) \<le> max_entries s"
  shows "\<exists>s'. put_all F vs s = Some s' \<and> ha_ok F s' \<and> ha_map F s' = ha_map F s ++ map_of (map (\<lambda>v. (key_of F v, v)) vs) \<and>
    same_size s s' \<and> used s' \<le> used s + int (length vs)"
  using assms
proof (induction vs arbitrary: s)
  case (Cons v vs)
  let ?k = "key_of F v"
  obtain t where t: "ha_set_refactored F s ?k (Full v) False = Some (OB_SUCCESS, Empty, t)" "ha_ok F t"
      "ha_map F t = (ha_map F s)(?k \<mapsto> v)" "same_size s t" "used t \<le> used s + 1"
    using ha_set_spec [OF Cons.prems(1) refl, of v False] Cons.prems(3,4) by auto
  have "\<exists>s'. put_all F vs t = Some s' \<and> ha_ok F s' \<and> ha_map F s' = ha_map F t ++ map_of (map (\<lambda>v. (key_of F v, v)) vs) \<and>
      same_size t s' \<and> used s' \<le> used t + int (length vs)"
  proof (rule Cons.IH [OF t(2)])
    show "\<forall>w\<in>set vs. ha_map F t (key_of F w) = None"
      using Cons.prems(2,3) t(3) by (force simp: image_iff)
  qed (use Cons.prems t(4,5) in \<open>auto simp: same_size_def\<close>)
  then obtain s' where s': "put_all F vs t = Some s'" "ha_ok F s'"
      "ha_map F s' = ha_map F t ++ map_of (map (\<lambda>v. (key_of F v, v)) vs)" "same_size t s'" "used s' \<le> used t + int (length vs)"
    by auto
  have "?k \<notin> dom (map_of (map (\<lambda>v. (key_of F v, v)) vs))"
    using Cons.prems(2) by (simp add: dom_map_of_conv_image_fst image_image)
  then have m: "ha_map F s' = ha_map F s ++ map_of (map (\<lambda>v. (key_of F v, v)) (v # vs))"
    unfolding s'(3) t(3) by (simp add: map_add_upd_left)
  show ?case
  proof (intro exI conjI)
    show "put_all F (v # vs) s = Some s'"
      using s'(1) t(1) by simp
    show "ha_map F s' = ha_map F s ++ map_of (map (\<lambda>v. (key_of F v, v)) (v # vs))"
      by (rule m)
  qed (use s'(2,4,5) t(4,5) in \<open>auto simp: same_size_def\<close>)
qed simp

end
