(* ===== verification/PointerHashMap.thy ===== *)
theory PointerHashMap
  imports PointerHash
begin

text \<open>
  \<open>ObPointerHashMap\<close> of \<open>src/src/lib/hash/ob_pointer_hashmap.h\<close>: up to four arrays of one size, searched one after
  the other, which grow by a further array or by copying everything into a larger one.

  A pointer to an array that may be null is an option.  What the allocator answers is an argument of the
  operations that allocate; \<open>None\<close> is a null pointer that is followed, or a copy past the end of a block.
\<close>

section \<open>The state\<close>

definition MAX_SUB_MAP_COUNT :: nat where
  "MAX_SUB_MAP_COUNT = 4"

definition OB_MALLOC_NORMAL_BLOCK_SIZE :: int where
  "OB_MALLOC_NORMAL_BLOCK_SIZE = 2 ^ 13"

definition OB_MALLOC_BIG_BLOCK_SIZE :: int where
  "OB_MALLOC_BIG_BLOCK_SIZE = 2 ^ 21 - 2 ^ 10"

record 'v pmap =
  sub_maps :: "'v harray option list"
  sub_map_count :: nat
  sub_map_mem_size :: int

definition new_pmap :: "int \<Rightarrow> 'v pmap" where
  "new_pmap default_size =
     \<lparr>sub_maps = replicate MAX_SUB_MAP_COUNT None, sub_map_count = 0, sub_map_mem_size = default_size\<rparr>"

abbreviation live_subs :: "'v pmap \<Rightarrow> 'v harray option list" where
  "live_subs m \<equiv> take (sub_map_count m) (sub_maps m)"

definition pm_destroy :: "'v pmap \<Rightarrow> 'v pmap" where
  "pm_destroy m =
     \<lparr>sub_maps = replicate (length (live_subs m)) None @ drop (sub_map_count m) (sub_maps m), sub_map_count = 0,
      sub_map_mem_size = 0\<rparr>"

text \<open>The first argument tells whether the allocator gives the memory.\<close>

definition create_sub_map :: "bool \<Rightarrow> int \<Rightarrow> 'v harray option \<Rightarrow> 'v harray option option" where
  "create_sub_map ok mem_size other =
     (if \<not> ok then Some None
      else case other of
        Some a \<Rightarrow> if HASH_ARRAY_SIZE + 8 * capacity a \<le> mem_size then Some (Some a) else None
      | None \<Rightarrow> map_option Some (new_harray mem_size))"

definition pm_init :: "bool \<Rightarrow> 'v pmap \<Rightarrow> (ob_err \<times> 'v pmap) option" where
  "pm_init ok m =
     (if sub_maps m ! 0 = None then do {
        s \<leftarrow> create_sub_map ok (sub_map_mem_size m) None;
        let m = m\<lparr>sub_maps := (sub_maps m)[0 := s]\<rparr>;
        Some (if s \<noteq> None then (OB_SUCCESS, m\<lparr>sub_map_count := 1\<rparr>) else (OB_ALLOCATE_MEMORY_FAILED, m))
      }
      else Some (OB_SUCCESS, m))"

fun sum_subs :: "('v harray \<Rightarrow> int) \<Rightarrow> 'v harray option list \<Rightarrow> int" where
  "sum_subs f [] = 0"
| "sum_subs f (None # ss) = sum_subs f ss"
| "sum_subs f (Some a # ss) = f a + sum_subs f ss"

definition pm_count :: "'v pmap \<Rightarrow> int" where
  "pm_count m = sum_subs used (live_subs m)"

definition pm_item_count :: "'v pmap \<Rightarrow> int" where
  "pm_item_count m = sum_subs item_count (live_subs m)"

section \<open>Growing\<close>

text \<open>Whether a resize adds an array, and else the size of the array that replaces all.\<close>

definition resize_plan :: "'v pmap \<Rightarrow> bool \<times> int" where
  "resize_plan m =
     (let n = sub_map_count m; s = sub_map_mem_size m;
        extend_size = if pm_count m < times_11 (pm_item_count m) then s * 2 else s;
        needed_size = extend_size
      in if n = 1 then
           if (s = OB_MALLOC_NORMAL_BLOCK_SIZE \<or> s = OB_MALLOC_BIG_BLOCK_SIZE) \<and> n < MAX_SUB_MAP_COUNT then (True, 0)
           else if needed_size \<le> OB_MALLOC_NORMAL_BLOCK_SIZE then (False, needed_size)
           else if s < OB_MALLOC_NORMAL_BLOCK_SIZE then (False, OB_MALLOC_NORMAL_BLOCK_SIZE)
           else if needed_size \<le> OB_MALLOC_BIG_BLOCK_SIZE then (False, needed_size)
           else if s < OB_MALLOC_BIG_BLOCK_SIZE then (False, OB_MALLOC_BIG_BLOCK_SIZE)
           else (False, extend_size)
         else if n > 1 \<and> n < MAX_SUB_MAP_COUNT then (True, 0)
         else if n = MAX_SUB_MAP_COUNT then
           if s = OB_MALLOC_NORMAL_BLOCK_SIZE then (False, int n * extend_size)
           else if s = OB_MALLOC_BIG_BLOCK_SIZE then (False, int n * extend_size)
           else (False, 0)
         else (False, 0))"

fun copy_subs :: "('k, 'v) hfuns \<Rightarrow> 'v harray option list \<Rightarrow> 'v harray \<Rightarrow> 'v harray option" where
  "copy_subs F [] sub = Some sub"
| "copy_subs F (None # ss) sub = None"
| "copy_subs F (Some a # ss) sub = do { sub \<leftarrow> copy_iter F a (ha_begin a) sub; copy_subs F ss sub }"

text \<open>\<open>copy_from\<close> into a map that is new, as the only caller has it.\<close>

definition copy_from :: "('k, 'v) hfuns \<Rightarrow> bool \<Rightarrow> 'v pmap \<Rightarrow> int \<Rightarrow> 'v pmap option" where
  "copy_from F ok other resize_to = do {
     let m = (pm_destroy (new_pmap resize_to))\<lparr>sub_map_mem_size := resize_to\<rparr>;
     s \<leftarrow> create_sub_map ok resize_to None;
     (case s of
        None \<Rightarrow> Some m
      | Some sub \<Rightarrow> do {
          sub \<leftarrow> copy_subs F (live_subs other) sub;
          Some (m\<lparr>sub_maps := (sub_maps m)[0 := Some sub], sub_map_count := 1\<rparr>)
        })
   }"

definition pm_swap :: "'v pmap \<Rightarrow> 'v pmap \<Rightarrow> 'v pmap \<times> 'v pmap" where
  "pm_swap m other =
     (let n = max (sub_map_count m) (sub_map_count other)
      in (other\<lparr>sub_maps := take n (sub_maps other) @ drop n (sub_maps m)\<rparr>,
          m\<lparr>sub_maps := take n (sub_maps m) @ drop n (sub_maps other)\<rparr>))"

text \<open>The index of the array that is to take the next value, where there is one.\<close>

definition resize :: "('k, 'v) hfuns \<Rightarrow> bool \<Rightarrow> 'v pmap \<Rightarrow> (nat option \<times> 'v pmap) option" where
  "resize F ok m =
     (let (add_sub_map, resize_to) = resize_plan m
      in if add_sub_map then
           if sub_map_count m < MAX_SUB_MAP_COUNT then do {
             s \<leftarrow> create_sub_map ok (sub_map_mem_size m) None;
             Some (if s \<noteq> None then
                 (Some (sub_map_count m),
                  m\<lparr>sub_maps := (sub_maps m)[sub_map_count m := s], sub_map_count := sub_map_count m + 1\<rparr>)
               else (None, m))
           }
           else Some (None, m)
         else do {
           tmp \<leftarrow> copy_from F ok m resize_to;
           let m = fst (pm_swap m tmp);
           Some (if sub_maps m ! 0 = None then None else Some 0, m)
         })"

section \<open>Operations\<close>

text \<open>
  The loop of \<open>find_set_pos\<close> from the array of index \<open>i\<close> on: the result code, and where to write (\<open>-1\<close> is
  nowhere).
\<close>

fun find_set_pos_loop ::
    "('k, 'v) hfuns \<Rightarrow> 'k \<Rightarrow> 'v cell \<Rightarrow> bool \<Rightarrow> 'v harray option list \<Rightarrow> int \<Rightarrow> int \<Rightarrow> int \<Rightarrow> ob_err \<Rightarrow>
     (ob_err \<times> int \<times> int) option" where
  "find_set_pos_loop F k value overwrite [] i idx pos ret = Some (ret, idx, pos)"
| "find_set_pos_loop F k value overwrite (None # ss) i idx pos ret = None"
| "find_set_pos_loop F k value overwrite (Some a # ss) i idx pos ret = do {
     (ret, set_pos, erased_pos, exist) \<leftarrow> ha_find_set_pos F a k value overwrite;
     (if ret = OB_SUCCESS then
        Some (if exist \<or> idx = - 1 then (ret, i, set_pos) else (ret, idx, pos))
      else if ret = OB_HASH_FULL then
        let (idx, pos) = if pos = - 1 \<and> erased_pos \<noteq> - 1 then (i, erased_pos) else (idx, pos)
        in if ss = [] \<and> pos \<noteq> - 1 then Some (OB_SUCCESS, idx, pos)
           else find_set_pos_loop F k value overwrite ss (i + 1) idx pos ret
      else Some (ret, idx, pos))
   }"

definition pm_find_set_pos :: "('k, 'v) hfuns \<Rightarrow> 'v pmap \<Rightarrow> 'k \<Rightarrow> 'v cell \<Rightarrow> bool \<Rightarrow> (ob_err \<times> int \<times> int) option" where
  "pm_find_set_pos F m k value overwrite = find_set_pos_loop F k value overwrite (live_subs m) 0 (- 1) (- 1) OB_SUCCESS"

text \<open>\<open>alloc n\<close> is the answer to the \<open>n\<close>-th allocation of the call.\<close>

definition pm_set_refactored ::
    "('k, 'v) hfuns \<Rightarrow> (nat \<Rightarrow> bool) \<Rightarrow> 'v pmap \<Rightarrow> 'k \<Rightarrow> 'v cell \<Rightarrow> bool \<Rightarrow> (ob_err \<times> 'v cell \<times> 'v pmap) option" where
  "pm_set_refactored F alloc m k value overwrite = do {
     (ret, m) \<leftarrow> pm_init (alloc 0) m;
     (if ret \<noteq> OB_SUCCESS then Some (ret, Empty, m)
      else do {
        (ret, idx, pos) \<leftarrow> pm_find_set_pos F m k value overwrite;
        (ret, over, m) \<leftarrow>
          (if ret = OB_SUCCESS then
             if idx < 0 \<or> idx \<ge> int (sub_map_count m) then Some (OB_ERR_UNEXPECTED, Empty, m)
             else do {
               a \<leftarrow> sub_maps m ! nat idx;
               (ret, over, a) \<leftarrow> set_value a pos value;
               Some (ret, over, m\<lparr>sub_maps := (sub_maps m)[nat idx := Some a]\<rparr>)
             }
           else Some (ret, Empty, m));
        (if ret = OB_HASH_FULL then do {
           (sub, m) \<leftarrow> resize F (alloc 1) m;
           (case sub of
              None \<Rightarrow> Some (OB_ERR_UNEXPECTED, over, m)
            | Some i \<Rightarrow> do {
                a \<leftarrow> sub_maps m ! i;
                (ret, over, a) \<leftarrow> ha_set_refactored F a k value overwrite;
                Some (ret, over, m\<lparr>sub_maps := (sub_maps m)[i := Some a]\<rparr>)
              })
         }
         else Some (ret, over, m))
      })
   }"

fun get_refactored_loop ::
    "('k, 'v) hfuns \<Rightarrow> 'k \<Rightarrow> 'v harray option list \<Rightarrow> ob_err \<Rightarrow> (ob_err \<times> 'v cell option) option" where
  "get_refactored_loop F k [] ret = Some (ret, None)"
| "get_refactored_loop F k (None # ss) ret = None"
| "get_refactored_loop F k (Some a # ss) ret = do {
     (ret, value) \<leftarrow> ha_get_refactored F a k;
     (if ret \<noteq> OB_HASH_NOT_EXIST then Some (ret, value) else get_refactored_loop F k ss ret)
   }"

definition pm_get_refactored :: "('k, 'v) hfuns \<Rightarrow> 'v pmap \<Rightarrow> 'k \<Rightarrow> (ob_err \<times> 'v cell option) option" where
  "pm_get_refactored F m k =
     (if sub_maps m ! 0 = None then Some (OB_NOT_INIT, None)
      else get_refactored_loop F k (live_subs m) OB_HASH_NOT_EXIST)"

fun get_loop :: "('k, 'v) hfuns \<Rightarrow> 'k \<Rightarrow> 'v harray option list \<Rightarrow> 'v cell option option" where
  "get_loop F k [] = Some None"
| "get_loop F k (None # ss) = None"
| "get_loop F k (Some a # ss) = do {
     value \<leftarrow> ha_get F a k;
     (if value \<noteq> None then Some value else get_loop F k ss)
   }"

definition pm_get :: "('k, 'v) hfuns \<Rightarrow> 'v pmap \<Rightarrow> 'k \<Rightarrow> 'v cell option option" where
  "pm_get F m k = (if sub_maps m ! 0 = None then Some None else get_loop F k (live_subs m))"

fun erase_loop ::
    "('k, 'v) hfuns \<Rightarrow> 'k \<Rightarrow> 'v harray option list \<Rightarrow> ob_err \<Rightarrow> (ob_err \<times> 'v cell \<times> 'v harray option list) option" where
  "erase_loop F k [] ret = Some (ret, Empty, [])"
| "erase_loop F k (None # ss) ret = None"
| "erase_loop F k (Some a # ss) ret = do {
     (ret, erased, a) \<leftarrow> ha_erase_refactored F a k;
     (if ret \<noteq> OB_HASH_NOT_EXIST then Some (ret, erased, Some a # ss)
      else do { (ret, erased, ss) \<leftarrow> erase_loop F k ss ret; Some (ret, erased, Some a # ss) })
   }"

definition pm_erase_refactored :: "('k, 'v) hfuns \<Rightarrow> 'v pmap \<Rightarrow> 'k \<Rightarrow> (ob_err \<times> 'v cell \<times> 'v pmap) option" where
  "pm_erase_refactored F m k =
     (if sub_maps m ! 0 = None then Some (OB_NOT_INIT, Empty, m)
      else do {
        (ret, erased, ss) \<leftarrow> erase_loop F k (live_subs m) OB_HASH_NOT_EXIST;
        Some (ret, erased, m\<lparr>sub_maps := ss @ drop (sub_map_count m) (sub_maps m)\<rparr>)
      })"

text \<open>Erasing at an iterator, a position in the array of index \<open>sub_map_id\<close>.\<close>

definition pm_erase :: "'v pmap \<Rightarrow> nat \<Rightarrow> int \<Rightarrow> (ob_err \<times> 'v pmap) option" where
  "pm_erase m it sub_map_id =
     (if sub_map_id \<ge> 0 \<and> sub_map_id < int (sub_map_count m) then do {
        a \<leftarrow> sub_maps m ! nat sub_map_id;
        (ret, a) \<leftarrow> ha_erase a it;
        Some (ret, m\<lparr>sub_maps := (sub_maps m)[nat sub_map_id := Some a]\<rparr>)
      }
      else Some (OB_INVALID_ARGUMENT, m))"

definition pm_clear :: "'v pmap \<Rightarrow> 'v pmap" where
  "pm_clear m =
     (if sub_maps m ! 0 \<noteq> None \<and> sub_map_count m > 0
      then m\<lparr>sub_maps := map_option ha_clear (sub_maps m ! 0) # replicate (length (live_subs m) - 1) None @
            drop (sub_map_count m) (sub_maps m),
          sub_map_count := 1\<rparr>
      else m)"

fun assign_loop :: "(nat \<Rightarrow> bool) \<Rightarrow> int \<Rightarrow> nat \<Rightarrow> 'v harray option list \<Rightarrow> (ob_err \<times> 'v harray option list) option" where
  "assign_loop alloc s i [] = Some (OB_SUCCESS, [])"
| "assign_loop alloc s i (other # ss) = do {
     sub \<leftarrow> create_sub_map (alloc i) s other;
     (if sub = None then Some (OB_ALLOCATE_MEMORY_FAILED, None # replicate (length ss) None)
      else do { (ret, subs) \<leftarrow> assign_loop alloc s (Suc i) ss; Some (ret, sub # subs) })
   }"

text \<open>\<open>assign\<close> from another map.\<close>

definition pm_assign :: "(nat \<Rightarrow> bool) \<Rightarrow> 'v pmap \<Rightarrow> 'v pmap \<Rightarrow> (ob_err \<times> 'v pmap) option" where
  "pm_assign alloc m other = do {
     let m = pm_destroy m;
     (ret, subs) \<leftarrow> assign_loop alloc (sub_map_mem_size other) 0 (live_subs other);
     Some (ret, \<lparr>sub_maps = subs @ drop (length subs) (sub_maps m), sub_map_count = sub_map_count other,
       sub_map_mem_size = sub_map_mem_size other\<rparr>)
   }"

text \<open>The iterators of one array; an index out of range gives an iterator over nothing.\<close>

definition pm_begin :: "'v pmap \<Rightarrow> int \<Rightarrow> nat option option" where
  "pm_begin m sub_map_id =
     (if sub_map_id \<ge> 0 \<and> sub_map_id < int (sub_map_count m)
      then do { a \<leftarrow> sub_maps m ! nat sub_map_id; Some (Some (ha_begin a)) }
      else Some None)"

definition pm_end :: "'v pmap \<Rightarrow> int \<Rightarrow> nat option option" where
  "pm_end m sub_map_id =
     (if sub_map_id \<ge> 0 \<and> sub_map_id < int (sub_map_count m)
      then do { a \<leftarrow> sub_maps m ! nat sub_map_id; Some (Some (nat (capacity a))) }
      else Some None)"

section \<open>Well-formed maps\<close>

text \<open>
  A list of arrays: all well-formed and of the size that blocks of \<open>s\<close> bytes give, no key in two of them, and all
  but the last full.
\<close>

fun arrays_map :: "('k, 'v) hfuns \<Rightarrow> 'v harray list \<Rightarrow> 'k \<Rightarrow> 'v option" where
  "arrays_map F [] k = None"
| "arrays_map F (a # as) k = (case ha_map F a k of Some v \<Rightarrow> Some v | None \<Rightarrow> arrays_map F as k)"

lemma arrays_map_Nil: "arrays_map F [] = Map.empty"
  by (simp add: fun_eq_iff)

fun arrays_ok :: "('k, 'v) hfuns \<Rightarrow> int \<Rightarrow> 'v harray list \<Rightarrow> bool" where
  "arrays_ok F s [] = True"
| "arrays_ok F s (a # as) =
     (ha_ok F a \<and> capacity a = (s - 64) div 8 \<and> (\<forall>v\<in>set (entries (slots a)). arrays_map F as (key_of F v) = None) \<and>
      (as \<noteq> [] \<longrightarrow> used a = max_entries a) \<and> arrays_ok F s as)"

definition arrays :: "'v pmap \<Rightarrow> 'v harray list" where
  "arrays m = map the (live_subs m)"

definition pm_map :: "('k, 'v) hfuns \<Rightarrow> 'v pmap \<Rightarrow> 'k \<Rightarrow> 'v option" where
  "pm_map F m = arrays_map F (arrays m)"

definition pm_ok :: "('k, 'v) hfuns \<Rightarrow> 'v pmap \<Rightarrow> bool" where
  "pm_ok F m =
     (let n = sub_map_count m; s = sub_map_mem_size m
      in n \<le> MAX_SUB_MAP_COUNT \<and> 256 \<le> s \<and> s \<le> 2 ^ 43 \<and> 64 dvd s \<and>
         (1 < n \<longrightarrow> s = OB_MALLOC_NORMAL_BLOCK_SIZE \<or> s = OB_MALLOC_BIG_BLOCK_SIZE) \<and>
         length (live_subs m) = n \<and> None \<notin> set (live_subs m) \<and>
         sub_maps m = live_subs m @ replicate (MAX_SUB_MAP_COUNT - n) None \<and> arrays_ok F s (arrays m))"

lemma map_Some_the: "None \<notin> set xs \<Longrightarrow> map Some (map the xs) = xs"
  by (induction xs) auto

lemma ha_ok_used: "ha_ok F a \<Longrightarrow> used a \<le> max_entries a"
  unfolding ha_ok_def by (elim conjE)

lemma pm_ok_subs:
  assumes "pm_ok F m"
  shows "live_subs m = map Some (arrays m)" "length (arrays m) = sub_map_count m"
    "sub_maps m = map Some (arrays m) @ replicate (MAX_SUB_MAP_COUNT - sub_map_count m) None"
    "sub_map_count m \<le> MAX_SUB_MAP_COUNT" "arrays_ok F (sub_map_mem_size m) (arrays m)"
proof -
  show l: "live_subs m = map Some (arrays m)"
    using assms unfolding pm_ok_def arrays_def Let_def by (intro map_Some_the [symmetric]) simp
  show "length (arrays m) = sub_map_count m" "sub_map_count m \<le> MAX_SUB_MAP_COUNT"
      "arrays_ok F (sub_map_mem_size m) (arrays m)"
    using assms by (auto simp: pm_ok_def arrays_def Let_def)
  show "sub_maps m = map Some (arrays m) @ replicate (MAX_SUB_MAP_COUNT - sub_map_count m) None"
    using assms unfolding l [symmetric] pm_ok_def Let_def by blast
qed

text \<open>A map given by its arrays.\<close>

definition pm_of :: "int \<Rightarrow> 'v harray list \<Rightarrow> 'v pmap" where
  "pm_of s as = \<lparr>sub_maps = map Some as @ replicate (MAX_SUB_MAP_COUNT - length as) None, sub_map_count = length as,
     sub_map_mem_size = s\<rparr>"

lemma pm_of_sel [simp]:
  "sub_map_count (pm_of s as) = length as" "sub_map_mem_size (pm_of s as) = s" "live_subs (pm_of s as) = map Some as"
  "arrays (pm_of s as) = as" "sub_maps (pm_of s as) = map Some as @ replicate (MAX_SUB_MAP_COUNT - length as) None"
  by (simp_all add: pm_of_def arrays_def)

lemma pm_of_live: "take (length as) (sub_maps (pm_of s as)) = map Some as"
  by (simp add: pm_of_def)

lemma pm_map_of [simp]: "pm_map F (pm_of s as) = arrays_map F as"
  by (simp add: pm_map_def)

lemma pm_ok_of: "pm_ok F m \<Longrightarrow> m = pm_of (sub_map_mem_size m) (arrays m)"
  using pm_ok_subs [of F m] by (simp add: pm_of_def)

text \<open>The sizes of blocks that the proofs allow.\<close>

definition size_ok :: "int \<Rightarrow> nat \<Rightarrow> bool" where
  "size_ok s n =
     (256 \<le> s \<and> s \<le> 2 ^ 43 \<and> 64 dvd s \<and> (1 < n \<longrightarrow> s = OB_MALLOC_NORMAL_BLOCK_SIZE \<or> s = OB_MALLOC_BIG_BLOCK_SIZE))"

lemma pm_ok_pm_of:
  "pm_ok F (pm_of s as) \<longleftrightarrow> length as \<le> MAX_SUB_MAP_COUNT \<and> size_ok s (length as) \<and> arrays_ok F s as"
  by (auto simp: pm_ok_def Let_def size_ok_def)

lemma pm_cases:
  assumes "pm_ok F m"
  obtains s as where "m = pm_of s as" "length as \<le> MAX_SUB_MAP_COUNT" "size_ok s (length as)" "arrays_ok F s as"
  using pm_ok_of [OF assms] assms pm_ok_pm_of [of F "sub_map_mem_size m" "arrays m"] by metis

lemma pm_of_nth: "j < length as \<Longrightarrow> sub_maps (pm_of s as) ! j = Some (as ! j)"
  by (simp add: nth_append)

lemma pm_of_update: "j < length as \<Longrightarrow> (pm_of s as)\<lparr>sub_maps := (sub_maps (pm_of s as))[j := Some a]\<rparr> = pm_of s (as[j := a])"
  by (simp add: pm_of_def list_update_append map_update)

lemma pm_of_0: "length as \<le> MAX_SUB_MAP_COUNT \<Longrightarrow> sub_maps (pm_of s as) ! 0 = None \<longleftrightarrow> as = []"
  by (cases as) (auto simp: MAX_SUB_MAP_COUNT_def)

section \<open>Lists of arrays\<close>

lemma arrays_map_None: "arrays_map F as k = None \<longleftrightarrow> (\<forall>a\<in>set as. ha_map F a k = None)"
  by (induction as) (auto split: option.splits)

lemma arrays_map_None_nth: "arrays_map F as k = None \<Longrightarrow> j < length as \<Longrightarrow> ha_map F (as ! j) k = None"
  by (auto simp: arrays_map_None)

lemma arrays_ok_nth:
  "arrays_ok F s as \<Longrightarrow> j < length as \<Longrightarrow>
   ha_ok F (as ! j) \<and> capacity (as ! j) = (s - 64) div 8 \<and> (Suc j < length as \<longrightarrow> used (as ! j) = max_entries (as ! j))"
proof (induction as arbitrary: j)
  case (Cons a as)
  then show ?case
    by (cases j) auto
qed simp

lemma disjoint_entries:
  "(\<forall>v\<in>set (entries (slots a)). P (key_of F v)) \<longleftrightarrow> (\<forall>k. ha_map F a k \<noteq> None \<longrightarrow> P k)"
proof -
  have "(\<forall>v\<in>set (entries (slots a)). P (key_of F v)) \<longleftrightarrow> (\<forall>k\<in>dom (ha_map F a). P k)"
    unfolding ha_entries_dom by blast
  then show ?thesis
    by (simp add: dom_def)
qed

text \<open>A key is in one array at most.\<close>

lemma arrays_map_Some:
  "arrays_ok F s as \<Longrightarrow> arrays_map F as k = Some w \<Longrightarrow>
   \<exists>j<length as. ha_map F (as ! j) k = Some w \<and> (\<forall>i<length as. i \<noteq> j \<longrightarrow> ha_map F (as ! i) k = None)"
proof (induction as)
  case (Cons a as)
  show ?case
  proof (cases "ha_map F a k")
    case (Some v)
    then have "arrays_map F as k = None"
      using Cons.prems(1) disjoint_entries [of a "\<lambda>k. arrays_map F as k = None" F] by auto
    then show ?thesis
      using Some Cons.prems(2) by (intro exI [of _ 0]) (auto simp: nth_Cons' arrays_map_None)
  next
    case None
    then obtain j where "j < length as" "ha_map F (as ! j) k = Some w" "\<forall>i<length as. i \<noteq> j \<longrightarrow> ha_map F (as ! i) k = None"
      using Cons by auto
    then show ?thesis
      using None by (intro exI [of _ "Suc j"]) (auto simp: nth_Cons')
  qed
qed simp

text \<open>A write at one key in one array, where no other array has the key.\<close>

lemma arrays_update:
  assumes "arrays_ok F s as" "j < length as" "ha_ok F a'" "same_size (as ! j) a'"
    and "ha_map F a' = (ha_map F (as ! j))(k := x)" "\<forall>i<length as. i \<noteq> j \<longrightarrow> ha_map F (as ! i) k = None"
  shows "arrays_ok F s (as[j := a'])" "arrays_map F (as[j := a']) = (arrays_map F as)(k := x)"
proof -
  have "arrays_ok F s (as[j := a']) \<and> arrays_map F (as[j := a']) = (arrays_map F as)(k := x)"
    using assms
  proof (induction as arbitrary: j)
    case (Cons a as)
    show ?case
    proof (cases j)
      case 0
      have none: "arrays_map F as k = None"
        unfolding arrays_map_None using Cons.prems(6) 0 by (metis Suc_less_eq in_set_conv_nth length_Cons nat.distinct(1) nth_Cons_Suc)
      have a: "ha_map F a' = (ha_map F a)(k := x)" "same_size a a'"
        using Cons.prems 0 by auto
      have le: "used a' \<le> max_entries a'"
        by (rule ha_ok_used [OF Cons.prems(3)])
      have d: "\<forall>k. ha_map F a k \<noteq> None \<longrightarrow> arrays_map F as k = None"
        using Cons.prems(1) disjoint_entries [of a "\<lambda>k. arrays_map F as k = None" F] by simp
      have "\<forall>k. ha_map F a' k \<noteq> None \<longrightarrow> arrays_map F as k = None"
        using d none by (auto simp: a(1) split: if_splits)
      then have "\<forall>v\<in>set (entries (slots a')). arrays_map F as (key_of F v) = None"
        using disjoint_entries [of a' "\<lambda>k. arrays_map F as k = None" F] by simp
      then have "arrays_ok F s (a' # as)"
        using Cons.prems(1,3) a(2) le by (auto simp: same_size_def)
      moreover have "arrays_map F (a' # as) = (arrays_map F (a # as))(k := x)"
        using none by (auto simp: fun_eq_iff a(1) split: option.split)
      ultimately show ?thesis
        by (simp only: 0 list_update.simps nat.case simp_thms)
    next
      case (Suc i)
      have ka: "ha_map F a k = None"
        using Cons.prems(6) Suc by auto
      have IH: "arrays_ok F s (as[i := a']) \<and> arrays_map F (as[i := a']) = (arrays_map F as)(k := x)"
        using Cons.prems Suc by (intro Cons.IH) force+
      have d: "\<forall>k. ha_map F a k \<noteq> None \<longrightarrow> arrays_map F as k = None"
        using Cons.prems(1) disjoint_entries [of a "\<lambda>k. arrays_map F as k = None" F] by simp
      have "\<forall>k. ha_map F a k \<noteq> None \<longrightarrow> arrays_map F (as[i := a']) k = None"
        using d ka IH by auto
      then have "arrays_ok F s (a # as[i := a'])"
        using Cons.prems(1) IH disjoint_entries [of a "\<lambda>k. arrays_map F (as[i := a']) k = None" F] by auto
      moreover have "arrays_map F (a # as[i := a']) = (arrays_map F (a # as))(k := x)"
        using IH ka by (auto simp: fun_eq_iff split: option.split)
      ultimately show ?thesis
        by (simp only: Suc list_update.simps nat.case simp_thms)
    qed
  qed simp
  then show "arrays_ok F s (as[j := a'])" "arrays_map F (as[j := a']) = (arrays_map F as)(k := x)"
    by auto
qed

section \<open>Reading\<close>

lemma get_refactored_loop_spec:
  "arrays_ok F s as \<Longrightarrow> get_refactored_loop F k (map Some as) OB_HASH_NOT_EXIST =
    Some (case arrays_map F as k of None \<Rightarrow> (OB_HASH_NOT_EXIST, None) | Some v \<Rightarrow> (OB_SUCCESS, Some (Full v)))"
  by (induction as) (auto simp: ha_get_spec(2) split: option.splits)

lemma get_loop_spec: "arrays_ok F s as \<Longrightarrow> get_loop F k (map Some as) = Some (map_option Full (arrays_map F as k))"
  by (induction as) (auto simp: ha_get_spec(1) split: option.splits)

theorem pm_get_spec:
  assumes "pm_ok F m"
  shows "pm_get F m k = Some (map_option Full (pm_map F m k))"
proof -
  obtain s as where m: "m = pm_of s as" "length as \<le> MAX_SUB_MAP_COUNT" "arrays_ok F s as"
    using pm_cases [OF assms] by metis
  show ?thesis
    using pm_of_0 [OF m(2), of s] get_loop_spec [OF m(3), of k] unfolding m(1) pm_get_def by (cases as) auto
qed

theorem pm_get_refactored_spec:
  assumes "pm_ok F m"
  shows "pm_get_refactored F m k = Some (case pm_map F m k of
      Some v \<Rightarrow> (OB_SUCCESS, Some (Full v))
    | None \<Rightarrow> (if sub_map_count m = 0 then OB_NOT_INIT else OB_HASH_NOT_EXIST, None))"
proof -
  obtain s as where m: "m = pm_of s as" "length as \<le> MAX_SUB_MAP_COUNT" "arrays_ok F s as"
    using pm_cases [OF assms] by metis
  show ?thesis
    using pm_of_0 [OF m(2), of s] get_refactored_loop_spec [OF m(3), of k]
    unfolding m(1) pm_get_refactored_def by (cases as) (auto split: option.splits)
qed

section \<open>Erasing\<close>

lemma erase_loop_missing:
  "arrays_ok F s as \<Longrightarrow> \<forall>a\<in>set as. ha_map F a k = None \<Longrightarrow>
   erase_loop F k (map Some as) OB_HASH_NOT_EXIST = Some (OB_HASH_NOT_EXIST, Empty, map Some as)"
proof (induction as)
  case (Cons a as)
  then have "ha_erase_refactored F a k = Some (OB_HASH_NOT_EXIST, Empty, a)"
    using ha_erase_spec [of F a k] by auto
  then show ?case
    using Cons by simp
qed simp

lemma erase_loop_found:
  "arrays_ok F s as \<Longrightarrow> j < length as \<Longrightarrow> \<forall>i<j. ha_map F (as ! i) k = None \<Longrightarrow>
   ha_erase_refactored F (as ! j) k = Some (OB_SUCCESS, c, a') \<Longrightarrow>
   erase_loop F k (map Some as) OB_HASH_NOT_EXIST = Some (OB_SUCCESS, c, map Some (as[j := a']))"
proof (induction as arbitrary: j)
  case (Cons a as)
  show ?case
  proof (cases j)
    case 0
    then show ?thesis
      using Cons.prems by simp
  next
    case (Suc i)
    have "ha_map F a k = None"
      using Cons.prems(3) Suc by auto
    then have "ha_erase_refactored F a k = Some (OB_HASH_NOT_EXIST, Empty, a)"
      using ha_erase_spec [of F a k] Cons.prems(1) by auto
    moreover have "erase_loop F k (map Some as) OB_HASH_NOT_EXIST = Some (OB_SUCCESS, c, map Some (as[i := a']))"
      using Cons.prems Suc by (intro Cons.IH) force+
    ultimately show ?thesis
      using Suc by simp
  qed
qed simp

lemma pm_erase_refactored_of:
  assumes "length as \<le> MAX_SUB_MAP_COUNT" "length bs = length as"
    and "erase_loop F k (map Some as) OB_HASH_NOT_EXIST = Some (ret, c, map Some bs)"
  shows "pm_erase_refactored F (pm_of s as) k =
    Some (if as = [] then (OB_NOT_INIT, Empty, pm_of s as) else (ret, c, pm_of s bs))"
proof -
  have "(pm_of s as)\<lparr>sub_maps := map Some bs @ drop (length as) (sub_maps (pm_of s as))\<rparr> = pm_of s bs"
    using assms(2) by (simp add: pm_of_def)
  then show ?thesis
    using pm_of_0 [OF assms(1), of s] assms(3) by (simp add: pm_erase_refactored_def pm_of_live del: pm_of_sel(5))
qed

theorem pm_erase_refactored_spec:
  assumes "pm_ok F m"
  shows "\<exists>m'. pm_erase_refactored F m k = Some (case pm_map F m k of
      Some v \<Rightarrow> (OB_SUCCESS, Full v, m')
    | None \<Rightarrow> (if sub_map_count m = 0 then OB_NOT_INIT else OB_HASH_NOT_EXIST, Empty, m)) \<and>
    (pm_map F m k \<noteq> None \<longrightarrow> pm_ok F m' \<and> pm_map F m' = (pm_map F m)(k := None) \<and> sub_map_mem_size m' = sub_map_mem_size m)"
proof -
  obtain s as where m: "m = pm_of s as" "length as \<le> MAX_SUB_MAP_COUNT" "size_ok s (length as)" "arrays_ok F s as"
    using pm_cases [OF assms] by metis
  show ?thesis
  proof (cases "arrays_map F as k")
    case None
    then have "erase_loop F k (map Some as) OB_HASH_NOT_EXIST = Some (OB_HASH_NOT_EXIST, Empty, map Some as)"
      using m(4) by (intro erase_loop_missing) (auto simp: arrays_map_None)
    then show ?thesis
      using pm_erase_refactored_of [where bs = as and F = F and k = k and ret = OB_HASH_NOT_EXIST and c = Empty, OF m(2) refl]
        None unfolding m(1) by auto
  next
    case (Some w)
    obtain j where j: "j < length as" "ha_map F (as ! j) k = Some w" "\<forall>i<length as. i \<noteq> j \<longrightarrow> ha_map F (as ! i) k = None"
      using arrays_map_Some [OF m(4) Some] by auto
    have okj: "ha_ok F (as ! j)"
      using arrays_ok_nth [OF m(4) j(1)] by simp
    obtain a' where a': "ha_erase_refactored F (as ! j) k = Some (OB_SUCCESS, Full w, a')" "ha_ok F a'"
        "ha_map F a' = (ha_map F (as ! j))(k := None)" "same_size (as ! j) a'"
      using ha_erase_spec [OF okj, of k] j(2) by auto
    note u = arrays_update [OF m(4) j(1) a'(2,4,3) j(3)]
    have e: "erase_loop F k (map Some as) OB_HASH_NOT_EXIST = Some (OB_SUCCESS, Full w, map Some (as[j := a']))"
      using j a'(1) by (intro erase_loop_found [OF m(4)]) auto
    have "pm_erase_refactored F m k = Some (OB_SUCCESS, Full w, pm_of s (as[j := a']))"
      using pm_erase_refactored_of [OF m(2) length_list_update e] j(1) unfolding m(1) by auto
    then show ?thesis
      using Some u m(2,3) unfolding m(1) by (intro exI [of _ "pm_of s (as[j := a'])"]) (auto simp: pm_ok_pm_of)
  qed
qed

section \<open>Where a value is written\<close>

text \<open>A place where a key that no array has may be put.\<close>

definition good_place :: "('k, 'v) hfuns \<Rightarrow> 'v harray list \<Rightarrow> 'k \<Rightarrow> nat \<Rightarrow> nat \<Rightarrow> bool" where
  "good_place F as k j p =
     (j < length as \<and> p < length (slots (as ! j)) \<and> reaches (slots (as ! j)) (anchor F (as ! j) k) p \<and>
      (slots (as ! j) ! p = Erased \<or> slots (as ! j) ! p = Empty \<and> used (as ! j) < max_entries (as ! j)))"

lemma find_set_pos_loop_found:
  "arrays_ok F s as \<Longrightarrow> j < length as \<Longrightarrow> ha_map F (as ! j) k = Some w \<Longrightarrow> \<forall>i<j. ha_map F (as ! i) k = None \<Longrightarrow>
   \<exists>p<length (slots (as ! j)). slots (as ! j) ! p = Full w \<and> key_of F w = k \<and>
     (\<exists>idx' pos'. find_set_pos_loop F k (Full v) ow (map Some as) i idx pos ret =
       Some (if ow then (OB_SUCCESS, i + int j, int p) else (OB_HASH_EXIST, idx', pos')))"
proof (induction as arbitrary: j i idx pos ret)
  case (Cons a as)
  show ?case
  proof (cases j)
    case 0
    then show ?thesis
      using ha_find_set_pos_found [of F a k w "Full v" ow] Cons.prems by auto
  next
    case (Suc j')
    have k: "ha_map F a k = None" and ok: "ha_ok F a" and full: "used a = max_entries a"
      using Cons.prems Suc by auto
    obtain p where p: "ha_find_set_pos F a k (Full v) ow =
        Some (OB_HASH_FULL, int p, if slots a ! p = Erased then int p else - 1, False)"
      using ha_find_set_pos_missing [OF ok k, of "Full v" ow] full by auto
    have ne: "as \<noteq> []"
      using Cons.prems(2) Suc by auto
    have "\<exists>p<length (slots (as ! j')). slots (as ! j') ! p = Full w \<and> key_of F w = k \<and>
       (\<exists>idx' pos'. find_set_pos_loop F k (Full v) ow (map Some as) (i + 1) idx pos ret =
         Some (if ow then (OB_SUCCESS, i + 1 + int j', int p) else (OB_HASH_EXIST, idx', pos')))" for idx pos ret
      using Cons.prems Suc by (intro Cons.IH) force+
    note IH = this [of "if pos = - 1 \<and> slots a ! p = Erased then i else idx"
        "if pos = - 1 \<and> slots a ! p = Erased then int p else pos" OB_HASH_FULL]
    show ?thesis
      using IH p ne Suc by (auto simp: Let_def split: if_splits)
  qed
qed simp

lemma find_set_pos_loop_missing:
  assumes "arrays_ok F s (bs @ as)" "as \<noteq> []" "arrays_map F (bs @ as) k = None"
    and "idx = - 1 \<and> pos = - 1 \<or> (\<exists>j p. idx = int j \<and> pos = int p \<and> good_place F (bs @ as) k j p)"
  shows "(\<exists>j p. good_place F (bs @ as) k j p \<and>
      find_set_pos_loop F k (Full v) ow (map Some as) (int (length bs)) idx pos ret = Some (OB_SUCCESS, int j, int p)) \<or>
    find_set_pos_loop F k (Full v) ow (map Some as) (int (length bs)) idx pos ret = Some (OB_HASH_FULL, - 1, - 1) \<and>
      used (last as) = max_entries (last as)"
  using assms
proof (induction as arbitrary: bs idx pos ret)
  case (Cons a as)
  let ?as = "bs @ a # as"
  let ?n = "length bs"
  have nth: "?as ! ?n = a"
    by simp
  have ok: "ha_ok F a" and full: "as \<noteq> [] \<Longrightarrow> used a = max_entries a"
    using arrays_ok_nth [OF Cons.prems(1), of ?n] by auto
  have k: "ha_map F a k = None"
    using arrays_map_None_nth [OF Cons.prems(3), of ?n] by simp
  have le: "used a \<le> max_entries a"
    by (rule ha_ok_used [OF ok])
  obtain p where p: "p < length (slots a)" "slots a ! p = Empty \<or> slots a ! p = Erased"
      "reaches (slots a) (anchor F a k) p"
    and f: "ha_find_set_pos F a k (Full v) ow = Some (if used a < max_entries a then (OB_SUCCESS, int p, - 1, False)
        else (OB_HASH_FULL, int p, if slots a ! p = Erased then int p else - 1, False))"
    using ha_find_set_pos_missing [OF ok k, of "Full v" ow] by auto
  show ?case
  proof (cases "used a < max_entries a")
    case True
    have "good_place F ?as k ?n p"
      using p True by (auto simp: good_place_def)
    moreover have "find_set_pos_loop F k (Full v) ow (map Some (a # as)) (int ?n) idx pos ret =
        Some (if idx = - 1 then (OB_SUCCESS, int ?n, int p) else (OB_SUCCESS, idx, pos))"
      using f True by simp
    ultimately show ?thesis
      using Cons.prems(4) by auto
  next
    case False
    define idx' where "idx' = (if pos = - 1 \<and> slots a ! p = Erased then int ?n else idx)"
    define pos' where "pos' = (if pos = - 1 \<and> slots a ! p = Erased then int p else pos)"
    have place: "idx' = - 1 \<and> pos' = - 1 \<or> (\<exists>j p. idx' = int j \<and> pos' = int p \<and> good_place F ?as k j p)"
    proof (cases "pos = - 1 \<and> slots a ! p = Erased")
      case True
      have "good_place F ?as k ?n p"
        using p True by (simp add: good_place_def)
      then show ?thesis
        using True unfolding idx'_def pos'_def by auto
    qed (use Cons.prems(4) in \<open>auto simp: idx'_def pos'_def\<close>)
    have e: "find_set_pos_loop F k (Full v) ow (map Some (a # as)) (int ?n) idx pos ret =
        (if as = [] \<and> pos' \<noteq> - 1 then Some (OB_SUCCESS, idx', pos')
         else find_set_pos_loop F k (Full v) ow (map Some as) (int (length (bs @ [a]))) idx' pos' OB_HASH_FULL)"
      using f False by (auto simp: idx'_def pos'_def Let_def add.commute)
    show ?thesis
    proof (cases "as = []")
      case True
      then show ?thesis
        using e place le False by auto
    next
      case ne: False
      show ?thesis
        using Cons.IH [of "bs @ [a]" idx' pos' OB_HASH_FULL] Cons.prems(1,3) ne place unfolding e by simp
    qed
  qed
qed simp

text \<open>A write in the place found.\<close>

lemma put_good_place:
  assumes ok: "arrays_ok F s as" and k: "arrays_map F as (key_of F v) = None" and g: "good_place F as (key_of F v) j p"
  shows "\<exists>a'. set_value (as ! j) (int p) (Full v) = Some (OB_SUCCESS, Empty, a') \<and> j < length as \<and>
    arrays_ok F s (as[j := a']) \<and> arrays_map F (as[j := a']) = (arrays_map F as)(key_of F v \<mapsto> v)"
proof -
  let ?a = "as ! j"
  have j: "j < length as" and p: "p < length (slots ?a)" "reaches (slots ?a) (anchor F ?a (key_of F v)) p"
    and c: "slots ?a ! p = Empty \<or> slots ?a ! p = Erased" "slots ?a ! p = Empty \<Longrightarrow> used ?a < max_entries ?a"
    using g by (auto simp: good_place_def)
  have oka: "ha_ok F ?a"
    using arrays_ok_nth [OF ok j] by simp
  have ka: "ha_map F ?a (key_of F v) = None"
    by (rule arrays_map_None_nth [OF k j])
  note put = put_new [OF oka ka p(1) c(1) p(2) c(2)]
  have others: "\<forall>i<length as. i \<noteq> j \<longrightarrow> ha_map F (as ! i) (key_of F v) = None"
    using arrays_map_None_nth [OF k] by blast
  show ?thesis
    using put(1) arrays_update [OF ok j put(2) put_cell_same_size put(3) others] j by blast
qed

lemma put_found_place:
  assumes ok: "arrays_ok F s as" and j: "j < length as" "ha_map F (as ! j) (key_of F v) = Some w"
    and others: "\<forall>i<length as. i \<noteq> j \<longrightarrow> ha_map F (as ! i) (key_of F v) = None"
    and p: "p < length (slots (as ! j))" "slots (as ! j) ! p = Full w" "key_of F w = key_of F v"
  shows "\<exists>a'. set_value (as ! j) (int p) (Full v) = Some (OB_SUCCESS, Full w, a') \<and>
    arrays_ok F s (as[j := a']) \<and> arrays_map F (as[j := a']) = (arrays_map F as)(key_of F v \<mapsto> v)"
proof -
  have oka: "ha_ok F (as ! j)"
    using arrays_ok_nth [OF ok j(1)] by simp
  note put = put_existing [OF oka p]
  show ?thesis
    using put(1) arrays_update [OF ok j(1) put(2) put_cell_same_size put(3) others] by blast
qed

section \<open>Growing\<close>

definition all_full :: "'v harray list \<Rightarrow> bool" where
  "all_full as = (\<forall>a\<in>set as. used a = max_entries a)"

lemma sum_subs_le: "(\<And>a. a \<in> set as \<Longrightarrow> f a \<le> g a) \<Longrightarrow> sum_subs f (map Some as) \<le> sum_subs g (map Some as)"
  by (induction as) (auto simp: add_mono)

lemma sum_subs_const: "(\<And>a. a \<in> set as \<Longrightarrow> f a = M) \<Longrightarrow> sum_subs f (map Some as) = int (length as) * M"
  by (induction as) (auto simp: algebra_simps)

lemma arrays_ok_in: "arrays_ok F s as \<Longrightarrow> a \<in> set as \<Longrightarrow> ha_ok F a \<and> capacity a = (s - 64) div 8"
  by (induction as) auto

lemma full_counts:
  assumes "arrays_ok F s as" "all_full as"
  defines "M \<equiv> times_07 ((s - 64) div 8)"
  shows "pm_count (pm_of s as) = int (length as) * M" "pm_item_count (pm_of s as) \<le> int (length as) * M"
    "0 \<le> pm_item_count (pm_of s as)"
proof -
  have m: "used a = M" "item_count a \<le> used a" "0 \<le> item_count a" if "a \<in> set as" for a
    using arrays_ok_in [OF assms(1) that] assms(2) that ha_ok_item_count [of F a]
    by (auto simp: M_def all_full_def ha_ok_def)
  show c: "pm_count (pm_of s as) = int (length as) * M"
    using sum_subs_const [of as used M] m(1) by (simp add: pm_count_def pm_of_live del: pm_of_sel(5))
  show "pm_item_count (pm_of s as) \<le> int (length as) * M"
    using sum_subs_le [of as item_count used] m(2) c
    by (simp add: pm_count_def pm_item_count_def pm_of_live del: pm_of_sel(5))
  show "0 \<le> pm_item_count (pm_of s as)"
    using sum_subs_le [of as "\<lambda>_. 0" item_count] sum_subs_const [of as "\<lambda>_. 0" 0] m(3)
    by (simp add: pm_item_count_def pm_of_live del: pm_of_sel(5))
qed

text \<open>A copy goes to an array that has room for everything and one more.\<close>

lemma times_07_less:
  assumes "0 \<le> c" "c + 8 \<le> c'" "c' \<le> 2 ^ 44"
  shows "times_07 c < times_07 c'"
  using times_07_bounds [of c] times_07_bounds [of c'] assms by auto

lemma resize_plan_spec:
  assumes ok: "arrays_ok F s as" "all_full as" "as \<noteq> []" "length as \<le> MAX_SUB_MAP_COUNT" "size_ok s (length as)" "s \<le> 2 ^ 40"
  shows "resize_plan (pm_of s as) = (True, 0) \<and> length as < MAX_SUB_MAP_COUNT \<and>
      (s = OB_MALLOC_NORMAL_BLOCK_SIZE \<or> s = OB_MALLOC_BIG_BLOCK_SIZE) \<or>
    (\<exists>s'. resize_plan (pm_of s as) = (False, s') \<and> size_ok s' 1 \<and> s \<le> s' \<and> s' \<le> 8 * s \<and>
      pm_item_count (pm_of s as) < times_07 ((s' - 64) div 8))"
proof -
  define c where "c = (s - 64) div 8"
  define X where "X = pm_item_count (pm_of s as)"
  define M where "M = times_07 c"
  define n where "n = length as"
  define ext where "ext = (if int n * M < times_11 X then s * 2 else s)"
  have count: "pm_count (pm_of s as) = int n * M" and X: "X \<le> int n * M" "0 \<le> X"
    using full_counts [OF ok(1,2)] by (simp_all add: c_def X_def M_def n_def)
  obtain q where q: "s = 64 * q"
    using ok(5) by (auto simp: size_ok_def)
  have s: "256 \<le> s" "s \<le> 2 ^ 40" "1 < n \<Longrightarrow> s = OB_MALLOC_NORMAL_BLOCK_SIZE \<or> s = OB_MALLOC_BIG_BLOCK_SIZE"
    using ok(5,6) by (auto simp: size_ok_def n_def)
  have c: "c = 8 * q - 8" "24 \<le> c" "c \<le> 2 ^ 37"
    using s(1,2) by (auto simp: c_def q)
  have M: "10 * M \<le> 7 * c" "7 * c - 10 \<le> 10 * M" "16 \<le> M"
    using times_07_bounds [of c] c by (auto simp: M_def)
  have X11: "10 * times_11 X \<le> 11 * X" "11 * X - 10 \<le> 10 * times_11 X"
  proof -
    have "int n * M \<le> 4 * M"
      using ok(4) M by (intro mult_right_mono) (auto simp: n_def MAX_SUB_MAP_COUNT_def)
    then have "X \<le> 2 ^ 44"
      using X(1) M(1) c(3) by simp
    then show "10 * times_11 X \<le> 11 * X" "11 * X - 10 \<le> 10 * times_11 X"
      using times_11_bounds [of X] X(2) by auto
  qed
  have grow: "M < times_07 ((s' - 64) div 8)" if "s < s'" "64 dvd s'" "s' \<le> 8 * s" for s'
  proof -
    obtain r where r: "s' = 64 * r"
      using \<open>64 dvd s'\<close> by (auto elim: dvdE)
    have "(s' - 64) div 8 = 8 * r - 8" "8 * r - 8 \<le> 2 ^ 44" "q < r"
      using that(1,3) s(2) unfolding r q by auto
    then show ?thesis
      unfolding M_def using times_07_less [of c "8 * r - 8"] c by simp
  qed
  have four: "4 * M < times_07 ((s' - 64) div 8)" if "4 * s \<le> s'" "64 dvd s'" "s' \<le> 8 * s" for s'
  proof -
    obtain r where r: "s' = 64 * r"
      using \<open>64 dvd s'\<close> by (auto elim: dvdE)
    have "(s' - 64) div 8 = 8 * r - 8" "8 * r - 8 \<le> 2 ^ 44" "4 * q \<le> r"
      using that(1,3) s(2) unfolding r q by auto
    then show ?thesis
      using times_07_bounds [of "8 * r - 8"] M(1) c by simp
  qed
  have ext: "ext = s \<or> ext = 2 * s" "64 dvd ext" "n = 1 \<Longrightarrow> ext = s \<Longrightarrow> X < M"
    using X11 X M s(1) by (auto simp: ext_def q split: if_splits)
  have N: "64 dvd OB_MALLOC_NORMAL_BLOCK_SIZE" "256 \<le> OB_MALLOC_NORMAL_BLOCK_SIZE" "OB_MALLOC_NORMAL_BLOCK_SIZE \<le> 2 ^ 43"
    and B: "64 dvd OB_MALLOC_BIG_BLOCK_SIZE" "256 \<le> OB_MALLOC_BIG_BLOCK_SIZE" "OB_MALLOC_BIG_BLOCK_SIZE \<le> 2 ^ 43"
    by (simp_all add: OB_MALLOC_NORMAL_BLOCK_SIZE_def OB_MALLOC_BIG_BLOCK_SIZE_def)
  have sz: "size_ok s' 1" if "s \<le> s'" "64 dvd s'" "s' \<le> 8 * s" for s'
    using that s(1,2) by (auto simp: size_ok_def)
  have one: "\<exists>s''. (False, s') = (False, s'') \<and> size_ok s'' 1 \<and> s \<le> s'' \<and> s'' \<le> 8 * s \<and> X < times_07 ((s'' - 64) div 8)"
    if "n = 1" "s' = ext \<or> s < s' \<and> 64 dvd s' \<and> s' \<le> 8 * s" for s'
  proof (cases "s' = s")
    case True
    then show ?thesis
      using that ext(3) s(1) ext(2) sz [of s'] by (auto simp: M_def c_def q)
  next
    case False
    then have "s < s' \<and> 64 dvd s' \<and> s' \<le> 8 * s"
      using that(2) ext(1,2) s(1) by auto
    then show ?thesis
      using grow [of s'] sz [of s'] X(1) that(1) by auto
  qed
  have plan: "resize_plan (pm_of s as) =
      (if n = 1 then
         if s = OB_MALLOC_NORMAL_BLOCK_SIZE \<or> s = OB_MALLOC_BIG_BLOCK_SIZE then (True, 0)
         else if ext \<le> OB_MALLOC_NORMAL_BLOCK_SIZE then (False, ext)
         else if s < OB_MALLOC_NORMAL_BLOCK_SIZE then (False, OB_MALLOC_NORMAL_BLOCK_SIZE)
         else if ext \<le> OB_MALLOC_BIG_BLOCK_SIZE then (False, ext)
         else if s < OB_MALLOC_BIG_BLOCK_SIZE then (False, OB_MALLOC_BIG_BLOCK_SIZE)
         else (False, ext)
       else if n < MAX_SUB_MAP_COUNT then (True, 0)
       else (False, int n * ext))"
    using s(3) ok(3,4) count X_def
    by (auto simp: resize_plan_def Let_def ext_def n_def MAX_SUB_MAP_COUNT_def Suc_lessI simp del: pm_of_sel(5))
  show ?thesis
  proof (cases "n = 1")
    case True
    then show ?thesis
      using one [of ext] one [of OB_MALLOC_NORMAL_BLOCK_SIZE] one [of OB_MALLOC_BIG_BLOCK_SIZE] ext(1) N B s(1)
      unfolding plan X_def [symmetric] n_def [symmetric] by (auto simp: MAX_SUB_MAP_COUNT_def)
  next
    case False
    then have "1 < n"
      using ok(3) by (cases as) (auto simp: n_def)
    show ?thesis
    proof (cases "n < MAX_SUB_MAP_COUNT")
      case True
      then show ?thesis
        using \<open>1 < n\<close> s(3) unfolding plan n_def [symmetric] by auto
    next
      case False
      then have n4: "n = 4"
        using ok(4) by (simp add: n_def MAX_SUB_MAP_COUNT_def)
      have "4 * s \<le> 4 * ext" "64 dvd 4 * ext" "4 * ext \<le> 8 * s"
        using ext(1,2) s(1) by auto
      then show ?thesis
        using four [of "4 * ext"] sz [of "4 * ext"] X(1) s(1)
        unfolding plan X_def [symmetric] by (simp add: n4 MAX_SUB_MAP_COUNT_def)
    qed
  qed
qed

fun all_entries :: "'v harray list \<Rightarrow> 'v list" where
  "all_entries [] = []"
| "all_entries (a # as) = entries (slots a) @ all_entries as"

lemma item_count_total: "arrays_ok F s as \<Longrightarrow> pm_item_count (pm_of s as) = int (length (all_entries as))"
proof -
  assume "arrays_ok F s as"
  then have "sum_subs item_count (map Some as) = int (length (all_entries as))"
    by (induction as) (auto simp: ha_ok_def)
  then show ?thesis
    by (simp add: pm_item_count_def pm_of_live del: pm_of_sel(5))
qed

lemma put_all_append: "put_all F (vs @ ws) sub = do { sub \<leftarrow> put_all F vs sub; put_all F ws sub }"
  by (induction vs arbitrary: sub) (auto split: prod.splits bind_splits)

lemma copy_subs_entries: "copy_subs F (map Some as) sub = put_all F (all_entries as) sub"
  by (induction as arbitrary: sub) (auto simp: copy_iter_entries put_all_append intro: arg_cong [where f = "Option.bind _"])

lemma arrays_entries:
  "arrays_ok F s as \<Longrightarrow> distinct (map (key_of F) (all_entries as)) \<and>
   arrays_map F as = map_of (map (\<lambda>v. (key_of F v, v)) (all_entries as))"
proof (induction as)
  case (Cons a as)
  let ?es = "all_entries as"
  have IH: "distinct (map (key_of F) ?es)" "arrays_map F as = map_of (map (\<lambda>v. (key_of F v, v)) ?es)"
    using Cons by auto
  have "key_of F ` set ?es = dom (arrays_map F as)"
    unfolding IH(2) by (simp add: dom_map_of_conv_image_fst image_image)
  then have "key_of F ` set (entries (slots a)) \<inter> key_of F ` set ?es = {}"
    using Cons.prems by auto
  then have d: "distinct (map (key_of F) (all_entries (a # as)))"
    using IH(1) ha_entries_distinct [of F a] Cons.prems by auto
  have "arrays_map F (a # as) k = (map_of (map (\<lambda>v. (key_of F v, v)) ?es) ++ ha_map F a) k" for k
    using IH(2) by (auto simp: map_add_def split: option.split)
  moreover have "map_of (map (\<lambda>v. (key_of F v, v)) ?es) ++ ha_map F a =
      map_of (map (\<lambda>v. (key_of F v, v)) (all_entries (a # as)))"
    by (simp add: cells_map_entries)
  ultimately show ?case
    using d by (simp only: fun_eq_iff simp_thms)
qed (simp add: fun_eq_iff)

lemma new_arrays:
  assumes "80 \<le> s" "s < 2 ^ 44"
  obtains a where "create_sub_map True s None = Some (Some a)" "ha_ok F a" "ha_map F a = Map.empty" "used a = 0"
    "item_count a = 0" "capacity a = (s - 64) div 8" "used a < max_entries a"
proof -
  obtain a where a: "new_harray s = Some a" "ha_ok F a" "ha_map F a = Map.empty" "used a = 0" "item_count a = 0"
      "capacity a = (s - 64) div 8"
    using new_harray_spec [OF assms, of F] by auto
  then show thesis
    using that [of a] max_entries_bounds(1) [OF a(2)] by (simp add: create_sub_map_def)
qed

lemma create_fails [simp]: "create_sub_map False s x = Some None"
  by (simp add: create_sub_map_def)

text \<open>A copy into one new array that is large enough.\<close>

lemma copy_from_spec:
  assumes ok: "arrays_ok F s as" and s': "size_ok s' 1"
    and room: "pm_item_count (pm_of s as) < times_07 ((s' - 64) div 8)"
  shows "\<exists>b. copy_from F True (pm_of s as) s' = Some (pm_of s' [b]) \<and> arrays_ok F s' [b] \<and>
    arrays_map F [b] = arrays_map F as \<and> used b < max_entries b"
proof -
  define es where "es = all_entries as"
  have sz: "80 \<le> s'" "s' < 2 ^ 44"
    using s' by (auto simp: size_ok_def)
  obtain a where a: "create_sub_map True s' None = Some (Some a)" "ha_ok F a" "ha_map F a = Map.empty" "used a = 0"
      "capacity a = (s' - 64) div 8"
    using new_arrays [OF sz] by metis
  have max: "max_entries a = times_07 ((s' - 64) div 8)"
    using a(2,5) by (simp add: ha_ok_def)
  have n: "int (length es) < max_entries a"
    using room item_count_total [OF ok] by (simp add: es_def max)
  obtain b where b: "put_all F es a = Some b" "ha_ok F b" "ha_map F b = ha_map F a ++ map_of (map (\<lambda>v. (key_of F v, v)) es)"
      "same_size a b" "used b \<le> used a + int (length es)"
    using put_all_spec [OF a(2), of es] arrays_entries [OF ok] a(3,4) n unfolding es_def by fastforce
  have "copy_from F True (pm_of s as) s' = Some (pm_of s' [b])"
    using a(1) b(1) copy_subs_entries [of F as a]
    by (simp add: copy_from_def pm_destroy_def new_pmap_def pm_of_def Let_def es_def MAX_SUB_MAP_COUNT_def numeral_eq_Suc)
  moreover have "arrays_map F [b] = arrays_map F as"
    using b(3) arrays_entries [OF ok] a(3) by (auto simp: fun_eq_iff es_def split: option.split)
  ultimately show ?thesis
    using b a n by (auto simp: same_size_def)
qed

lemma copy_from_fails: "copy_from F False m s' = Some (pm_of s' [])"
  by (simp add: copy_from_def pm_destroy_def new_pmap_def pm_of_def Let_def MAX_SUB_MAP_COUNT_def)

lemma swap_subs:
  "length as \<le> MAX_SUB_MAP_COUNT \<Longrightarrow> length bs \<le> MAX_SUB_MAP_COUNT \<Longrightarrow> fst (pm_swap (pm_of s as) (pm_of s' bs)) = pm_of s' bs"
  by (auto simp: pm_swap_def pm_of_def Let_def max_def simp flip: replicate_add)

lemma arrays_ok_append:
  assumes "arrays_ok F s as" "all_full as" "ha_ok F b" "capacity b = (s - 64) div 8" "ha_map F b = Map.empty"
  shows "arrays_ok F s (as @ [b]) \<and> arrays_map F (as @ [b]) = arrays_map F as"
  using assms
proof (induction as)
  case Nil
  have "entries (slots b) = []"
    using Nil ha_entries_dom [of F b] by simp
  then show ?case
    using Nil by auto
next
  case (Cons a as)
  then have "arrays_ok F s (as @ [b]) \<and> arrays_map F (as @ [b]) = arrays_map F as"
    by (auto simp: all_full_def)
  then show ?case
    using Cons.prems unfolding all_full_def by (simp add: fun_eq_iff split: option.split)
qed

lemma resize_spec:
  assumes ok: "arrays_ok F s as" "all_full as" "as \<noteq> []" "length as \<le> MAX_SUB_MAP_COUNT" "size_ok s (length as)" "s \<le> 2 ^ 40"
  shows "\<exists>s' bs. resize F True (pm_of s as) = Some (Some (length bs - 1), pm_of s' bs) \<and> bs \<noteq> [] \<and>
      length bs \<le> MAX_SUB_MAP_COUNT \<and> size_ok s' (length bs) \<and> s' \<in> {s..8 * s} \<and> arrays_ok F s' bs \<and>
      arrays_map F bs = arrays_map F as \<and> used (last bs) < max_entries (last bs)"
    and "\<exists>s' bs. resize F False (pm_of s as) = Some (None, pm_of s' bs) \<and> size_ok s' (length bs) \<and> s' \<in> {s..8 * s} \<and>
      (s' = s \<and> bs = as \<or> bs = [])"
proof -
  have s: "80 \<le> s" "s < 2 ^ 44" "s \<le> 8 * s"
    using ok(5,6) by (auto simp: size_ok_def)
  have plans: "resize_plan (pm_of s as) = (True, 0) \<and> length as < MAX_SUB_MAP_COUNT \<and> size_ok s (Suc (length as)) \<or>
    (\<exists>s'. resize_plan (pm_of s as) = (False, s') \<and> size_ok s' 1 \<and> s \<le> s' \<and> s' \<le> 8 * s \<and>
      pm_item_count (pm_of s as) < times_07 ((s' - 64) div 8))"
    using resize_plan_spec [OF ok] ok(5) by (auto simp: size_ok_def)
  show "\<exists>s' bs. resize F True (pm_of s as) = Some (Some (length bs - 1), pm_of s' bs) \<and> bs \<noteq> [] \<and>
      length bs \<le> MAX_SUB_MAP_COUNT \<and> size_ok s' (length bs) \<and> s' \<in> {s..8 * s} \<and> arrays_ok F s' bs \<and>
      arrays_map F bs = arrays_map F as \<and> used (last bs) < max_entries (last bs)"
    using plans
  proof (elim disjE exE conjE)
    assume plan: "resize_plan (pm_of s as) = (True, 0)" and n: "length as < MAX_SUB_MAP_COUNT"
      and sz: "size_ok s (Suc (length as))"
    obtain b where b: "create_sub_map True s None = Some (Some b)" "ha_ok F b" "ha_map F b = Map.empty"
        "capacity b = (s - 64) div 8" "used b < max_entries b"
      using new_arrays [OF s(1,2)] by metis
    have "MAX_SUB_MAP_COUNT - length as = Suc (MAX_SUB_MAP_COUNT - Suc (length as))"
      using n by simp
    then have "(pm_of s as)\<lparr>sub_maps := (sub_maps (pm_of s as))[length as := Some b], sub_map_count := length as + 1\<rparr> =
        pm_of s (as @ [b])"
      by (simp add: pm_of_def list_update_append)
    then have "resize F True (pm_of s as) = Some (Some (length as), pm_of s (as @ [b]))"
      using n b(1) by (simp add: resize_def plan del: pm_of_sel(5))
    then show ?thesis
      using arrays_ok_append [OF ok(1,2) b(2,4,3)] sz n b(5) s(3) by (intro exI [of _ s] exI [of _ "as @ [b]"]) simp
  next
    fix s'
    assume plan: "resize_plan (pm_of s as) = (False, s')" and sz: "size_ok s' 1" "s \<le> s'" "s' \<le> 8 * s"
      and room: "pm_item_count (pm_of s as) < times_07 ((s' - 64) div 8)"
    obtain b where b: "copy_from F True (pm_of s as) s' = Some (pm_of s' [b])" "arrays_ok F s' [b]"
        "arrays_map F [b] = arrays_map F as" "used b < max_entries b"
      using copy_from_spec [OF ok(1) sz(1) room] by auto
    have "resize F True (pm_of s as) = Some (Some 0, pm_of s' [b])"
      using swap_subs [OF ok(4), of "[b]" s s'] b(1) by (simp add: resize_def plan Let_def MAX_SUB_MAP_COUNT_def)
    then show ?thesis
      using b sz by (intro exI [of _ s'] exI [of _ "[b]"]) (simp add: MAX_SUB_MAP_COUNT_def)
  qed
  show "\<exists>s' bs. resize F False (pm_of s as) = Some (None, pm_of s' bs) \<and> size_ok s' (length bs) \<and> s' \<in> {s..8 * s} \<and>
      (s' = s \<and> bs = as \<or> bs = [])"
    using plans
  proof (elim disjE exE conjE)
    assume "resize_plan (pm_of s as) = (True, 0)" "length as < MAX_SUB_MAP_COUNT"
    then have "resize F False (pm_of s as) = Some (None, pm_of s as)"
      by (simp add: resize_def)
    then show ?thesis
      using ok(5) s(3) by (intro exI [of _ s] exI [of _ as]) simp
  next
    fix s'
    assume plan: "resize_plan (pm_of s as) = (False, s')" and sz: "size_ok s' 1" "s \<le> s'" "s' \<le> 8 * s"
    have "resize F False (pm_of s as) = Some (None, pm_of s' [])"
      using swap_subs [OF ok(4), of "[]" s s'] by (simp add: resize_def plan Let_def copy_from_fails MAX_SUB_MAP_COUNT_def)
    then show ?thesis
      using sz by (intro exI [of _ s'] exI [of _ "[]"]) (auto simp: size_ok_def)
  qed
qed

section \<open>Setting a value\<close>

lemma pm_init_of:
  assumes "length as \<le> MAX_SUB_MAP_COUNT" "as \<noteq> []"
  shows "pm_init ok (pm_of s as) = Some (OB_SUCCESS, pm_of s as)"
  using pm_of_0 [OF assms(1), of s] assms(2) by (auto simp: pm_init_def simp del: pm_of_sel(5))

lemma pm_init_new:
  assumes "size_ok s 0"
  shows "\<exists>a. pm_init True (pm_of s []) = Some (OB_SUCCESS, pm_of s [a]) \<and> arrays_ok F s [a] \<and> arrays_map F [a] = Map.empty \<and>
      used a < max_entries a"
    and "pm_init False (pm_of s []) = Some (OB_ALLOCATE_MEMORY_FAILED, pm_of s [])"
proof -
  have s: "80 \<le> s" "s < 2 ^ 44"
    using assms by (auto simp: size_ok_def)
  obtain a where a: "create_sub_map True s None = Some (Some a)" "ha_ok F a" "ha_map F a = Map.empty"
      "capacity a = (s - 64) div 8" "used a < max_entries a"
    using new_arrays [OF s] by metis
  have "pm_init True (pm_of s []) = Some (OB_SUCCESS, pm_of s [a])"
    using a(1) by (simp add: pm_init_def pm_of_def MAX_SUB_MAP_COUNT_def numeral_eq_Suc)
  then show "\<exists>a. pm_init True (pm_of s []) = Some (OB_SUCCESS, pm_of s [a]) \<and> arrays_ok F s [a] \<and> arrays_map F [a] = Map.empty \<and>
      used a < max_entries a"
    using a by (auto simp: fun_eq_iff)
  show "pm_init False (pm_of s []) = Some (OB_ALLOCATE_MEMORY_FAILED, pm_of s [])"
    by (simp add: pm_init_def pm_of_def MAX_SUB_MAP_COUNT_def numeral_eq_Suc)
qed

theorem pm_init_spec:
  assumes "pm_ok F m"
  shows "\<exists>m'. pm_init ok m = Some (if ok \<or> sub_map_count m \<noteq> 0 then OB_SUCCESS else OB_ALLOCATE_MEMORY_FAILED, m') \<and>
    pm_ok F m' \<and> pm_map F m' = pm_map F m \<and> sub_map_mem_size m' = sub_map_mem_size m"
proof -
  obtain s as where m: "m = pm_of s as" "length as \<le> MAX_SUB_MAP_COUNT" "size_ok s (length as)" "arrays_ok F s as"
    using pm_cases [OF assms] by metis
  show ?thesis
  proof (cases "as = []")
    case True
    then have s: "size_ok s 0"
      using m(3) by simp
    obtain a where a: "pm_init True (pm_of s []) = Some (OB_SUCCESS, pm_of s [a])" "arrays_ok F s [a]"
        "arrays_map F [a] = Map.empty"
      using pm_init_new(1) [OF s] by metis
    have "pm_ok F (pm_of s [a])" "pm_ok F (pm_of s [])"
      using a(2) s by (auto simp: pm_ok_pm_of size_ok_def MAX_SUB_MAP_COUNT_def)
    then show ?thesis
      using a True m(1) pm_init_new(2) [OF s] by (cases ok) (auto simp: fun_eq_iff)
  next
    case False
    then show ?thesis
      using pm_init_of [OF m(2) False, of ok s] assms m(1) by auto
  qed
qed

text \<open>A map that has an array, where the key exists.\<close>

lemma pm_set_existing:
  assumes ok: "arrays_ok F s as" "length as \<le> MAX_SUB_MAP_COUNT" and k: "arrays_map F as (key_of F v) = Some w"
  shows "\<exists>as'. pm_set_refactored F alloc (pm_of s as) (key_of F v) (Full v) ow =
      Some (if ow then (OB_SUCCESS, Full w, pm_of s as') else (OB_HASH_EXIST, Empty, pm_of s as)) \<and>
    arrays_ok F s as' \<and> length as' = length as \<and> arrays_map F as' = (arrays_map F as)(key_of F v \<mapsto> v)"
proof -
  obtain j where j: "j < length as" "ha_map F (as ! j) (key_of F v) = Some w"
      "\<forall>i<length as. i \<noteq> j \<longrightarrow> ha_map F (as ! i) (key_of F v) = None"
    using arrays_map_Some [OF ok(1) k] by auto
  have ne: "as \<noteq> []"
    using j by auto
  have "\<forall>i<j. ha_map F (as ! i) (key_of F v) = None"
    using j by auto
  then obtain p idx' pos' where p: "p < length (slots (as ! j))" "slots (as ! j) ! p = Full w" "key_of F w = key_of F v"
    and f: "pm_find_set_pos F (pm_of s as) (key_of F v) (Full v) ow =
      Some (if ow then (OB_SUCCESS, 0 + int j, int p) else (OB_HASH_EXIST, idx', pos'))"
    using find_set_pos_loop_found [where v = v and ow = ow and i = 0 and idx = "- 1" and pos = "- 1" and ret = OB_SUCCESS,
        OF ok(1) j(1,2)]
    unfolding pm_find_set_pos_def by (auto simp: pm_of_live simp del: pm_of_sel(5))
  obtain a' where a': "set_value (as ! j) (int p) (Full v) = Some (OB_SUCCESS, Full w, a')" "arrays_ok F s (as[j := a'])"
      "arrays_map F (as[j := a']) = (arrays_map F as)(key_of F v \<mapsto> v)"
    using put_found_place [OF ok(1) j p] by auto
  have "pm_set_refactored F alloc (pm_of s as) (key_of F v) (Full v) ow =
      Some (if ow then (OB_SUCCESS, Full w, pm_of s (as[j := a'])) else (OB_HASH_EXIST, Empty, pm_of s as))"
    using pm_init_of [OF ok(2) ne, of "alloc 0" s] f a'(1) j(1) pm_of_nth [OF j(1), of s] pm_of_update [OF j(1), of s a']
    by (cases ow) (simp_all add: pm_set_refactored_def del: pm_of_sel(5))
  then show ?thesis
    using a' by (intro exI [of _ "as[j := a']"]) simp
qed

text \<open>A map that has an array, where the key is missing.\<close>

lemma pm_set_missing:
  assumes ok: "arrays_ok F s as" "length as \<le> MAX_SUB_MAP_COUNT" "as \<noteq> []" "size_ok s (length as)" "s \<le> 2 ^ 40"
    and k: "arrays_map F as (key_of F v) = None"
  shows "\<exists>ret s' as'. pm_set_refactored F alloc (pm_of s as) (key_of F v) (Full v) ow = Some (ret, Empty, pm_of s' as') \<and>
    arrays_ok F s' as' \<and> length as' \<le> MAX_SUB_MAP_COUNT \<and> size_ok s' (length as') \<and> s' \<in> {s..8 * s} \<and>
    (if ret = OB_SUCCESS then arrays_map F as' = (arrays_map F as)(key_of F v \<mapsto> v)
     else \<not> alloc 1 \<and> ret = OB_ERR_UNEXPECTED \<and> (s' = s \<and> as' = as \<or> as' = []))"
  (is "\<exists>ret s' as'. ?P ret s' as'")
proof -
  let ?k = "key_of F v"
  note init = pm_init_of [OF ok(2,3), of "alloc 0" s]
  have s8: "s \<le> 8 * s"
    using ok(4) by (auto simp: size_ok_def)
  have "(\<exists>j p. good_place F as ?k j p \<and> pm_find_set_pos F (pm_of s as) ?k (Full v) ow = Some (OB_SUCCESS, int j, int p)) \<or>
    pm_find_set_pos F (pm_of s as) ?k (Full v) ow = Some (OB_HASH_FULL, - 1, - 1) \<and> used (last as) = max_entries (last as)"
    using find_set_pos_loop_missing [of F s "[]" as ?k "- 1" "- 1" v ow OB_SUCCESS] ok(1,3) k
    unfolding pm_find_set_pos_def by (auto simp: pm_of_live simp del: pm_of_sel(5))
  then show ?thesis
  proof (elim disjE exE conjE)
    fix j p
    assume g: "good_place F as ?k j p"
      and f: "pm_find_set_pos F (pm_of s as) ?k (Full v) ow = Some (OB_SUCCESS, int j, int p)"
    obtain a' where a': "set_value (as ! j) (int p) (Full v) = Some (OB_SUCCESS, Empty, a')" "j < length as"
        "arrays_ok F s (as[j := a'])" "arrays_map F (as[j := a']) = (arrays_map F as)(?k \<mapsto> v)"
      using put_good_place [OF ok(1) k g] by auto
    have "pm_set_refactored F alloc (pm_of s as) ?k (Full v) ow = Some (OB_SUCCESS, Empty, pm_of s (as[j := a']))"
      using init f a'(1) a'(2) pm_of_nth [OF a'(2), of s] pm_of_update [OF a'(2), of s a']
      by (simp add: pm_set_refactored_def del: pm_of_sel(5))
    then show ?thesis
      using a' ok s8 by (intro exI [of _ OB_SUCCESS] exI [of _ s] exI [of _ "as[j := a']"]) auto
  next
    assume f: "pm_find_set_pos F (pm_of s as) ?k (Full v) ow = Some (OB_HASH_FULL, - 1, - 1)"
      and last: "used (last as) = max_entries (last as)"
    have "used a = max_entries a" if a: "a \<in> set as" for a
    proof -
      obtain j where j: "j < length as" "as ! j = a"
        using a by (auto simp: in_set_conv_nth)
      have "last as = a" if "Suc j = length as"
      proof -
        have "length as - 1 = j"
          using that by simp
        then show ?thesis
          using j ok(3) by (simp add: last_conv_nth)
      qed
      then show ?thesis
        using arrays_ok_nth [OF ok(1) j(1)] last j by (cases "Suc j = length as") auto
    qed
    then have full: "all_full as"
      by (simp add: all_full_def)
    note resize = resize_spec [OF ok(1) full ok(3,2,4,5)]
    show ?thesis
    proof (cases "alloc 1")
      case True
      obtain s' bs where bs: "resize F True (pm_of s as) = Some (Some (length bs - 1), pm_of s' bs)" "bs \<noteq> []"
          "length bs \<le> MAX_SUB_MAP_COUNT" "size_ok s' (length bs)" "s' \<in> {s..8 * s}" "arrays_ok F s' bs"
          "arrays_map F bs = arrays_map F as" "used (last bs) < max_entries (last bs)"
        using resize(1) by auto
      define j where "j = length bs - 1"
      have j: "j < length bs" "bs ! j = last bs"
        using bs(2) by (auto simp: j_def last_conv_nth)
      have okj: "ha_ok F (bs ! j)"
        using arrays_ok_nth [OF bs(6) j(1)] by simp
      have none: "arrays_map F bs ?k = None"
        using k bs(7) by simp
      have kj: "ha_map F (bs ! j) ?k = None"
        by (rule arrays_map_None_nth [OF none j(1)])
      obtain a' where a': "ha_set_refactored F (bs ! j) ?k (Full v) ow = Some (OB_SUCCESS, Empty, a')" "ha_ok F a'"
          "ha_map F a' = (ha_map F (bs ! j))(?k \<mapsto> v)" "same_size (bs ! j) a'"
        using ha_set_spec [where v = v and ow = ow, OF okj refl] kj bs(8) j(2) by auto
      have others: "\<forall>i<length bs. i \<noteq> j \<longrightarrow> ha_map F (bs ! i) ?k = None"
        using arrays_map_None_nth [OF none] by blast
      note u = arrays_update [OF bs(6) j(1) a'(2,4,3) others]
      have r: "resize F True (pm_of s as) = Some (Some j, pm_of s' bs)"
        using bs(1) by (simp add: j_def)
      have "pm_set_refactored F alloc (pm_of s as) ?k (Full v) ow = Some (OB_SUCCESS, Empty, pm_of s' (bs[j := a']))"
        using init f r a'(1) j(1) pm_of_nth [OF j(1), of s'] pm_of_update [OF j(1), of s' a'] True
        by (simp add: pm_set_refactored_def del: pm_of_sel(5))
      then show ?thesis
        using u bs by (intro exI [of _ OB_SUCCESS] exI [of _ s'] exI [of _ "bs[j := a']"]) auto
    next
      case False
      obtain s' bs where bs: "resize F False (pm_of s as) = Some (None, pm_of s' bs)" "size_ok s' (length bs)" "s' \<in> {s..8 * s}"
          "s' = s \<and> bs = as \<or> bs = []"
        using resize(2) by auto
      have "pm_set_refactored F alloc (pm_of s as) ?k (Full v) ow = Some (OB_ERR_UNEXPECTED, Empty, pm_of s' bs)"
        using init f bs(1) False by (simp add: pm_set_refactored_def del: pm_of_sel(5))
      then show ?thesis
        using bs ok False by (intro exI [of _ OB_ERR_UNEXPECTED] exI [of _ s'] exI [of _ bs]) auto
    qed
  qed
qed

text \<open>
  What \<open>set_refactored\<close> does to a map.  The size of a block is bounded, so that no size is computed past what an
  integer of 64 bits holds.
\<close>

theorem pm_set_spec:
  assumes ok: "pm_ok F m" "sub_map_mem_size m \<le> 2 ^ 40" and k: "key_of F v = k"
  shows "\<exists>ret over m'. pm_set_refactored F alloc m k (Full v) ow = Some (ret, over, m') \<and> pm_ok F m' \<and>
    sub_map_mem_size m' \<in> {sub_map_mem_size m..8 * sub_map_mem_size m} \<and>
    (case pm_map F m k of
       Some w \<Rightarrow> if ow then ret = OB_SUCCESS \<and> over = Full w \<and> pm_map F m' = (pm_map F m)(k \<mapsto> v)
         else ret = OB_HASH_EXIST \<and> over = Empty \<and> m' = m
     | None \<Rightarrow> over = Empty \<and>
         (if ret = OB_SUCCESS then pm_map F m' = (pm_map F m)(k \<mapsto> v)
          else \<not> (alloc 0 \<and> alloc 1) \<and> (ret = OB_ALLOCATE_MEMORY_FAILED \<or> ret = OB_ERR_UNEXPECTED) \<and>
            (pm_map F m' = pm_map F m \<or> pm_map F m' = Map.empty)))"
  (is "\<exists>ret over m'. ?P m ret over m'")
proof -
  obtain s as where m: "m = pm_of s as" "length as \<le> MAX_SUB_MAP_COUNT" "size_ok s (length as)" "arrays_ok F s as"
    using pm_cases [OF ok(1)] by metis
  have s: "s \<le> 2 ^ 40"
    using ok(2) m(1) by simp
  have nonempty: "\<exists>ret over m'. ?P (pm_of s bs) ret over m'"
    if bs: "arrays_ok F s bs" "bs \<noteq> []" "length bs \<le> MAX_SUB_MAP_COUNT" "size_ok s (length bs)" for bs
  proof (cases "arrays_map F bs k")
    case (Some w)
    have "s \<le> 8 * s" "pm_ok F (pm_of s bs)"
      using bs by (auto simp: pm_ok_pm_of size_ok_def)
    then show ?thesis
      using pm_set_existing [OF bs(1,3), of v w alloc ow] Some bs(3,4) unfolding k by (cases ow) (auto simp: pm_ok_pm_of)
  next
    case None
    then show ?thesis
      using pm_set_missing [OF bs(1,3,2,4) s, of v alloc ow] arrays_map_Nil [of F]
      unfolding k by (auto simp: pm_ok_pm_of split: if_splits)
  qed
  show ?thesis
  proof (cases "as = []")
    case False
    then show ?thesis
      unfolding m(1) by (intro nonempty m)
  next
    case True
    have s0: "size_ok s 0" "size_ok s 1" "s \<le> 8 * s"
      using m(3) by (auto simp: size_ok_def)
    show ?thesis
    proof (cases "alloc 0")
      case a0: True
      obtain a where a: "pm_init True (pm_of s []) = Some (OB_SUCCESS, pm_of s [a])" "arrays_ok F s [a]"
          "arrays_map F [a] = Map.empty"
        using pm_init_new(1) [OF s0(1)] by metis
      have e: "pm_set_refactored F alloc (pm_of s []) k (Full v) ow = pm_set_refactored F alloc (pm_of s [a]) k (Full v) ow"
        using a(1) a0 pm_init_of [of "[a]" True s] by (simp add: pm_set_refactored_def MAX_SUB_MAP_COUNT_def)
      have em: "pm_map F (pm_of s []) = pm_map F (pm_of s [a])" and none: "pm_map F (pm_of s [a]) k = None"
        unfolding pm_map_of a(3) arrays_map_Nil by simp_all
      have "\<exists>ret over m'. ?P (pm_of s [a]) ret over m'"
        using s0 by (intro nonempty [OF a(2)]) (auto simp: MAX_SUB_MAP_COUNT_def)
      then show ?thesis
        unfolding m(1) True e em pm_of_sel(2) by (simp only: none option.case)
    next
      case False
      have "pm_ok F (pm_of s [])"
        using s0(1) by (simp add: pm_ok_pm_of)
      moreover have "pm_set_refactored F alloc (pm_of s []) k (Full v) ow = Some (OB_ALLOCATE_MEMORY_FAILED, Empty, pm_of s [])"
        using False by (simp add: pm_set_refactored_def pm_init_new(2) [OF s0(1)])
      ultimately show ?thesis
        using m(1) True s0(3) False by auto
    qed
  qed
qed

lemma new_pmap_of: "new_pmap s = pm_of s []"
  by (simp add: new_pmap_def pm_of_def)

lemma new_pmap_ok: "size_ok s 0 \<Longrightarrow> pm_ok F (new_pmap s)" "pm_map F (new_pmap s) = Map.empty"
  by (simp_all add: new_pmap_of pm_ok_pm_of arrays_map_Nil)

section \<open>Clearing, erasing at an iterator and counting\<close>

theorem pm_clear_spec:
  assumes "pm_ok F m"
  shows "pm_ok F (pm_clear m)" "pm_map F (pm_clear m) = Map.empty"
proof -
  obtain s as where m: "m = pm_of s as" "length as \<le> MAX_SUB_MAP_COUNT" "size_ok s (length as)" "arrays_ok F s as"
    using pm_cases [OF assms] by metis
  have "pm_ok F (pm_clear m) \<and> pm_map F (pm_clear m) = Map.empty"
  proof (cases as)
    case Nil
    then show ?thesis
      using assms pm_of_0 [OF m(2), of s] arrays_map_Nil [of F] by (simp add: m(1) pm_clear_def)
  next
    case (Cons a bs)
    have a: "ha_ok F a" "capacity a = (s - 64) div 8"
      using m(4) Cons by auto
    have c: "ha_ok F (ha_clear a)" "ha_map F (ha_clear a) = Map.empty" "capacity (ha_clear a) = (s - 64) div 8"
      using ha_clear_spec [OF a(1)] a(2) by auto
    have "entries (slots (ha_clear a)) = []"
      using ha_entries_dom [of F "ha_clear a"] c(2) by simp
    then have ok: "arrays_ok F s [ha_clear a]" "arrays_map F [ha_clear a] = Map.empty"
      using c by (auto simp: fun_eq_iff)
    have "pm_clear m = pm_of s [ha_clear a]"
      using m(2) by (simp add: m(1) Cons pm_clear_def pm_of_def flip: replicate_add)
    then show ?thesis
      using ok m(3) by (auto simp: pm_ok_pm_of size_ok_def MAX_SUB_MAP_COUNT_def)
  qed
  then show "pm_ok F (pm_clear m)" "pm_map F (pm_clear m) = Map.empty"
    by auto
qed

theorem pm_item_count_spec:
  assumes "pm_ok F m"
  shows "pm_item_count m = int (card (dom (pm_map F m)))"
proof -
  obtain s as where m: "m = pm_of s as" "arrays_ok F s as"
    using pm_cases [OF assms] by metis
  have e: "distinct (map (key_of F) (all_entries as))" "arrays_map F as = map_of (map (\<lambda>v. (key_of F v, v)) (all_entries as))"
    using arrays_entries [OF m(2)] by auto
  have "dom (arrays_map F as) = key_of F ` set (all_entries as)"
    unfolding e(2) by (simp add: dom_map_of_conv_image_fst image_image)
  then show ?thesis
    using distinct_card [OF e(1)] item_count_total [OF m(2)] by (simp add: m(1))
qed

text \<open>Erasing at an iterator of an array, where an entry is.\<close>

lemma pm_erase_at:
  assumes ok: "arrays_ok F s as" and j: "j < length as" and p: "p < length (slots (as ! j))" "slots (as ! j) ! p = Full v"
  shows "\<exists>a'. pm_erase (pm_of s as) p (int j) = Some (OB_SUCCESS, pm_of s (as[j := a'])) \<and> arrays_ok F s (as[j := a']) \<and>
    slots a' = (slots (as ! j))[p := Erased] \<and> capacity a' = capacity (as ! j) \<and> ha_ok F a' \<and>
    arrays_map F (as[j := a']) = (arrays_map F as)(key_of F v := None)"
proof -
  have okj: "ha_ok F (as ! j)"
    using arrays_ok_nth [OF ok j] by simp
  obtain a' where a': "ha_erase (as ! j) p = Some (OB_SUCCESS, a')" "ha_ok F a'"
      "ha_map F a' = (ha_map F (as ! j))(key_of F v := None)" "same_size (as ! j) a'" "slots a' = (slots (as ! j))[p := Erased]"
    using ha_erase_at [OF okj p(1)] p(2) by auto
  have "ha_map F (as ! j) (key_of F v) = Some v"
    using ha_map_Some [OF okj] p by blast
  then have k: "arrays_map F as (key_of F v) \<noteq> None"
    using arrays_map_None_nth [OF _ j] by force
  have others: "ha_map F (as ! i) (key_of F v) = None" if "i < length as" "i \<noteq> j" for i
  proof -
    obtain w where w: "arrays_map F as (key_of F v) = Some w"
      using k by auto
    obtain l where l: "l < length as" "\<forall>i<length as. i \<noteq> l \<longrightarrow> ha_map F (as ! i) (key_of F v) = None"
      using arrays_map_Some [OF ok w] by auto
    then have "l = j"
      using j \<open>ha_map F (as ! j) (key_of F v) = Some v\<close> by force
    then show ?thesis
      using l that by simp
  qed
  note u = arrays_update [OF ok j a'(2,4,3)]
  have "pm_erase (pm_of s as) p (int j) = Some (OB_SUCCESS, pm_of s (as[j := a']))"
    using a'(1) j pm_of_nth [OF j, of s] pm_of_update [OF j, of s a'] by (simp add: pm_erase_def del: pm_of_sel(5))
  then show ?thesis
    using a' u others by (auto simp: same_size_def)
qed

section \<open>What fails\<close>

text \<open>\<open>destroy\<close> forgets the size of the blocks, so a map that is used again creates an array of a huge capacity.\<close>

theorem destroy_then_init:
  assumes "pm_ok F m"
  shows "pm_init True (pm_destroy m) = None"
proof -
  obtain s as where m: "m = pm_of s as" "length as \<le> MAX_SUB_MAP_COUNT"
    using pm_cases [OF assms] by metis
  have "pm_destroy m = pm_of 0 []"
    using m(2) by (simp add: m(1) pm_destroy_def pm_of_def flip: replicate_add)
  moreover have "create_sub_map True 0 None = (None :: 'b harray option option)"
  proof -
    have "\<not> HASH_ARRAY_SIZE + 8 * sint ((word_of_int 0 - word_of_int HASH_ARRAY_SIZE :: u64) div 8) \<le> 0"
      by code_simp
    then show ?thesis
      unfolding create_sub_map_def new_harray_def Let_def by (auto split: bind_splits)
  qed
  ultimately show ?thesis
    by (simp add: pm_init_def pm_of_def MAX_SUB_MAP_COUNT_def numeral_eq_Suc)
qed

text \<open>A resize that must copy and gets no memory leaves an empty map.\<close>

theorem resize_loses:
  assumes ok: "pm_ok F m" "sub_map_mem_size m \<le> 2 ^ 40" "sub_map_count m = 1" "all_full (arrays m)"
    and s: "sub_map_mem_size m \<noteq> OB_MALLOC_NORMAL_BLOCK_SIZE" "sub_map_mem_size m \<noteq> OB_MALLOC_BIG_BLOCK_SIZE"
  shows "\<exists>m'. resize F False m = Some (None, m') \<and> pm_ok F m' \<and> pm_map F m' = Map.empty"
proof -
  obtain s' as where m: "m = pm_of s' as" "length as \<le> MAX_SUB_MAP_COUNT" "size_ok s' (length as)" "arrays_ok F s' as"
    using pm_cases [OF ok(1)] by metis
  have as: "as \<noteq> []" "length as = 1" "all_full as" "s' \<le> 2 ^ 40"
    using ok m(1) by auto
  obtain t where t: "resize_plan m = (False, t)" "size_ok t 1"
    using resize_plan_spec [OF m(4) as(3,1) m(2,3) as(4)] s m(1) by auto
  have "resize F False m = Some (None, pm_of t [])"
    using swap_subs [OF m(2), of "[]" s' t] t(1)
    by (simp add: resize_def m(1) Let_def copy_from_fails MAX_SUB_MAP_COUNT_def)
  then show ?thesis
    using t(2) by (auto simp: pm_ok_pm_of size_ok_def arrays_map_Nil)
qed

text \<open>A table with fewer than ten entries, none erased, is copied into one of the same size.\<close>

theorem small_never_grows:
  assumes "sub_map_count m = 1" "pm_count m = pm_item_count m" "0 \<le> pm_count m" "pm_count m < 10"
    and "sub_map_mem_size m \<noteq> OB_MALLOC_NORMAL_BLOCK_SIZE" "sub_map_mem_size m \<noteq> OB_MALLOC_BIG_BLOCK_SIZE"
  shows "resize_plan m = (False, sub_map_mem_size m)"
proof -
  have "times_11 (pm_item_count m) \<le> pm_count m"
    using times_11_bounds(1) [of "pm_item_count m"] assms(2-4) by simp
  then show ?thesis
    using assms by (auto simp: resize_plan_def Let_def)
qed

text \<open>Assigning a map copies it, and without memory leaves null pointers that a look-up follows.\<close>

lemma copy_sub_map:
  assumes "ha_ok F a" "capacity a = (s - 64) div 8"
  shows "create_sub_map True s (Some a) = Some (Some a)"
  using assms(2) by (simp add: create_sub_map_def HASH_ARRAY_SIZE_def)

lemma assign_loop_copies:
  "arrays_ok F s as \<Longrightarrow> assign_loop (\<lambda>_. True) s i (map Some as) = Some (OB_SUCCESS, map Some as)"
proof (induction as arbitrary: i)
  case (Cons a as)
  then show ?case
    using copy_sub_map [of F a s] by simp
qed simp

lemma destroy_of: "length bs \<le> MAX_SUB_MAP_COUNT \<Longrightarrow> pm_destroy (pm_of t bs) = pm_of 0 []"
  by (simp add: pm_destroy_def pm_of_def flip: replicate_add)

theorem assign_copies:
  assumes "pm_ok F m" "pm_ok F other"
  shows "pm_assign (\<lambda>_. True) m other = Some (OB_SUCCESS, other)"
proof -
  obtain t bs where m: "m = pm_of t bs" "length bs \<le> MAX_SUB_MAP_COUNT"
    using pm_cases [OF assms(1)] by metis
  obtain s as where o: "other = pm_of s as" "arrays_ok F s as"
    using pm_cases [OF assms(2)] by metis
  have "assign_loop (\<lambda>_. True) s 0 (map Some as) = Some (OB_SUCCESS, map Some as)"
    by (rule assign_loop_copies [OF o(2)])
  then show ?thesis
    unfolding pm_assign_def m(1) destroy_of [OF m(2)] o(1) pm_of_sel(3) Let_def by (simp add: pm_of_def)
qed

theorem assign_fails:
  assumes "pm_ok F m" "pm_ok F other" "1 < sub_map_count other" "alloc 0" "\<not> alloc 1"
    and k: "ha_map F (hd (arrays other)) k = None"
  shows "\<exists>m'. pm_assign alloc m other = Some (OB_ALLOCATE_MEMORY_FAILED, m') \<and> sub_map_count m' = sub_map_count other \<and>
    pm_get F m' k = None"
proof -
  obtain t bs where m: "m = pm_of t bs" "length bs \<le> MAX_SUB_MAP_COUNT"
    using pm_cases [OF assms(1)] by metis
  obtain s as where o: "other = pm_of s as" "length as \<le> MAX_SUB_MAP_COUNT" "arrays_ok F s as"
    using pm_cases [OF assms(2)] by metis
  obtain a b cs where as: "as = a # b # cs"
    using assms(3) o(1) by (cases as; cases "tl as") auto
  have a: "ha_ok F a" "create_sub_map True s (Some a) = Some (Some a)"
    using o(3) as copy_sub_map [of F a s] by auto
  have l: "assign_loop alloc s 0 (map Some as) = Some (OB_ALLOCATE_MEMORY_FAILED, Some a # replicate (Suc (length cs)) None)"
    using a(2) assms(4,5) by (simp add: as)
  define m' where "m' = \<lparr>sub_maps = (Some a # replicate (Suc (length cs)) None) @ drop (length as) (sub_maps (pm_of 0 [])),
    sub_map_count = length as, sub_map_mem_size = s\<rparr>"
  have e: "pm_assign alloc m other = Some (OB_ALLOCATE_MEMORY_FAILED, m')"
    unfolding pm_assign_def m(1) destroy_of [OF m(2)] o(1) pm_of_sel(3) Let_def using l by (simp add: m'_def as)
  have "ha_get F a k = Some None"
    using ha_get_spec(1) [OF a(1), of k] k by (simp add: o(1) as)
  then have "pm_get F m' k = None"
    by (simp add: pm_get_def m'_def as)
  then show ?thesis
    using e o(1) by (auto simp: m'_def)
qed

end
