(* ===== verification/RefHashMap.thy ===== *)
theory RefHashMap
  imports PointerHashMap
begin

text \<open>
  \<open>ObRefHashMap\<close> of \<open>src/src/obproxy/utils/ob_ref_hash_map.h\<close>: a pointer hash map of counted objects.  The map holds
  one reference to each object in it; \<open>set\<close> takes one, \<open>erase\<close> and an overwrite give it back, \<open>get\<close> takes one for
  its caller.

  \<open>refs\<close> gives the number of references of an object; an object with none has been freed.  An operation is
  \<open>None\<close> when it counts on a freed object, besides what makes the operations of the pointer hash map \<open>None\<close>.
\<close>

section \<open>The map and the counts\<close>

record 'v rmap =
  is_inited :: bool
  pointer_map :: "'v pmap"
  refs :: "'v \<Rightarrow> int"

definition obj_inc_ref :: "'v \<Rightarrow> 'v rmap \<Rightarrow> 'v rmap option" where
  "obj_inc_ref v r = (if refs r v \<le> 0 then None else Some (r\<lparr>refs := (refs r)(v := refs r v + 1)\<rparr>))"

definition obj_dec_ref :: "'v \<Rightarrow> 'v rmap \<Rightarrow> 'v rmap option" where
  "obj_dec_ref v r = (if refs r v \<le> 0 then None else Some (r\<lparr>refs := (refs r)(v := refs r v - 1)\<rparr>))"

section \<open>Operations\<close>

definition rh_init :: "bool \<Rightarrow> 'v rmap \<Rightarrow> (ob_err \<times> 'v rmap) option" where
  "rh_init ok r =
     (if is_inited r then Some (OB_INIT_TWICE, r)
      else do {
        (ret, m) \<leftarrow> pm_init ok (pointer_map r);
        let r = r\<lparr>pointer_map := m\<rparr>;
        Some (ret, if ret = OB_SUCCESS then r\<lparr>is_inited := True\<rparr> else r)
      })"

text \<open>A value that may be null; the third result is the caller's pointer, which a failure sets to null.\<close>

definition rh_set ::
    "('k, 'v) hfuns \<Rightarrow> (nat \<Rightarrow> bool) \<Rightarrow> 'v rmap \<Rightarrow> 'v option \<Rightarrow> (ob_err \<times> 'v option \<times> 'v rmap) option" where
  "rh_set F alloc r value =
     (case value of
        None \<Rightarrow> Some (OB_INVALID_ARGUMENT, None, r)
      | Some v \<Rightarrow> do {
          r \<leftarrow> obj_inc_ref v r;
          (ret, over, m) \<leftarrow> pm_set_refactored F alloc (pointer_map r) (key_of F v) (Full v) True;
          let r = r\<lparr>pointer_map := m\<rparr>;
          (if ret = OB_SUCCESS then
             case over of Full w \<Rightarrow> do { r \<leftarrow> obj_dec_ref w r; Some (ret, Some v, r) } | _ \<Rightarrow> Some (ret, Some v, r)
           else do { r \<leftarrow> obj_dec_ref v r; Some (ret, None, r) })
        })"

definition rh_get :: "('k, 'v) hfuns \<Rightarrow> 'v rmap \<Rightarrow> 'k \<Rightarrow> ('v option \<times> 'v rmap) option" where
  "rh_get F r k = do {
     value \<leftarrow> pm_get F (pointer_map r) k;
     (case value of
        Some (Full v) \<Rightarrow> do { r \<leftarrow> obj_inc_ref v r; Some (Some v, r) }
      | _ \<Rightarrow> Some (None, r))
   }"

definition rh_erase :: "('k, 'v) hfuns \<Rightarrow> 'v rmap \<Rightarrow> 'k \<Rightarrow> (ob_err \<times> 'v rmap) option" where
  "rh_erase F r k = do {
     (ret, value, m) \<leftarrow> pm_erase_refactored F (pointer_map r) k;
     let r = r\<lparr>pointer_map := m\<rparr>;
     (if ret = OB_SUCCESS then
        case value of Full v \<Rightarrow> do { r \<leftarrow> obj_dec_ref v r; Some (OB_SUCCESS, r) } | _ \<Rightarrow> Some (OB_HASH_NOT_EXIST, r)
      else Some (ret, r))
   }"

text \<open>Erasing at an iterator of the array of index \<open>i\<close>, and the loops of \<open>destroy\<close>; the fuel bounds the loops.\<close>

definition rh_erase_at :: "'v rmap \<Rightarrow> nat \<Rightarrow> nat \<Rightarrow> (ob_err \<times> 'v rmap) option" where
  "rh_erase_at r it i = do {
     a \<leftarrow> sub_maps (pointer_map r) ! i;
     saved \<leftarrow> cell_at a (int it);
     (ret, m) \<leftarrow> pm_erase (pointer_map r) it (int i);
     let r = r\<lparr>pointer_map := m\<rparr>;
     (case saved of
        Full v \<Rightarrow> if ret = OB_SUCCESS then do { r \<leftarrow> obj_dec_ref v r; Some (ret, r) } else Some (ret, r)
      | _ \<Rightarrow> Some (ret, r))
   }"

fun erase_entries :: "nat \<Rightarrow> nat \<Rightarrow> nat \<Rightarrow> 'v rmap \<Rightarrow> 'v rmap option" where
  "erase_entries 0 i it r = None"
| "erase_entries (Suc fuel) i it r = do {
     e \<leftarrow> pm_end (pointer_map r) (int i);
     (if Some it = e then Some r
      else do {
        (_, r) \<leftarrow> rh_erase_at r it i;
        a \<leftarrow> sub_maps (pointer_map r) ! i;
        erase_entries fuel i (ha_next a it) r
      })
   }"

fun erase_subs :: "nat \<Rightarrow> nat \<Rightarrow> nat \<Rightarrow> 'v rmap \<Rightarrow> 'v rmap option" where
  "erase_subs fuel 0 i r = Some r"
| "erase_subs fuel (Suc n) i r = do {
     b \<leftarrow> pm_begin (pointer_map r) (int i);
     it \<leftarrow> b;
     r \<leftarrow> erase_entries fuel i it r;
     erase_subs fuel n (Suc i) r
   }"

definition rh_destroy :: "nat \<Rightarrow> 'v rmap \<Rightarrow> 'v rmap option" where
  "rh_destroy fuel r =
     (if is_inited r then do {
        r \<leftarrow> erase_subs fuel (sub_map_count (pointer_map r)) 0 r;
        Some (r\<lparr>pointer_map := pm_destroy (pointer_map r), is_inited := False\<rparr>)
      }
      else Some r)"

section \<open>References\<close>

text \<open>
  A map in which every object has the reference of the map and \<open>held\<close> further ones, those of the callers.  An
  object that no caller holds and the map does not contain has none.
\<close>

definition in_map :: "('k, 'v) hfuns \<Rightarrow> 'v rmap \<Rightarrow> 'v \<Rightarrow> bool" where
  "in_map F r v = (pm_map F (pointer_map r) (key_of F v) = Some v)"

definition rh_ok :: "('k, 'v) hfuns \<Rightarrow> ('v \<Rightarrow> int) \<Rightarrow> 'v rmap \<Rightarrow> bool" where
  "rh_ok F held r = (pm_ok F (pointer_map r) \<and> (\<forall>v. 0 \<le> held v \<and> refs r v = held v + of_bool (in_map F r v)))"

lemma pm_map_key: "pm_map F m k = Some v \<Longrightarrow> key_of F v = k"
proof -
  have "arrays_map F as k = Some v \<Longrightarrow> key_of F v = k" for as
    using cells_map_Some_in by (induction as) (fastforce split: option.splits)+
  then show "pm_map F m k = Some v \<Longrightarrow> key_of F v = k"
    by (simp add: pm_map_def)
qed

lemma in_map_key: "pm_map F (pointer_map r) k = Some v \<Longrightarrow> in_map F r v"
  using pm_map_key [of F "pointer_map r" k v] by (auto simp: in_map_def)

text \<open>\<open>get\<close>: the caller gets a reference.\<close>

theorem rh_get_spec:
  assumes "rh_ok F held r"
  shows "\<exists>r'. rh_get F r k = Some (pm_map F (pointer_map r) k, r') \<and> pointer_map r' = pointer_map r \<and>
    rh_ok F (case pm_map F (pointer_map r) k of Some v \<Rightarrow> held(v := held v + 1) | None \<Rightarrow> held) r'"
proof -
  have ok: "pm_ok F (pointer_map r)" and c: "\<And>v. 0 \<le> held v \<and> refs r v = held v + of_bool (in_map F r v)"
    using assms by (auto simp: rh_ok_def)
  show ?thesis
  proof (cases "pm_map F (pointer_map r) k")
    case None
    then show ?thesis
      using assms pm_get_spec [OF ok, of k] by (auto simp: rh_get_def)
  next
    case (Some v)
    have "0 < refs r v"
      using c [of v] in_map_key [OF Some] by simp
    then show ?thesis
      using Some pm_get_spec [OF ok, of k] c by (auto simp: rh_get_def obj_inc_ref_def rh_ok_def in_map_def ok)
  qed
qed

text \<open>\<open>erase\<close>: the map gives its reference back.\<close>

theorem rh_erase_spec:
  assumes "rh_ok F held r"
  shows "\<exists>r'. rh_erase F r k = Some (case pm_map F (pointer_map r) k of
        Some v \<Rightarrow> OB_SUCCESS
      | None \<Rightarrow> if sub_map_count (pointer_map r) = 0 then OB_NOT_INIT else OB_HASH_NOT_EXIST, r') \<and>
    rh_ok F held r' \<and> pm_map F (pointer_map r') = (pm_map F (pointer_map r))(k := None)"
proof -
  have ok: "pm_ok F (pointer_map r)" and c: "\<And>v. 0 \<le> held v \<and> refs r v = held v + of_bool (in_map F r v)"
    using assms by (auto simp: rh_ok_def)
  show ?thesis
  proof (cases "pm_map F (pointer_map r) k")
    case None
    then show ?thesis
      using assms pm_erase_refactored_spec [OF ok, of k] by (auto simp: rh_erase_def fun_upd_idem)
  next
    case (Some v)
    obtain m' where m': "pm_erase_refactored F (pointer_map r) k = Some (OB_SUCCESS, Full v, m')" "pm_ok F m'"
        "pm_map F m' = (pm_map F (pointer_map r))(k := None)"
      using pm_erase_refactored_spec [OF ok, of k] Some by auto
    have v: "0 < refs r v" "key_of F v = k"
      using c [of v] in_map_key [OF Some] pm_map_key [OF Some] by auto
    define r' where "r' = r\<lparr>pointer_map := m', refs := (refs r)(v := refs r v - 1)\<rparr>"
    have e: "rh_erase F r k = Some (OB_SUCCESS, r')"
      using m'(1) v(1) by (simp add: rh_erase_def obj_dec_ref_def r'_def)
    have "in_map F r' w = (in_map F r w \<and> w \<noteq> v)" for w
      using m'(3) v(2) Some by (auto simp: in_map_def r'_def)
    then have "rh_ok F held r'"
      using c m'(2) in_map_key [OF Some] by (auto simp: rh_ok_def r'_def)
    then show ?thesis
      using e m'(3) Some by (auto simp: r'_def)
  qed
qed

text \<open>\<open>set\<close> by a caller who holds a reference: the map gets its own, and an object it had under the key loses one.\<close>

lemma in_map_update:
  assumes "pm_map F m' = (pm_map F (pointer_map r))(key_of F v \<mapsto> v)" "pointer_map r' = m'"
  shows "in_map F r' w = (if w = v then True else in_map F r w \<and> key_of F w \<noteq> key_of F v)"
  using assms by (auto simp: in_map_def)

theorem rh_set_spec:
  assumes ok: "rh_ok F held r" and v: "0 < held v" and s: "sub_map_mem_size (pointer_map r) \<le> 2 ^ 40"
    and alloc: "alloc 0" "alloc 1"
  shows "\<exists>r'. rh_set F alloc r (Some v) = Some (OB_SUCCESS, Some v, r') \<and> rh_ok F held r' \<and>
    pm_map F (pointer_map r') = (pm_map F (pointer_map r))(key_of F v \<mapsto> v)"
proof -
  let ?k = "key_of F v"
  let ?m = "pm_map F (pointer_map r)"
  have okm: "pm_ok F (pointer_map r)" and c: "\<And>v. 0 \<le> held v \<and> refs r v = held v + of_bool (in_map F r v)"
    using ok by (auto simp: rh_ok_def)
  obtain over m' where m': "pm_set_refactored F alloc (pointer_map r) ?k (Full v) True = Some (OB_SUCCESS, over, m')" "pm_ok F m'"
      "pm_map F m' = ?m(?k \<mapsto> v)" "over = (case ?m ?k of Some w \<Rightarrow> Full w | None \<Rightarrow> Empty)"
    using pm_set_spec [OF okm s refl, of alloc v True] alloc by (fastforce split: option.splits if_splits)
  have rv: "0 < refs r v"
    using c [of v] v by simp
  show ?thesis
  proof (cases "?m ?k")
    case None
    define r' where "r' = r\<lparr>pointer_map := m', refs := (refs r)(v := refs r v + 1)\<rparr>"
    have e: "rh_set F alloc r (Some v) = Some (OB_SUCCESS, Some v, r')"
      using m'(1,4) None rv by (simp add: rh_set_def obj_inc_ref_def r'_def)
    have i: "in_map F r' w = (w = v \<or> in_map F r w)" for w
      using in_map_update [OF m'(3), of r' w] None by (auto simp: r'_def in_map_def)
    have "\<not> in_map F r v"
      using None by (simp add: in_map_def)
    then have "rh_ok F held r'"
      using c m'(2) i by (auto simp: rh_ok_def r'_def)
    then show ?thesis
      using e m'(3) by (auto simp: r'_def)
  next
    case (Some w)
    have w: "in_map F r w" "key_of F w = ?k"
      using in_map_key [OF Some] pm_map_key [OF Some] by auto
    define n where "n = (refs r)(v := refs r v + 1)"
    define r' where "r' = r\<lparr>pointer_map := m', refs := n(w := n w - 1)\<rparr>"
    have nw: "0 < n w"
      using c [of w] w(1) rv by (auto simp: n_def)
    have e: "rh_set F alloc r (Some v) = Some (OB_SUCCESS, Some v, r')"
      using m'(1,4) Some rv nw by (simp add: rh_set_def obj_inc_ref_def obj_dec_ref_def r'_def n_def)
    have i: "in_map F r' u = (u = v \<or> in_map F r u \<and> u \<noteq> w)" for u
      using in_map_update [OF m'(3), of r' u] Some w(2) by (auto simp: r'_def in_map_def)
    have v_in: "in_map F r v = (v = w)"
      using Some by (auto simp: in_map_def)
    have "rh_ok F held r'"
      using c m'(2) i v_in w(1) unfolding rh_ok_def r'_def n_def by auto
    then show ?thesis
      using e m'(3) by (auto simp: r'_def)
  qed
qed

text \<open>Where the memory for a copy is missing, the objects of the map keep the references of a map that is empty.\<close>

theorem rh_set_leaks:
  assumes ok: "rh_ok F held r" and v: "0 < held v" and s: "sub_map_mem_size (pointer_map r) \<le> 2 ^ 40"
    and one: "sub_map_count (pointer_map r) = 1" "all_full (arrays (pointer_map r))"
      "\<forall>a\<in>set (arrays (pointer_map r)). Erased \<notin> set (slots a)"
    and size: "sub_map_mem_size (pointer_map r) \<noteq> OB_MALLOC_NORMAL_BLOCK_SIZE"
      "sub_map_mem_size (pointer_map r) \<noteq> OB_MALLOC_BIG_BLOCK_SIZE"
    and k: "pm_map F (pointer_map r) (key_of F v) = None" and alloc: "\<not> alloc 1"
  shows "\<exists>r'. rh_set F alloc r (Some v) = Some (OB_ERR_UNEXPECTED, None, r') \<and> refs r' = refs r \<and>
    pm_map F (pointer_map r') = Map.empty"
proof -
  have okm: "pm_ok F (pointer_map r)" and c: "\<And>v. 0 \<le> held v \<and> refs r v = held v + of_bool (in_map F r v)"
    using ok by (auto simp: rh_ok_def)
  obtain s' as where m: "pointer_map r = pm_of s' as" "length as \<le> MAX_SUB_MAP_COUNT" "size_ok s' (length as)" "arrays_ok F s' as"
    using pm_cases [OF okm] by metis
  obtain a where as: "as = [a]"
    using one(1) m(1) by (auto simp: length_Suc_conv)
  obtain m' where m': "resize F False (pointer_map r) = Some (None, m')" "pm_ok F m'" "pm_map F m' = Map.empty"
    using resize_loses [OF okm s one(1,2) size] by auto
  have a: "ha_ok F a" "used a = max_entries a" "Erased \<notin> set (slots a)" "ha_map F a (key_of F v) = None"
    using m one as k by (auto simp: all_full_def split: option.splits)
  obtain p where "ha_find_set_pos F a (key_of F v) (Full v) True = Some (OB_HASH_FULL, int p, - 1, False)"
    using ha_find_set_pos_missing [OF a(1,4), of "Full v" True] a(2,3) by (auto simp: nth_mem dest: nth_mem)
  then have f: "pm_find_set_pos F (pm_of s' [a]) (key_of F v) (Full v) True = Some (OB_HASH_FULL, - 1, - 1)"
    unfolding pm_find_set_pos_def using pm_of_live [of "[a]" s'] by (simp del: pm_of_sel(5))
  have init: "pm_init (alloc 0) (pm_of s' [a]) = Some (OB_SUCCESS, pm_of s' [a])"
    by (rule pm_init_of) (simp_all add: MAX_SUB_MAP_COUNT_def)
  have e: "pm_set_refactored F alloc (pointer_map r) (key_of F v) (Full v) True = Some (OB_ERR_UNEXPECTED, Empty, m')"
    using m'(1) alloc unfolding m(1) as by (simp add: pm_set_refactored_def init f)
  have rv: "0 < refs r v"
    using c [of v] v by simp
  have "rh_set F alloc r (Some v) = Some (OB_ERR_UNEXPECTED, None, r\<lparr>pointer_map := m'\<rparr>)"
    using e rv by (simp add: rh_set_def obj_inc_ref_def obj_dec_ref_def)
  then show ?thesis
    using m'(3) by auto
qed

section \<open>Destroying a map\<close>

lemma advance_at:
  "advance cs q = it \<Longrightarrow> it < q + length cs \<Longrightarrow> \<exists>v. cs ! (it - q) = Full v"
  "advance cs q = it \<Longrightarrow> q \<le> i \<Longrightarrow> i < it \<Longrightarrow> cs ! (i - q) \<noteq> Full w"
proof -
  have "(advance cs q < q + length cs \<longrightarrow> (\<exists>v. cs ! (advance cs q - q) = Full v)) \<and>
      (\<forall>i. q \<le> i \<and> i < advance cs q \<longrightarrow> cs ! (i - q) \<noteq> Full w)"
  proof (induction cs arbitrary: q)
    case (Cons c cs)
    have IH: "(advance cs (Suc q) < Suc q + length cs \<longrightarrow> (\<exists>v. cs ! (advance cs (Suc q) - Suc q) = Full v)) \<and>
        (\<forall>i. Suc q \<le> i \<and> i < advance cs (Suc q) \<longrightarrow> cs ! (i - Suc q) \<noteq> Full w)"
      by (rule Cons.IH)
    have ge: "Suc q \<le> advance cs (Suc q)"
      using advance_ge [where i = "Suc q" and cs = cs] by simp
    show ?case
      using IH ge by (cases c) (auto simp: nth_Cons' Suc_diff_le)
  qed auto
  then show "advance cs q = it \<Longrightarrow> it < q + length cs \<Longrightarrow> \<exists>v. cs ! (it - q) = Full v"
      "advance cs q = it \<Longrightarrow> q \<le> i \<Longrightarrow> i < it \<Longrightarrow> cs ! (i - q) \<noteq> Full w"
    by auto
qed

text \<open>An iterator is at the end or at a full cell, and it has passed no full cell.\<close>

definition iter_ok :: "'v cell list \<Rightarrow> nat \<Rightarrow> bool" where
  "iter_ok cs it = (it \<le> length cs \<and> (it < length cs \<longrightarrow> (\<exists>v. cs ! it = Full v)) \<and> (\<forall>i<it. \<forall>v. cs ! i \<noteq> Full v))"

lemma iter_ok_advance:
  assumes q: "q \<le> length cs" and before: "\<forall>i<q. \<forall>v. cs ! i \<noteq> Full v"
  shows "iter_ok cs (advance (drop q cs) q)"
proof -
  let ?it = "advance (drop q cs) q"
  have le: "q \<le> ?it" "?it \<le> length cs"
    using advance_ge [where i = q and cs = "drop q cs"] q by auto
  have "\<exists>v. cs ! ?it = Full v" if "?it < length cs"
    using advance_at(1) [of "drop q cs" q ?it] le q that by auto
  moreover have "cs ! i \<noteq> Full v" if "i < ?it" for i v
    using advance_at(2) [of "drop q cs" q ?it i v] le q before that by (cases "i < q") auto
  ultimately show ?thesis
    using le by (simp add: iter_ok_def)
qed

lemma iter_ok_end: "iter_ok cs (length cs) \<Longrightarrow> entries cs = []"
proof -
  assume "iter_ok cs (length cs)"
  then have "Full v \<notin> set cs" for v
    by (auto simp: iter_ok_def in_set_conv_nth)
  then have "v \<notin> set (entries cs)" for v
    by (simp add: in_entries)
  then show ?thesis
    by (cases "entries cs") auto
qed

lemma rh_erase_at_spec:
  assumes m: "pointer_map r = pm_of s as" and ok: "rh_ok F held r" and j: "j < length as"
    and p: "p < length (slots (as ! j))" "slots (as ! j) ! p = Full v"
  shows "\<exists>r' a'. rh_erase_at r p j = Some (OB_SUCCESS, r') \<and> pointer_map r' = pm_of s (as[j := a']) \<and> rh_ok F held r' \<and>
    slots a' = (slots (as ! j))[p := Erased] \<and> is_inited r' = is_inited r"
proof -
  have okm: "pm_ok F (pm_of s as)" and c: "\<And>v. 0 \<le> held v \<and> refs r v = held v + of_bool (in_map F r v)"
    using ok m by (auto simp: rh_ok_def)
  have oka: "arrays_ok F s as" "length as \<le> MAX_SUB_MAP_COUNT" "size_ok s (length as)"
    using okm by (auto simp: pm_ok_pm_of)
  obtain a' where a': "pm_erase (pm_of s as) p (int j) = Some (OB_SUCCESS, pm_of s (as[j := a']))" "arrays_ok F s (as[j := a'])"
      "slots a' = (slots (as ! j))[p := Erased]" "arrays_map F (as[j := a']) = (arrays_map F as)(key_of F v := None)"
    using pm_erase_at [OF oka(1) j p] by auto
  have okj: "ha_ok F (as ! j)"
    using arrays_ok_nth [OF oka(1) j] by simp
  have vj: "ha_map F (as ! j) (key_of F v) = Some v"
    using ha_map_Some [OF okj] p by blast
  have v: "arrays_map F as (key_of F v) = Some v"
  proof -
    have "arrays_map F as (key_of F v) \<noteq> None"
      using arrays_map_None_nth [OF _ j] vj by force
    then obtain w where w: "arrays_map F as (key_of F v) = Some w"
      by auto
    then obtain l where "l < length as" "ha_map F (as ! l) (key_of F v) = Some w"
        "\<forall>i<length as. i \<noteq> l \<longrightarrow> ha_map F (as ! i) (key_of F v) = None"
      using arrays_map_Some [OF oka(1) w] by auto
    then show ?thesis
      using w vj j by (cases "l = j") auto
  qed
  have vin: "in_map F r v" and rv: "0 < refs r v"
    using v c [of v] by (auto simp: in_map_def m)
  define r' where "r' = r\<lparr>pointer_map := pm_of s (as[j := a']), refs := (refs r)(v := refs r v - 1)\<rparr>"
  have e: "rh_erase_at r p j = Some (OB_SUCCESS, r')"
    using a'(1) rv cell_at_nat [OF p(1)] p(2) pm_of_nth [OF j, of s]
    by (simp add: rh_erase_at_def m obj_dec_ref_def r'_def del: pm_of_sel(5))
  have "in_map F r' w = (in_map F r w \<and> w \<noteq> v)" for w
    using a'(4) v by (auto simp: in_map_def r'_def m)
  then have "rh_ok F held r'"
    using c a'(2) oka vin by (auto simp: rh_ok_def r'_def pm_ok_pm_of)
  then show ?thesis
    using e a'(3) by (intro exI [of _ r'] exI [of _ a']) (simp add: r'_def)
qed

lemma erase_entries_spec:
  assumes "pointer_map r = pm_of s as" "rh_ok F held r" "j < length as" "iter_ok (slots (as ! j)) it"
    and "length (slots (as ! j)) - it < fuel"
  shows "\<exists>r' a'. erase_entries fuel j it r = Some r' \<and> pointer_map r' = pm_of s (as[j := a']) \<and> rh_ok F held r' \<and>
    entries (slots a') = [] \<and> is_inited r' = is_inited r"
  using assms
proof (induction fuel arbitrary: r as it)
  case (Suc fuel)
  have oka: "arrays_ok F s as"
    using Suc.prems(1,2) by (simp add: rh_ok_def pm_ok_pm_of)
  have cap: "nat (capacity (as ! j)) = length (slots (as ! j))"
    using arrays_ok_nth [OF oka Suc.prems(3)] ha_ok_length by fastforce
  have e: "pm_end (pointer_map r) (int j) = Some (Some (length (slots (as ! j))))"
    using Suc.prems(3) pm_of_nth [OF Suc.prems(3), of s] cap by (simp add: Suc.prems(1) pm_end_def del: pm_of_sel(5))
  show ?case
  proof (cases "it = length (slots (as ! j))")
    case True
    have "as[j := as ! j] = as"
      by simp
    then show ?thesis
      using Suc.prems e True iter_ok_end by (intro exI [of _ r] exI [of _ "as ! j"]) auto
  next
    case False
    then have p: "it < length (slots (as ! j))"
      using Suc.prems(4) by (simp add: iter_ok_def)
    then obtain v where v: "slots (as ! j) ! it = Full v"
      using Suc.prems(4) by (auto simp: iter_ok_def)
    obtain r1 a1 where r1: "rh_erase_at r it j = Some (OB_SUCCESS, r1)" "pointer_map r1 = pm_of s (as[j := a1])" "rh_ok F held r1"
        "slots a1 = (slots (as ! j))[it := Erased]" "is_inited r1 = is_inited r"
      using rh_erase_at_spec [OF Suc.prems(1-3) p v] by auto
    have j1: "j < length (as[j := a1])" "as[j := a1] ! j = a1"
      using Suc.prems(3) by auto
    have next_it: "ha_next a1 it = advance (drop (Suc it) (slots a1)) (Suc it)"
      using p r1(4) by (simp add: ha_next_def)
    have before: "\<forall>i<Suc it. \<forall>v. slots a1 ! i \<noteq> Full v"
      using Suc.prems(4) p by (auto simp: iter_ok_def r1(4) nth_list_update less_Suc_eq)
    have len: "length (slots a1) = length (slots (as ! j))"
      by (simp add: r1(4))
    have it1: "iter_ok (slots (as[j := a1] ! j)) (ha_next a1 it)"
      unfolding j1(2) next_it using p before len by (intro iter_ok_advance) auto
    have more: "length (slots (as[j := a1] ! j)) - ha_next a1 it < fuel"
      using ha_next_gt [of it a1] p len Suc.prems(5) unfolding j1(2) by linarith
    obtain r' a' where r': "erase_entries fuel j (ha_next a1 it) r1 = Some r'" "pointer_map r' = pm_of s (as[j := a1, j := a'])"
        "rh_ok F held r'" "entries (slots a') = []" "is_inited r' = is_inited r1"
      using Suc.IH [OF r1(2,3) j1(1) it1 more] by auto
    have "sub_maps (pointer_map r1) ! j = Some a1"
      using pm_of_nth [OF j1(1), of s] by (simp add: r1(2) j1(2) del: pm_of_sel(5) nth_list_update)
    then have "erase_entries (Suc fuel) j it r = Some r'"
      using e False r1(1) r'(1) by simp
    then show ?thesis
      using r' r1(5) by (intro exI [of _ r'] exI [of _ a']) simp
  qed
qed simp

lemma erase_subs_spec:
  assumes "pointer_map r = pm_of s as" "rh_ok F held r" "i + n = length as" "\<forall>j<i. entries (slots (as ! j)) = []"
    and "\<forall>j<length as. length (slots (as ! j)) < fuel"
  shows "\<exists>r' as'. erase_subs fuel n i r = Some r' \<and> pointer_map r' = pm_of s as' \<and> rh_ok F held r' \<and>
    (\<forall>j<length as'. entries (slots (as' ! j)) = []) \<and> length as' = length as \<and> is_inited r' = is_inited r"
  using assms
proof (induction n arbitrary: r as i)
  case 0
  then show ?case
    by auto
next
  case (Suc n)
  have i: "i < length as"
    using Suc.prems(3) by simp
  have oka: "arrays_ok F s as"
    using Suc.prems(1,2) by (simp add: rh_ok_def pm_ok_pm_of)
  have b: "pm_begin (pointer_map r) (int i) = Some (Some (ha_begin (as ! i)))"
    using i pm_of_nth [OF i, of s] by (simp add: Suc.prems(1) pm_begin_def del: pm_of_sel(5))
  have it: "iter_ok (slots (as ! i)) (ha_begin (as ! i))"
    using iter_ok_advance [of 0 "slots (as ! i)"] by (simp add: ha_begin_def)
  have len: "length (slots (as ! i)) - ha_begin (as ! i) < fuel"
    using Suc.prems(5) i by (meson diff_le_self le_less_trans)
  obtain r1 a1 where r1: "erase_entries fuel i (ha_begin (as ! i)) r = Some r1" "pointer_map r1 = pm_of s (as[i := a1])"
      "rh_ok F held r1" "entries (slots a1) = []" "is_inited r1 = is_inited r"
    using erase_entries_spec [OF Suc.prems(1,2) i it len] by auto
  have ok1: "arrays_ok F s (as[i := a1])"
    using r1(2,3) by (simp add: rh_ok_def pm_ok_pm_of)
  have cap: "length (slots (as[i := a1] ! j)) = length (slots (as ! j))" if "j < length as" for j
    using arrays_ok_nth [OF ok1, of j] arrays_ok_nth [OF oka, of j] that ha_ok_length by fastforce
  have cleared: "\<forall>j<Suc i. entries (slots (as[i := a1] ! j)) = []"
    using Suc.prems(4) r1(4) i by (auto simp: nth_list_update less_Suc_eq)
  have "\<exists>r' as'. erase_subs fuel n (Suc i) r1 = Some r' \<and> pointer_map r' = pm_of s as' \<and> rh_ok F held r' \<and>
      (\<forall>j<length as'. entries (slots (as' ! j)) = []) \<and> length as' = length (as[i := a1]) \<and> is_inited r' = is_inited r1"
    using Suc.prems(3,5) cleared cap by (intro Suc.IH [OF r1(2,3)]) auto
  then show ?case
    using b r1(1,5) by auto
qed

text \<open>\<open>destroy\<close> gives back the reference of the map to every object in it, and no other.\<close>

theorem rh_destroy_spec:
  assumes ok: "rh_ok F held r" and r: "is_inited r" and fuel: "sub_map_mem_size (pointer_map r) < int fuel"
  shows "\<exists>r'. rh_destroy fuel r = Some r' \<and> refs r' = held \<and> \<not> is_inited r' \<and> sub_map_count (pointer_map r') = 0 \<and>
    rh_init True r' = None"
proof -
  have okm: "pm_ok F (pointer_map r)"
    using ok by (simp add: rh_ok_def)
  obtain s as where m: "pointer_map r = pm_of s as" "length as \<le> MAX_SUB_MAP_COUNT" "size_ok s (length as)" "arrays_ok F s as"
    using pm_cases [OF okm] by metis
  have "length (slots (as ! j)) < fuel" if "j < length as" for j
  proof -
    have "int (length (slots (as ! j))) = (s - 64) div 8"
      using arrays_ok_nth [OF m(4) that] ha_ok_length [of F "as ! j"] by simp
    also have "\<dots> < int fuel"
      using fuel m(1,3) by (auto simp: size_ok_def)
    finally show ?thesis
      by simp
  qed
  then obtain r1 bs where r1: "erase_subs fuel (length as) 0 r = Some r1" "pointer_map r1 = pm_of s bs" "rh_ok F held r1"
      "\<forall>j<length bs. entries (slots (bs ! j)) = []" "length bs = length as" "is_inited r1 = is_inited r"
    using erase_subs_spec [OF m(1) ok, of 0 "length as" fuel] by auto
  have "arrays_map F bs k = None" for k
    unfolding arrays_map_None using r1(4) by (auto simp: cells_map_entries in_set_conv_nth)
  then have "refs r1 = held"
    using r1(2,3) by (auto simp: rh_ok_def in_map_def fun_eq_iff)
  moreover have "pm_init True (pm_destroy (pm_of s bs)) = None"
    using r1(2,3) by (intro destroy_then_init [of F]) (auto simp: rh_ok_def)
  ultimately show ?thesis
    using r r1(1,2) by (auto simp: rh_destroy_def m(1) rh_init_def) (simp add: pm_destroy_def)
qed

end
