(* ===== verification/Spec2Isabelle.thy ===== *)
theory Spec2Isabelle
  imports SerialGeneric MysqlCell ObStr BitSet TimerThread CongestionRun RefHashMap
begin

text \<open>
  A model of core parts of OBProxy, the proxy in front of OceanBase (C++ under \<open>src/src/\<close>).  A client
  speaks the MySQL protocol to the proxy; the proxy keeps its own objects and exchanges them with the
  servers in the serialised form of \<open>lib/utility/serialization.h\<close>; connections and timeouts are driven
  by event threads whose queues are intrusive lists.  The model follows these layers upwards.

  \<^bold>\<open>Theories\<close>
  \<^item> \<open>Prelude\<close>: memory as the code sees it.  A buffer is an object of bytes (\<open>mem\<close>) or a null pointer
    (\<open>cbuf\<close>); a read or write outside the object is undefined behaviour and the value \<open>None\<close>.  Integers
    are words of their width, positions and lengths are integers.  Error codes are \<open>ob_err\<close>.
  \<^item> \<open>Codec\<close>: the interface of an encoder and its decoder as locales (\<open>codec\<close>, \<open>strict_codec\<close>,
    \<open>bounded_codec\<close>, \<open>codec_pair\<close>): what is written, what happens when it does not fit, what is read
    back.  Every encoder below is an interpretation.
  \<^item> \<open>SerialFixed\<close>, \<open>SerialVarint\<close>, \<open>SerialUint\<close>, \<open>SerialInt\<close>, \<open>SerialStr\<close>, \<open>SerialTypes\<close>,
    \<open>SerialGeneric\<close>: \<open>lib/utility/serialization.h\<close>, in its order: big-endian integers, variable-length
    integers, integers of a given length, tagged integers (\<open>encode_int\<close>, unrolled and checked), strings
    (\<open>vstr\<close> and \<open>str\<close>), tagged values (boolean, float, number, timestamps, decimal, dates), and the
    overloaded \<open>encode\<close>/\<open>decode\<close> with arrays of any codec.
  \<^item> \<open>MysqlStore\<close>, \<open>MysqlCell\<close>: \<open>rpc/obmysql/ob_mysql_util.h\<close> and \<open>.cpp\<close>: little-endian stores,
    length-coded integers and strings, the cells of a result row, the null bitmap, zero filling.
  \<^item> \<open>ObStr\<close>: \<open>lib/string/ob_string.h\<close>: the class \<open>ObString\<close> over a heap of objects, because strings
    alias one another; comparison, trimming, splitting, searching, writing, serialisation.
  \<^item> \<open>BitSet\<close>: \<open>lib/container/ob_bit_set.h\<close> and the serialisation of \<open>ob_se_array.h\<close>: a set of integers
    in an array of 32-bit words whose growth may fail; \<open>cap\<close> is how far the array can grow.
  \<^item> \<open>IntrusiveList\<close>: \<open>lib/list/ob_intrusive_list.h\<close>: stacks, doubly linked lists and queues whose links
    are fields of the elements (\<open>links\<close>), with the locale \<open>fifo\<close> for clients that keep several queues.
  \<^item> \<open>Chains\<close>: lists of lists, as buckets and queues: which chain holds an element, what an update of a chain
    does to all elements.
  \<^item> \<open>EventQueue\<close>: \<open>obproxy/iocore/eventsystem/ob_priority_event_queue.h\<close>, the timer queue of an event
    thread: ten intrusive queues by time to go (\<open>pqueue\<close>), events as records at addresses (\<open>world\<close>).
  \<^item> \<open>TimerThread\<close>: that queue in its thread (\<open>ob_ethread.cpp\<close>): the state machine \<open>step\<close>, whose steps are
    the operations in any order and \<open>elsewhere\<close>, what other code may do to the events meanwhile, its
    invariant \<open>timer_inv\<close>, the runs whose checks are close enough together (\<open>timely\<close>), and the effects of the
    operations on reachable states.
  \<^item> \<open>FailHistory\<close>: \<open>ObFailHistory\<close> of \<open>obproxy/obutils/ob_congestion_entry.*\<close>, the ring of 17 bins that
    counts the failures of a server in a sliding window (\<open>fail_history\<close>).
  \<^item> \<open>CongestionEntry\<close>: \<open>ObCongestionEntry\<close> of the same files, the proxy's view of a server's health
    (\<open>centry\<close>): dead, alive, detection and feedback flags, their thresholds, retries, and the shared,
    reference counted configuration and zone, which live in heaps.
  \<^item> \<open>MTHashTable\<close>, \<open>MTHashIter\<close>: \<open>obproxy/obutils/ob_mt_hashtable.h\<close>, the table of 64 partitions (\<open>mt\<close>), each an
    array of chains (\<open>imt\<close>), which holds the entries of servers, tables and partitions; its iterators, and the
    loops over a partition.  The locale \<open>hash_map\<close> says what clients rely on: a sequence of operations
    returns what it would on a map.
  \<^item> \<open>CongestionManager\<close>: \<open>obproxy/obutils/ob_congestion_manager.*\<close>, which keeps the entries of all servers in such a
    table (\<open>cmgr\<close>), with the zones and, for each partition, the requests that found it locked.  What an operation
    finds locked and which clock it reads is its argument (\<open>env\<close>).  \<open>CongestionSafety\<close>: the invariant \<open>sound\<close>, that
    every reference is counted, and the steps all operations are made of; \<open>CongestionOps\<close>: the operations keep
    it; \<open>CongestionRun\<close>: the states reached (\<open>reached\<close>, an inductive relation), new configurations, deferred requests,
    the lock.
  \<^item> \<open>FloatMul\<close>, \<open>PointerHash\<close>, \<open>PointerHashMap\<close>: \<open>lib/hash/ob_pointer_hashmap.h\<close>: arrays of pointers with linear probing
    (\<open>harray\<close>), their sizes, which products with floating-point constants decide, and the map of up to four of them
    (\<open>pmap\<close>), which grows by one more or by a copy.  Hash and key function are arguments (\<open>hfuns\<close>), and so is what
    the allocator answers.  \<open>RefHashMap\<close>: \<open>obproxy/utils/ob_ref_hash_map.h\<close>, the map of counted objects (\<open>rmap\<close>)
    in which the threads keep the entries they use.

  \<^bold>\<open>Lemmas\<close>.  For every encoder an equation gives its result on every buffer, the error
  branch included, and the decoder is shown to read the written bytes (\<open>_wire\<close>, \<open>_eq\<close>); the locale
  interpretations turn these into round trips, frame properties and success conditions, which arrays
  and bit sets reuse.  \<open>content\<close>, \<open>members\<close>, \<open>q_rep\<close>, \<open>pq_rep\<close> and \<open>counted\<close> are the abstractions of
  strings, bit sets, queues, the timer queue and the failure history: sequences of bytes, sets of
  integers, sequences of elements, ten sequences of events, and the failures with the bins they are in.  Each operation is shown to refine its counterpart there.
  The arrays and maps of pointers are finite maps (\<open>ha_map\<close>, \<open>pm_map\<close>), and their operations look-ups and updates; \<open>rh_ok\<close>
  says that every count is that of the outside references and of the map.

  \<^bold>\<open>Bounds and fuel\<close>.  Loops over a counter are structural recursion on the number of iterations left,
  which the code fixes before the loop.  \<open>trim_start\<close>, \<open>trim_end\<close> and \<open>find_from\<close> have the number of
  positions as fuel, each iteration uses one up.  \<open>walk\<close>, \<open>sort_round\<close>, \<open>q_sort\<close> and \<open>drain\<close> are partial,
  because a corrupted list may be a cycle, and so is \<open>slide\<close>, because a history that is not initialised
  has bins of width zero; on well-formed states \<open>walk\<close>, \<open>drain\<close> and \<open>slide\<close> are shown to end.  The loops \<open>visit_all\<close> and \<open>empty_all\<close> over a
  partition have the number of entries as fuel, which is shown to be enough.  The two probing loops count the probes
  left; the loops of \<open>rh_destroy\<close> have a fuel, for which the bytes of a block are enough.  The map is shown right for blocks
  of 256 bytes to \<open>2 ^ 40\<close>, in multiples of 64, which are the sizes that the program has.
  \<open>run_todo_list\<close> and the operations on servers are mutually recursive; the fuel of \<open>run_todo_list\<close> is the depth, and two
  is shown to be enough, because a list that is being worked off is empty.  Inside the operations \<open>None\<close> also
  stands for a thread that waits for the lock it holds.
  The checks of the timer queue may be any time apart, but what it promises about events that are due needs at
  most 256 periods (of one millisecond) between two of them (\<open>timely\<close>): the code looks at nine bits of the
  period number, and with a longer gap it may leave overdue events where they are (\<open>timer_check_skips\<close>).
  Times and the window of a failure history are integers, not bounded to the 64 bits the code has for them,
  which a clock in seconds or nanoseconds does not exhaust.  \<open>memcpy\<close> into a string is undefined on
  overlapping bytes (\<open>overlapping\<close>).

  \<^bold>\<open>Not modelled\<close>.  Logging; the content of floating-point numbers (their bits are moved), apart
  from the two products of \<open>FloatMul\<close>; allocation, apart from its failure; concurrency (the atomic list behind \<open>ObAtomicSLL\<close>); the
  parsers, the optimiser of the SQL dialects, the character sets, routing, the state machine of a
  client session and network input and output, which are the larger part of the program; the compression
  libraries and \<open>deps/easy\<close>, which are third-party code.

  \<^bold>\<open>Plan\<close>.  Next: the look-up of entries with the caches of the threads (\<open>get_congest_entry\<close>) over the counted map, the network buffers of
  \<open>iocore/eventsystem/ob_io_buffer.*\<close>, the OceanBase 2.0 protocol headers and the session state machine.

  The properties follow, numbered C1, C2, ..., each with a witness at a concrete input where it has
  hypotheses.
\<close>

section \<open>The congestion manager\<close>

text \<open>An example: a manager that has a configuration, and another configuration for it.\<close>

definition demo_config :: "int \<Rightarrow> control_config" where
  "demo_config t = \<lparr>ref_count = 1, conn_failure_threshold = t, alive_failure_threshold = 5, fail_window_sec = 120,
     retry_interval_sec = 10, min_keep_congestion_interval_sec = 20\<rparr>"

definition demo_held :: "addr \<Rightarrow> nat" where
  "demo_held a = (if a = 1 \<or> a = 2 then 1 else 0)"

definition demo_env :: "bool \<Rightarrow> nat env" where
  "demo_env free = \<lparr>hash_of = of_nat, blank_ip = 0, part_free = (\<lambda>_. free), hist_free = (\<lambda>_. True), now_ns = 0, now_us = 1\<rparr>"

definition demo_add :: "bool \<Rightarrow> nat env \<times> nat cm_op" where
  "demo_add free = (demo_env free, UpdateServer 5 0 ACTIVE [122] [] False)"

definition demo_start :: "nat cmgr" where
  "demo_start = cm_start (map Some [10..<40]) [1 \<mapsto> demo_config 3, 2 \<mapsto> demo_config 4] 1"

definition demo_run :: "(nat env \<times> nat cm_op) list \<Rightarrow> nat cmgr option" where
  "demo_run l = do { (_, s) \<leftarrow> cm_step (demo_env True) (UpdateConfig 1 True) demo_start; cm_run demo_held l s }"

lemma demo_reached:
  assumes "demo_run l = Some s" and "\<forall>y \<in> set l. hash_of (fst y) = of_nat"
  shows "reached of_nat demo_held (length l) s"
proof -
  from assms(1) obtain ret s0 where s0: "cm_step (demo_env True) (UpdateConfig 1 True) demo_start = Some (ret, s0)" "cm_run demo_held l s0 = Some s"
    by (auto simp: demo_run_def bind_eq_Some_conv)
  have "covered demo_held [1 \<mapsto> demo_config 3, 2 \<mapsto> demo_config 4]" by (simp add: covered_def demo_held_def demo_config_def)
  then have "reached of_nat demo_held 0 s0"
    by (rule reached_init [OF _ _ _ _ s0(1) [unfolded demo_start_def], rotated 2]) (simp_all add: demo_held_def)
  from run_reached [OF this assms(2) s0(2)] show ?thesis by simp
qed

lemma demo_hash [simp]: "hash_of (demo_env b) = of_nat" "part_free (demo_env b) p = b" "fst (demo_add b) = demo_env b"
  by (simp_all add: demo_env_def demo_add_def)

text \<open>C1. Reference counting of the congestion manager is right.  Take any state that a manager reaches with a new
  table and configurations that are counted as often as the callers hold them: by updates of configuration, zones
  and servers, removals and runs of to-do lists in any order, each with any partitions locked by other
  threads (requests are deferred then), any allocations failing and any clock.  Every count is at least the number
  of references from the table, the entries, the to-do lists, the zone array and the callers; every entry
  that can be found in the table is there, with its configuration and zone; and every next operation that is
  allowed returns, so it touches no freed object, no null pointer and no memory behind a zone name, and does
  not wait for a lock of its own.\<close>

theorem manager_references:
  assumes "reached hf C k s" and "int (Suc k) < 2 ^ 62"
  shows "covered (erefs s) (ents s) \<and> covered (\<lambda>a. crefs s a + C a) (cfgs s) \<and> covered (zrefs s) (zns s)
    \<and> (\<forall>x a. mt_content (table s) x = Some (Some a) \<longrightarrow>
         (\<exists>e c. ents s a = Some e \<and> 0 < ref_count e \<and> control_config e = Some c \<and> cfgs s c \<noteq> None
            \<and> (\<forall>z. zone_state e = Some z \<longrightarrow> zns s z \<noteq> None)))
    \<and> (\<forall>V x. hash_of V = hf \<and> op_fits C V x \<and> calm_for V x s \<longrightarrow> (\<exists>ret s'. cm_step V x s = Some (ret, s')))"
proof -
  have s: "sound hf (\<lambda>_. 0) C (\<lambda>_. 0) (Suc 0) s" "ready s" using reached_sound [OF assms(1), of "Suc 0"] assms(2) by simp_all
  have "\<exists>e c. ents s a = Some e \<and> 0 < ref_count e \<and> control_config e = Some c \<and> cfgs s c \<noteq> None
      \<and> (\<forall>z. zone_state e = Some z \<longrightarrow> zns s z \<noteq> None)" if "mt_content (table s) x = Some (Some a)" for x a
    using found_alive [OF s(1) that] by blast
  moreover have "\<exists>ret s'. cm_step V x s = Some (ret, s')" if "hash_of V = hf \<and> op_fits C V x \<and> calm_for V x s" for V x
    using step_sound [OF s] that by blast
  ultimately show ?thesis using soundD(2-4) [OF s(1)] by simp
qed

text \<open>The server is added while its partition is locked, and found after the list has been worked off.\<close>

theorem manager_references_witness:
  "\<exists>s e. demo_run [demo_add False, (demo_env True, RunTodoList 5)] = Some s \<and> mt_content (table s) (5, 5) = Some (Some 13)
     \<and> ents s 13 = Some e \<and> 0 < ref_count e \<and> (\<exists>ret s'. cm_step (demo_env False) RemoveAllRecords s = Some (ret, s'))"
proof -
  let ?l = "[demo_add False, (demo_env True, RunTodoList 5)]"
  have "map_option (\<lambda>s. mt_content (table s) (5, 5)) (demo_run ?l) = Some (Some (Some 13))" by code_simp
  then obtain s where s: "demo_run ?l = Some s" "mt_content (table s) (5, 5) = Some (Some 13)" by auto
  have "reached of_nat demo_held (length ?l) s" by (rule demo_reached [OF s(1)]) simp
  note m = manager_references [OF this]
  have "\<exists>e. ents s 13 = Some e \<and> 0 < ref_count e" using m s(2) by fastforce
  moreover have "\<exists>ret s'. cm_step (demo_env False) RemoveAllRecords s = Some (ret, s')"
    using m by (auto simp del: cm_step.simps)
  ultimately show ?thesis using s by blast
qed

text \<open>C2. In every state a manager reaches its data is well-formed: each entry of the table is in the partition of its
  hash and not null; the to-do lists are as many as partitions, and each request on them has what its
  operation needs (an entry to add, a partition to empty, and for a server a zone and the hash of its address,
  which belongs to that list); an entry that has a configuration has initialised histories; and the names
  of every zone fit into their arrays.\<close>

theorem manager_types:
  assumes "reached hf C k s" and "int k < 2 ^ 62"
  shows "(\<forall>x p. mt_content (table s) x \<noteq> Some None \<and> (p < MT_HASHTABLE_PARTITIONS \<longrightarrow> tab (table s ! p) x \<noteq> None \<longrightarrow> part_num (fst x) = p))
    \<and> length (todo s) = MT_HASHTABLE_PARTITIONS \<and> (\<forall>p < MT_HASHTABLE_PARTITIONS. \<forall>x \<in> set (todo s ! p). request_ok hf p x)
    \<and> (\<forall>a e. ents s a = Some e \<longrightarrow> ent_ok e) \<and> (\<forall>z y. zns s z = Some y \<longrightarrow> names_ok y)"
proof -
  have "shape hf 0 s" using reached_sound [OF assms(1), of 0] assms(2) soundD(1) by auto
  then have sh: "homed (table s)" "None \<notin> ran (mt_content (table s))" "length (todo s) = MT_HASHTABLE_PARTITIONS"
    "\<forall>p < length (todo s). \<forall>x \<in> set (todo s ! p). request_ok hf p x" "\<forall>e \<in> ran (ents s). ent_ok e" "\<forall>z \<in> ran (zns s). names_ok z"
    "length (table s) = MT_HASHTABLE_PARTITIONS" by (simp_all add: shape_def mt_fits_def)
  have "part_num (fst x) = p" if "p < MT_HASHTABLE_PARTITIONS" "tab (table s ! p) x \<noteq> None" for x p
    using homedD [OF sh(1) _ that(2)] that(1) sh(7) by simp
  then show ?thesis using sh(2-6) by (auto simp: ran_def)
qed

theorem manager_types_witness:
  "\<exists>s. demo_run [demo_add False] = Some s \<and> length (todo s ! 5) = 1 \<and> (\<forall>x \<in> set (todo s ! 5). request_ok of_nat 5 x)"
proof -
  have "map_option (\<lambda>s. length (todo s ! 5)) (demo_run [demo_add False]) = Some 1" by code_simp
  then obtain s where s: "demo_run [demo_add False] = Some s" "length (todo s ! 5) = 1" by auto
  have "reached of_nat demo_held (length [demo_add False]) s" by (rule demo_reached [OF s(1)]) simp
  from manager_types [OF this] s show ?thesis
    by (simp add: MT_HASHTABLE_PARTITIONS_def MT_HASHTABLE_PARTITION_BITS_def)
qed

text \<open>C3. When no partition is locked and no request is pending, an update with a configuration that differs
  from the current one succeeds, takes the current one's place, and leaves every entry of the table pointing to
  it, with the table as it was.\<close>

theorem new_configuration:
  assumes "reached hf C k s" and "int k < 2 ^ 62" and "0 < C c" and "cm_config s = Some old"
    and "cfgs s old = Some c0" and "cfgs s c = Some c1" and "\<not> config_eq c0 c1"
    and "\<forall>p < MT_HASHTABLE_PARTITIONS. part_free V p \<and> todo s ! p = []"
  shows "\<exists>s'. update_congestion_config full_run V (Some c) False s = Some (OB_SUCCESS, s') \<and> cm_config s' = Some c \<and> table s' = table s
    \<and> (\<forall>x a. mt_content (table s') x = Some (Some a) \<longrightarrow> (\<exists>e. ents s' a = Some e \<and> control_config e = Some c))"
proof -
  have s: "sound hf (\<lambda>_. 0) C (\<lambda>_. 0) 0 s" "cm_inited s" "\<not> rw_held s"
    using reached_sound [OF assms(1), of 0] assms(2) by (simp_all add: ready_def)
  from new_config_everywhere [OF s(1) assms(3) s(2,3) assms(4-8)] show ?thesis unfolding configured_def by blast
qed

theorem new_configuration_witness:
  "\<exists>s s' e e'. demo_run [demo_add True] = Some s \<and> ents s 11 = Some e \<and> control_config e = Some 1
    \<and> update_congestion_config full_run (demo_env True) (Some 2) False s = Some (OB_SUCCESS, s')
    \<and> ents s' 11 = Some e' \<and> control_config e' = Some 2"
proof -
  have "map_option (\<lambda>s. (cm_config s, map_option conn_failure_threshold (cfgs s 1), map_option conn_failure_threshold (cfgs s 2)))
      (demo_run [demo_add True]) = Some (Some 1, Some 3, Some 4)" by code_simp
  then obtain s c0 c1 where s: "demo_run [demo_add True] = Some s" and c: "cm_config s = Some 1" "cfgs s 1 = Some c0" "cfgs s 2 = Some c1"
    "conn_failure_threshold c0 = 3" "conn_failure_threshold c1 = 4" by auto
  have "map_option (\<lambda>s. (todo s, mt_content (table s) (5, 5), map_option control_config (ents s 11))) (demo_run [demo_add True])
      = Some (replicate MT_HASHTABLE_PARTITIONS [], Some (Some 11), Some (Some 1))" by code_simp
  then obtain e where e: "todo s = replicate MT_HASHTABLE_PARTITIONS []" "mt_content (table s) (5, 5) = Some (Some 11)"
    "ents s 11 = Some e" "control_config e = Some 1" using s by auto
  have r: "reached of_nat demo_held (length [demo_add True]) s" by (rule demo_reached [OF s]) simp
  have "\<not> config_eq c0 c1" using c(4,5) by (simp add: config_eq_def)
  moreover have "\<forall>p < MT_HASHTABLE_PARTITIONS. part_free (demo_env True) p \<and> todo s ! p = []" using e(1) by simp
  ultimately obtain s' where "update_congestion_config full_run (demo_env True) (Some 2) False s = Some (OB_SUCCESS, s')" "table s' = table s"
    "\<forall>x a. mt_content (table s') x = Some (Some a) \<longrightarrow> (\<exists>e. ents s' a = Some e \<and> control_config e = Some 2)"
    using new_configuration [OF r _ _ c(1-3), of "demo_env True"] by (auto simp: demo_held_def)
  with s e(2-4) show ?thesis by fastforce
qed

text \<open>C4. The same update never returns when a partition it comes to has a deferred server to add that is not in the
  table: it holds \<open>rw_lock_\<close> for writing while it works off the list, and adding a server asks for the
  configuration, which takes the lock for reading.\<close>

theorem update_waits_for_itself:
  assumes "reached hf C k s" and "int k < 2 ^ 62" and "0 < C c" and "cm_config s = Some old"
    and "cfgs s old = Some c0" and "cfgs s c = Some c1" and "\<not> config_eq c0 c1"
    and "\<forall>q < MT_HASHTABLE_PARTITIONS. part_free V q" and "p < MT_HASHTABLE_PARTITIONS" and "\<forall>q < p. todo s ! q = []" and "todo s ! p = [x]"
    and "rq_op x = REVALIDATE_SERVER" and "rq_server_state x \<noteq> DELETED" and "mt_content (table s) (rq_hash x, rq_key x) = None"
  shows "update_congestion_config full_run V (Some c) False s = None"
proof -
  have s: "sound hf (\<lambda>_. 0) C (\<lambda>_. 0) 0 s" "ready s" using reached_sound [OF assms(1), of 0] assms(2) by simp_all
  show ?thesis by (rule update_waits [OF s(1) assms(3) s(2) assms(4-)])
qed

theorem update_waits_for_itself_witness:
  "\<exists>s. demo_run [demo_add False] = Some s \<and> update_congestion_config full_run (demo_env True) (Some 2) False s = None"
proof -
  have "map_option (\<lambda>s. (cm_config s, map_option conn_failure_threshold (cfgs s 1), map_option conn_failure_threshold (cfgs s 2)))
      (demo_run [demo_add False]) = Some (Some 1, Some 3, Some 4)" by code_simp
  then obtain s c0 c1 where s: "demo_run [demo_add False] = Some s" and c: "cm_config s = Some 1" "cfgs s 1 = Some c0" "cfgs s 2 = Some c1"
    "conn_failure_threshold c0 = 3" "conn_failure_threshold c1 = 4" by auto
  have "map_option (\<lambda>s. (take 5 (todo s), map (\<lambda>x. (rq_op x, rq_server_state x, mt_content (table s) (rq_hash x, rq_key x))) (todo s ! 5)))
      (demo_run [demo_add False]) = Some (replicate 5 [], [(REVALIDATE_SERVER, ACTIVE, None)])" by code_simp
  then obtain x where e: "take 5 (todo s) = replicate 5 []" "todo s ! 5 = [x]" "rq_op x = REVALIDATE_SERVER" "rq_server_state x \<noteq> DELETED"
    "mt_content (table s) (rq_hash x, rq_key x) = None" using s by auto
  have r: "reached of_nat demo_held (length [demo_add False]) s" by (rule demo_reached [OF s]) simp
  have n: "\<not> config_eq c0 c1" using c(4,5) by (simp add: config_eq_def)
  have "todo s ! q = []" if "q < 5" for q using that arg_cong [OF e(1), of "\<lambda>l. l ! q"] by simp
  then have q: "\<forall>q < 5. todo s ! q = []" by blast
  have p: "5 < MT_HASHTABLE_PARTITIONS" by (simp add: MT_HASHTABLE_PARTITIONS_def MT_HASHTABLE_PARTITION_BITS_def)
  have free: "\<forall>q < MT_HASHTABLE_PARTITIONS. part_free (demo_env True) q" by simp
  have "update_congestion_config full_run (demo_env True) (Some 2) False s = None"
    by (rule update_waits_for_itself [OF r _ _ c(1-3) n free p q e(2-5)]) (simp_all add: demo_held_def)
  with s show ?thesis by blast
qed

text \<open>C5. A new entry whose partition is locked is deferred, with a reference of its own.  Working off the list later
  processes the requests that were pending before, whatever they are, and then, in the state \<open>t\<close> they leave,
  enters the entry for the address: in place of an older entry if there is one, and otherwise when there is
  memory for a cell of the table then; without memory nothing is entered.  No other address is affected.\<close>

theorem deferred_addition:
  assumes "reached hf C k s" and "int (Suc k) < 2 ^ 62" and "ents s a = Some e" and "control_config e \<noteq> None"
    and "\<not> part_free V (part_num (hash_of V ip))" and "add_record full_run V ip a False s = Some (OB_SUCCESS, s1)"
    and "hash_of V' = hf" and "part_free V' (part_num (hash_of V ip))"
  shows "\<exists>t s2. process_all (run_todo_list 1) V' (part_num (hash_of V ip)) (rev (todo s ! part_num (hash_of V ip)))
      (s1\<lparr>todo := (todo s1)[part_num (hash_of V ip) := []]\<rparr>) = Some t
    \<and> full_run V' (part_num (hash_of V ip)) s1 = Some (OB_SUCCESS, s2)
    \<and> mt_content (table s2) = (if fst (mem_alloc t) \<or> mt_content (table t) (hash_of V ip, ip) \<noteq> None
        then (mt_content (table t))((hash_of V ip, ip) \<mapsto> Some a) else mt_content (table t))"
proof -
  have s: "sound hf (\<lambda>_. 0) C (\<lambda>_. 0) (Suc 0) s" "ready s" using reached_sound [OF assms(1), of "Suc 0"] assms(2) by simp_all
  from add_later [OF s assms(3-8)] show ?thesis by blast
qed

text \<open>The entry of the server is entered for a second address, which had none.\<close>

theorem deferred_addition_witness:
  "\<exists>s s1 s2. demo_run [demo_add True] = Some s \<and> mt_content (table s) (6, 6) = None
    \<and> add_record full_run (demo_env False) 6 11 False s = Some (OB_SUCCESS, s1)
    \<and> full_run (demo_env True) 6 s1 = Some (OB_SUCCESS, s2) \<and> mt_content (table s2) (6, 6) = Some (Some 11)"
proof -
  have "map_option (\<lambda>s. (map_option control_config (ents s 11), todo s ! 6, mt_content (table s) (6, 6),
        map_option (\<lambda>(ret, s1). (ret, fst (mem_alloc (s1\<lparr>todo := (todo s1)[6 := []]\<rparr>)))) (add_record full_run (demo_env False) 6 11 False s)))
      (demo_run [demo_add True]) = Some (Some (Some 1), [], None, Some (OB_SUCCESS, True))" by code_simp
  then obtain s e s1 where s: "demo_run [demo_add True] = Some s" and e: "ents s 11 = Some e" "control_config e \<noteq> None"
    "add_record full_run (demo_env False) 6 11 False s = Some (OB_SUCCESS, s1)"
    and m: "todo s ! 6 = []" "fst (mem_alloc (s1\<lparr>todo := (todo s1)[6 := []]\<rparr>))" "mt_content (table s) (6, 6) = None" by auto
  have p: "part_num 6 = 6" by code_simp
  have r: "reached of_nat demo_held (length [demo_add True]) s" by (rule demo_reached [OF s]) simp
  from deferred_addition [OF r _ e(1,2) _ e(3), of "demo_env True"] s e(3) p m show ?thesis by fastforce
qed

text \<open>C6. A removal whose partition is free works off the pending requests first and then takes the address out of
  the table that this leaves, whatever was pending.  One whose partition is locked reports success too, but
  the deferred request is stored without the hash of the address: working off the list later, after the
  requests that were pending before it, takes out only what the table has for the address under hash 0, so
  that an entry with another hash is left as those requests left it.\<close>

theorem deferred_removal:
  assumes "reached hf C k s" and "int k < 2 ^ 62" and "hash_of V = hf"
  shows "(part_free V (part_num (hf ip)) \<longrightarrow>
      (\<exists>t s'. full_run V (part_num (hf ip)) s = Some (OB_SUCCESS, t) \<and> remove_record full_run V ip s = Some (OB_SUCCESS, s')
        \<and> mt_content (table s') = (mt_content (table t))((hf ip, ip) := None)))
    \<and> (\<not> part_free V (part_num (hf ip)) \<and> remove_record full_run V ip s = Some (OB_SUCCESS, s1)
        \<and> hash_of V' = hf \<and> part_free V' (part_num (hf ip)) \<longrightarrow>
      (\<exists>t s2. process_all (run_todo_list 1) V' (part_num (hf ip)) (rev (todo s ! part_num (hf ip)))
            (s1\<lparr>todo := (todo s1)[part_num (hf ip) := []]\<rparr>) = Some t
        \<and> full_run V' (part_num (hf ip)) s1 = Some (OB_SUCCESS, s2)
        \<and> mt_content (table s2) = (mt_content (table t))((0, ip) := None)))"
proof -
  have s: "sound hf (\<lambda>_. 0) C (\<lambda>_. 0) 0 s" "ready s" using reached_sound [OF assms(1), of 0] assms(2) by simp_all
  from remove_now [OF s assms(3), of ip] remove_later [OF s _ _ assms(3), of ip s1 V'] show ?thesis unfolding assms(3) by blast
qed

theorem deferred_removal_witness:
  "\<exists>s s' s1 s2. demo_run [demo_add True] = Some s \<and> mt_content (table s) (5, 5) = Some (Some 11)
    \<and> remove_record full_run (demo_env True) 5 s = Some (OB_SUCCESS, s') \<and> mt_content (table s') (5, 5) = None
    \<and> remove_record full_run (demo_env False) 5 s = Some (OB_SUCCESS, s1)
    \<and> full_run (demo_env True) 5 s1 = Some (OB_SUCCESS, s2) \<and> mt_content (table s2) (5, 5) = Some (Some 11)"
proof -
  have "map_option (\<lambda>s. (todo s ! 5, mt_content (table s) (5, 5),
        map_option (\<lambda>(ret, s1). (ret, mt_content (table s1) (5, 5))) (remove_record full_run (demo_env False) 5 s))) (demo_run [demo_add True])
      = Some ([], Some (Some 11), Some (OB_SUCCESS, Some (Some 11)))" by code_simp
  then obtain s s1 where s: "demo_run [demo_add True] = Some s" and e: "todo s ! 5 = []" "mt_content (table s) (5, 5) = Some (Some 11)"
    "remove_record full_run (demo_env False) 5 s = Some (OB_SUCCESS, s1)" "mt_content (table s1) (5, 5) = Some (Some 11)" by auto
  have p: "part_num 5 = 5" by code_simp
  have r: "reached of_nat demo_held (length [demo_add True]) s" by (rule demo_reached [OF s]) simp
  show ?thesis
    using deferred_removal [OF r, of "demo_env True" 5] deferred_removal [OF r, of "demo_env False" 5 s1 "demo_env True"] s e
    by (fastforce simp: p)
qed

section \<open>Pointer hash maps\<close>

text \<open>An example: values are pairs of a key and a payload, blocks have 256 bytes (24 cells, 16 of them to be used).\<close>

definition demo_F :: "(nat, nat \<times> nat) hfuns" where
  "demo_F = \<lparr>key_hash = of_nat, key_of = fst\<rparr>"

fun demo_fill :: "nat \<Rightarrow> (nat \<times> nat) pmap option" where
  "demo_fill 0 = Some (new_pmap 256)"
| "demo_fill (Suc n) = do {
     m \<leftarrow> demo_fill n;
     (_, _, m') \<leftarrow> pm_set_refactored demo_F (\<lambda>_. True) m n (Full (n, 7)) False;
     (if sub_map_mem_size m = 256 then Some m' else None)
   }"

lemma demo_key [simp]: "key_of demo_F v = fst v"
  by (simp add: demo_F_def)

lemma demo_new: "pm_ok demo_F (new_pmap 256)" "pm_map demo_F (new_pmap 256) = Map.empty" "sub_map_mem_size (new_pmap 256) = 256"
  using new_pmap_ok(1) [where s = 256 and F = demo_F] new_pmap_ok(2) [where s = 256 and F = demo_F] by (simp_all add: size_ok_def new_pmap_def)

lemma demo_fill_ok: "demo_fill n = Some m \<Longrightarrow> pm_ok demo_F m \<and> pm_map demo_F m = (\<lambda>k. if k < n then Some (k, 7) else None)"
proof (induction n arbitrary: m)
  case (Suc n)
  then obtain m0 ret over where m0: "demo_fill n = Some m0" "sub_map_mem_size m0 = 256"
      "pm_set_refactored demo_F (\<lambda>_. True) m0 n (Full (n, 7)) False = Some (ret, over, m)"
    by (auto simp: bind_eq_Some_conv split: if_splits)
  have ok: "pm_ok demo_F m0" "pm_map demo_F m0 = (\<lambda>k. if k < n then Some (k, 7) else None)"
    using Suc.IH [OF m0(1)] by auto
  have "pm_ok demo_F m \<and> pm_map demo_F m = (pm_map demo_F m0)(n \<mapsto> (n, 7))"
    using pm_set_spec [where F = demo_F and v = "(n, 7)" and k = n and alloc = "\<lambda>_. True" and ow = False, OF ok(1)] m0(2,3) ok(2)
    by (auto split: if_splits)
  then show ?case
    unfolding ok(2) by (auto simp: fun_eq_iff less_Suc_eq)
qed (simp add: demo_new)

text \<open>C7. \<open>ObPointerHashMap::set_refactored\<close> with a value that has the key is an update of a finite map.  For a map whose
  blocks have a size as the code makes them, up to \<open>2 ^ 40\<close> bytes: a key that exists keeps its value or gets the new
  one, as asked for, and the old one is returned; a new key is added, whatever arrays have to be added
  or copied for it, when the allocator gives the memory.  When it does not, the call fails, and the map is as it was or
  empty.  In each case the map is well-formed again: no key is twice in it, every entry is found by its
  probe, the arrays before the last are full, and its count of items is the number of keys.\<close>

theorem hash_map_set:
  assumes "pm_ok F m" and "sub_map_mem_size m \<le> 2 ^ 40" and "key_of F v = k"
  shows "\<exists>ret over m'. pm_set_refactored F alloc m k (Full v) ow = Some (ret, over, m') \<and> pm_ok F m' \<and>
    pm_item_count m' = int (card (dom (pm_map F m'))) \<and> sub_map_mem_size m' \<in> {sub_map_mem_size m..8 * sub_map_mem_size m} \<and>
    (case pm_map F m k of
       Some w \<Rightarrow> if ow then ret = OB_SUCCESS \<and> over = Full w \<and> pm_map F m' = (pm_map F m)(k \<mapsto> v)
         else ret = OB_HASH_EXIST \<and> over = Empty \<and> m' = m
     | None \<Rightarrow> over = Empty \<and>
         (if ret = OB_SUCCESS then pm_map F m' = (pm_map F m)(k \<mapsto> v)
          else \<not> (alloc 0 \<and> alloc 1) \<and> (ret = OB_ALLOCATE_MEMORY_FAILED \<or> ret = OB_ERR_UNEXPECTED) \<and>
            (pm_map F m' = pm_map F m \<or> pm_map F m' = Map.empty)))"
  using pm_set_spec [OF assms, of alloc ow] pm_item_count_spec by (elim exE conjE) blast

theorem hash_map_set_witness:
  "\<exists>m'. pm_set_refactored demo_F (\<lambda>_. True) (new_pmap 256) 1 (Full (1, 7)) False = Some (OB_SUCCESS, Empty, m') \<and>
    pm_map demo_F m' 1 = Some (1, 7) \<and> pm_item_count m' = 1"
  using hash_map_set [where v = "(1, 7)" and k = 1 and alloc = "\<lambda>_. True" and ow = False, OF demo_new(1)] by (auto simp: demo_new split: if_splits)

text \<open>C8. The reading operations and the removal are those of the map: \<open>get\<close> and \<open>get_refactored\<close> return what is under the
  key, and \<open>erase_refactored\<close> returns it and removes it, or reports that there is nothing and changes nothing.  The
  error tells a map without an array from a key that does not exist.\<close>

theorem hash_map_lookup:
  assumes "pm_ok F m"
  shows "pm_get F m k = Some (map_option Full (pm_map F m k)) \<and>
    pm_get_refactored F m k = Some (case pm_map F m k of
        Some v \<Rightarrow> (OB_SUCCESS, Some (Full v))
      | None \<Rightarrow> (if sub_map_count m = 0 then OB_NOT_INIT else OB_HASH_NOT_EXIST, None)) \<and>
    (\<exists>m'. pm_erase_refactored F m k = Some (case pm_map F m k of
        Some v \<Rightarrow> (OB_SUCCESS, Full v, m')
      | None \<Rightarrow> (if sub_map_count m = 0 then OB_NOT_INIT else OB_HASH_NOT_EXIST, Empty, m)) \<and>
      (pm_map F m k \<noteq> None \<longrightarrow> pm_ok F m' \<and> pm_map F m' = (pm_map F m)(k := None) \<and> sub_map_mem_size m' = sub_map_mem_size m))"
  by (intro conjI pm_get_spec [OF assms] pm_get_refactored_spec [OF assms] pm_erase_refactored_spec [OF assms])

text \<open>A map of three entries.\<close>

theorem hash_map_lookup_witness:
  "\<exists>m. demo_fill 3 = Some m \<and> pm_get demo_F m 2 = Some (Some (Full (2, 7))) \<and> pm_get demo_F m 5 = Some None \<and>
    (\<exists>m'. pm_erase_refactored demo_F m 2 = Some (OB_SUCCESS, Full (2, 7), m') \<and> pm_map demo_F m' 2 = None)"
proof -
  have "map_option sub_map_count (demo_fill 3) = Some 1"
    by code_simp
  then obtain m where m1: "demo_fill 3 = Some m"
    by auto
  note m = m1 demo_fill_ok [OF m1, THEN conjunct1] demo_fill_ok [OF m1, THEN conjunct2]
  show ?thesis
    using m hash_map_lookup [OF m(2), of 2] hash_map_lookup [OF m(2), of 5] by auto
qed

text \<open>C9. The counted map keeps the books.  When every object has one reference for each holder outside and one when the
  map contains it, the same holds after \<open>set\<close> by a holder (with memory available), which puts the object under
  its key and gives back the reference to the one before, after \<open>get\<close>, which adds the caller to the holders, and after
  \<open>erase\<close>.  None of them counts on an object that has been freed.\<close>

theorem counted_map_operations:
  assumes "rh_ok F held r"
  shows "(0 < held v \<and> sub_map_mem_size (pointer_map r) \<le> 2 ^ 40 \<and> alloc 0 \<and> alloc 1 \<longrightarrow>
      (\<exists>r'. rh_set F alloc r (Some v) = Some (OB_SUCCESS, Some v, r') \<and> rh_ok F held r' \<and>
        pm_map F (pointer_map r') = (pm_map F (pointer_map r))(key_of F v \<mapsto> v))) \<and>
    (\<exists>r'. rh_get F r k = Some (pm_map F (pointer_map r) k, r') \<and> pointer_map r' = pointer_map r \<and>
      rh_ok F (case pm_map F (pointer_map r) k of Some v \<Rightarrow> held(v := held v + 1) | None \<Rightarrow> held) r') \<and>
    (\<exists>r'. rh_erase F r k = Some (case pm_map F (pointer_map r) k of
          Some v \<Rightarrow> OB_SUCCESS
        | None \<Rightarrow> if sub_map_count (pointer_map r) = 0 then OB_NOT_INIT else OB_HASH_NOT_EXIST, r') \<and>
      rh_ok F held r' \<and> pm_map F (pointer_map r') = (pm_map F (pointer_map r))(k := None))"
proof (intro conjI impI)
  assume "0 < held v \<and> sub_map_mem_size (pointer_map r) \<le> 2 ^ 40 \<and> alloc 0 \<and> alloc 1"
  then show "\<exists>r'. rh_set F alloc r (Some v) = Some (OB_SUCCESS, Some v, r') \<and> rh_ok F held r' \<and>
      pm_map F (pointer_map r') = (pm_map F (pointer_map r))(key_of F v \<mapsto> v)"
    by (intro rh_set_spec [OF assms]) simp_all
qed (rule rh_get_spec [OF assms] rh_erase_spec [OF assms])+

text \<open>A map of counted objects, each of which somebody holds.\<close>

definition demo_counted :: "(nat \<times> nat) pmap \<Rightarrow> (nat \<times> nat) rmap" where
  "demo_counted m = \<lparr>is_inited = True, pointer_map = m, refs = (\<lambda>v. 1 + of_bool (pm_map demo_F m (fst v) = Some v))\<rparr>"

lemma demo_counted_ok: "pm_ok demo_F m \<Longrightarrow> rh_ok demo_F (\<lambda>_. 1) (demo_counted m)"
  by (simp add: rh_ok_def demo_counted_def in_map_def)

theorem counted_map_operations_witness:
  "\<exists>r r'. rh_set demo_F (\<lambda>_. True) (demo_counted (new_pmap 256)) (Some (1, 7)) = Some (OB_SUCCESS, Some (1, 7), r) \<and>
    refs r (1, 7) = 2 \<and> rh_get demo_F r 1 = Some (Some (1, 7), r') \<and> refs r' (1, 7) = 3"
proof -
  let ?c = "demo_counted (new_pmap 256)"
  have c: "rh_ok demo_F (\<lambda>_. 1) ?c" "sub_map_mem_size (pointer_map ?c) \<le> 2 ^ 40" "pm_map demo_F (pointer_map ?c) = Map.empty"
    using demo_counted_ok [OF demo_new(1)] by (simp_all add: demo_counted_def demo_new)
  obtain r where r: "rh_set demo_F (\<lambda>_. True) ?c (Some (1, 7)) = Some (OB_SUCCESS, Some (1, 7), r)"
      "rh_ok demo_F (\<lambda>_. 1) r" "pm_map demo_F (pointer_map r) 1 = Some (1, 7)"
    using counted_map_operations [where k = 1 and v = "(1, 7)" and alloc = "\<lambda>_. True", OF c(1)] c(2,3) by auto
  obtain r' where r': "rh_get demo_F r 1 = Some (Some (1, 7), r')" "pointer_map r' = pointer_map r"
      "rh_ok demo_F ((\<lambda>_. 1)((1, 7) := 2)) r'"
    using counted_map_operations [where k = 1 and v = "(1, 7)" and alloc = "\<lambda>_. True", OF r(2)] r(3) by auto
  show ?thesis
    using r r' by (intro exI [of _ r] exI [of _ r']) (auto simp: rh_ok_def in_map_def)
qed

text \<open>C10. A set that finds the only array full, where the size of its block asks for a copy and the allocator has no
  memory, answers with an error after emptying the map, and the objects that were in it keep the references of
  the map for ever.\<close>

theorem counted_map_leak:
  assumes "rh_ok F held r" and "0 < held v" and "sub_map_mem_size (pointer_map r) \<le> 2 ^ 40"
    and "sub_map_count (pointer_map r) = 1" and "all_full (arrays (pointer_map r))"
    and "\<forall>a\<in>set (arrays (pointer_map r)). Erased \<notin> set (slots a)"
    and "sub_map_mem_size (pointer_map r) \<noteq> OB_MALLOC_NORMAL_BLOCK_SIZE"
    and "sub_map_mem_size (pointer_map r) \<noteq> OB_MALLOC_BIG_BLOCK_SIZE"
    and "pm_map F (pointer_map r) (key_of F v) = None" and "\<not> alloc 1"
  shows "\<exists>r'. rh_set F alloc r (Some v) = Some (OB_ERR_UNEXPECTED, None, r') \<and> refs r' = refs r \<and>
    pm_map F (pointer_map r') = Map.empty"
  using assms by (rule rh_set_leaks)

text \<open>Sixteen entries are in the map, and a seventeenth is set.\<close>

theorem counted_map_leak_witness:
  "\<exists>m r'. demo_fill 16 = Some m \<and> refs (demo_counted m) (3, 7) = 2 \<and>
    rh_set demo_F (\<lambda>_. False) (demo_counted m) (Some (99, 7)) = Some (OB_ERR_UNEXPECTED, None, r') \<and>
    refs r' (3, 7) = 2 \<and> pm_map demo_F (pointer_map r') 3 = None"
proof -
  have "map_option (\<lambda>m. (sub_map_count m, sub_map_mem_size m, list_all (\<lambda>a. used a = max_entries a) (arrays m),
      list_all (\<lambda>a. list_all (\<lambda>c. c \<noteq> Erased) (slots a)) (arrays m))) (demo_fill 16) = Some (1, 256, True, True)"
    by code_simp
  then obtain m where m1: "demo_fill 16 = Some m" "sub_map_count m = 1" "sub_map_mem_size m = 256" "all_full (arrays m)"
      "\<forall>a\<in>set (arrays m). Erased \<notin> set (slots a)"
    by (auto simp: all_full_def list_all_iff)
  have m: "pm_ok demo_F m" "pm_map demo_F m 3 = Some (3, 7)" "pm_map demo_F m 99 = None"
    using demo_fill_ok [OF m1(1)] by auto
  have "\<exists>r'. rh_set demo_F (\<lambda>_. False) (demo_counted m) (Some (99, 7)) = Some (OB_ERR_UNEXPECTED, None, r') \<and>
      refs r' = refs (demo_counted m) \<and> pm_map demo_F (pointer_map r') = Map.empty"
    using m m1 by (intro counted_map_leak [OF demo_counted_ok [OF m(1)]])
      (simp_all add: demo_counted_def OB_MALLOC_NORMAL_BLOCK_SIZE_def OB_MALLOC_BIG_BLOCK_SIZE_def)
  then show ?thesis
    using m m1(1) by (auto simp: demo_counted_def)
qed

text \<open>C11. \<open>destroy\<close> of a counted map returns (the loops need no more rounds than a block has bytes), and gives back
  exactly the references of the map: afterwards every object has those of its holders.  But the map must not be used
  again: \<open>init\<close> accepts it, and creates an array whose capacity is computed from a block of size zero.\<close>

theorem counted_map_destroy:
  assumes "rh_ok F held r" and "is_inited r" and "sub_map_mem_size (pointer_map r) < int fuel"
  shows "\<exists>r'. rh_destroy fuel r = Some r' \<and> refs r' = held \<and> \<not> is_inited r' \<and> sub_map_count (pointer_map r') = 0 \<and>
    rh_init True r' = None"
  by (rule rh_destroy_spec [OF assms])

theorem counted_map_destroy_witness:
  "\<exists>m r'. demo_fill 3 = Some m \<and> refs (demo_counted m) (2, 7) = 2 \<and> rh_destroy 300 (demo_counted m) = Some r' \<and> refs r' (2, 7) = 1"
proof -
  have "map_option sub_map_mem_size (demo_fill 3) = Some 256"
    by code_simp
  then obtain m where m: "demo_fill 3 = Some m" "sub_map_mem_size m = 256"
    by auto
  note ok = demo_fill_ok [OF m(1)]
  show ?thesis
    using m ok counted_map_destroy [OF demo_counted_ok [OF ok [THEN conjunct1]], of 300] by (auto simp: demo_counted_def)
qed

section \<open>The partitioned hash table\<close>

text \<open>C12. A table without a garbage-collection function that \<open>init\<close> has built out of a positive number of buckets,
  every allocation succeeding then and later, answers every sequence of look-ups, insertions and removals
  the way a map from hashes with keys to pointers does, also when the table grows on the way (buckets at first and insertions are fewer than \<open>2\<^sup>62\<close>): an insertion returns the pointer it replaced, null when there was none or the same one, and
  a look-up or removal the pointer of exactly the last insertion with that hash and key.\<close>

theorem table_refines_map:
  fixes ops :: "(u64 \<times> 'k, 'v) table_op list"
  assumes "0 < sz" and "sz < 2 ^ 62" and "int (puts ops) < 2 ^ 62"
  shows "\<exists>T T'. mt_init False (replicate MT_HASHTABLE_PARTITIONS (True, True, True)) sz [] = (OB_SUCCESS, True, T)
    \<and> run_ops (\<lambda>(h, k). mt_lookup h k) (\<lambda>(h, k). mt_insert True True None h k) (\<lambda>(h, k). mt_remove h k) ops T
       = Some (fst (map_ops ops Map.empty), T')
    \<and> mt_content T' = snd (map_ops ops Map.empty)"
proof -
  from new_table [OF assms] obtain T :: "('k, 'v) mt" where T:
    "mt_init False (replicate MT_HASHTABLE_PARTITIONS (True, True, True)) sz [] = (OB_SUCCESS, True, T)"
    "mt_fits (puts ops + 0) T" "mt_content T = Map.empty" by auto
  from mt.run_refines [OF T(2)] T(1,3) show ?thesis by auto
qed

theorem table_refines_map_witness:
  "\<exists>T T'. mt_init False (replicate MT_HASHTABLE_PARTITIONS (True, True, True)) 1 [] = (OB_SUCCESS, True, T)
    \<and> run_ops (\<lambda>(h, k). mt_lookup h k) (\<lambda>(h, k). mt_insert True True None h k) (\<lambda>(h, k). mt_remove h k)
         [Put (64, ''a'') (Some (1 :: nat)), Put (128, ''a'') (Some 2), Put (64, ''b'') (Some 3), Find (64, ''a''), Take (64, ''b''),
          Find (64, ''b'')] T
       = Some ([None, None, None, Some 1, Some 3, None], T')"
  using table_refines_map [of 1 "[Put (64, ''a'') (Some (1 :: nat)), Put (128, ''a'') (Some 2), Put (64, ''b'') (Some 3),
    Find (64, ''a''), Take (64, ''b''), Find (64, ''b'')]"] by auto

text \<open>C13. An insertion into a well-formed table leaves it well-formed, and its outcome is this.  A key that is
  present has its pointer replaced.  A key that is absent is added if its cell can be allocated; if the
  integer quotient of cells by buckets is above four then, and only then, the entries that the garbage test
  picks are gone, and if it still is, the number of buckets doubles when there is memory for that.  Without
  memory for the cell nothing changes.\<close>

theorem table_insertion:
  assumes "imt_ok t" and "bucket_num t < 2 ^ 62"
  shows "\<exists>ret t'. imt_insert alloc ralloc gc h k v t = Some (ret, t') \<and> imt_ok t'
    \<and> (case tab t (h, k) of
         Some d \<Rightarrow> ret = (if v = d then None else d) \<and> tab t' = (tab t)((h, k) \<mapsto> v)
       | None \<Rightarrow> ret = None \<and>
           (if alloc then
              tab t' = (if overfull (cur_size t + 1) (bucket_num t) then swept gc ((tab t)((h, k) \<mapsto> v)) else (tab t)((h, k) \<mapsto> v))
              \<and> bucket_num t' = (if ralloc \<and> overfull (cur_size t') (bucket_num t) then 2 * bucket_num t else bucket_num t)
            else t' = t))"
proof (cases "tab t (h, k)")
  case None
  with insert_absent [OF assms(1) None assms(2), of alloc ralloc gc v] show ?thesis by auto
next
  case (Some d)
  with insert_present [OF assms(1) Some, of alloc ralloc gc v] show ?thesis by auto
qed

text \<open>Every entry of these two tables would be collected.  The first is not full enough for that; in the second,
  which has one bucket, the fifth entry is too many, so that everything goes.\<close>

theorem table_insertion_witness:
  "let t = \<lparr>buckets = Some [[]], cur_size = 0, bucket_num = 1\<rparr> :: (string, nat) imt;
       u = \<lparr>buckets = Some [map (\<lambda>i. \<lparr>ehash = 7, ekey = [i], edata = Some 1\<rparr>) ''abcd''], cur_size = 4, bucket_num = 1\<rparr> :: (string, nat) imt
   in (\<exists>t'. imt_insert True True (Some (\<lambda>_. True)) 7 ''a'' (Some 1) t = Some (None, t')
        \<and> imt_ok t' \<and> tab t' = [(7, ''a'') \<mapsto> Some 1] \<and> bucket_num t' = 1)
     \<and> (\<exists>u'. imt_insert True True (Some (\<lambda>_. True)) 7 ''e'' (Some 1) u = Some (None, u') \<and> imt_ok u' \<and> tab u' = Map.empty)"
proof -
  let ?t = "\<lparr>buckets = Some [[]], cur_size = 0, bucket_num = 1\<rparr> :: (string, nat) imt"
  let ?u = "\<lparr>buckets = Some [map (\<lambda>i. \<lparr>ehash = 7, ekey = [i], edata = Some 1\<rparr>) ''abcd''], cur_size = 4, bucket_num = 1\<rparr> :: (string, nat) imt"
  have t: "imt_ok ?t" by (simp add: imt_ok_def in_place_def)
  have "bucket_id 7 1 = Some 0" by code_simp
  then have u: "imt_ok ?u" by (simp add: imt_ok_def in_place_def ident_def)
  have o: "\<not> overfull 1 1" "overfull 5 1" by code_simp+
  have e: "tab ?t = Map.empty" "tab ?u (7, ''e'') = None" by (simp_all add: tab_def elems_def ident_def)
  have "swept (Some (\<lambda>_. True)) m = Map.empty" for m :: "u64 \<times> string \<Rightarrow> nat option option"
    by (auto simp: swept_def split: option.splits)
  with table_insertion [OF u, of True True "Some (\<lambda>_. True)" 7 "''e''" "Some 1"] e(2) o(2)
  have "\<exists>u'. imt_insert True True (Some (\<lambda>_. True)) 7 ''e'' (Some 1) ?u = Some (None, u') \<and> imt_ok u' \<and> tab u' = Map.empty" by auto
  moreover from table_insertion [OF t, of True True "Some (\<lambda>_. True)" 7 "''a''" "Some 1"] e(1) o(1)
  obtain t' where t': "imt_insert True True (Some (\<lambda>_. True)) 7 ''a'' (Some 1) ?t = Some (None, t')" "imt_ok t'" "tab t' = [(7, ''a'') \<mapsto> Some 1]"
    "bucket_num t' = (if overfull (cur_size t') 1 then 2 else 1)" by auto
  moreover have "cur_size t' = 1"
  proof -
    have "map_option (cur_size \<circ> snd) (imt_insert True True (Some (\<lambda>_. True)) 7 ''a'' (Some 1) ?t) = Some 1" by code_simp
    with t'(1) show ?thesis by simp
  qed
  ultimately show ?thesis using o(1) by auto
qed



section \<open>Server health\<close>

text \<open>C15. The failure history of a server counts a sliding window: after at most 65536 failures (beyond
  that a bin may wrap, as below), at any times and in any order, the total is the number of failures since the window began, up to those in its very first second, and no
  failure is behind its end.\<close>

theorem history_window:
  assumes "length ts \<le> 65536"
  shows "\<exists>h. regist_all ts (hist_init window new_history) = Some h
    \<and> int (length (filter (\<lambda>t. hstart h < t) ts)) \<le> hevents h
    \<and> hevents h \<le> int (length (filter (\<lambda>t. hstart h \<le> t) ts))
    \<and> (\<forall>t \<in> set ts. t \<le> hstart h + 17 * bin_width window)"
  by (rule history_counts [OF assms])

text \<open>The later failures move the window, which has seventeen bins of eight seconds, past the first one.\<close>

theorem history_window_witness:
  "\<exists>h. regist_all [1000, 1100, 1140] (hist_init 120 new_history) = Some h \<and> hstart h = 1008 \<and> hevents h = 2"
proof -
  have r: "map_option hstart (regist_all [1000, 1100, 1140] (hist_init 120 new_history)) = Some 1008"
    by (simp add: regist_event_def init_event_def hist_init_def new_history_def bin_at_def slide.simps pos_sdiv pos_smod CONG_HIST_ENTRIES_def)
  from history_window [of "[1000, 1100, 1140]" 120] obtain h where h:
    "regist_all [1000, 1100, 1140] (hist_init 120 new_history) = Some h"
    "int (length (filter (\<lambda>t. hstart h < t) [1000, 1100, 1140])) \<le> hevents h"
    "hevents h \<le> int (length (filter (\<lambda>t. hstart h \<le> t) [1000, 1100, 1140]))" by auto
  moreover from r h(1) have "hstart h = 1008" by simp
  ultimately show ?thesis by simp
qed

text \<open>C16. The bins are narrower than the total.  A bin that wraps adds 65536 to what the total has in
  excess of the bins, and no failure in or right after the window takes the excess away again.\<close>

theorem history_overflow:
  assumes "ring_ok h" and "hstart h \<le> t" and "t \<le> last_event h + hlength h"
  shows "\<exists>h'. regist_event t 1 h = Some (h', hevents h') \<and> ring_ok h'
    \<and> surplus h' = surplus h
      + (if t < hstart h + hlength h \<and> get_bin_events h ((t - hstart h) sdiv bin_len h) = Some 65535 then 65536 else 0)"
  by (rule regist_surplus [OF assms])

theorem history_overflow_witness:
  "\<exists>h. regist_event 1050 1 \<lparr>hstart = 920, last_event = 1050, bin_len = 8, hlength = 136,
      bins = 65535 # replicate 16 0, cur_index = 0, hevents = 65535\<rparr> = Some (h, hevents h) \<and> surplus h = 65536"
proof -
  let ?h = "\<lparr>hstart = 920, last_event = 1050, bin_len = 8, hlength = 136, bins = (65535 :: 16 word) # replicate 16 0,
    cur_index = 0, hevents = 65535\<rparr>"
  have r: "ring_ok ?h" by (simp add: ring_ok_def)
  have "surplus ?h = 0" by (simp add: surplus_def)
  moreover have "get_bin_events ?h ((1050 - hstart ?h) sdiv bin_len ?h) = Some 65535"
    by (simp add: get_bin_events_def bin_at_def CONG_HIST_ENTRIES_def pos_sdiv pos_smod)
  ultimately show ?thesis using history_overflow [OF r, of 1050] by auto
qed

text \<open>C17. Failures are reported to an uncongested server with a positive threshold and a fresh history, with no other operation on it in
  between, and each is dropped when the lock of the histories is not obtained; let at most 65536 of them be
  registered.  Fewer registered failures than the threshold do not congest the server, and at least as many
  within sixteen of the seventeen bins do, when their times are not in the second 0.\<close>

theorem server_threshold:
  assumes "alive_hist e = hist_init window h" and "alive_congested e = 0"
    and "0 < alive_failure_threshold c" and "length (registered fs) \<le> 65536"
  shows "\<exists>e'. fail_all c fs e = Some e'
    \<and> (int (length (registered fs)) < alive_failure_threshold c \<longrightarrow> alive_congested e' = 0)
    \<and> (alive_failure_threshold c \<le> int (length (registered fs)) \<longrightarrow> (\<forall>t \<in> set (registered fs). 0 < hrtime_to_sec t) \<longrightarrow>
         (\<forall>t \<in> set (registered fs). \<forall>u \<in> set (registered fs). hrtime_to_sec u < hrtime_to_sec t + 16 * bin_width window) \<longrightarrow>
         alive_congested e' = 1)"
  by (rule alive_threshold [OF assms])

text \<open>With the threshold of five, five failures congest the server unless one of them is dropped.\<close>

theorem server_threshold_witness:
  "(\<exists>e'. fail_all default_config [(True, 10 ^ 12), (True, 10 ^ 12), (False, 10 ^ 12), (True, 10 ^ 12), (True, 10 ^ 12), (True, 10 ^ 12)]
      (reset_fail_history default_config (new_entry ())) = Some e' \<and> alive_congested e' = 1)
   \<and> (\<exists>e'. fail_all default_config [(True, 10 ^ 12), (True, 10 ^ 12), (False, 10 ^ 12), (True, 10 ^ 12), (True, 10 ^ 12)]
      (reset_fail_history default_config (new_entry ())) = Some e' \<and> alive_congested e' = 0)"
proof -
  let ?e = "reset_fail_history default_config (new_entry ())"
  have "alive_hist ?e = hist_init 120 new_history" "alive_congested ?e = 0" "0 < alive_failure_threshold default_config"
    by (simp_all add: reset_fail_history_def new_entry_def default_config_def)
  note t = server_threshold [OF this]
  have f: "hrtime_to_sec (10 ^ 12) = 1000" "bin_width 120 = 8" "alive_failure_threshold default_config = 5"
    by (simp_all add: hrtime_to_sec_def HRTIME_SECOND_def bin_width_def pos_sdiv default_config_def)
  show ?thesis
    using t [of "[(True, 10 ^ 12), (True, 10 ^ 12), (False, 10 ^ 12), (True, 10 ^ 12), (True, 10 ^ 12), (True, 10 ^ 12)]"]
      t [of "[(True, 10 ^ 12), (True, 10 ^ 12), (False, 10 ^ 12), (True, 10 ^ 12), (True, 10 ^ 12)]"] f
    by (simp del: power_numeral fail_all.simps)
qed

text \<open>C18. A server that is reported alive is no longer dead to the proxy; it is congested afterwards if
  it was dead not long enough ago, or was congested and still has to be.\<close>

theorem server_revival:
  assumes "control_config e = Some a" and "C a = Some c"
    and "history_inv es (alive_hist e)" and "length es < 65536" and "dead_congested e = 0 \<or> dead_congested e = 1"
  shows "\<exists>e'. check_and_set_alive C locked now us e = Some e' \<and> dead_congested e' = 0
    \<and> alive_congested e' =
        (if is_dead_congested e then (if dead_need_update c now e then 0 else 1)
         else if is_alive_congested e \<and> alive_need_update c now e then 0 else alive_congested e)"
  by (rule check_and_set_alive_flags [where e = e and a = a and C = C, OF assms])

theorem server_revival_witness:
  "\<exists>e'. check_and_set_alive [3 \<mapsto> default_config] True (10 ^ 12) (10 ^ 9)
      (set_dead_congested (10 ^ 9) ((reset_fail_history default_config (new_entry ()))\<lparr>control_config := Some 3\<rparr>)) = Some e'
    \<and> dead_congested e' = 0 \<and> alive_congested e' = 1"
proof -
  let ?e = "set_dead_congested (10 ^ 9) ((reset_fail_history default_config (new_entry ()))\<lparr>control_config := Some 3\<rparr>)"
  have f: "control_config ?e = Some 3" "[3 \<mapsto> default_config] (3 :: addr) = Some default_config" "dead_congested ?e = 1"
    "alive_hist ?e = hist_init 120 new_history" "last_dead_congested ?e = 1000"
    by (simp_all add: flag_defs reset_fail_history_def new_entry_def default_config_def extract_second_def pos_sdiv Let_def)
  have "history_inv [] (alive_hist ?e)" unfolding f(4) by (rule hist_init_inv)
  moreover have "\<not> dead_need_update default_config (10 ^ 12) ?e"
    unfolding dead_need_update_def f(5) by (simp add: default_config_def hrtime_to_sec_def HRTIME_SECOND_def pos_sdiv)
  ultimately show ?thesis using server_revival [where C = "[3 \<mapsto> default_config]" and e = ?e, OF f(1,2), of "[]" True "10 ^ 12" "10 ^ 9"] f(3)
    by (simp add: is_dead_congested_def)
qed

text \<open>When a congested server is tried again, the attempt is registered as a failure, and no other
  attempt is due before the retry interval is over.\<close>

lemma server_retry:
  assumes "history_inv es (alive_hist e)" and "length es < 65536" and "0 \<le> alive_failure_threshold c"
    and "last_event (alive_hist e) \<le> hrtime_to_sec now"
  shows "\<exists>e'. set_alive_failed_at c True now e = Some e'
    \<and> (\<forall>t. alive_need_retry c t e' \<longleftrightarrow> hrtime_to_sec now + retry_interval_sec c \<le> hrtime_to_sec t)"
  by (rule retry_postponed [OF assms])

lemma server_retry_witness:
  "\<exists>e'. set_alive_failed_at default_config True (10 ^ 12) (reset_fail_history default_config (new_entry ())) = Some e'
    \<and> \<not> alive_need_retry default_config (10 ^ 12 + 9 * 10 ^ 9) e' \<and> alive_need_retry default_config (10 ^ 12 + 10 ^ 10) e'"
proof -
  let ?e = "reset_fail_history default_config (new_entry ())"
  have a: "alive_hist ?e = hist_init 120 new_history"
    by (simp add: reset_fail_history_def new_entry_def default_config_def)
  have i: "history_inv [] (alive_hist ?e)" unfolding a by (rule hist_init_inv)
  have "last_event (alive_hist ?e) \<le> hrtime_to_sec (10 ^ 12)" "0 \<le> alive_failure_threshold default_config"
    unfolding a by (simp_all add: hist_init_def Let_def hrtime_to_sec_def HRTIME_SECOND_def pos_sdiv default_config_def)
  from server_retry [OF i _ this(2,1)] show ?thesis
    by (auto simp: default_config_def hrtime_to_sec_def HRTIME_SECOND_def pos_sdiv)
qed

text \<open>C19. Configuring an entry moves its reference from the old configuration to the new one.  An entry
  that is handed the configuration it has drops its reference first: if that was the only one, the object
  is freed and then used.\<close>

theorem config_exchange:
  assumes "control_config e = Some old" and "C old = Some c0" and "C a = Some c1"
  shows "if a = old \<and> ref_count c0 = 1 then apply_new_config C us (Some a) e = None
    else \<exists>e'. apply_new_config C us (Some a) e = Some (OB_SUCCESS,
        if a = old then C else C(old := dropped c0, a \<mapsto> c1\<lparr>ref_count := ref_count c1 + 1\<rparr>), e')
      \<and> control_config e' = Some a"
proof (cases "a = old")
  case True
  with apply_new_config_self [where C = C and a = old, OF assms(1,2), of us] assms(1) show ?thesis
    by (auto simp: set_alive_congested_free_def set_dead_congested_free_def)
next
  case False
  with apply_new_config_other [where C = C and a = a, OF assms False, of us] show ?thesis
    by (simp add: adjust_flags reset_fail_history_def)
qed

theorem config_exchange_witness:
  "apply_new_config [3 \<mapsto> default_config\<lparr>ref_count := 1\<rparr>] 0 (Some 3) ((new_entry ())\<lparr>control_config := Some 3\<rparr>) = None"
  using config_exchange [of "(new_entry ())\<lparr>control_config := Some 3\<rparr>" 3 "[3 \<mapsto> default_config\<lparr>ref_count := 1\<rparr>]"
    "default_config\<lparr>ref_count := 1\<rparr>" 3 "default_config\<lparr>ref_count := 1\<rparr>" 0]
  by simp

text \<open>C20. Whatever is done to an entry, the flag that its clients gave feedback of failures is never cleared,
  and the flags stay 0 or 1.\<close>

theorem feedback_sticky:
  assumes "entry_step\<^sup>*\<^sup>* (new_entry ip) e"
  shows "flags_ok e \<and> (feedback_congested e = 1 \<longrightarrow> (\<forall>e'. entry_step\<^sup>*\<^sup>* e e' \<longrightarrow> feedback_congested e' = 1))"
proof (intro conjI impI allI)
  show "flags_ok e" using entry_steps_flags [OF assms] by (simp add: new_entry_flags)
  fix e' assume "feedback_congested e = 1" and "entry_step\<^sup>*\<^sup>* e e'"
  then show "feedback_congested e' = 1" using entry_steps_flags [of e e'] by simp
qed

text \<open>An entry of the threshold 1 is initialised, and one aborted request sets the flag.  A configuration with
  another window empties the histories, and the flag stays.\<close>

definition demo_configs :: configs where
  "demo_configs = [3 \<mapsto> default_config\<lparr>ref_count := 2, alive_failure_threshold := 1\<rparr>, 4 \<mapsto> default_config\<lparr>ref_count := 1, fail_window_sec := 60\<rparr>]"

definition demo_zones :: zones where
  "demo_zones = [8 \<mapsto> \<lparr>ref_count = 1, zone_name = [], region_name = [], zstatus = Z_ACTIVE, zone_revalidate_us = 0\<rparr>]"

theorem feedback_sticky_witness:
  "\<exists>C Z e1 e2 C' e3. entry_init demo_configs demo_zones True (Some 3) (Some 8) (new_entry ()) = Some (OB_SUCCESS, C, Z, e1)
    \<and> set_client_feedback_failed_at (the (C 3)) True (10 ^ 12) e1 = Some e2 \<and> feedback_congested e2 = 1
    \<and> validate_config C 0 (Some 4) e2 = Some (OB_SUCCESS, C', e3) \<and> hevents (feedback_hist e3) = 0 \<and> feedback_congested e3 = 1"
proof -
  have "Option.bind (entry_init demo_configs demo_zones True (Some 3) (Some 8) (new_entry ())) (\<lambda>(r1, C, Z, e1).
      Option.bind (set_client_feedback_failed_at (the (C 3)) True (10 ^ 12) e1) (\<lambda>e2.
      map_option (\<lambda>(r2, C', e3). (r1, feedback_congested e2, r2, hevents (feedback_hist e3))) (validate_config C 0 (Some 4) e2)))
    = Some (OB_SUCCESS, 1, OB_SUCCESS, 0)" by code_simp
  then obtain C Z e1 e2 C' e3 where e: "entry_init demo_configs demo_zones True (Some 3) (Some 8) (new_entry ()) = Some (OB_SUCCESS, C, Z, e1)"
    "set_client_feedback_failed_at (the (C 3)) True (10 ^ 12) e1 = Some e2" "feedback_congested e2 = 1"
    "validate_config C 0 (Some 4) e2 = Some (OB_SUCCESS, C', e3)" "hevents (feedback_hist e3) = 0"
    by (auto simp: bind_eq_Some_conv)
  have "entry_step\<^sup>*\<^sup>* (new_entry ()) e1" by (rule r_into_rtranclp, rule entry_step.inits [OF e(1)])
  then have "entry_step\<^sup>*\<^sup>* (new_entry ()) e2" by (rule rtranclp.rtrancl_into_rtrancl) (rule entry_step.feedback_failed [OF e(2)])
  moreover have "entry_step\<^sup>*\<^sup>* e2 e3" by (rule r_into_rtranclp, rule entry_step.configured [OF e(4)])
  ultimately have "feedback_congested e3 = 1" using feedback_sticky [of "()" e2] e(3) by blast
  with e show ?thesis by blast
qed

section \<open>Timer queue\<close>

text \<open>C21. Whatever operations the thread performs, in whatever order and however long it pauses between two
  checks, the size field counts the events that are marked as being in the queue.\<close>

theorem timer_queue_size:
  assumes "reachable (w, pq, t)"
  shows "after_queue_size pq = int (card {e. \<exists>ev. events w e = Some ev \<and> in_the_priority_queue ev})"
  using reachable_inv [OF assms] timer_size by blast

theorem timer_queue_size_witness:
  "after_queue_size (snd one_timer) = 1"
proof -
  have "reachable (fst one_timer, snd one_timer, 0)" using one_timer_reachable by simp
  note timer_queue_size [OF this]
  moreover have "{e. \<exists>ev. events (fst one_timer) e = Some ev \<and> in_the_priority_queue ev} = {5}"
    by (auto simp: one_timer_eq(2))
  ultimately show ?thesis by simp
qed

text \<open>C22. However much time has passed since the last check, a check returns; it frees nothing but queued
  events that are cancelled, and every other queued event is still queued and due at the same time.\<close>

theorem timer_check_keeps:
  assumes "reachable (w, pq, t)" and "t \<le> now"
  shows "\<exists>w' pq'. check_ready w pq now = Some (w', pq')
    \<and> (\<forall>e ev. events w e = Some ev \<longrightarrow> in_the_priority_queue ev \<longrightarrow> \<not> cancelled ev \<longrightarrow>
         (\<exists>ev'. events w' e = Some ev' \<and> in_the_priority_queue ev' \<and> \<not> cancelled ev' \<and> timeout_at ev' = timeout_at ev))
    \<and> (\<forall>e ev. events w e = Some ev \<longrightarrow> events w' e = None \<longrightarrow> in_the_priority_queue ev \<and> cancelled ev)"
proof -
  from reachable_inv [OF assms(1)] obtain xss where inv: "timer_inv False w pq t xss" ..
  from check_rep [OF inv assms(2)] obtain w' pq' xss' where c: "check_ready w pq now = Some (w', pq')"
    "timer_inv False w' pq' now xss'" "\<forall>e \<in> set (concat xss'). key (events w' e) = key (events w e)"
    "filter_mset (survives (events w)) (mset (concat xss')) = filter_mset (survives (events w)) (mset (concat xss))"
    "\<forall>e. e \<notin> set (concat xss) \<longrightarrow> events w' e = events w e" by blast
  show ?thesis
    using c(1) kept_by_check [OF inv c(2-5)] by blast
qed

text \<open>The first check comes after a thousand periods, long after the event was due.\<close>

theorem timer_check_keeps_witness:
  "\<exists>w' pq' ev. check_ready (fst one_timer) (snd one_timer) 1000000000 = Some (w', pq') \<and> events w' 5 = Some ev
    \<and> in_the_priority_queue ev \<and> timeout_at ev = 100000000"
proof -
  obtain ev where "events (fst one_timer) 5 = Some ev" "in_the_priority_queue ev" "\<not> cancelled ev"
    "timeout_at ev = 100000000" by (simp add: one_timer_eq(2))
  with timer_check_keeps [OF one_timer_reachable, of 1000000000] show ?thesis by (metis zero_le_numeral)
qed

text \<open>C23. When no two checks are more than 256 milliseconds apart, a check finds every event in time:
  afterwards each queued event that is due is in the queue that \<open>dequeue_ready\<close> empties.\<close>

theorem timer_check_due:
  assumes "timely (w, pq, t)" and "t \<le> now"
    and "now div PQ_BUCKET_TIME 0 - last_check_time pq div PQ_BUCKET_TIME 0 \<le> 256"
  shows "\<exists>w' pq'. check_ready w pq now = Some (w', pq')
    \<and> (\<forall>e ev. events w' e = Some ev \<longrightarrow> in_the_priority_queue ev \<longrightarrow> timeout_at ev \<le> now \<longrightarrow> in_heap ev = 0)"
proof -
  from timely_inv [OF assms(1)] obtain xss where inv: "timer_inv True w pq t xss" ..
  from check_rep [OF inv assms(2)] assms(3) obtain w' pq' xss' where c: "check_ready w pq now = Some (w', pq')"
    "timer_inv True w' pq' now xss'" "last_check_time pq' = now" by blast
  have "in_heap ev = 0" if "events w' e = Some ev" "in_the_priority_queue ev" "timeout_at ev \<le> now" for e ev
    using timer_heap [OF c(2) that(1,2)] placed_not_due [of w' now xss' "in_heap ev" e ev] c(2,3) that
    by (auto simp: timer_inv_def)
  with c(1) show ?thesis by blast
qed

theorem timer_check_due_witness:
  "\<exists>w' pq'. check_ready (fst one_timer) (snd one_timer) 100000000 = Some (w', pq')
    \<and> (\<forall>ev. events w' 5 = Some ev \<longrightarrow> in_the_priority_queue ev \<longrightarrow> timeout_at ev \<le> 100000000 \<longrightarrow> in_heap ev = 0)"
proof -
  have "100000000 div PQ_BUCKET_TIME 0 - last_check_time (snd one_timer) div PQ_BUCKET_TIME 0 \<le> 256"
    by (simp add: PQ_BUCKET_TIME_eq one_timer_eq(3))
  from timer_check_due [OF one_timer_timely _ this] show ?thesis by fastforce
qed

text \<open>\<open>dequeue_ready\<close> takes an event out of the first queue, unmarks it and counts it, and returns
  null exactly when no queued event is in the first queue.\<close>

lemma timer_dequeue:
  assumes "reachable (w, pq, t)"
  shows "if \<exists>e ev. events w e = Some ev \<and> in_the_priority_queue ev \<and> in_heap ev = 0
    then \<exists>w' pq' e ev. dequeue_ready w pq = Some (w', pq', Some e) \<and> events w e = Some ev
      \<and> in_the_priority_queue ev \<and> in_heap ev = 0
      \<and> events w' = (events w)(e \<mapsto> ev\<lparr>in_the_priority_queue := False\<rparr>)
      \<and> after_queue_size pq' = after_queue_size pq - 1
    else dequeue_ready w pq = Some (w, pq, None)"
proof -
  from reachable_inv [OF assms] obtain xss where inv: "timer_inv False w pq t xss" ..
  show ?thesis by (rule dequeue_cases [OF inv])
qed

lemma timer_dequeue_witness:
  "dequeue_ready (fst one_timer) (snd one_timer) = Some (fst one_timer, snd one_timer, None)"
  using timer_dequeue [OF one_timer_reachable] by (auto simp: one_timer_eq(2) split: if_splits)

text \<open>An event that is in no queue is put into the narrowest queue that is wide enough for the time
  to go, or the last one; \<open>remove\<close> takes it out again and leaves the size as it was.\<close>

lemma timer_enqueue_remove:
  assumes "reachable (w, pq, t)" and "t \<le> now" and "events w e = Some ev"
    and "\<not> in_the_priority_queue ev" and "\<not> in_the_prot_queue ev"
  shows "\<exists>w' pq' w'' pq'' i. enqueue w pq (Some e) now = Some (w', pq')
    \<and> i = (LEAST i. i = 9 \<or> timeout_at ev - now \<le> PQ_BUCKET_TIME i)
    \<and> events w' = (events w)(e \<mapsto> ev\<lparr>in_the_priority_queue := True, in_heap := i\<rparr>)
    \<and> after_queue_size pq' = after_queue_size pq + 1
    \<and> remove w' pq' (Some e) = Some (w'', pq'')
    \<and> events w'' = (events w)(e \<mapsto> ev\<lparr>in_heap := i\<rparr>) \<and> detached (cells w'') e
    \<and> after_queue_size pq'' = after_queue_size pq"
proof -
  from reachable_inv [OF assms(1)] obtain xss where inv: "timer_inv False w pq t xss" ..
  from enqueue_remove [OF inv assms(2-5)] show ?thesis unfolding bucket_index_least by blast
qed

lemma timer_enqueue_remove_witness:
  "\<exists>w' pq'. enqueue one_world (new_pqueue 0) (Some 5) 0 = Some (w', pq') \<and> after_queue_size pq' = 1"
proof -
  obtain ev where "events one_world 5 = Some ev" "\<not> in_the_priority_queue ev" "\<not> in_the_prot_queue ev"
    by (simp add: one_world_def)
  moreover have "after_queue_size (new_pqueue 0) + 1 = 1" by (simp add: new_pqueue_def)
  ultimately show ?thesis using timer_enqueue_remove [OF timely_reachable [OF one_world_timely] order.refl, of 5 ev] by metis
qed

text \<open>C24. Between two checks whose distance is a multiple of 512 milliseconds the periods look the same
  to the queue: the second check moves no event at all, however overdue it is.\<close>

theorem timer_check_skips:
  assumes "reachable (w, pq, t)" and "t \<le> now"
    and "(now div PQ_BUCKET_TIME 0) mod 512 = (last_check_time pq div PQ_BUCKET_TIME 0) mod 512"
  shows "check_ready w pq now = Some (w, pq\<lparr>last_check_time := now,
    last_check_buckets := word_of_int (now sdiv PQ_BUCKET_TIME 0)\<rparr>)"
proof -
  from reachable_inv [OF assms(1)] obtain xss where inv: "timer_inv False w pq t xss" ..
  then show ?thesis using assms(2,3) check_ready_skips [of pq "last_check_time pq" now w] by (simp add: timer_inv_def)
qed

theorem timer_check_skips_witness:
  "\<exists>pq' ev. check_ready (fst one_timer) (snd one_timer) 512000000 = Some (fst one_timer, pq')
    \<and> events (fst one_timer) 5 = Some ev \<and> timeout_at ev = 100000000 \<and> in_heap ev = 7"
  using timer_check_skips [OF one_timer_reachable, of 512000000]
  by (simp add: one_timer_eq(2) one_timer_eq(3) PQ_BUCKET_TIME_eq)

section \<open>Serialisation\<close>

text \<open>C25. A 64-bit integer written by \<open>encode_vi64\<close> is read back by \<open>decode_vi64\<close>, from the same
  position to the same position, whatever follows; the bytes before and behind stay as they were.\<close>

theorem vi64_roundtrip:
  assumes "0 \<le> pos" and "pos + encoded_length_vi64 v \<le> buf_len" and "buf_len \<le> int (length m)"
  shows "\<exists>m'. encode_vi64 (Some m) buf_len pos v = Some (OB_SUCCESS, Some m', pos + encoded_length_vi64 v)
    \<and> decode_vi64 (Some m') buf_len pos v0 = Some (OB_SUCCESS, pos + encoded_length_vi64 v, v)
    \<and> (\<forall>i. i < pos \<or> pos + encoded_length_vi64 v \<le> i \<longrightarrow> rd m' i = rd m i)"
  using assms
  by (simp add: encoded_length_vi64_vlen encode_vi64_eq decode_vi64_wire holds_put rd_put_out)

theorem vi64_roundtrip_witness:
  "\<exists>m'. encode_vi64 (Some [7, 0, 0, 9]) 4 1 300 = Some (OB_SUCCESS, Some m', 3)
    \<and> decode_vi64 (Some m') 4 1 0 = Some (OB_SUCCESS, 3, 300)"
proof -
  have l: "encoded_length_vi64 300 = 2" by (simp add: encoded_length_vi64_def ob_max_v_def)
  show ?thesis
    using vi64_roundtrip [of 1 300 4 "[7, 0, 0, 9]" 0] by (auto simp: l)
qed

text \<open>C26. On every buffer \<open>encode_vi64\<close> and \<open>encode_vi32\<close> return: they write exactly
  \<open>encoded_length_vi64\<close> (\<open>encoded_length_vi32\<close>) bytes when these fit, and otherwise report
  \<open>OB_SIZE_OVERFLOW\<close> and change neither the buffer nor the position.\<close>

theorem vi_encode_cases:
  assumes "0 \<le> pos" and "buf_len \<le> int (length m)"
  shows "encode_vi64 (Some m) buf_len pos v =
      (if pos + encoded_length_vi64 v \<le> buf_len
       then Some (OB_SUCCESS, Some (put m pos (wire_vi v)), pos + encoded_length_vi64 v)
       else Some (OB_SIZE_OVERFLOW, Some m, pos))
    \<and> encode_vi32 (Some m) buf_len pos w =
      (if pos + encoded_length_vi32 w \<le> buf_len
       then Some (OB_SUCCESS, Some (put m pos (wire_vi w)), pos + encoded_length_vi32 w)
       else Some (OB_SIZE_OVERFLOW, Some m, pos))"
  using assms by (simp_all add: encoded_length_vi64_vlen encoded_length_vi32_vlen encode_vi64_eq encode_vi32_eq)

theorem vi_encode_cases_witness:
  "encode_vi64 (Some [0]) 1 0 300 = Some (OB_SIZE_OVERFLOW, Some [0], 0)
    \<and> encode_vi32 (Some [0]) 1 0 5 = Some (OB_SUCCESS, Some (put [0] 0 (wire_vi (5 :: u32))), 1)"
  using vi_encode_cases [of 0 1 "[0]" 300 5]
  by (simp_all add: encoded_length_vi64_def encoded_length_vi32_def ob_max_v_def)

text \<open>C27. \<open>decode_vi64\<close> on data that is nothing but continuation bytes (at most ten): it looks at
  the byte behind the data before it compares the position with \<open>data_len\<close>, so it is undefined when
  there is none, and reports \<open>OB_DESERIALIZE_ERROR\<close> only when that byte can be read.\<close>

theorem decode_vi64_truncated:
  assumes "\<forall>i < k. \<exists>b. rd m (pos + int i) = Some b \<and> b AND 0x80 \<noteq> 0"
    and "k \<le> 10" and "pos + int k = data_len"
  shows "decode_vi64 (Some m) data_len pos v0 =
    (if rd m data_len = None then None else Some (OB_DESERIALIZE_ERROR, pos, v0))"
  using assms by (rule decode_vi64_run)

theorem decode_vi64_truncated_witness:
  "decode_vi64 (Some [0x80, 0xff]) 2 0 0 = None \<and>
   decode_vi64 (Some [0x80, 0xff, 0]) 2 0 0 = Some (OB_DESERIALIZE_ERROR, 0, 0)"
  using decode_vi64_truncated [of 2 "[0x80, 0xff]" 0 2 0] decode_vi64_truncated [of 2 "[0x80, 0xff, 0]" 0 2 0]
  by (simp_all add: rd_def less_2_cases_iff)

text \<open>C28. \<open>encode_with_len_vi64\<close> compares the room left with the minimal length of the value and not
  with the length it is asked to write: a longer one makes it write outside the buffer.\<close>

theorem encode_with_len_overrun:
  assumes "0 \<le> pos" and "pos + encoded_length_vi64 v \<le> buf_len" and "buf_len \<le> int (length m)"
    and "int (length m) < pos + len"
  shows "encode_with_len_vi64 (Some m) buf_len pos v len = None"
  using assms by (simp add: encoded_length_vi64_vlen encode_with_len_vi64_overrun)

theorem encode_with_len_overrun_witness:
  "encode_with_len_vi64 (Some [0, 0]) 2 0 5 3 = None"
  using encode_with_len_overrun [of 0 5 2 "[0, 0]" 3] by (simp add: encoded_length_vi64_def ob_max_v_def)

text \<open>C29. The unrolled integer encoder and the checked one write the same bytes: on every buffer and
  for every value but the least one, \<open>encode_int\<close> equals \<open>encode_int_safe\<close>.\<close>

theorem encode_int_equiv:
  assumes "v \<noteq> 0x8000000000000000" and "0 \<le> pos" and "buf_len \<le> int (length m)"
  shows "encode_int (Some m) buf_len pos v is_add = encode_int_safe (Some m) buf_len pos v is_add"
  using assms by (simp add: encode_int_eq encode_int_safe_eq)

theorem encode_int_equiv_witness:
  "encode_int (Some [0, 0, 0]) 3 0 (- 500) True = encode_int_safe (Some [0, 0, 0]) 3 0 (- 500) True"
  using encode_int_equiv [of "- 500" 0 3 "[0, 0, 0]" True] by simp

text \<open>C30. An integer with its operation flag is read back from what \<open>encode_int\<close> wrote, by either
  branch of \<open>decode_int\<close>, given the first byte as the caller reads it.\<close>

theorem int_roundtrip:
  assumes "v \<noteq> 0x8000000000000000" and "0 \<le> pos" and "pos + encoded_length_int v \<le> buf_len"
    and "buf_len \<le> int (length m)"
  shows "\<exists>m' t. encode_int (Some m) buf_len pos v is_add = Some (OB_SUCCESS, Some m', pos + encoded_length_int v)
    \<and> rd m' pos = Some t
    \<and> decode_int (Some m') buf_len t (pos + 1) v0
      = Some (OB_SUCCESS, pos + encoded_length_int v, (v, is_add))"
proof -
  note l = encoded_length_int_bytes [of v] length_wire_int [of v is_add]
  have h: "holds (put m pos (wire_int v is_add)) pos (wire_int v is_add)"
    using assms l by (intro holds_put) simp_all
  moreover have "rd (put m pos (wire_int v is_add)) pos = Some (int_tag v is_add)"
    using h by (simp add: wire_int_def)
  ultimately show ?thesis
    using assms decode_int_wire [OF assms(1) h, of buf_len v0] by (simp add: encode_int_eq l)
qed

theorem int_roundtrip_witness:
  "\<exists>m' t. encode_int (Some [0, 0, 0, 0]) 4 0 (- 500) True = Some (OB_SUCCESS, Some m', 3)
    \<and> rd m' 0 = Some t \<and> decode_int (Some m') 4 t 1 (0, False) = Some (OB_SUCCESS, 3, (- 500, True))"
proof -
  have l: "encoded_length_int (- 500) = 3"
    by (simp add: encoded_length_int_bytes safe_int64_abs_eq int_bytes_def)
  show ?thesis using int_roundtrip [of "- 500" 0 4 "[0, 0, 0, 0]" True "(0, False)"] by (simp add: l)
qed

text \<open>C31. The unchecked integer decoder returns what the checked one returns, for every tag but the
  ones with code 29, whenever the bytes the tag announces are inside the data.\<close>

theorem fast_decode_equiv:
  assumes "t AND 0x1f \<noteq> 29" and "0 \<le> pos" and "pos + int (fast_tag_len t) \<le> data_len"
    and "data_len \<le> int (length m)"
  shows "fast_decode (Some m) t pos v0 = decode_int_safe (Some m) data_len t pos v0"
  using assms by (intro fast_decode_is_safe) (simp_all add: tag_code_def)

theorem fast_decode_equiv_witness:
  "fast_decode (Some [1, 2]) 0x39 0 (0, False) = decode_int_safe (Some [1, 2]) 2 0x39 0 (0, False)"
  using fast_decode_equiv [of "0x39" 0 2 "[1, 2]" "(0, False)"] by (simp add: fast_tag_len_def tag_code_def)

text \<open>C32. Whenever \<open>decode_vstr\<close> has a defined result, it is a string that lies inside the data, or no
  string and an unmoved position; but the position it returns is one behind the string, where the
  terminating zero should be, and that may be behind the data.  The result is defined when one of the first
  ten bytes, inside the data or the readable byte right behind it, ends the length.\<close>

theorem decode_vstr_bounds:
  "(\<forall>ptr pos' l. decode_vstr buf data_len pos lenp = Some (ptr, pos', l) \<longrightarrow>
      (case ptr of
         None \<Rightarrow> pos' = pos
       | Some p \<Rightarrow> \<exists>n. l = Some n \<and> 0 \<le> n \<and> pos < p \<and> p + n \<le> data_len \<and> pos' = p + n + 1))
   \<and> (\<forall>m k b. buf = Some m \<and> 0 \<le> pos \<and> k \<le> 9 \<and> pos + int k \<le> data_len \<and> rd m (pos + int k) = Some b \<and> b AND 0x80 = 0 \<longrightarrow>
      decode_vstr buf data_len pos lenp \<noteq> None)"
proof -
  have "case ptr of None \<Rightarrow> pos' = pos | Some p \<Rightarrow> \<exists>n. l = Some n \<and> 0 \<le> n \<and> pos < p \<and> p + n \<le> data_len \<and> pos' = p + n + 1"
    if "decode_vstr buf data_len pos lenp = Some (ptr, pos', l)" for ptr pos' l
    using that decode_vstr_inside decode_vstr_refused by (cases ptr) auto
  then show ?thesis using decode_vstr_defined by blast
qed

text \<open>The string ends with the data, and there is no terminating zero.\<close>

theorem decode_vstr_bounds_witness:
  "\<exists>p. decode_vstr (Some [2, 65, 66]) 3 0 (Some 0) = Some (Some p, p + 3, Some 2) \<and> p + 2 \<le> 3 \<and> 3 < p + 3"
proof -
  have run: "decode_vstr (Some [2, 65, 66]) 3 0 (Some 0) = Some (Some 1, 4, Some 2)"
    using decode_vstr_wire(1) [of "[2, 65, 66]" 0 "[65, 66]" 3 0] by (simp add: wire_vi_def vlen.simps rd_def)
  with decode_vstr_bounds [of "Some [2, 65, 66]" 3 0 "Some 0"] show ?thesis by fastforce
qed

text \<open>\<open>encode_vstr\<close> checks the room with a length cast to 32 bits: for a string of \<open>2\<^sup>31\<close> bytes the
  check passes with five bytes left, and the copy leaves the buffer.\<close>

lemma encode_vstr_guard_overflow:
  assumes "length vb = 2 ^ 31" and "0 \<le> pos" and "pos + 5 \<le> buf_len" and "buf_len \<le> int (length m)"
    and "int (length m) < pos + 2 ^ 31"
  shows "encode_vstr (Some m) buf_len pos (Some vb) (2 ^ 31) = None"
  using assms by (rule encode_vstr_truncated_guard)

lemma encode_vstr_guard_overflow_witness:
  "encode_vstr (Some [0, 0, 0, 0, 0]) 5 0 (Some (replicate (2 ^ 31) 65)) (2 ^ 31) = None"
  using encode_vstr_guard_overflow [of "replicate (2 ^ 31) 65" 0 5 "[0, 0, 0, 0, 0]"]
  by (simp only: length_replicate) simp

text \<open>C33. A character string written in the tagged \<open>str\<close> format is found again: the decoder, given
  the tag, returns a pointer to exactly the bytes of the string, its length, and the position behind
  it.\<close>

theorem str_roundtrip:
  assumes "length bs < 2 ^ 31" and "0 \<le> pos" and "pos + encoded_length_str (int (length bs)) \<le> buf_len"
    and "buf_len \<le> int (length m)"
  shows "\<exists>m' t p. encode_str (Some m) buf_len pos (Some bs) (int (length bs))
      = Some (OB_SUCCESS, Some m', pos + encoded_length_str (int (length bs)))
    \<and> rd m' pos = Some t
    \<and> decode_str (Some m') buf_len t (pos + 1) l
      = Some (Some p, pos + encoded_length_str (int (length bs)), of_nat (length bs))
    \<and> rd_bytes m' p (int (length bs)) = Some bs"
proof -
  have n: "length bs < 2 ^ 32" using assms(1) by simp
  note l = encoded_length_str_eq [OF n]
  have h: "holds (put m pos (wire_str bs)) pos (wire_str bs)" using assms l by (intro holds_put) simp_all
  moreover from this have "rd (put m pos (wire_str bs)) pos = Some (str_tag (length bs))"
    by (simp add: wire_str_def)
  ultimately show ?thesis
    using assms decode_str_wire [OF assms(1) h, of buf_len] by (simp add: encode_str_eq [OF n] l)
qed

theorem str_roundtrip_witness:
  "\<exists>m' t p. encode_str (Some [0, 0, 0]) 3 0 (Some [65, 66]) 2 = Some (OB_SUCCESS, Some m', 3)
    \<and> rd m' 0 = Some t \<and> decode_str (Some m') 3 t 1 0 = Some (Some p, 3, 2)
    \<and> rd_bytes m' p 2 = Some [65, 66]"
  using str_roundtrip [of "[65, 66]" 0 3 "[0, 0, 0]" 0]
  by (simp add: encoded_length_str_def encoded_length_str_len_def)

text \<open>C34. A decimal, with its scales and its words, is read back into a structure with room for the
  words; the rest of the word array stays.\<close>

theorem decimal_roundtrip:
  assumes "sint nwords = int (length ws)" and "0 \<le> pos" and "encoded_length_decimal_type nwords (Some ws) = Some n"
    and "pos + n \<le> buf_len" and "buf_len \<le> int (length m)"
    and "dec_words d = Some out" and "length ws \<le> length out"
  shows "\<exists>m'. encode_decimal_type (Some m) buf_len pos is_add precision scale vscale nwords (Some ws)
      = Some (OB_SUCCESS, Some m', pos + n)
    \<and> rd m' pos = Some OB_DECIMAL_TYPE
    \<and> decode_decimal_type (Some m') buf_len (pos + 1) d
      = Some (OB_SUCCESS, pos + n,
          \<lparr>dec_is_add = is_add, dec_precision = precision, dec_scale = scale, dec_vscale = vscale,
           dec_nwords = nwords, dec_words = Some (ws @ drop (length ws) out)\<rparr>)"
proof -
  let ?w = "wire_decimal is_add precision scale vscale nwords ws"
  have n: "n = int (length ?w)" using assms(3) encoded_length_decimal_type_eq [OF assms(1), of is_add precision scale vscale] by simp
  have h: "holds (put m pos ?w) pos ?w" using assms n by (intro holds_put) simp_all
  then have "rd (put m pos ?w) pos = Some OB_DECIMAL_TYPE" by (simp add: wire_decimal_def)
  moreover have "pos + int (length ?w) \<le> buf_len" using assms n by simp
  ultimately show ?thesis
    using encode_decimal_type_eq [OF assms(1,2,5)] decode_decimal_type_wire [OF h assms(1,6,7)]
    by (simp add: n)
qed

theorem decimal_roundtrip_witness:
  "\<exists>m'. encode_decimal_type (Some (replicate 8 0)) 8 0 True 5 2 2 1 (Some [300])
      = Some (OB_SUCCESS, Some m', 8)
    \<and> rd m' 0 = Some OB_DECIMAL_TYPE
    \<and> decode_decimal_type (Some m') 8 1
        \<lparr>dec_is_add = False, dec_precision = 0, dec_scale = 0, dec_vscale = 0, dec_nwords = 0,
         dec_words = Some [7, 8]\<rparr>
      = Some (OB_SUCCESS, 8, \<lparr>dec_is_add = True, dec_precision = 5, dec_scale = 2, dec_vscale = 2,
          dec_nwords = 1, dec_words = Some [300, 8]\<rparr>)"
  using decimal_roundtrip [of 1 "[300]" 0 8 8 "replicate 8 0" _ "[7, 8]" True 5 2 2]
  by (simp add: encoded_length_decimal_type_def encoded_length_vi32_def ob_max_v_def)

text \<open>C35. The decimal decoder does not know how many words the caller has room for: a well-formed
  value with more words than that makes it write outside the word array.\<close>

theorem decimal_words_overrun:
  assumes "holds m pos (wire_decimal is_add precision scale vscale nwords ws)"
    and "pos + int (length (wire_decimal is_add precision scale vscale nwords ws)) \<le> data_len"
    and "sint nwords = int (length ws)" and "dec_words d = Some out" and "length out < length ws"
  shows "decode_decimal_type (Some m) data_len (pos + 1) d = None"
proof -
  have l: "length (wire_decimal is_add precision scale vscale nwords ws) = 6 + length (wire_words ws)"
    by (simp add: wire_decimal_def)
  have b: "0 \<le> pos" "pos + 6 + int (length (wire_words ws)) \<le> int (length m)"
    using holds_bounds [OF assms(1)] l by simp_all
  have h: "holds m (pos + 1) [if is_add then 1 else 0]" "holds m (pos + 2) [precision]" "holds m (pos + 3) [scale]"
    "holds m (pos + 4) [vscale]" "holds m (pos + 5) [nwords]" "holds m (pos + 6) (wire_words ws)"
    using assms(1) b by (simp_all add: wire_decimal_def ac_simps)
  have "decimal_get (Some m) data_len (pos + 6) out 0 (length ws) = None"
    using decimal_get_overrun [of m "pos + 6" 0 ws "length ws" data_len out] h(6) assms(2,5) l by simp
  then show ?thesis
    using h(1-5) assms(2-5) l b(1) by (simp add: decode_decimal_type_def decode_i8_wire add.assoc del: holds.simps)
qed

theorem decimal_words_overrun_witness:
  "decode_decimal_type (Some [0xff, 0, 5, 2, 2, 1, 9]) 7 1
     \<lparr>dec_is_add = False, dec_precision = 0, dec_scale = 0, dec_vscale = 0, dec_nwords = 0,
      dec_words = Some []\<rparr> = None"
proof -
  have w: "wire_decimal False 5 2 2 1 [9] = [0xff, 0, 5, 2, 2, 1, 9]"
    by (simp add: wire_decimal_def wire_words_def wire_vi_def vlen.simps OB_DECIMAL_TYPE_def)
  show ?thesis
    using decimal_words_overrun [of "[0xff, 0, 5, 2, 2, 1, 9]" 0 False 5 2 2 1 "[9]" 7 _ "[]"]
    unfolding w by (simp add: rd_def)
qed

text \<open>A date written by \<open>encode_datetime_type\<close> is read back with its sign and its operation flag,
  given the first byte as the caller reads it.\<close>

lemma datetime_roundtrip:
  assumes "v \<noteq> 0x8000000000000000" and "0 \<le> pos" and "pos + encoded_length_datetime v \<le> buf_len"
    and "buf_len \<le> int (length m)"
  shows "\<exists>m' t. encode_datetime_type (Some m) buf_len pos v is_add
      = Some (OB_SUCCESS, Some m', pos + encoded_length_datetime v)
    \<and> rd m' pos = Some t
    \<and> decode_datetime_type (Some m') buf_len t (pos + 1) v0
      = Some (OB_SUCCESS, pos + encoded_length_datetime v, (v, is_add))"
proof -
  let ?t = "signed_time_tag OB_DATETIME_TYPE v is_add"
  note l = encoded_length_datetime_eq [of v ?t]
  have h: "holds (put m pos (wire_time ?t v)) pos (wire_time ?t v)"
    using assms l by (intro holds_put) simp_all
  then have "rd (put m pos (wire_time ?t v)) pos = Some (?t OR time_mark (safe_int64_abs v))"
    by (simp add: wire_time_def)
  then show ?thesis
    using assms decode_signed_time_wire [OF type_bytes_low(1) assms(1) h, of buf_len v0]
    by (simp add: encode_datetime_type_def decode_datetime_type_def encode_signed_time_eq l)
qed

lemma datetime_roundtrip_witness:
  "\<exists>m' t. encode_datetime_type (Some (replicate 5 0)) 5 0 (- 3) True = Some (OB_SUCCESS, Some m', 5)
    \<and> rd m' 0 = Some t
    \<and> decode_datetime_type (Some m') 5 t 1 (0, False) = Some (OB_SUCCESS, 5, (- 3, True))"
proof -
  have l: "encoded_length_datetime (- 3) = 5"
    by (simp add: encoded_length_datetime_eq [of _ 0] length_wire_time safe_int64_abs_eq time_bytes_def)
  show ?thesis using datetime_roundtrip [of "- 3" 0 5 "replicate 5 0" True "(0, False)"] by (simp add: l)
qed

text \<open>An array of 64-bit integers is read back into an array of the same size.\<close>

lemma array_roundtrip:
  assumes "length vs < 2 ^ 63" and "0 \<le> pos"
    and "pos + encoded_length_array encoded_length_vi64 vs \<le> buf_len" and "buf_len \<le> int (length m)"
    and "length ws = length vs"
  shows "\<exists>m'. encode_array encode_int64 (Some m) buf_len pos vs
      = Some (OB_SUCCESS, Some m', pos + encoded_length_array encoded_length_vi64 vs)
    \<and> decode_array decode_int64 (Some m') buf_len pos ws
      = Some (OB_SUCCESS, pos + encoded_length_array encoded_length_vi64 vs, vs)"
proof -
  have l: "encoded_length_array encoded_length_vi64 vs = int (length (wire_array wire_vi vs))"
    by (rule encoded_length_array_eq) (simp add: encoded_length_vi64_vlen)
  have ok: "list_all (\<lambda>_. True) vs" by (simp add: list_all_iff)
  have h: "holds (put m pos (wire_array wire_vi vs)) pos (wire_array wire_vi vs)"
    using assms l by (intro holds_put) simp_all
  show ?thesis
    using int64.encode_array_fits [OF ok assms(2), of buf_len m] int64.decode_array_wire [OF ok h, of buf_len ws]
      assms l by simp
qed

lemma array_roundtrip_witness:
  "\<exists>m'. encode_array encode_int64 (Some (replicate 4 0)) 4 0 [300, 7] = Some (OB_SUCCESS, Some m', 4)
    \<and> decode_array decode_int64 (Some m') 4 0 [0, 0] = Some (OB_SUCCESS, 4, [300, 7])"
  using array_roundtrip [of "[300, 7]" 0 4 "replicate 4 0" "[0, 0]"]
  by (simp add: encoded_length_array_def encoded_length_vi64_def ob_max_v_def)

text \<open>A C string is read back into a character array that is long enough, with its terminating
  zero.\<close>

lemma chars_roundtrip:
  assumes "0 \<notin> set s" and "length s + 1 < 2 ^ 31" and "0 \<le> pos"
    and "pos + int (vlen (length s + 1) + length s + 1) \<le> buf_len" and "buf_len \<le> int (length m)"
    and "length s + 1 \<le> length dst"
  shows "\<exists>m'. encode_chars (Some m) buf_len pos (s @ 0 # tail)
      = Some (OB_SUCCESS, Some m', pos + int (vlen (length s + 1) + length s + 1))
    \<and> decode_chars (Some m') buf_len pos dst
      = Some (OB_SUCCESS, pos + int (vlen (length s + 1) + length s + 1), s @ 0 # drop (length s + 1) dst)"
proof -
  note l = length_wire_chars [OF assms(2)]
  have h: "holds (put m pos (wire_chars s)) pos (wire_chars s)" using assms l by (intro holds_put) simp_all
  show ?thesis
    using encode_chars_eq [OF assms(1-3), of buf_len m tail] decode_chars_wire [OF assms(2) h, of buf_len dst]
      assms(4-6) l by simp
qed

lemma chars_roundtrip_witness:
  "\<exists>m'. encode_chars (Some (replicate 4 0)) 4 0 [65, 66, 0] = Some (OB_SUCCESS, Some m', 4)
    \<and> decode_chars (Some m') 4 0 [1, 2, 3, 4] = Some (OB_SUCCESS, 4, [65, 66, 0, 4])"
  using chars_roundtrip [of "[65, 66]" 0 4 "replicate 4 0" "[1, 2, 3, 4]" "[]"] by (simp add: vlen.simps)

section \<open>The MySQL protocol\<close>

text \<open>C36. A length-coded integer takes the number of bytes \<open>get_number_store_len\<close> announces, is read
  back by \<open>get_length\<close>, and is refused without a change when that many bytes are not left.\<close>

theorem length_coded_roundtrip:
  assumes "0 \<le> pos" and "len \<le> int (length m)"
  shows "if pos + uint (get_number_store_len n) \<le> len
    then \<exists>m'. store_length (Some m) len pos n = Some (OB_SUCCESS, Some m', pos + uint (get_number_store_len n))
      \<and> get_length (Some m') pos n0 = Some (OB_SUCCESS, pos + uint (get_number_store_len n), n)
    else store_length (Some m) len pos n = Some (OB_SIZE_OVERFLOW, Some m, pos)"
  using assms get_length_wire [OF holds_put, of pos n m n0]
  by (simp add: store_length_eq get_number_store_len_eq)

theorem length_coded_roundtrip_witness:
  "\<exists>m'. store_length (Some [0, 0, 0]) 3 0 1000 = Some (OB_SUCCESS, Some m', 3)
    \<and> get_length (Some m') 0 0 = Some (OB_SUCCESS, 3, 1000)"
  using length_coded_roundtrip [of 0 3 "[0, 0, 0]" 1000 0] by (simp add: get_number_store_len_def)

text \<open>A string stored with its length takes the bytes of the length and its own, and is read back
  as the length and then that many bytes; when there is no room the position does not move.\<close>

lemma length_coded_string:
  assumes "length s < 2 ^ 63" and "0 \<le> pos" and "len \<le> int (length m)"
    and "n = uint (get_number_store_len (of_nat (length s))) + int (length s)"
  shows "if pos + n \<le> len
    then \<exists>m'. store_str_v (Some m) len pos (Some s) (of_nat (length s)) = Some (OB_SUCCESS, Some m', pos + n)
      \<and> lenstr_value (Some m') pos s0 = Some (OB_SUCCESS, pos + n, s)
    else \<exists>b. store_str_v (Some m) len pos (Some s) (of_nat (length s)) = Some (OB_SIZE_OVERFLOW, b, pos)"
proof -
  have n: "n = int (length (wire_lenstr s))" using assms(4) by (simp add: wire_lenstr_def get_number_store_len_eq)
  show ?thesis
  proof (cases "pos + n \<le> len")
    case True
    have "holds (put m pos (wire_lenstr s)) pos (wire_lenstr s)" using assms(2,3) True n by (intro holds_put) simp_all
    from lenstr.dec_wire [OF assms(1) this, of len s0] show ?thesis
      using True assms(2,3) unfolding store_str_v_eq [OF assms(1-3)] n by simp
  next
    case False
    then show ?thesis unfolding store_str_v_eq [OF assms(1-3)] n by simp
  qed
qed

lemma length_coded_string_witness:
  "\<exists>m'. store_str_v (Some [0, 0, 0]) 3 0 (Some [65, 66]) 2 = Some (OB_SUCCESS, Some m', 3)
    \<and> lenstr_value (Some m') 0 [] = Some (OB_SUCCESS, 3, [65, 66])"
proof -
  have "3 = uint (get_number_store_len (of_nat (length [65, 66 :: u8]))) + int (length [65, 66 :: u8])"
    by (simp add: get_number_store_len_def)
  from length_coded_string [OF _ _ _ this, of 0 3 "[0, 0, 0]" "[]"] show ?thesis by simp
qed

text \<open>Setting the null bit of a field in the bitmap of a binary row sets bit \<open>field + 2\<close> and
  no other.\<close>

lemma null_bitmap_bit:
  assumes "i < 2 ^ 31" and "(i + 2) div 8 < length bitmap"
  shows "\<exists>bitmap'. update_null_bitmap bitmap (int i) = Some bitmap' \<and> length bitmap' = length bitmap
    \<and> (\<forall>j. j div 8 < length bitmap \<longrightarrow> null_bit bitmap' j = (j = i + 2 \<or> null_bit bitmap j))"
proof -
  obtain bitmap' where u: "update_null_bitmap bitmap (int i) = Some bitmap'" "length bitmap' = length bitmap"
    using update_null_bitmap_eq [OF assms] by simp
  then show ?thesis using null_bit_update [OF assms u(1)] by blast
qed

lemma null_bitmap_bit_witness:
  "\<exists>bitmap'. update_null_bitmap [0, 3] 7 = Some bitmap' \<and> length bitmap' = 2 \<and> null_bit bitmap' 9"
  using null_bitmap_bit [of 7 "[0, 3]"] by force

text \<open>An integer cell of the text protocol is its length in one byte followed by the decimal
  digits, whose value is the integer, when no zeros have to be filled in.\<close>

lemma int_cell_text:
  assumes "0 \<le> pos" and "pos + 29 \<le> len" and "len \<le> int (length m)" and "0 \<le> sint v"
  shows "\<exists>m' ds. int_cell_str (Some m) len pos v u TEXT False zflength
      = Some (OB_SUCCESS, Some m', pos + 1 + int (length ds))
    \<and> holds m' pos (of_nat (length ds) # ds) \<and> int (dec_value ds) = sint v"
proof -
  let ?ds = "print_int64 u v"
  have "int (dec_value ?ds) = sint v"
    using assms(4) sint_nonneg [of v] by (simp add: print_int64_def dec_value_digits)
  moreover have "holds (put m pos (of_nat (length ?ds) # ?ds)) pos (of_nat (length ?ds) # ?ds)"
    using assms length_print_int64(1) [of u v] by (intro holds_put) simp_all
  moreover note int_cell_str_text [OF assms(1-3), of False zflength u v]
  ultimately show ?thesis by (intro exI [of _ "put m pos (of_nat (length ?ds) # ?ds)"] exI [of _ ?ds]) simp
qed

lemma int_cell_text_witness:
  "\<exists>m' ds. int_cell_str (Some (replicate 30 0)) 30 0 42 False TEXT False 0
      = Some (OB_SUCCESS, Some m', 1 + int (length ds)) \<and> int (dec_value ds) = 42"
  using int_cell_text [of 0 30 "replicate 30 0" 42 False 0] by auto

text \<open>C37. With zero filling the cell hands \<open>prepend_zeros\<close> the filled length in place of the number
  of digits, so that it moves bytes from behind the digits to behind the cell: when those are outside
  the buffer, although the cell itself fits, the write is out of bounds.\<close>

theorem zerofill_overrun:
  assumes "0 \<le> pos" and "pos + 29 \<le> len" and "len \<le> int (length m)"
    and "length (print_int64 u v) < n" and "n < 251" and "pos + int n + 1 \<le> len"
    and "int (length m) < pos + 1 + int n + int (n - length (print_int64 u v))"
  shows "int_cell_str (Some m) len pos v u TEXT True (int n) = None"
  using assms by (rule int_cell_str_overrun)

theorem zerofill_overrun_witness:
  "int_cell_str (Some (replicate 40 0)) 40 0 7 False TEXT True 30 = None"
  using zerofill_overrun [of 0 40 "replicate 40 0" False 7 30]
  by (simp add: print_int64_def dec_digits.simps)

section \<open>Strings\<close>

text \<open>On well-formed strings \<open>operator<\<close> is the lexicographic order of the contents, read as
  unsigned bytes, and \<open>operator==\<close> is their equality, also for strings that alias.\<close>

lemma string_order:
  assumes "obs_wf h s" and "obs_wf h t" and "content h s = Some a" and "content h t = Some b"
  shows "obs_less h s t = Some (a < b) \<and> obs_equal h s t = Some (a = b)"
  using obs_less_lex [OF assms] by simp

lemma string_order_witness:
  "obs_less [0 \<mapsto> [65, 200, 66]] \<lparr>buffer_size = 0, data_length = 2, sptr = Some (0, 0)\<rparr>
      \<lparr>buffer_size = 0, data_length = 2, sptr = Some (0, 1)\<rparr> = Some ([65, 200 :: u8] < [200, 66])"
  using string_order [of "[0 \<mapsto> [65, 200, 66]]" "\<lparr>buffer_size = 0, data_length = 2, sptr = Some (0, 0)\<rparr>"
      "\<lparr>buffer_size = 0, data_length = 2, sptr = Some (0, 1)\<rparr>" "[65, 200]" "[200, 66]"]
  by (simp add: obs_wf_def in_object_def content_def load_bytes_def rd_bytes_def)

text \<open>\<open>find\<close> returns the first position at which the other string occurs, or \<open>-1\<close> when there is
  none.\<close>

lemma string_find:
  assumes "obs_wf h s" and "obs_wf h t" and "content h s = Some a" and "content h t = Some b"
  shows "\<exists>r. obs_find h s t = Some r
    \<and> (r = - 1 \<and> (\<forall>i. \<not> occurs_at b a i)
       \<or> (\<exists>k. r = int k \<and> occurs_at b a k \<and> (\<forall>i < k. \<not> occurs_at b a i)))"
  using assms by (rule obs_find_first)

lemma string_find_witness:
  "\<exists>r. obs_find [0 \<mapsto> [65, 66, 67]] \<lparr>buffer_size = 0, data_length = 3, sptr = Some (0, 0)\<rparr>
      \<lparr>buffer_size = 0, data_length = 1, sptr = Some (0, 1)\<rparr> = Some r"
proof -
  let ?h = "[0 \<mapsto> [65, 66, 67 :: u8]]"
  let ?s = "\<lparr>buffer_size = 0, data_length = 3, sptr = Some (0, 0)\<rparr>"
  let ?t = "\<lparr>buffer_size = 0, data_length = 1, sptr = Some (0, 1)\<rparr>"
  have "obs_wf ?h ?s" "obs_wf ?h ?t" "content ?h ?s = Some [65, 66, 67]" "content ?h ?t = Some [66]"
    by (simp_all add: obs_wf_def in_object_def content_def load_bytes_def rd_bytes_def)
  from string_find [OF this] show ?thesis by blast
qed

text \<open>\<open>trim\<close> never leaves the string and returns its content without the spaces at both ends.\<close>

lemma string_trim:
  assumes "obs_wf h s" and "content h s = Some bs"
  shows "\<exists>t. obs_trim h s = Some t \<and> obs_wf h t \<and> content h t = Some (strip_spaces bs)"
  using assms by (rule obs_trim_strips)

lemma string_trim_witness:
  "\<exists>t. obs_trim [0 \<mapsto> [32, 65, 32, 66, 32]] \<lparr>buffer_size = 0, data_length = 5, sptr = Some (0, 0)\<rparr> = Some t
     \<and> content [0 \<mapsto> [32, 65, 32, 66, 32]] t = Some [65, 32, 66]"
proof -
  let ?h = "[0 \<mapsto> [32, 65, 32, 66, 32 :: u8]]"
  let ?s = "\<lparr>buffer_size = 0, data_length = 5, sptr = Some (0, 0)\<rparr>"
  have "obs_wf ?h ?s" "content ?h ?s = Some [32, 65, 32, 66, 32]"
    by (simp_all add: obs_wf_def in_object_def content_def load_bytes_def rd_bytes_def)
  from string_trim [OF this] show ?thesis by (auto simp: strip_spaces_def)
qed

text \<open>C38. \<open>write\<close> appends: within the capacity it copies readable bytes behind the content and keeps the
  string well formed, if the bytes do not overlap the room that they are copied to; if they do, the call is
  undefined.\<close>

theorem string_write:
  assumes "obs_wf h s" and "content h s = Some bs" and "0 < len"
    and "load_bytes h bytes len = Some cs" and "bytes \<noteq> None"
    and "data_length s + len \<le> buffer_size s" and "data_length s + len < 2 ^ 31"
  shows "if overlapping bytes (ptr_add (sptr s) (data_length s)) len then obs_write h s bytes len = None
    else \<exists>s' h'. obs_write h s bytes len = Some (len, s', h') \<and> obs_wf h' s'
      \<and> content h' s' = Some (bs @ cs) \<and> buffer_size s' = buffer_size s \<and> sptr s' = sptr s"
  using obs_write_appends [OF assms] obs_write_overlap [OF assms(3,5,6)] by simp

text \<open>Bytes of another object are appended, and so is the content of the string itself; bytes that reach into the
  spare room are not allowed.\<close>

theorem string_write_witness:
  "(\<exists>s' h'. obs_write [0 \<mapsto> [65, 0, 0], 1 \<mapsto> [66, 67]] \<lparr>buffer_size = 3, data_length = 1, sptr = Some (0, 0)\<rparr>
      (Some (1, 0)) 2 = Some (2, s', h') \<and> content h' s' = Some [65, 66, 67])
   \<and> (\<exists>s' h'. obs_write [0 \<mapsto> [65, 0, 0], 1 \<mapsto> [66, 67]] \<lparr>buffer_size = 3, data_length = 1, sptr = Some (0, 0)\<rparr>
      (Some (0, 0)) 1 = Some (1, s', h') \<and> content h' s' = Some [65, 65])
   \<and> obs_write [0 \<mapsto> [65, 0, 0], 1 \<mapsto> [66, 67]] \<lparr>buffer_size = 3, data_length = 1, sptr = Some (0, 0)\<rparr> (Some (0, 0)) 2 = None"
proof -
  let ?h = "[0 \<mapsto> [65, 0, 0], 1 \<mapsto> [66, 67 :: u8]]"
  let ?s = "\<lparr>buffer_size = 3, data_length = 1, sptr = Some (0, 0)\<rparr>"
  have w: "obs_wf ?h ?s" "content ?h ?s = Some [65]"
    and l: "load_bytes ?h (Some (1, 0)) 2 = Some [66, 67]" "load_bytes ?h (Some (0, 0)) 1 = Some [65]" "load_bytes ?h (Some (0, 0)) 2 = Some [65, 0]"
    by (simp_all add: obs_wf_def in_object_def content_def load_bytes_def rd_bytes_def)
  show ?thesis
    using string_write [OF w _ l(1)] string_write [OF w _ l(2)] string_write [OF w _ l(3)] by (simp add: ptr_add_def) fast
qed

text \<open>\<open>operator++\<close> moves the pointer and keeps the capacity: a full write afterwards, which
  \<open>write\<close> accepts, ends one byte outside the buffer.\<close>

lemma string_incr_write_overrun:
  assumes "h o' = Some m" and "sptr s = Some (o', off)" and "0 \<le> off" and "0 < data_length s"
    and "data_length s \<le> buffer_size s" and "off + buffer_size s = int (length m)"
    and "load_bytes h bytes len = Some cs" and "bytes \<noteq> None"
    and "len = buffer_size s - data_length s + 1" and "buffer_size s < 2 ^ 31"
  shows "obs_wf h s \<and> obs_write h (obs_incr s) bytes len = None"
  using obs_incr_write_overrun [OF assms] by simp

lemma string_incr_write_overrun_witness:
  "obs_write [0 \<mapsto> [65, 0], 1 \<mapsto> [66, 67]] (obs_incr \<lparr>buffer_size = 2, data_length = 1, sptr = Some (0, 0)\<rparr>)
      (Some (1, 0)) 2 = None"
  using string_incr_write_overrun [of "[0 \<mapsto> [65, 0], 1 \<mapsto> [66, 67]]" 0 "[65, 0]"
      "\<lparr>buffer_size = 2, data_length = 1, sptr = Some (0, 0)\<rparr>" 0 "Some (1, 0)" 2 "[66, 67]"]
  by (simp add: load_bytes_def rd_bytes_def)

text \<open>Splitting at the first occurrence of a character gives the parts before and behind it.\<close>

lemma string_split:
  assumes "obs_wf h s" and "buffer_size s = 0" and "content h s = Some (xs @ c # ys)" and "c \<notin> set xs"
  shows "\<exists>l r. obs_split_on_char h s c = Some (l, r) \<and> obs_wf h l \<and> obs_wf h r
    \<and> content h l = Some xs \<and> content h r = Some ys"
  using obs_split_on_char_parts [OF assms(1,3,4)] assms(2) by auto

lemma string_split_witness:
  "\<exists>l r. obs_split_on_char [0 \<mapsto> [65, 46, 66]] \<lparr>buffer_size = 0, data_length = 3, sptr = Some (0, 0)\<rparr> 46
      = Some (l, r) \<and> content [0 \<mapsto> [65, 46, 66]] r = Some [66]"
proof -
  let ?h = "[0 \<mapsto> [65, 46, 66 :: u8]]"
  let ?s = "\<lparr>buffer_size = 0, data_length = 3, sptr = Some (0, 0)\<rparr>"
  have "obs_wf ?h ?s" "buffer_size ?s = 0" "content ?h ?s = Some ([65] @ 46 # [66])"
    by (simp_all add: obs_wf_def in_object_def content_def load_bytes_def rd_bytes_def)
  from string_split [OF this] show ?thesis by auto
qed

text \<open>A serialised string is deserialised, into a string without a buffer, as a view of the input
  with the same content.\<close>

lemma string_serialize_roundtrip:
  assumes "obs_wf h s" and "content h s = Some bs" and "length bs < 2 ^ 31 - 6" and "0 \<le> pos"
    and "pos + obs_serialize_size s \<le> buf_len" and "buf_len \<le> int (length m)" and "buffer_size t0 = 0"
  shows "\<exists>m' p t. obs_serialize h s (Some m) buf_len pos = Some (OB_SUCCESS, Some m', p)
    \<and> obs_deserialize (h(b \<mapsto> m')) t0 (Some b) buf_len pos = Some (OB_SUCCESS, p, t, h(b \<mapsto> m'))
    \<and> obs_wf (h(b \<mapsto> m')) t \<and> content (h(b \<mapsto> m')) t = Some bs"
proof -
  have l: "obs_serialize_size s = int (length (wire_vstr bs))"
    using assms(3) content_length [OF assms(1,2)] by (simp add: obs_serialize_size_def encoded_length_vstr_eq)
  let ?m = "put m pos (wire_vstr bs)"
  have "holds ?m pos (wire_vstr bs)" using assms l by (intro holds_put) simp_all
  then show ?thesis
    using obs_serialize_eq [OF assms(1-4,6)] assms l
      obs_deserialize_wire [of "h(b \<mapsto> ?m)" b ?m pos bs buf_len t0] by simp
qed

lemma string_serialize_roundtrip_witness:
  "\<exists>m' p t. obs_serialize [0 \<mapsto> [65, 66]] \<lparr>buffer_size = 0, data_length = 2, sptr = Some (0, 0)\<rparr>
      (Some [0, 0, 0, 0]) 4 0 = Some (OB_SUCCESS, Some m', p)
    \<and> obs_deserialize [0 \<mapsto> [65, 66], 1 \<mapsto> m'] obstring_null (Some 1) 4 0 = Some (OB_SUCCESS, p, t, [0 \<mapsto> [65, 66], 1 \<mapsto> m'])
    \<and> content [0 \<mapsto> [65, 66], 1 \<mapsto> m'] t = Some [65, 66]"
proof -
  let ?h = "[0 \<mapsto> [65, 66 :: u8]]"
  let ?s = "\<lparr>buffer_size = 0, data_length = 2, sptr = Some (0, 0)\<rparr>"
  have size: "obs_serialize_size ?s = 4"
    by (simp add: obs_serialize_size_def encoded_length_vstr_def encoded_length_vi64_def ob_max_v_def)
  have "obs_wf ?h ?s" "content ?h ?s = Some [65, 66]"
    by (simp_all add: obs_wf_def in_object_def content_def load_bytes_def rd_bytes_def)
  from string_serialize_roundtrip [OF this, of 0 4 "[0, 0, 0, 0]" obstring_null 1] size show ?thesis
    by (auto simp: obstring_null_def)
qed

section \<open>Bit sets\<close>

text \<open>C39. Adding, deleting and testing a member are the operations on the set of members: \<open>add_member\<close>
  enlarges the word array as needed, and fails, with the same members, only when the array cannot grow
  that far.\<close>

theorem bitset_members:
  assumes "0 \<le> i"
  shows "(if i < 32 * int (max cap (length ws))
      then fst (add_member cap ws i) = OB_SUCCESS \<and> members (snd (add_member cap ws i)) = insert i (members ws)
      else fst (add_member cap ws i) = OB_ALLOCATE_MEMORY_FAILED \<and> members (snd (add_member cap ws i)) = members ws)
    \<and> fst (del_member ws i) = OB_SUCCESS \<and> members (snd (del_member ws i)) = members ws - {i}
    \<and> has_member ws j = (j \<in> members ws)"
proof -
  have k: "i < 32 * int (max cap (length ws)) \<longleftrightarrow> nat (i div 32) < max cap (length ws)"
    using assms by (simp add: nat_less_iff div_32_nonneg) linarith
  show ?thesis
  proof (cases "nat (i div 32) < max cap (length ws)")
    case True
    from add_member_ok [OF assms True] del_member_eq [OF assms, of ws] k True show ?thesis
      by (metis fst_conv snd_conv has_member_iff)
  next
    case False
    then have "max cap (length ws) \<le> nat (i div 32)" by (rule leI)
    from add_member_no_memory [OF assms this] del_member_eq [OF assms, of ws] k False show ?thesis
      by (metis fst_conv snd_conv has_member_iff)
  qed
qed

theorem bitset_members_witness:
  "members (snd (add_member 4 [5] 70)) = insert 70 (members [5]) \<and> members (snd (del_member [5] 70)) = members [5] - {70}"
  using bitset_members [of 70 4 "[5]"] by simp

text \<open>The word-parallel bit count adds up to the number of members, and \<open>to_array\<close> lists them in
  ascending order when the array can hold them.\<close>

lemma bitset_counting:
  assumes "card (members ws) \<le> cap"
  shows "num_members ws = int (card (members ws))
    \<and> to_array cap ws = (OB_SUCCESS, sorted_list_of_set (members ws))"
  using num_members_eq [of ws] to_array_eq [OF assms] by simp

lemma bitset_counting_witness:
  "num_members [5] = 2 \<and> to_array 3 [5] = (OB_SUCCESS, [0, 2])"
proof -
  have "filter (has_member [5]) [0..31] = [0, 2]" by code_simp
  then have e: "members [5] = {0, 2}" using filter_members [of "[5]"] by simp
  show ?thesis using bitset_counting [of "[5]" 3] by (simp add: e)
qed

text \<open>\<open>do_mask\<close> keeps exactly the members between its two bounds.\<close>

lemma bitset_mask:
  assumes "0 \<le> b" and "b < e" and "e < bit_count ws"
  shows "\<exists>ws'. do_mask ws b e = (OB_SUCCESS, ws') \<and> members ws' = {i \<in> members ws. b \<le> i \<and> i \<le> e}"
  using do_mask_eq [OF assms] by (metis prod.collapse)

lemma bitset_mask_witness:
  "\<exists>ws'. do_mask [0xff, 1] 3 40 = (OB_SUCCESS, ws') \<and> members ws' = {i \<in> members [0xff, 1]. 3 \<le> i \<and> i \<le> 40}"
  using bitset_mask [of 3 40 "[0xff, 1]"] by (simp add: bit_count_def)

text \<open>The set relations look at the words as well as the members: \<open>operator==\<close> and \<open>overlap\<close>
  are the relations of the sets, but \<open>is_superset\<close> also asks for as many words.\<close>

lemma bitset_relations:
  shows "bitset_eq ws other = (members ws = members other)
    \<and> overlap ws other = (members ws \<inter> members other \<noteq> {})
    \<and> is_superset ws other = (length other \<le> length ws \<and> members other \<subseteq> members ws)
    \<and> get_first_peculiar_bit ws other
        = (if members ws \<subseteq> members other then - 1 else Min (members ws - members other))"
  by (simp add: bitset_eq_iff overlap_iff is_superset_iff get_first_peculiar_bit_eq)

text \<open>A bit set is deserialised with the words it was serialised with.\<close>

lemma bitset_roundtrip:
  assumes "length ws \<le> cap" and "length ws < 2 ^ 63" and "0 \<le> pos"
    and "pos + bitset_get_serialize_size ws \<le> buf_len" and "buf_len \<le> int (length m)"
  shows "\<exists>m' p. bitset_serialize (Some m) buf_len pos ws = Some (OB_SUCCESS, Some m', p)
    \<and> bitset_deserialize cap (Some m') buf_len pos = Some (OB_SUCCESS, p, ws)"
  using bitset.roundtrip [of ws cap pos buf_len m] assms by (simp add: bitset_size_eq)

lemma bitset_roundtrip_witness:
  "\<exists>m' p. bitset_serialize (Some (replicate 4 0)) 4 0 [300, 7] = Some (OB_SUCCESS, Some m', p)
    \<and> bitset_deserialize 2 (Some m') 4 0 = Some (OB_SUCCESS, p, [300, 7])"
proof -
  have "bitset_get_serialize_size [300, 7] = 4"
    by (simp add: bitset_size_eq wire_array_def vlen.simps)
  then show ?thesis using bitset_roundtrip [of "[300, 7]" 2 0 4 "replicate 4 0"] by simp
qed

section \<open>Intrusive lists\<close>

text \<open>C40. The linked queue is a sequence: \<open>enqueue\<close> puts an unlinked element at its end,
  \<open>dequeue\<close> takes the first one and unlinks it, and \<open>remove\<close> takes any one, in each case without
  touching the links of an element outside the queue.\<close>

theorem queue_refines_list:
  assumes "q_rep s q xs"
  shows "(\<forall>e s' q'. e \<notin> set xs \<longrightarrow> detached s e \<longrightarrow> q_enqueue s q e = (s', q') \<longrightarrow>
        q_rep s' q' (xs @ [e]) \<and> (\<forall>x. x \<notin> set xs \<longrightarrow> x \<noteq> e \<longrightarrow> same_links s s' x))
    \<and> (case xs of
          [] \<Rightarrow> q_dequeue s q = (s, q, None)
        | e # ys \<Rightarrow> \<exists>s' q'. q_dequeue s q = (s', q', Some e) \<and> q_rep s' q' ys \<and> detached s' e
            \<and> (\<forall>x. x \<notin> set xs \<longrightarrow> same_links s s' x))
    \<and> (\<forall>us e ws s' q'. xs = us @ e # ws \<longrightarrow> q_remove s q e = (s', q') \<longrightarrow>
        q_rep s' q' (us @ ws) \<and> detached s' e \<and> (\<forall>x. x \<notin> set xs \<longrightarrow> same_links s s' x))"
proof (intro conjI)
  show "case xs of
          [] \<Rightarrow> q_dequeue s q = (s, q, None)
        | e # ys \<Rightarrow> \<exists>s' q'. q_dequeue s q = (s', q', Some e) \<and> q_rep s' q' ys \<and> detached s' e
            \<and> (\<forall>x. x \<notin> set xs \<longrightarrow> same_links s s' x)"
  proof (cases xs)
    case Nil
    with assms show ?thesis by (simp add: q_dequeue_empty)
  next
    case (Cons e ys)
    obtain s' q' r where d: "q_dequeue s q = (s', q', r)" by (cases "q_dequeue s q") auto
    from q_dequeue_rep [OF assms [unfolded Cons] d] d show ?thesis by (simp add: Cons)
  qed
next
  show "\<forall>us e ws s' q'. xs = us @ e # ws \<longrightarrow> q_remove s q e = (s', q') \<longrightarrow>
        q_rep s' q' (us @ ws) \<and> detached s' e \<and> (\<forall>x. x \<notin> set xs \<longrightarrow> same_links s s' x)"
    using assms q_remove_rep by metis
qed (use q_enqueue_rep [OF assms] in blast)

theorem queue_refines_list_witness:
  "\<exists>s' q'. q_enqueue \<lparr>next_link = \<lambda>_. None, prev_link = \<lambda>_. None\<rparr> q_reset 5 = (s', q') \<and> q_rep s' q' [5]"
proof -
  let ?s = "\<lparr>next_link = \<lambda>_. None, prev_link = \<lambda>_. None\<rparr>"
  have "q_rep ?s q_reset []" by (simp add: q_rep_Nil)
  moreover have "detached ?s 5" by (simp add: detached_def)
  ultimately show ?thesis using queue_refines_list [of ?s q_reset "[]"] by (cases "q_enqueue ?s q_reset 5") auto
qed

text \<open>Appending a chain of nodes walks to its end: the walk ends, and the result is that of the
  append that is given the end.\<close>

lemma append_dll_equiv:
  assumes "q_rep s this xs" and "q_rep s q ys" and "set xs \<inter> set ys = {}"
  shows "\<exists>s' this'. q_append_dll s this (qhead q) = Some (s', this') \<and> q_append s this q = Some (s', this')
    \<and> q_rep s' this' (xs @ ys)"
  using q_append_rep [OF assms] q_append_dll_eq [OF assms(1,2)] by auto

lemma append_dll_equiv_witness:
  "\<exists>s' this'. q_append_dll \<lparr>next_link = \<lambda>_. None, prev_link = \<lambda>_. None\<rparr> q_reset (Some 7) = Some (s', this')
    \<and> q_rep s' this' [7]"
proof -
  let ?s = "\<lparr>next_link = \<lambda>_. None, prev_link = \<lambda>_. None\<rparr>" and ?q = "\<lparr>qhead = Some 7, qtail = Some (7 :: nat)\<rparr>"
  have "q_rep ?s q_reset []" "q_rep ?s ?q [7]"
    by (simp_all add: q_rep_def q_reset_def first_of_def last_of_def)
  from append_dll_equiv [OF this] show ?thesis by auto
qed

end
